(* ===== verification/Prelude.thy ===== *)
theory Prelude
  imports Main "HOL-Library.Word" "HOL-Library.Monad_Syntax"
begin

text \<open>
  Shared vocabulary of the development: the machine types of the C++ code, checked
  access to byte buffers and the collections of facts that the component theories use.

  A read or write through a pointer is modelled by \<open>rd\<close>, \<open>wr\<close>, \<open>rd_range\<close> and
  \<open>wr_range\<close>, which return \<open>None\<close> when the access leaves the object the pointer
  points into (undefined behaviour in C++).  A function whose model never is \<open>None\<close>
  therefore never leaves its buffers, and that is proved where it holds.
\<close>

unbundle bit_operations_syntax

type_synonym byte = "8 word"
type_synonym u16 = "16 word"
type_synonym u32 = "32 word"
type_synonym u64 = "64 word"

named_theorems mem_in \<open>checked buffer accesses at an index that is in range\<close>
named_theorems mem_simps \<open>checked buffer accesses into a buffer given by its parts\<close>
named_theorems length_facts \<open>writes keep the length of the buffer\<close>

section \<open>Checked buffer access\<close>

definition rd :: "'a list \<Rightarrow> nat \<Rightarrow> 'a option" where
  "rd p i = (if i < length p then Some (p ! i) else None)"

definition wr :: "'a list \<Rightarrow> nat \<Rightarrow> 'a \<Rightarrow> 'a list option" where
  "wr p i v = (if i < length p then Some (p[i := v]) else None)"

definition rd_range :: "'a list \<Rightarrow> nat \<Rightarrow> nat \<Rightarrow> 'a list option" where
  "rd_range p i n = (if i + n \<le> length p then Some (take n (drop i p)) else None)"

definition wr_range :: "'a list \<Rightarrow> nat \<Rightarrow> 'a list \<Rightarrow> 'a list option" where
  "wr_range p i ys =
     (if i + length ys \<le> length p then Some (take i p @ ys @ drop (i + length ys) p) else None)"

text \<open>\<open>std::vector::resize\<close>: truncates, or appends value-initialised elements.\<close>

definition resize :: "nat \<Rightarrow> byte list \<Rightarrow> byte list" where
  "resize n p = take n p @ replicate (n - length p) 0"

lemma rd_in [mem_in]: "i < length p \<Longrightarrow> rd p i = Some (p ! i)"
  by (simp add: rd_def)

lemma rd_eq_None_iff: "rd p i = None \<longleftrightarrow> length p \<le> i"
  by (simp add: rd_def)

lemma rd_Some_iff: "rd p i = Some v \<longleftrightarrow> i < length p \<and> p ! i = v"
  by (auto simp: rd_def)

lemma wr_in [mem_in]: "i < length p \<Longrightarrow> wr p i v = Some (p[i := v])"
  by (simp add: wr_def)

lemma wr_Some_iff: "wr p i v = Some q \<longleftrightarrow> i < length p \<and> q = p[i := v]"
  by (auto simp: wr_def)

lemma rd_range_in [mem_in]: "i + n \<le> length p \<Longrightarrow> rd_range p i n = Some (take n (drop i p))"
  by (simp add: rd_range_def)

lemma rd_range_Some_iff: "rd_range p i n = Some q \<longleftrightarrow> i + n \<le> length p \<and> q = take n (drop i p)"
  by (auto simp: rd_range_def)

lemma wr_range_in [mem_in]:
  "i + length ys \<le> length p \<Longrightarrow> wr_range p i ys = Some (take i p @ ys @ drop (i + length ys) p)"
  by (simp add: wr_range_def)

lemma wr_range_Some_iff:
  "wr_range p i ys = Some q \<longleftrightarrow>
     i + length ys \<le> length p \<and> q = take i p @ ys @ drop (i + length ys) p"
  by (auto simp: wr_range_def)

lemma wr_length [length_facts]: "wr p i v = Some q \<Longrightarrow> length q = length p"
  by (auto simp: wr_Some_iff)

lemma wr_range_length [length_facts]: "wr_range p i ys = Some q \<Longrightarrow> length q = length p"
  by (auto simp: wr_range_Some_iff)

lemma rd_range_length: "rd_range p i n = Some q \<Longrightarrow> length q = n"
  by (auto simp: rd_range_Some_iff)

lemma rd_range_all [simp]: "rd_range p 0 (length p) = Some p"
  by (simp add: rd_range_def)

lemma rd_wr_range:
  "wr_range p i ys = Some q \<Longrightarrow> rd_range q i (length ys) = Some ys"
  by (auto simp: wr_range_Some_iff rd_range_def)

lemma rd_append [mem_simps]: "rd (p @ q) (length p + i) = rd q i"
  by (simp add: rd_def)

lemma rd_append_0 [mem_simps]: "rd (p @ x # q) (length p) = Some x"
  by (simp add: rd_def)

lemma rd_Cons [mem_simps]: "rd (x # q) 0 = Some x" "rd (x # q) (Suc i) = rd q i"
  by (simp_all add: rd_def)

lemma wr_append [mem_simps]: "wr (p @ q) (length p + i) v = map_option ((@) p) (wr q i v)"
  by (simp add: wr_def list_update_append)

lemma wr_append_0 [mem_simps]: "wr (p @ x # q) (length p) v = Some (p @ v # q)"
  by (simp add: wr_def)

lemma wr_Cons [mem_simps]:
  "wr (x # q) 0 v = Some (v # q)" "wr (x # q) (Suc i) v = map_option (Cons x) (wr q i v)"
  by (simp_all add: wr_def)

lemma rd_append_Suc [mem_simps]: "rd (p @ q) (Suc (length p)) = rd q (Suc 0)"
  using rd_append [of p q "Suc 0"] by simp

lemma wr_append_Suc [mem_simps]: "wr (p @ q) (Suc (length p)) v = map_option ((@) p) (wr q (Suc 0) v)"
  using wr_append [of p q "Suc 0" v] by simp

lemma rd_append_Suc2 [mem_simps]: "rd (p @ q) (Suc (Suc (length p))) = rd q (Suc (Suc 0))"
  using rd_append [of p q "Suc (Suc 0)"] by simp

lemma wr_append_Suc2 [mem_simps]:
  "wr (p @ q) (Suc (Suc (length p))) v = map_option ((@) p) (wr q (Suc (Suc 0)) v)"
  using wr_append [of p q "Suc (Suc 0)" v] by simp

lemma rd_Cons_numeral [mem_simps]: "rd (x # q) (numeral n) = rd q (pred_numeral n)"
  by (simp add: rd_def numeral_eq_Suc)

lemma wr_Cons_numeral [mem_simps]:
  "wr (x # q) (numeral n) v = map_option (Cons x) (wr q (pred_numeral n) v)"
  by (simp add: wr_def numeral_eq_Suc)

lemma rd_range_append [mem_simps]:
  "rd_range (p @ q) (length p + i) n = rd_range q i n"
  "rd_range (p @ q) (length p) n = rd_range q 0 n"
  by (simp_all add: rd_range_def)

lemma wr_range_append [mem_simps]:
  "wr_range (p @ q) (length p + i) ys = map_option ((@) p) (wr_range q i ys)"
  "wr_range (p @ q) (length p) ys = map_option ((@) p) (wr_range q 0 ys)"
  by (simp_all add: wr_range_def)

lemma rd_range_prefix: "i + n \<le> length p \<Longrightarrow> rd_range (p @ q) i n = rd_range p i n"
  by (simp add: rd_range_def)

lemma wr_range_prefix:
  "i + length ys \<le> length p \<Longrightarrow> wr_range (p @ q) i ys = map_option (\<lambda>p. p @ q) (wr_range p i ys)"
  by (simp add: wr_range_def)

lemma resize_grow: "length p \<le> n \<Longrightarrow> resize n p = p @ replicate (n - length p) 0"
  by (simp add: resize_def)

lemma length_resize [simp]: "length (resize n p) = n"
  by (simp add: resize_def)

lemma resize_nth_old: "i < length p \<Longrightarrow> i < n \<Longrightarrow> resize n p ! i = p ! i"
  by (simp add: resize_def nth_append)

lemma take_resize: "m \<le> length p \<Longrightarrow> m \<le> n \<Longrightarrow> take m (resize n p) = take m p"
  by (simp add: resize_def min_def)

section \<open>Padding to a multiple of four\<close>

text \<open>The expression \<open>(n + 3) & ~3\<close> of the packet code.\<close>

definition round4 :: "nat \<Rightarrow> nat" where
  "round4 n = 4 * ((n + 3) div 4)"

lemma round4_ge: "n \<le> round4 n"
  unfolding round4_def by presburger

lemma round4_le: "round4 n \<le> n + 3"
  unfolding round4_def by presburger

lemma round4_mod [simp]: "round4 n mod 4 = 0"
  by (simp add: round4_def)

lemma round4_pos: "0 < n \<Longrightarrow> 0 < round4 n"
  using round4_ge [of n] by linarith

lemma round4_id: "n mod 4 = 0 \<Longrightarrow> round4 n = n"
  unfolding round4_def by presburger

text \<open>The same expression in the width of the mask: \<open>(n + 3) & 0x0fffc\<close>.\<close>

definition align4 :: "nat \<Rightarrow> nat" where
  "align4 n = round4 n mod 65536"

lemma align4_eq: "n mod 4 = 0 \<Longrightarrow> n < 65536 \<Longrightarrow> align4 n = n"
  by (simp add: align4_def round4_id)

lemma align4_round4: "n \<le> 65532 \<Longrightarrow> align4 n = round4 n"
  using round4_le [of n] by (simp add: align4_def)

section \<open>Lists\<close>

lemma drop_eq_Cons: "i < length p \<Longrightarrow> drop i p = p ! i # drop (Suc i) p"
  by (simp add: Cons_nth_drop_Suc)

lemma bind_Some_iff: "Option.bind m f = Some y \<longleftrightarrow> (\<exists>x. m = Some x \<and> f x = Some y)"
  by (cases m) auto

lemma bind_not_None_iff: "Option.bind m f \<noteq> None \<longleftrightarrow> (\<exists>x. m = Some x \<and> f x \<noteq> None)"
  by (cases m) auto

section \<open>Counting\<close>

definition count_if :: "('a \<Rightarrow> bool) \<Rightarrow> 'a list \<Rightarrow> int" where
  "count_if P xs = int (length (filter P xs))"

lemma count_if_append [simp]: "count_if P (xs @ ys) = count_if P xs + count_if P ys"
  by (simp add: count_if_def)

lemma count_if_simps [simp]: "count_if P [] = 0" "count_if P (x # xs) = (if P x then 1 else 0) + count_if P xs"
  by (simp_all add: count_if_def)

lemma count_if_update:
  "k < length xs \<Longrightarrow> count_if P (xs[k := x]) = count_if P xs - (if P (xs ! k) then 1 else 0) + (if P x then 1 else 0)"
  by (induction xs arbitrary: k) (auto split: nat.split)

lemma count_if_replicate [simp]: "count_if P (replicate n x) = (if P x then int n else 0)"
  by (simp add: count_if_def)

lemma count_if_pos: "k < length xs \<Longrightarrow> P (xs ! k) \<Longrightarrow> 0 < count_if P xs"
  using nth_mem [of k xs] by (auto simp: count_if_def filter_empty_conv)

lemma count_if_zero: "count_if P xs = 0 \<longleftrightarrow> (\<forall>x \<in> set xs. \<not> P x)"
  by (simp add: count_if_def filter_empty_conv)

end
