(* ===== verification/Text.thy ===== *)
theory Text
  imports Prelude "HOL-Library.Char_ord" "HOL-Library.List_Lexorder"
begin

text \<open>
  Characters.  A C++ \<open>char\<close> is one byte: \<open>chr\<close> is its value as an \<open>unsigned char\<close>,
  \<open>schar\<close> its value as the (signed) \<open>char\<close> of the platform, \<open>char_of_int\<close> the
  truncation of an \<open>int\<close> on assignment to a \<open>char\<close>.  \<open>std::string\<close> is \<open>string\<close> where the
  code treats it as text and \<open>byte list\<close> where it treats it as raw bytes; \<open><\<close> on
  \<open>string\<close> is the byte-wise lexicographic order of \<open>std::string\<close>.
\<close>

abbreviation chr :: "char \<Rightarrow> byte" where
  "chr c \<equiv> of_char c"

abbreviation NUL :: char where
  "NUL \<equiv> CHR 0x00"

definition bytes_of :: "string \<Rightarrow> byte list" where
  "bytes_of s = map of_char s"

definition schar :: "char \<Rightarrow> int" where
  "schar c = (let n = of_char c in if n < 128 then n else n - 256)"

definition char_of_int :: "int \<Rightarrow> char" where
  "char_of_int k = char_of (k mod 256)"

lemma bytes_of_Nil [simp]: "bytes_of [] = []"
  by (simp add: bytes_of_def)

lemma bytes_of_Cons [simp]: "bytes_of (c # s) = chr c # bytes_of s"
  by (simp add: bytes_of_def)

lemma length_bytes_of [simp]: "length (bytes_of s) = length s"
  by (simp add: bytes_of_def)

lemma of_char_int_bounds [simp]: "0 \<le> (of_char c :: int)" "(of_char c :: int) < 256"
  using pos_mod_sign [of 256 "of_char c :: int"] pos_mod_bound [of 256 "of_char c :: int"] by simp_all

lemma schar_bounds: "- 128 \<le> schar c" "schar c < 128"
  using of_char_int_bounds [of c] by (simp_all add: schar_def Let_def del: of_char_int_bounds)

lemma schar_mod: "schar c mod 256 = of_char c"
  by (simp add: schar_def Let_def minus_mod_self2)

lemma char_of_int_schar [simp]: "char_of_int (schar c) = c"
  unfolding char_of_int_def schar_mod by simp

lemma schar_eq_iff [simp]: "schar c = schar d \<longleftrightarrow> c = d"
  by (metis char_of_int_schar)

end
