(* ===== verification/Big_Endian.thy ===== *)
theory Big_Endian
  imports Prelude
begin

text \<open>
  \<open>src/cpp/big_endian_access.h\<close>: reading and writing 16, 32 and 64 bit unsigned
  integers in network byte order.  A pointer is a buffer and an offset.  The locale
  \<open>be_codec\<close> states what the packet code relies on; it is interpreted at all three
  widths.
\<close>

section \<open>The accessors\<close>

definition get_be_uint16 :: "byte list \<Rightarrow> nat \<Rightarrow> u16 option" where
  "get_be_uint16 p i = do {
     b0 \<leftarrow> rd p i;
     let val = push_bit 8 (ucast b0 :: u16);
     b1 \<leftarrow> rd p (i + 1);
     Some (val + ucast b1) }"

definition set_be_uint16 :: "u16 \<Rightarrow> byte list \<Rightarrow> nat \<Rightarrow> byte list option" where
  "set_be_uint16 val p i = do {
     p \<leftarrow> wr p i (ucast (drop_bit 8 val AND 0x00ff));
     wr p (i + 1) (ucast (val AND 0x00ff)) }"

definition get_be_uint32 :: "byte list \<Rightarrow> nat \<Rightarrow> u32 option" where
  "get_be_uint32 p i = do {
     b0 \<leftarrow> rd p i;
     let val = push_bit 8 (ucast b0 :: u32);
     b1 \<leftarrow> rd p (i + 1);
     let val = push_bit 8 (val + ucast b1);
     b2 \<leftarrow> rd p (i + 2);
     let val = push_bit 8 (val + ucast b2);
     b3 \<leftarrow> rd p (i + 3);
     Some (val + ucast b3) }"

definition set_be_uint32 :: "u32 \<Rightarrow> byte list \<Rightarrow> nat \<Rightarrow> byte list option" where
  "set_be_uint32 val p i = do {
     p \<leftarrow> wr p i (ucast (drop_bit 24 val AND 0x00ff));
     p \<leftarrow> wr p (i + 1) (ucast (drop_bit 16 val AND 0x00ff));
     p \<leftarrow> wr p (i + 2) (ucast (drop_bit 8 val AND 0x00ff));
     wr p (i + 3) (ucast (val AND 0x00ff)) }"

text \<open>The 64 bit accessors are loops over \<open>i = 0 .. 7\<close>.\<close>

fun get_be_uint64_loop :: "byte list \<Rightarrow> nat \<Rightarrow> nat list \<Rightarrow> u64 \<Rightarrow> u64 option" where
  "get_be_uint64_loop p i [] val = Some val"
| "get_be_uint64_loop p i (k # ks) val = do {
     b \<leftarrow> rd p (i + k);
     get_be_uint64_loop p i ks (push_bit 8 val + ucast b) }"

definition get_be_uint64 :: "byte list \<Rightarrow> nat \<Rightarrow> u64 option" where
  "get_be_uint64 p i = get_be_uint64_loop p i [0..<8] 0"

fun set_be_uint64_loop :: "u64 \<Rightarrow> nat \<Rightarrow> nat list \<Rightarrow> byte list \<Rightarrow> byte list option" where
  "set_be_uint64_loop val i [] p = Some p"
| "set_be_uint64_loop val i (k # ks) p = do {
     p \<leftarrow> wr p (i + k) (ucast (drop_bit (56 - k * 8) val AND 0x0ff));
     set_be_uint64_loop val i ks p }"

definition set_be_uint64 :: "u64 \<Rightarrow> byte list \<Rightarrow> nat \<Rightarrow> byte list option" where
  "set_be_uint64 val p i = set_be_uint64_loop val i [0..<8] p"

section \<open>The byte sequences the accessors stand for\<close>

text \<open>
  \<open>enc_be n v\<close> is the \<open>n\<close> byte big endian representation of \<open>v\<close>, \<open>dec_be\<close> reads such
  a sequence back; every accessor is a range access with one of these.
\<close>

definition enc_be :: "nat \<Rightarrow> 'w::len word \<Rightarrow> byte list" where
  "enc_be n v = map (\<lambda>k. ucast (drop_bit (8 * (n - 1 - k)) v)) [0..<n]"

definition dec_be :: "byte list \<Rightarrow> 'w::len word" where
  "dec_be bs = foldl (\<lambda>v b. push_bit 8 v + ucast b) 0 bs"

lemma length_enc_be [simp]: "length (enc_be n v) = n"
  by (simp add: enc_be_def)

lemma and_255: "(w::'a::len word) AND 255 = take_bit 8 w"
  by (simp add: take_bit_eq_mask mask_eq_exp_minus_1)

lemma ucast_take_bit_8: "(ucast (take_bit 8 (w::'a::len word)) :: byte) = ucast w"
  by (rule bit_word_eqI) (auto simp: bit_simps)

lemma push_8_add: "push_bit 8 v + ucast (b :: byte) = push_bit 8 v OR (ucast b :: 'w::len word)"
  by (rule disjunctive_add_eq_or) (rule bit_word_eqI, auto simp: bit_simps dest: bit_imp_le_length)

lemma dec_be_snoc: "dec_be (bs @ [b]) = push_bit 8 (dec_be bs :: 'w::len word) OR ucast b"
  by (simp add: dec_be_def push_8_add)

lemma bit_dec_be:
  "bit (dec_be bs :: 'w::len word) k \<longleftrightarrow>
     k < LENGTH('w) \<and> k < 8 * length bs \<and> bit (bs ! (length bs - 1 - k div 8)) (k mod 8)"
proof (induction bs arbitrary: k rule: rev_induct)
  case Nil
  then show ?case by (simp add: dec_be_def)
next
  case (snoc b bs)
  show ?case
  proof (cases "k < 8")
    case True
    then show ?thesis
      by (simp add: dec_be_snoc bit_simps nth_append)
  next
    case False
    then obtain j where k: "k = j + 8" using le_Suc_ex [of 8 k] by (auto simp: add.commute)
    have "(bs @ [b]) ! (length bs - Suc (j div 8)) = bs ! (length bs - Suc (j div 8))"
      if "j < 8 * length bs"
      using that by (intro nth_append_left) (cases bs, auto)
    moreover have "(j + 8) div 8 = Suc (j div 8)" by presburger
    moreover have "\<not> bit b k" using False by (auto dest: bit_imp_le_length)
    ultimately show ?thesis
      by (simp add: dec_be_snoc bit_or_iff bit_push_bit_iff bit_ucast_iff k snoc.IH [of j]) auto
  qed
qed

lemma dec_enc_be: "LENGTH('w) \<le> 8 * n \<Longrightarrow> dec_be (enc_be n v) = (v :: 'w::len word)"
proof (rule bit_word_eqI)
  fix k assume "LENGTH('w) \<le> 8 * n" "k < LENGTH('w)"
  then have k: "k < 8 * n" by simp
  then have kd: "k div 8 < n" by (simp add: less_mult_imp_div_less mult.commute)
  then have idx: "n - Suc (k div 8) < n" and "n - Suc (n - Suc (k div 8)) = k div 8" by simp_all
  then show "bit (dec_be (enc_be n v) :: 'w word) k = bit v k"
    using k \<open>k < LENGTH('w)\<close> by (simp add: bit_dec_be enc_be_def bit_simps)
qed

lemma enc_dec_be:
  "length bs = n \<Longrightarrow> 8 * n \<le> LENGTH('w) \<Longrightarrow> enc_be n (dec_be bs :: 'w::len word) = bs"
proof (rule nth_equalityI)
  assume n: "length bs = n" "8 * n \<le> LENGTH('w)"
  then show "length (enc_be n (dec_be bs :: 'w word)) = length bs" by simp
  fix i assume "i < length (enc_be n (dec_be bs :: 'w word))"
  then have i: "i < n" by simp
  show "enc_be n (dec_be bs :: 'w word) ! i = bs ! i"
  proof (rule bit_word_eqI)
    fix k assume "k < LENGTH(8)"
    then have k: "k < 8" by simp
    let ?m = "8 * (n - Suc i) + k"
    have m: "?m < 8 * n" using i k by simp
    have "?m div 8 = n - Suc i" "?m mod 8 = k" using k by simp_all
    moreover have "n - Suc (n - Suc i) = i" using i by simp
    ultimately show "bit (enc_be n (dec_be bs :: 'w word) ! i) k = bit (bs ! i) k"
      using i k n m by (simp add: enc_be_def bit_simps bit_dec_be)
  qed
qed

section \<open>The accessors as range accesses\<close>

lemma rd_range_Suc:
  "rd_range p i (Suc n) = do { b \<leftarrow> rd p i; bs \<leftarrow> rd_range p (Suc i) n; Some (b # bs) }"
  by (auto simp: rd_range_def rd_def drop_eq_Cons)

lemma rd_range_0: "rd_range p i 0 = (if i \<le> length p then Some [] else None)"
  by (simp add: rd_range_def)

lemma wr_range_Cons:
  "wr_range p i (b # bs) = (if i + length bs < length p then do { p \<leftarrow> wr p i b; wr_range p (Suc i) bs } else None)"
  by (auto simp: wr_range_def wr_def list_update_append upd_conv_take_nth_drop min_def add.commute)

lemma wr_range_Nil: "i \<le> length p \<Longrightarrow> wr_range p i [] = Some p"
  by (simp add: wr_range_def)

lemmas be_words = and_255 ucast_take_bit_8 enc_be_def upt_rec

lemma get_be_uint16_eq: "get_be_uint16 p i = map_option dec_be (rd_range p i 2)"
  by (simp add: get_be_uint16_def dec_be_def rd_range_Suc rd_range_0 numeral_2_eq_2 Let_def
        rd_def split: Option.bind_splits)

lemma get_be_uint32_eq: "get_be_uint32 p i = map_option dec_be (rd_range p i 4)"
  by (simp add: get_be_uint32_def dec_be_def rd_range_Suc rd_range_0 eval_nat_numeral Let_def
        rd_def split: Option.bind_splits)

lemma get_be_uint64_eq: "get_be_uint64 p i = map_option dec_be (rd_range p i 8)"
  by (simp add: get_be_uint64_def dec_be_def rd_range_Suc rd_range_0 eval_nat_numeral Let_def
        upt_rec rd_def split: Option.bind_splits)

lemma set_be_uint16_eq: "set_be_uint16 v p i = wr_range p i (enc_be 2 v)"
  by (simp add: set_be_uint16_def be_words wr_range_Cons wr_range_Nil wr_def)

lemma set_be_uint32_eq: "set_be_uint32 v p i = wr_range p i (enc_be 4 v)"
  by (simp add: set_be_uint32_def be_words wr_range_Cons wr_range_Nil wr_def numeral_3_eq_3)

lemma set_be_uint64_eq: "set_be_uint64 v p i = wr_range p i (enc_be 8 v)"
  by (simp add: set_be_uint64_def be_words wr_range_Cons wr_range_Nil wr_def)

section \<open>The interface\<close>

text \<open>
  What a client relies on: a write stores a fixed width code of the value and a read
  decodes whatever sits at that place.
\<close>

lemma wr_range_same: "i + n \<le> length p \<Longrightarrow> wr_range p i (take n (drop i p)) = Some p"
  by (simp add: wr_range_def) (metis append_take_drop_id drop_drop add.commute)

locale be_codec =
  fixes get :: "byte list \<Rightarrow> nat \<Rightarrow> 'w option"
    and put :: "'w \<Rightarrow> byte list \<Rightarrow> nat \<Rightarrow> byte list option"
    and enc :: "'w \<Rightarrow> byte list"
    and dec :: "byte list \<Rightarrow> 'w"
    and width :: nat
  assumes get_eq: "get p i = map_option dec (rd_range p i width)"
    and put_eq: "put v p i = wr_range p i (enc v)"
    and enc_width: "length (enc v) = width"
    and dec_enc: "dec (enc v) = v"
    and enc_dec: "length bs = width \<Longrightarrow> enc (dec bs) = bs"
begin

lemma get_defined_iff: "get p i \<noteq> None \<longleftrightarrow> i + width \<le> length p"
  by (simp add: get_eq rd_range_def)

lemma put_defined_iff: "put v p i \<noteq> None \<longleftrightarrow> i + width \<le> length p"
  by (simp add: put_eq wr_range_def enc_width)

lemma put_length: "put v p i = Some q \<Longrightarrow> length q = length p"
  by (simp add: put_eq wr_range_length)

lemma get_put: "put v p i = Some q \<Longrightarrow> get q i = Some v"
  using rd_wr_range [of p i "enc v" q] by (simp add: get_eq put_eq enc_width dec_enc)

lemma put_get: "get p i = Some v \<Longrightarrow> put v p i = Some p"
  by (auto simp: get_eq put_eq enc_dec rd_range_Some_iff intro!: wr_range_same)

end

interpretation be16: be_codec get_be_uint16 set_be_uint16 "enc_be 2" dec_be 2
  by unfold_locales (simp_all add: get_be_uint16_eq set_be_uint16_eq dec_enc_be enc_dec_be)

interpretation be32: be_codec get_be_uint32 set_be_uint32 "enc_be 4" dec_be 4
  by unfold_locales (simp_all add: get_be_uint32_eq set_be_uint32_eq dec_enc_be enc_dec_be)

interpretation be64: be_codec get_be_uint64 set_be_uint64 "enc_be 8" dec_be 8
  by unfold_locales (simp_all add: get_be_uint64_eq set_be_uint64_eq dec_enc_be enc_dec_be)

section \<open>Properties\<close>

text \<open>
  for each of the three widths, an access is defined exactly when all its bytes are in the
  buffer, a store keeps the length of the buffer and reads back as the value stored, and storing
  back what was read changes nothing.
\<close>

theorem be_roundtrip:
  "(set_be_uint16 v p i \<noteq> None \<longleftrightarrow> i + 2 \<le> length p) \<and>
   (set_be_uint32 w p i \<noteq> None \<longleftrightarrow> i + 4 \<le> length p) \<and>
   (set_be_uint64 x p i \<noteq> None \<longleftrightarrow> i + 8 \<le> length p) \<and>
   (set_be_uint16 v p i = Some q \<longrightarrow> get_be_uint16 q i = Some v \<and> length q = length p) \<and>
   (set_be_uint32 w p i = Some q \<longrightarrow> get_be_uint32 q i = Some w \<and> length q = length p) \<and>
   (set_be_uint64 x p i = Some q \<longrightarrow> get_be_uint64 q i = Some x \<and> length q = length p) \<and>
   (get_be_uint16 p i = Some v \<longrightarrow> set_be_uint16 v p i = Some p) \<and>
   (get_be_uint32 p i = Some w \<longrightarrow> set_be_uint32 w p i = Some p) \<and>
   (get_be_uint64 p i = Some x \<longrightarrow> set_be_uint64 x p i = Some p)"
  by (intro conjI impI be16.put_defined_iff be32.put_defined_iff be64.put_defined_iff)
    (blast intro: be16.get_put be16.put_length be16.put_get be32.get_put be32.put_length
      be32.put_get be64.get_put be64.put_length be64.put_get)+

theorem be_roundtrip_witness:
  "get_be_uint32 [0, 0x12, 0x34, 0x56, 0x78] 1 = Some 0x12345678 \<and>
   set_be_uint32 0x12345678 [0, 0x12, 0x34, 0x56, 0x78] 1 = Some [0, 0x12, 0x34, 0x56, 0x78]"
proof -
  have "get_be_uint32 [0, 0x12, 0x34, 0x56, 0x78] 1 = Some 0x12345678" by code_simp
  then show ?thesis using be_roundtrip [where v = 0 and w = "0x12345678" and x = 0 and i = 1 and
        p = "[0, 0x12, 0x34, 0x56, 0x78]" and q = "[]"] by simp
qed

end
