(* ===== verification/B64.thy ===== *)
theory B64
  imports Big_Endian Text
begin

text \<open>
  \<open>src/cpp/b64.cpp\<close>: base 64 in the plain and the URL alphabet, with and without
  padding.  \<open>encode\<close> and \<open>decode\<close> write into a result vector whose size is computed up
  front, so both are modelled with checked writes; the reference functions \<open>enc_spec\<close>
  and \<open>dec_spec\<close> build the same bytes without indices.  Counts are \<open>nat\<close>: the code keeps
  block counts in an \<open>int\<close>, so the model speaks about inputs below $2^{31}$ bytes.
\<close>

section \<open>Alphabets\<close>

definition url_alphabet :: "byte list" where
  "url_alphabet = bytes_of ''ABCDEFGHIJKLMNOPQRSTUVWXYZabcdefghijklmnopqrstuvwxyz0123456789-_''"

definition raw_alphabet :: "byte list" where
  "raw_alphabet = bytes_of ''ABCDEFGHIJKLMNOPQRSTUVWXYZabcdefghijklmnopqrstuvwxyz0123456789+/''"

datatype b64_error =
    BadPaddedLength nat
  | BadUnpaddedLength nat
  | InvalidCharacter byte

definition b64url_index :: "byte \<Rightarrow> b64_error + byte" where
  "b64url_index code =
     (if chr CHR ''A'' \<le> code \<and> code \<le> chr CHR ''Z'' then Inr (code - chr CHR ''A'')
      else if chr CHR ''a'' \<le> code \<and> code \<le> chr CHR ''z'' then Inr (code - chr CHR ''a'' + 26)
      else if chr CHR ''0'' \<le> code \<and> code \<le> chr CHR ''9'' then Inr (code - chr CHR ''0'' + 52)
      else if code = chr CHR ''-'' then Inr 62
      else if code = chr CHR ''_'' then Inr 63
      else Inl (InvalidCharacter code))"

definition b64_index :: "byte \<Rightarrow> b64_error + byte" where
  "b64_index code =
     (if chr CHR ''A'' \<le> code \<and> code \<le> chr CHR ''Z'' then Inr (code - chr CHR ''A'')
      else if chr CHR ''a'' \<le> code \<and> code \<le> chr CHR ''z'' then Inr (code - chr CHR ''a'' + 26)
      else if chr CHR ''0'' \<le> code \<and> code \<le> chr CHR ''9'' then Inr (code - chr CHR ''0'' + 52)
      else if code = chr CHR ''+'' then Inr 62
      else if code = chr CHR ''/'' then Inr 63
      else Inl (InvalidCharacter code))"

section \<open>Encoding\<close>

text \<open>
  The four six-bit groups of a block.  The C expressions promote the bytes to \<open>int\<close>;
  \<open>u32\<close> holds all of them without loss.
\<close>

abbreviation i32 :: "byte \<Rightarrow> u32" where
  "i32 b \<equiv> ucast b"

definition sextet0 :: "byte \<Rightarrow> nat" where
  "sextet0 a = unat (drop_bit 2 (i32 a))"

definition sextet1 :: "byte \<Rightarrow> byte \<Rightarrow> nat" where
  "sextet1 a b = unat ((push_bit 4 (i32 a) + drop_bit 4 (i32 b)) AND 0x3f)"

definition sextet2 :: "byte \<Rightarrow> byte \<Rightarrow> nat" where
  "sextet2 b c = unat ((push_bit 2 (i32 b) + drop_bit 6 (i32 c)) AND 0x3f)"

definition sextet3 :: "byte \<Rightarrow> nat" where
  "sextet3 c = unat (i32 c AND 0x3f)"

definition encoded_size :: "nat \<Rightarrow> byte \<Rightarrow> nat" where
  "encoded_size len pad =
     (if pad \<noteq> 0 then (len + 2) div 3 * 4
      else len div 3 * 4 + (if len mod 3 \<noteq> 0 then len mod 3 + 1 else 0))"

fun encode_blocks :: "byte list \<Rightarrow> byte list \<Rightarrow> nat list \<Rightarrow> byte list \<Rightarrow> byte list option" where
  "encode_blocks alphabet data [] result = Some result"
| "encode_blocks alphabet data (i # is) result = do {
     p0 \<leftarrow> rd data (3 * i);
     p1 \<leftarrow> rd data (3 * i + 1);
     p2 \<leftarrow> rd data (3 * i + 2);
     c0 \<leftarrow> rd alphabet (sextet0 p0);
     result \<leftarrow> wr result (i * 4 + 0) c0;
     c1 \<leftarrow> rd alphabet (sextet1 p0 p1);
     result \<leftarrow> wr result (i * 4 + 1) c1;
     c2 \<leftarrow> rd alphabet (sextet2 p1 p2);
     result \<leftarrow> wr result (i * 4 + 2) c2;
     c3 \<leftarrow> rd alphabet (sextet3 p2);
     result \<leftarrow> wr result (i * 4 + 3) c3;
     encode_blocks alphabet data is result }"

text \<open>The last, incomplete block: one or two bytes left at offset \<open>3 * i\<close>.\<close>

definition encode_tail :: "byte list \<Rightarrow> byte list \<Rightarrow> byte \<Rightarrow> nat \<Rightarrow> byte list \<Rightarrow> byte list option" where
  "encode_tail alphabet data pad i result =
     (if 3 * i < length data then do {
        p0 \<leftarrow> rd data (3 * i);
        c0 \<leftarrow> rd alphabet (sextet0 p0);
        result \<leftarrow> wr result (i * 4 + 0) c0;
        if 3 * i + 1 < length data then do {
          p1 \<leftarrow> rd data (3 * i + 1);
          c1 \<leftarrow> rd alphabet (sextet1 p0 p1);
          result \<leftarrow> wr result (i * 4 + 1) c1;
          c2 \<leftarrow> rd alphabet (unat (push_bit 2 (i32 p1) AND 0x3f));
          result \<leftarrow> wr result (i * 4 + 2) c2;
          if pad \<noteq> 0 then wr result (i * 4 + 3) pad else Some result
        } else do {
          c1 \<leftarrow> rd alphabet (unat (push_bit 4 (i32 p0) AND 0x3f));
          result \<leftarrow> wr result (i * 4 + 1) c1;
          if pad \<noteq> 0 then do {
            result \<leftarrow> wr result (i * 4 + 2) pad;
            wr result (i * 4 + 3) pad
          } else Some result
        }
      } else Some result)"

definition encode :: "byte list \<Rightarrow> byte \<Rightarrow> byte list \<Rightarrow> byte list option" where
  "encode data pad alphabet = do {
     let num_full_blocks = length data div 3;
     let result = replicate (encoded_size (length data) pad) 0;
     result \<leftarrow> encode_blocks alphabet data [0..<num_full_blocks] result;
     encode_tail alphabet data pad num_full_blocks result }"

definition b64url_encode :: "byte list \<Rightarrow> byte \<Rightarrow> byte list option" where
  "b64url_encode data pad = encode data pad url_alphabet"

definition b64_encode :: "byte list \<Rightarrow> byte \<Rightarrow> byte list option" where
  "b64_encode data pad = encode data pad raw_alphabet"

section \<open>Decoding\<close>

text \<open>
  The result bytes: sums of shifted six-bit values, truncated to a \<open>char\<close> by the
  assignment.
\<close>

definition octet0 :: "byte \<Rightarrow> byte \<Rightarrow> byte" where
  "octet0 a b = ucast (push_bit 2 (i32 a) + drop_bit 4 (i32 b))"

definition octet1 :: "byte \<Rightarrow> byte \<Rightarrow> byte" where
  "octet1 b c = ucast (push_bit 4 (i32 b) + drop_bit 2 (i32 c))"

definition octet2 :: "byte \<Rightarrow> byte \<Rightarrow> byte" where
  "octet2 c d = ucast (push_bit 6 (i32 c) + i32 d)"

text \<open>
  Inside \<open>decode\<close> a thrown exception is a value \<open>Inl\<close>, an access out of range \<open>None\<close>;
  \<open>attempt\<close> continues after a call that returned.
\<close>

definition attempt :: "(b64_error + 'a) \<Rightarrow> ('a \<Rightarrow> (b64_error + 'b) option) \<Rightarrow> (b64_error + 'b) option" where
  "attempt r f = (case r of Inl e \<Rightarrow> Some (Inl e) | Inr x \<Rightarrow> f x)"

fun decode_blocks ::
  "(byte \<Rightarrow> b64_error + byte) \<Rightarrow> byte list \<Rightarrow> nat list \<Rightarrow> byte list \<Rightarrow> (b64_error + byte list) option" where
  "decode_blocks index data [] result = Some (Inr result)"
| "decode_blocks index data (i # is) result = do {
     p0 \<leftarrow> rd data (4 * i);
     attempt (index p0) (\<lambda>a. do {
     p1 \<leftarrow> rd data (4 * i + 1);
     attempt (index p1) (\<lambda>b. do {
     p2 \<leftarrow> rd data (4 * i + 2);
     attempt (index p2) (\<lambda>c. do {
     p3 \<leftarrow> rd data (4 * i + 3);
     attempt (index p3) (\<lambda>d. do {
     result \<leftarrow> wr result (i * 3 + 0) (octet0 a b);
     result \<leftarrow> wr result (i * 3 + 1) (octet1 b c);
     result \<leftarrow> wr result (i * 3 + 2) (octet2 c d);
     decode_blocks index data is result })})})})}"

definition decode_tail ::
  "(byte \<Rightarrow> b64_error + byte) \<Rightarrow> byte list \<Rightarrow> nat \<Rightarrow> nat \<Rightarrow> byte list \<Rightarrow> (b64_error + byte list) option" where
  "decode_tail index data len i result =
     (if 4 * i < len then do {
        p0 \<leftarrow> rd data (4 * i);
        attempt (index p0) (\<lambda>a. do {
        p1 \<leftarrow> rd data (4 * i + 1);
        attempt (index p1) (\<lambda>b. do {
        result \<leftarrow> wr result (i * 3 + 0) (octet0 a b);
        if 4 * i + 2 < len then do {
          p2 \<leftarrow> rd data (4 * i + 2);
          attempt (index p2) (\<lambda>c. do {
          result \<leftarrow> wr result (i * 3 + 1) (octet1 b c);
          Some (Inr result) })
        } else Some (Inr result) }) }) }
      else Some (Inr result))"

definition decode ::
  "byte list \<Rightarrow> byte \<Rightarrow> (byte \<Rightarrow> b64_error + byte) \<Rightarrow> (b64_error + byte list) option" where
  "decode data pad index = (let len = length data in
     if pad \<noteq> 0 \<and> len mod 4 \<noteq> 0 then Some (Inl (BadPaddedLength len))
     else if pad = 0 \<and> len mod 4 = 1 then Some (Inl (BadUnpaddedLength len))
     else do {
       num_pads \<leftarrow>
         (if pad \<noteq> 0 \<and> len > 0 then do {
            c2 \<leftarrow> rd data (len - 2);
            if c2 = pad then Some 2
            else do {
              c1 \<leftarrow> rd data (len - 1);
              Some (if c1 = pad then 1 else (0::nat)) } }
          else Some 0);
       let len = len - num_pads;
       let num_full_blocks = len div 4;
       let decoded_size = num_full_blocks * 3 + len mod 4;
       let result = replicate decoded_size 0;
       r \<leftarrow> decode_blocks index data [0..<num_full_blocks] result;
       attempt r (\<lambda>result. decode_tail index data len num_full_blocks result) })"

definition b64url_decode :: "byte list \<Rightarrow> byte \<Rightarrow> (b64_error + byte list) option" where
  "b64url_decode data pad = decode data pad b64url_index"

definition b64_decode :: "byte list \<Rightarrow> byte \<Rightarrow> (b64_error + byte list) option" where
  "b64_decode data pad = decode data pad b64_index"

section \<open>Reference encoder\<close>

fun enc_spec :: "byte list \<Rightarrow> byte \<Rightarrow> byte list \<Rightarrow> byte list" where
  "enc_spec al pad (a # b # c # r) =
     al ! sextet0 a # al ! sextet1 a b # al ! sextet2 b c # al ! sextet3 c # enc_spec al pad r"
| "enc_spec al pad [a, b] =
     al ! sextet0 a # al ! sextet1 a b # al ! sextet2 b 0 # (if pad \<noteq> 0 then [pad] else [])"
| "enc_spec al pad [a] =
     al ! sextet0 a # al ! sextet1 a 0 # (if pad \<noteq> 0 then [pad, pad] else [])"
| "enc_spec al pad [] = []"

lemma and_63: "(w::'a::len word) AND 63 = take_bit 6 w"
  by (simp add: take_bit_eq_mask mask_eq_exp_minus_1)

lemma unat_take_bit_6: "unat (take_bit 6 (w :: u32)) < 64"
  using take_bit_nat_less_exp [of 6 "unat w"] by (simp add: unsigned_take_bit_eq)

lemma sextet_bounds [simp]:
  "sextet0 a < 64" "sextet1 a b < 64" "sextet2 b c < 64" "sextet3 c < 64"
proof -
  have "drop_bit 2 (i32 a) = take_bit 6 (drop_bit 2 (i32 a))"
    by (rule bit_word_eqI) (auto simp: bit_simps dest: bit_imp_le_length)
  then show "sextet0 a < 64" unfolding sextet0_def by (metis unat_take_bit_6)
qed (simp_all add: sextet1_def sextet2_def sextet3_def and_63 unat_take_bit_6)

lemma tail_sextets:
  "unat (push_bit 4 (i32 a) AND 0x3f) = sextet1 a 0"
  "unat (push_bit 2 (i32 b) AND 0x3f) = sextet2 b 0"
  by (simp_all add: sextet1_def sextet2_def)

lemma encoded_size_add3: "encoded_size (Suc (Suc (Suc n))) pad = encoded_size n pad + 4"
proof -
  have "Suc (Suc (Suc n)) div 3 = Suc (n div 3)" "Suc (Suc (Suc n)) mod 3 = n mod 3"
    "(Suc (Suc (Suc n)) + 2) div 3 = Suc ((n + 2) div 3)" by presburger+
  then show ?thesis by (simp add: encoded_size_def)
qed

lemma rd_alphabet: "length al = 64 \<Longrightarrow> k < 64 \<Longrightarrow> rd al k = Some (al ! k)"
  by (simp add: rd_in)

lemma replicate_add4: "replicate (n + 4) x = x # x # x # x # replicate n x"
  by (simp add: numeral_eq_Suc)

lemma replicate_small: "replicate 2 x = [x, x]" "replicate 3 x = [x, x, x]" "replicate 4 x = [x, x, x, x]"
  by (simp_all add: numeral_eq_Suc)

lemma encode_from:
  assumes "length al = 64" "j * 4 = length P" "3 * j = length D"
  shows "do { r \<leftarrow> encode_blocks al (D @ data) [j..<j + length data div 3]
                (P @ replicate (encoded_size (length data) pad) 0);
              encode_tail al (D @ data) pad (j + length data div 3) r } =
         Some (P @ enc_spec al pad data)"
  using assms
proof (induction al pad data arbitrary: j P D rule: enc_spec.induct)
  case (1 al pad a b c r)
  let ?P = "P @ [al ! sextet0 a, al ! sextet1 a b, al ! sextet2 b c, al ! sextet3 c]"
  have upt: "[j..<Suc (j + length r div 3)] = j # [Suc j..<Suc (j + length r div 3)]"
    by (simp add: upt_rec del: upt_Suc)
  have "(3 + length r) div 3 = Suc (length r div 3)" by presburger
  then show ?case
    using "1.IH" [of "Suc j" ?P "D @ [a, b, c]"] "1.prems"
    by (simp add: upt encoded_size_add3 mem_simps replicate_add4 rd_alphabet del: upt_Suc)
next
  case (2 al pad a b)
  then show ?case
    by (simp add: mem_simps encode_tail_def encoded_size_def tail_sextets rd_alphabet
        replicate_small)
next
  case (3 al pad a)
  then show ?case
    by (simp add: mem_simps encode_tail_def encoded_size_def tail_sextets rd_alphabet
        replicate_small)
next
  case (4 al pad)
  then show ?case by (simp add: mem_simps encoded_size_def encode_tail_def)
qed

section \<open>Reference decoder\<close>

text \<open>
  \<open>dec_spec\<close> reads the text without its padding.  The result vector of the code has
  \<open>len % 4\<close> bytes for an incomplete last block although such a block only holds
  \<open>len % 4 - 1\<close>: the last byte of the result stays 0.
\<close>

fun dec_spec :: "(byte \<Rightarrow> b64_error + byte) \<Rightarrow> byte list \<Rightarrow> b64_error + byte list" where
  "dec_spec index (p0 # p1 # p2 # p3 # r) =
     (case index p0 of Inl e \<Rightarrow> Inl e | Inr a \<Rightarrow>
      case index p1 of Inl e \<Rightarrow> Inl e | Inr b \<Rightarrow>
      case index p2 of Inl e \<Rightarrow> Inl e | Inr c \<Rightarrow>
      case index p3 of Inl e \<Rightarrow> Inl e | Inr d \<Rightarrow>
      (case dec_spec index r of Inl e \<Rightarrow> Inl e
       | Inr bs \<Rightarrow> Inr (octet0 a b # octet1 b c # octet2 c d # bs)))"
| "dec_spec index [p0, p1, p2] =
     (case index p0 of Inl e \<Rightarrow> Inl e | Inr a \<Rightarrow>
      case index p1 of Inl e \<Rightarrow> Inl e | Inr b \<Rightarrow>
      case index p2 of Inl e \<Rightarrow> Inl e | Inr c \<Rightarrow> Inr [octet0 a b, octet1 b c, 0])"
| "dec_spec index [p0, p1] =
     (case index p0 of Inl e \<Rightarrow> Inl e | Inr a \<Rightarrow>
      case index p1 of Inl e \<Rightarrow> Inl e | Inr b \<Rightarrow> Inr [octet0 a b, 0])"
| "dec_spec index _ = Inr []"

lemma attempt_simps [simp]: "attempt (Inl e) f = Some (Inl e)" "attempt (Inr x) f = f x"
  by (simp_all add: attempt_def)

lemma replicate_add3: "replicate (n + 3) x = x # x # x # replicate n x"
  by (simp add: numeral_eq_Suc)

definition decoded_size :: "nat \<Rightarrow> nat" where
  "decoded_size len = len div 4 * 3 + len mod 4"

lemma decoded_size_add4: "decoded_size (Suc (Suc (Suc (Suc n)))) = decoded_size n + 3"
proof -
  have "Suc (Suc (Suc (Suc n))) div 4 = Suc (n div 4)" "Suc (Suc (Suc (Suc n))) mod 4 = n mod 4"
    by presburger+
  then show ?thesis by (simp add: decoded_size_def)
qed

lemma decode_from:
  assumes "length data mod 4 \<noteq> 1" "j * 3 = length P" "4 * j = length D"
  shows "do { r \<leftarrow> decode_blocks index (D @ data @ Z) [j..<j + length data div 4]
                (P @ replicate (decoded_size (length data)) 0);
              attempt r (\<lambda>res. decode_tail index (D @ data @ Z) (length D + length data)
                (j + length data div 4) res) } =
         Some (map_sum id ((@) P) (dec_spec index data))"
  using assms
proof (induction index data arbitrary: j P D rule: dec_spec.induct)
  case (1 index p0 p1 p2 p3 r)
  have upt: "[j..<Suc (j + length r div 4)] = j # [Suc j..<Suc (j + length r div 4)]"
    by (simp add: upt_rec del: upt_Suc)
  have mod: "Suc (Suc (Suc (Suc (length r)))) mod 4 = length r mod 4" by presburger
  have div: "(4 + length r) div 4 = Suc (length r div 4)" by presburger
  show ?case
  proof (cases "index p0"; cases "index p1"; cases "index p2"; cases "index p3")
    fix a b c d
    assume ix: "index p0 = Inr a" "index p1 = Inr b" "index p2 = Inr c" "index p3 = Inr d"
    let ?P = "P @ [octet0 a b, octet1 b c, octet2 c d]"
    show ?thesis
      using "1.IH" [OF ix, of "Suc j" ?P "D @ [p0, p1, p2, p3]"] "1.prems" mod
      by (simp add: upt div decoded_size_add4 mem_simps replicate_add3 ix del: upt_Suc
            split: sum.split)
  qed (use "1.prems" in \<open>simp_all add: upt div mem_simps del: upt_Suc\<close>)
next
  case (2 index p0 p1 p2)
  then show ?case
    by (simp add: mem_simps decode_tail_def decoded_size_def replicate_small split: sum.split)
next
  case (3 index p0 p1)
  then show ?case
    by (simp add: mem_simps decode_tail_def decoded_size_def replicate_small split: sum.split)
qed (simp_all add: decode_tail_def decoded_size_def)

lemma i32_small: "i32 (of_nat (unat (w :: u32))) = take_bit 8 w"
  by (rule bit_word_eqI) (simp add: bit_simps)

lemma shifted_sums:
  "push_bit 4 (i32 a) + drop_bit 4 (i32 b) = push_bit 4 (i32 a) OR drop_bit 4 (i32 b)"
  "push_bit 2 (i32 b) + drop_bit 6 (i32 c) = push_bit 2 (i32 b) OR drop_bit 6 (i32 c)"
  by (rule disjunctive_add_eq_or; rule bit_word_eqI; auto simp: bit_simps dest: bit_imp_le_length)+

lemma sextet_words:
  "i32 (of_nat (sextet0 a)) = drop_bit 2 (i32 a)"
  "i32 (of_nat (sextet1 a b)) = take_bit 6 (push_bit 4 (i32 a)) OR drop_bit 4 (i32 b)"
  "i32 (of_nat (sextet2 b c)) = take_bit 6 (push_bit 2 (i32 b)) OR drop_bit 6 (i32 c)"
  "i32 (of_nat (sextet3 c)) = take_bit 6 (i32 c)"
  unfolding sextet0_def sextet1_def sextet2_def sextet3_def i32_small and_63 shifted_sums
  by (rule bit_word_eqI; auto simp: bit_simps dest: bit_imp_le_length)+

lemma Suc_Suc_diff: "2 \<le> n \<Longrightarrow> Suc (Suc (n - 2)) = n"
  by simp

lemma octets:
  "octet0 (of_nat (sextet0 a)) (of_nat (sextet1 a b)) = a"
  "octet1 (of_nat (sextet1 a b)) (of_nat (sextet2 b c)) = b"
  "octet2 (of_nat (sextet2 b c)) (of_nat (sextet3 c)) = c"
  unfolding octet0_def octet1_def octet2_def sextet_words
  by (subst disjunctive_add_eq_or; rule bit_word_eqI;
      auto simp: bit_simps Suc_Suc_diff dest: bit_imp_le_length)+

lemma Suc3_mod: "Suc (Suc (Suc n)) mod 3 = n mod 3"
  by presburger

lemma blocks3_induct [case_names empty one two block]:
  assumes "P []" "\<And>a. P [a]" "\<And>a b. P [a, b]" "\<And>a b c r. P r \<Longrightarrow> P (a # b # c # r)"
  shows "P (data :: byte list)"
  by (rule enc_spec.induct [of "\<lambda>_ _. P" undefined undefined]) (use assms in auto)

lemma map_sum_append_Nil [simp]: "map_sum (\<lambda>x. x) ((@) []) r = r"
  by (cases r) simp_all

text \<open>The text without its trailing pad characters, as \<open>decode\<close> counts them.\<close>

definition num_pads :: "byte list \<Rightarrow> byte \<Rightarrow> nat" where
  "num_pads t pad =
     (if t = [] then 0 else if t ! (length t - 2) = pad then 2
      else if t ! (length t - 1) = pad then 1 else 0)"

lemma decode_unpadded:
  "length t mod 4 \<noteq> 1 \<Longrightarrow> decode t 0 index = Some (dec_spec index t)"
  using decode_from [where data = t and j = 0 and P = "[]" and D = "[]" and Z = "[]"]
  by (simp add: decode_def Let_def decoded_size_def id_def)

lemma sub_mod4: "n mod 4 = 0 \<Longrightarrow> k \<le> 2 \<Longrightarrow> 4 \<le> n \<Longrightarrow> (n - k) mod 4 \<noteq> Suc 0"
proof -
  assume a: "n mod 4 = 0" "k \<le> 2" "4 \<le> n"
  then obtain m where "n = 4 * m" by auto
  then obtain j where "n = 4 * j + 4" using a(3) by (cases m) auto
  moreover have "k = 0 \<or> k = 1 \<or> k = 2" using a(2) by linarith
  ultimately show ?thesis by auto presburger+
qed

lemma decode_padded:
  assumes "length t mod 4 = 0" "pad \<noteq> 0"
  shows "decode t pad index = Some (dec_spec index (take (length t - num_pads t pad) t))"
proof (cases "t = []")
  case True
  then show ?thesis using assms(2) by (simp add: decode_def decode_tail_def)
next
  case False
  let ?k = "num_pads t pad" and ?n = "length t - num_pads t pad"
  have k: "?k \<le> 2" by (simp add: num_pads_def)
  have "0 < length t" using False by simp
  with assms(1) have len: "4 \<le> length t" by presburger
  then have n: "?n mod 4 \<noteq> 1" "length (take ?n t) = ?n" using assms(1) k sub_mod4 by simp_all
  have pads: "(if pad \<noteq> 0 \<and> length t > 0
                then do { c2 \<leftarrow> rd t (length t - 2);
                          if c2 = pad then Some 2
                          else do { c1 \<leftarrow> rd t (length t - 1); Some (if c1 = pad then 1 else 0) } }
                else Some 0) = Some ?k"
    using len assms(2) False by (auto simp: num_pads_def rd_in)
  show ?thesis
    using decode_from [where data = "take ?n t" and j = 0 and P = "[]" and D = "[]"
        and Z = "drop ?n t" and index = index] assms n
    unfolding decode_def Let_def pads by (simp add: decoded_size_def id_def)
qed

lemma num_pads_append:
  assumes "k \<le> 2" "pad \<notin> set t" "length (t @ replicate k pad) mod 4 = 0" "t = [] \<Longrightarrow> k = 0"
  shows "num_pads (t @ replicate k pad) pad = k"
proof (cases "t = []")
  case False
  have t2: "k \<le> 1 \<Longrightarrow> 2 \<le> length t" using assms(1,3) False by (cases t; cases "tl t") auto
  have "t ! (length t - 1) \<noteq> pad" "k \<le> 1 \<Longrightarrow> t ! (length t - 2) \<noteq> pad"
    using assms(2) False t2 nth_mem [of "length t - 1" t] nth_mem [of "length t - 2" t] by auto
  moreover have "k = 0 \<or> k = 1 \<or> k = 2" using assms(1) by linarith
  ultimately show ?thesis
    using False t2 by (auto simp: num_pads_def nth_append numeral_2_eq_2)
qed (use assms in \<open>simp add: num_pads_def\<close>)

section \<open>Alphabet and index as an interface\<close>

text \<open>
  What \<open>encode\<close> and \<open>decode\<close> need of the pair they are given: the index function undoes
  the alphabet.  The two pairs of the code are the interpretations below.
\<close>

locale b64_alphabet =
  fixes alphabet :: "byte list" and index :: "byte \<Rightarrow> b64_error + byte"
  assumes size64: "length alphabet = 64"
    and index_alphabet: "k < 64 \<Longrightarrow> index (alphabet ! k) = Inr (of_nat k)"
begin

lemma encode_is_spec: "encode data pad alphabet = Some (enc_spec alphabet pad data)"
  using encode_from [OF size64, of 0 "[]" "[]" data pad] by (simp add: encode_def)

lemma alphabet_inj: "j < 64 \<Longrightarrow> k < 64 \<Longrightarrow> alphabet ! j = alphabet ! k \<Longrightarrow> j = k"
proof -
  assume jk: "j < 64" "k < 64" "alphabet ! j = alphabet ! k"
  then have "(of_nat j :: byte) = of_nat k"
    using index_alphabet [of j] index_alphabet [of k] by simp
  then have "unat (of_nat j :: byte) = unat (of_nat k :: byte)" by simp
  then show "j = k" using jk by (simp add: unat_of_nat)
qed

lemma index_sextets:
  "index (alphabet ! sextet0 a) = Inr (of_nat (sextet0 a))"
  "index (alphabet ! sextet1 a b) = Inr (of_nat (sextet1 a b))"
  "index (alphabet ! sextet2 b c) = Inr (of_nat (sextet2 b c))"
  "index (alphabet ! sextet3 c) = Inr (of_nat (sextet3 c))"
  by (simp_all add: index_alphabet)

lemma dec_enc_spec:
  "dec_spec index (enc_spec alphabet 0 data) =
     Inr (data @ (if length data mod 3 = 0 then [] else [0]))"
  by (induction data rule: blocks3_induct) (simp_all add: index_sextets octets Suc3_mod)


text \<open>Padding only appends pad characters; the unpadded text is a prefix.\<close>

lemma enc_spec_pad:
  "pad \<noteq> 0 \<Longrightarrow> enc_spec alphabet pad data =
     enc_spec alphabet 0 data @ replicate ((3 - length data mod 3) mod 3) pad"
  by (induction data rule: blocks3_induct) (simp_all add: Suc3_mod replicate_small)

lemma length_enc_spec: "length (enc_spec alphabet pad data) = encoded_size (length data) pad"
  by (induction data rule: blocks3_induct)
    (simp_all add: encoded_size_add3, simp_all add: encoded_size_def)

lemma enc_spec_eq_Nil_iff: "enc_spec alphabet pad data = [] \<longleftrightarrow> data = []"
  by (induction data rule: blocks3_induct) simp_all

lemma set_enc_spec: "set (enc_spec alphabet 0 data) \<subseteq> set alphabet"
  by (induction data rule: blocks3_induct) (simp_all add: size64)

text \<open>Decoding undoes encoding, up to the zero byte a partial last block leaves.\<close>

lemma encoded_size_mod4: "encoded_size n 0 mod 4 \<noteq> 1" "pad \<noteq> 0 \<Longrightarrow> encoded_size n pad mod 4 = 0"
proof -
  have "n mod 3 = 0 \<or> n mod 3 = 1 \<or> n mod 3 = 2" by presburger
  then show "encoded_size n 0 mod 4 \<noteq> 1" by (auto simp: encoded_size_def mod_Suc)
qed (simp add: encoded_size_def)

lemma encode_decode_unpadded:
  "decode (enc_spec alphabet 0 data) 0 index =
     Some (Inr (data @ (if length data mod 3 = 0 then [] else [0])))"
  using decode_unpadded [of "enc_spec alphabet 0 data" index] encoded_size_mod4(1) [of "length data"]
  by (simp only: length_enc_spec dec_enc_spec not_False_eq_True simp_thms)

lemma encode_decode_padded:
  assumes "pad \<noteq> 0" "pad \<notin> set alphabet"
  shows "decode (enc_spec alphabet pad data) pad index =
     Some (Inr (data @ (if length data mod 3 = 0 then [] else [0])))"
proof -
  let ?t = "enc_spec alphabet 0 data" and ?k = "(3 - length data mod 3) mod 3"
  have t: "enc_spec alphabet pad data = ?t @ replicate ?k pad"
    by (rule enc_spec_pad) fact
  have m: "length (?t @ replicate ?k pad) mod 4 = 0"
    unfolding t [symmetric] using assms(1) by (simp add: length_enc_spec encoded_size_mod4)
  have "pad \<notin> set ?t" using set_enc_spec [of data] assms(2) by auto
  moreover have "?k < 3" by simp
  then have "?k \<le> 2" by linarith
  moreover have "?t = [] \<Longrightarrow> ?k = 0" by (simp add: enc_spec_eq_Nil_iff)
  ultimately have "num_pads (?t @ replicate ?k pad) pad = ?k" using m by (intro num_pads_append)
  then show ?thesis
    unfolding t using m assms(1) by (simp add: decode_padded dec_enc_spec)
qed

end

interpretation url: b64_alphabet url_alphabet b64url_index
proof
  fix k :: nat assume "k < 64"
  moreover have "\<forall>k\<in>set [0..<64]. b64url_index (url_alphabet ! k) = Inr (of_nat k)"
    by (simp add: url_alphabet_def b64url_index_def upt_rec)
  ultimately show "b64url_index (url_alphabet ! k) = Inr (of_nat k)" by simp
qed (simp add: url_alphabet_def)

interpretation raw: b64_alphabet raw_alphabet b64_index
proof
  fix k :: nat assume "k < 64"
  moreover have "\<forall>k\<in>set [0..<64]. b64_index (raw_alphabet ! k) = Inr (of_nat k)"
    by (simp add: raw_alphabet_def b64_index_def upt_rec)
  ultimately show "b64_index (raw_alphabet ! k) = Inr (of_nat k)" by simp
qed (simp add: raw_alphabet_def)

section \<open>Properties\<close>

text \<open>whatever the bytes and with or without padding, both encoders stay inside their
  buffers and both decoders read the text back: the data returns unchanged when its length is
  a multiple of three, and with one extra zero byte otherwise (the result string of the
  decoder is one byte too long for an incomplete block).\<close>

theorem b64_roundtrip:
  assumes "pad = 0 \<or> pad = chr CHR ''=''"
  shows "(\<exists>t. b64_encode data pad = Some t \<and>
            b64_decode t pad = Some (Inr (data @ (if length data mod 3 = 0 then [] else [0])))) \<and>
         (\<exists>t. b64url_encode data pad = Some t \<and>
            b64url_decode t pad = Some (Inr (data @ (if length data mod 3 = 0 then [] else [0]))))"
proof (cases "pad = 0")
  case True
  then show ?thesis
    unfolding b64_encode_def b64_decode_def b64url_encode_def b64url_decode_def
      raw.encode_is_spec url.encode_is_spec
    using raw.encode_decode_unpadded [of data] url.encode_decode_unpadded [of data] by auto
next
  case False
  moreover have "chr CHR ''='' \<notin> set raw_alphabet" "chr CHR ''='' \<notin> set url_alphabet"
    by (simp_all add: raw_alphabet_def url_alphabet_def)
  ultimately show ?thesis
    using assms raw.encode_decode_padded url.encode_decode_padded
    unfolding b64_encode_def b64_decode_def b64url_encode_def b64url_decode_def
      raw.encode_is_spec url.encode_is_spec by auto
qed

theorem b64_roundtrip_witness:
  "\<exists>t. b64_encode [77, 97] 61 = Some t \<and> b64_decode t 61 = Some (Inr [77, 97, 0])"
  using b64_roundtrip [of 61 "[77, 97]"] by simp

text \<open>both encoders return exactly the reference text, of the size computed before the
  loop, and never access memory out of range; both decoders never access memory out of range
  either, whatever the text and the pad character.\<close>

theorem b64_memory_safe:
  "b64_encode data pad = Some (enc_spec raw_alphabet pad data) \<and>
   b64url_encode data pad = Some (enc_spec url_alphabet pad data) \<and>
   length (enc_spec raw_alphabet pad data) = encoded_size (length data) pad \<and>
   length (enc_spec url_alphabet pad data) = encoded_size (length data) pad \<and>
   b64_decode t pad \<noteq> None \<and> b64url_decode t pad \<noteq> None"
proof -
  have "decode t pad index \<noteq> None" for index
  proof (cases "pad = 0")
    case True
    then show ?thesis
      using decode_unpadded [of t index] by (cases "length t mod 4 = 1") (auto simp: decode_def)
  next
    case False
    then show ?thesis
      using decode_padded [of t pad index] by (cases "length t mod 4 = 0") (auto simp: decode_def)
  qed
  then show ?thesis
    by (simp add: b64_encode_def b64url_encode_def b64_decode_def b64url_decode_def
        raw.encode_is_spec url.encode_is_spec raw.length_enc_spec url.length_enc_spec)
qed

end
