(* ===== verification/Percent.thy ===== *)
theory Percent
  imports Text
begin

text \<open>
  \<open>src/cpp/percent_codec.cpp\<close>: percent encoding of URIs.  \<open>percent_decode\<close> walks over
  \<open>encoded.c_str()\<close>, the characters of the string and a terminating NUL; a pointer into it
  is modelled by the characters from there to the end of the object, and each dereference
  is checked.
\<close>

abbreviation ord :: "char \<Rightarrow> int" where
  "ord c \<equiv> of_char c"

section \<open>Decoding\<close>

definition valid_hex :: "int \<Rightarrow> bool" where
  "valid_hex c \<longleftrightarrow> (ord CHR ''0'' \<le> c \<and> c \<le> ord CHR ''9'') \<or>
     (ord CHR ''a'' \<le> c \<and> c \<le> ord CHR ''f'') \<or> (ord CHR ''A'' \<le> c \<and> c \<le> ord CHR ''F'')"

definition nib :: "int \<Rightarrow> int" where
  "nib c = (if ord CHR ''0'' \<le> c \<and> c \<le> ord CHR ''9'' then c - ord CHR ''0''
     else if ord CHR ''a'' \<le> c \<and> c \<le> ord CHR ''f'' then c - ord CHR ''a'' + 10
     else c - ord CHR ''A'' + 10)"

text \<open>\<open>strchrnul\<close>: the offset of the first \<open>c\<close> or of the NUL.\<close>

definition strchrnul :: "string \<Rightarrow> char \<Rightarrow> nat option" where
  "strchrnul s c = (let n = length (takeWhile (\<lambda>x. x \<noteq> c \<and> x \<noteq> NUL) s) in
     if n < length s then Some n else None)"

text \<open>The contents of a NUL terminated buffer, as \<open>operator+=(const char*)\<close> appends it.\<close>

definition c_str_value :: "string \<Rightarrow> string" where
  "c_str_value s = takeWhile (\<lambda>x. x \<noteq> NUL) s"

function percent_decode_loop :: "string \<Rightarrow> string \<Rightarrow> (string + string) option" where
  "percent_decode_loop enc dec =
     (case rd enc 0 of None \<Rightarrow> None
      | Some e \<Rightarrow> if e = NUL then Some (Inr dec) else
     (case strchrnul enc CHR ''%'' of None \<Rightarrow> None
      | Some off \<Rightarrow>
     (case rd enc off of None \<Rightarrow> None
      | Some p0 \<Rightarrow>
        if p0 = CHR ''%'' then
          (case rd enc (off + 1) of None \<Rightarrow> None
           | Some p1 \<Rightarrow> if \<not> valid_hex (schar p1) then Some (Inl ''invalid encoded uri character'') else
          (case rd enc (off + 2) of None \<Rightarrow> None
           | Some p2 \<Rightarrow> if \<not> valid_hex (schar p2) then Some (Inl ''invalid encoded uri character'') else
             percent_decode_loop (drop (off + 3) enc)
               (dec @ take off enc @
                c_str_value [char_of_int (nib (schar p1) * 16 + nib (schar p2)), NUL])))
        else percent_decode_loop (drop off enc) (dec @ take off enc))))"
  by pat_completeness auto

lemma strchrnul_Some:
  "strchrnul s c = Some n \<Longrightarrow> n < length s \<and> (s ! n = c \<or> s ! n = NUL) \<and>
     take n s = takeWhile (\<lambda>x. x \<noteq> c \<and> x \<noteq> NUL) s"
proof -
  assume "strchrnul s c = Some n"
  then have n: "n = length (takeWhile (\<lambda>x. x \<noteq> c \<and> x \<noteq> NUL) s)" "n < length s"
    by (auto simp: strchrnul_def Let_def split: if_splits)
  with nth_length_takeWhile [of "\<lambda>x. x \<noteq> c \<and> x \<noteq> NUL" s] have "s ! n = c \<or> s ! n = NUL" by auto
  moreover have "take n s = takeWhile (\<lambda>x. x \<noteq> c \<and> x \<noteq> NUL) s"
    unfolding n(1) by (rule takeWhile_eq_take [symmetric])
  ultimately show ?thesis using n(2) by blast
qed

termination percent_decode_loop
proof (relation "measure (\<lambda>(enc, dec). length enc)")
  fix enc dec :: string and e off p0 p1 p2
  assume "rd enc 0 = Some e"
  then have "0 < length enc" by (simp add: rd_Some_iff)
  then show "((drop (off + 3) enc, dec @ take off enc @
      c_str_value [char_of_int (nib (schar p1) * 16 + nib (schar p2)), NUL]), enc, dec)
      \<in> measure (\<lambda>(enc, dec). length enc)" by simp
next
  fix enc dec :: string and e off p0
  assume *: "rd enc 0 = Some e" "e \<noteq> NUL" "strchrnul enc CHR ''%'' = Some off"
    "rd enc off = Some p0" "p0 \<noteq> CHR ''%''"
  then have "0 < length enc" "enc ! 0 = e" "enc ! off = p0" by (simp_all add: rd_Some_iff)
  moreover have "off \<noteq> 0" using strchrnul_Some [OF *(3)] * calculation by metis
  ultimately show "((drop off enc, dec @ take off enc), enc, dec) \<in> measure (\<lambda>(enc, dec). length enc)"
    by simp
qed simp

declare percent_decode_loop.simps [simp del]

definition percent_decode :: "string \<Rightarrow> (string + string) option" where
  "percent_decode encoded = percent_decode_loop (encoded @ [NUL]) []"

section \<open>Encoding\<close>

definition toa :: "int \<Rightarrow> char" where
  "toa n = (if n < 10 then char_of_int (ord CHR ''0'' + n) else char_of_int (ord CHR ''A'' + (n - 10)))"

definition unreserved :: "int \<Rightarrow> bool" where
  "unreserved c \<longleftrightarrow> (ord CHR ''A'' \<le> c \<and> c \<le> ord CHR ''Z'') \<or> (ord CHR ''a'' \<le> c \<and> c \<le> ord CHR ''z'') \<or>
     (ord CHR ''0'' \<le> c \<and> c \<le> ord CHR ''9'') \<or> c = ord CHR ''-'' \<or> c = ord CHR ''_'' \<or>
     c = ord CHR ''.'' \<or> c = ord CHR ''~''"

definition encode_char :: "char \<Rightarrow> string" where
  "encode_char c =
     (if unreserved (schar c) then c_str_value [c, NUL]
      else c_str_value [CHR ''%'', toa (drop_bit 4 (schar c) AND 15), toa (schar c AND 15), NUL])"

fun percent_encode :: "string \<Rightarrow> string" where
  "percent_encode [] = []"
| "percent_encode (c # plain) = encode_char c @ percent_encode plain"

section \<open>Reference decoder\<close>

fun pd_spec :: "string \<Rightarrow> string + string" where
  "pd_spec [] = Inr []"
| "pd_spec (c # r) =
     (if c = CHR ''%'' then
        (case r of a # b # r' \<Rightarrow>
           if valid_hex (schar a) \<and> valid_hex (schar b) then
             map_sum id ((@) (c_str_value [char_of_int (nib (schar a) * 16 + nib (schar b)), NUL])) (pd_spec r')
           else Inl ''invalid encoded uri character''
         | _ \<Rightarrow> Inl ''invalid encoded uri character'')
      else map_sum id (Cons c) (pd_spec r))"

lemma valid_hex_NUL: "\<not> valid_hex (schar NUL)"
  by (simp add: valid_hex_def schar_def)

lemma pd_spec_plain:
  "\<forall>c \<in> set s. c \<noteq> CHR ''%'' \<Longrightarrow> pd_spec (s @ t) = map_sum id ((@) s) (pd_spec t)"
proof (induction s)
  case Nil
  then show ?case by (cases "pd_spec t") simp_all
next
  case (Cons c s)
  then show ?case by (cases "pd_spec t") simp_all
qed

lemma map_sum_append: "map_sum id ((@) s) (map_sum id ((@) t) r) = map_sum id ((@) (s @ t)) r"
  by (cases r) simp_all

lemma map_sum_Nil: "map_sum (\<lambda>x. x) ((@) []) r = r"
  by (cases r) simp_all

text \<open>The loop reads the string up to its first NUL.\<close>

lemma strchrnul_split:
  assumes "\<forall>x \<in> set u. x \<noteq> c \<and> x \<noteq> NUL" "x = c \<or> x = NUL"
  shows "strchrnul (u @ x # w) c = Some (length u)"
proof -
  have "takeWhile (\<lambda>x. x \<noteq> c \<and> x \<noteq> NUL) (u @ x # w) = u"
    using assms by (subst takeWhile_append2) auto
  then show ?thesis by (simp add: strchrnul_def Let_def)
qed

lemma split_at_percent:
  obtains u v where "s = u @ v" "\<forall>c \<in> set u. c \<noteq> CHR ''%''" "v = [] \<or> (\<exists>w. v = CHR ''%'' # w)"
proof -
  have "dropWhile (\<lambda>x. x \<noteq> CHR ''%'') s = [] \<or> (\<exists>w. dropWhile (\<lambda>x. x \<noteq> CHR ''%'') s = CHR ''%'' # w)"
    by (induction s) auto
  then show ?thesis
    using that [of "takeWhile (\<lambda>x. x \<noteq> CHR ''%'') s" "dropWhile (\<lambda>x. x \<noteq> CHR ''%'') s"]
    by (auto dest: set_takeWhileD)
qed

lemma percent_decode_loop_NUL: "percent_decode_loop (NUL # t) dec = Some (Inr dec)"
  by (simp add: percent_decode_loop.simps rd_def)

text \<open>One round of the loop: a plain run \<open>u\<close>, then a percent sign, or the end.\<close>

lemma percent_decode_loop_run:
  assumes u: "u \<noteq> []" "\<forall>x \<in> set u. x \<noteq> CHR ''%'' \<and> x \<noteq> NUL"
  shows "percent_decode_loop (u @ NUL # t) dec = Some (Inr (dec @ u))"
proof -
  obtain a r where ar: "u = a # r" using u(1) by (cases u) auto
  have off: "strchrnul (u @ NUL # t) CHR ''%'' = Some (length u)"
    using u(2) by (intro strchrnul_split) auto
  then show ?thesis
    using u percent_decode_loop_NUL [of t "dec @ u"]
    by (subst percent_decode_loop.simps) (simp add: ar rd_def)
qed

lemma percent_decode_loop_escape:
  assumes u: "\<forall>x \<in> set u. x \<noteq> CHR ''%'' \<and> x \<noteq> NUL"
  shows "percent_decode_loop (u @ CHR ''%'' # w) dec =
    (case w of [] \<Rightarrow> None
     | p1 # w1 \<Rightarrow> if \<not> valid_hex (schar p1) then Some (Inl ''invalid encoded uri character'') else
    (case w1 of [] \<Rightarrow> None
     | p2 # w2 \<Rightarrow> if \<not> valid_hex (schar p2) then Some (Inl ''invalid encoded uri character'') else
       percent_decode_loop w2
         (dec @ u @ c_str_value [char_of_int (nib (schar p1) * 16 + nib (schar p2)), NUL])))"
proof -
  have off: "strchrnul (u @ CHR ''%'' # w) CHR ''%'' = Some (length u)"
    using u by (intro strchrnul_split) auto
  have hd: "\<exists>e. rd (u @ CHR ''%'' # w) 0 = Some e \<and> e \<noteq> NUL"
    using u by (cases u) (auto simp: rd_def)
  have "drop (length u + 3) (u @ CHR ''%'' # p1 # p2 # w2) = w2" for p1 p2 w2
    by (simp add: numeral_eq_Suc)
  then show ?thesis
    using hd off by (subst percent_decode_loop.simps)
      (auto simp: mem_simps rd_def [of "[]"] split: list.split simp del: drop_append)
qed

lemma percent_decode_loop_spec:
  "NUL \<notin> set s \<Longrightarrow>
     percent_decode_loop (s @ NUL # t) dec = Some (map_sum id ((@) dec) (pd_spec s))"
proof (induction "length s" arbitrary: s dec rule: less_induct)
  case less
  obtain u v where s: "s = u @ v" and u: "\<forall>c \<in> set u. c \<noteq> CHR ''%''"
    and v: "v = [] \<or> (\<exists>w. v = CHR ''%'' # w)" by (rule split_at_percent)
  have u': "\<forall>x \<in> set u. x \<noteq> CHR ''%'' \<and> x \<noteq> NUL" and v': "NUL \<notin> set v"
    using u less.prems s by auto
  show ?case
  proof (cases v)
    case Nil
    then show ?thesis
      using u' pd_spec_plain [OF u, of "[]"] s
      by (cases "u = []") (simp_all add: percent_decode_loop_NUL percent_decode_loop_run)
  next
    case (Cons p w)
    then have v: "v = CHR ''%'' # w" using v by auto
    note esc = percent_decode_loop_escape [OF u', of "w @ NUL # t" dec]
    have IH: "percent_decode_loop (r @ NUL # t) d = Some (map_sum id ((@) d) (pd_spec r))"
      if "w = a # b # r" for a b r d
      using that v s v' by (intro less.hyps) auto
    show ?thesis
      unfolding s v pd_spec_plain [OF u]
      by (cases w rule: remdups_adj.cases)
        (use esc IH in \<open>auto simp: valid_hex_NUL map_sum_append\<close>)
  qed
qed

text \<open>The hexadecimal digits of a character read back.\<close>

lemma digit_cases: "0 \<le> n \<Longrightarrow> n < 16 \<Longrightarrow> n \<in> set [0, 1, 2, 3, 4, 5, 6, 7, 8, 9, 10, 11, 12, 13, 14, 15 :: int]"
  by simp presburger

lemma and_15: "(k :: int) AND 15 = k mod 16"
proof -
  have "k AND 15 = take_bit 4 k" by (simp add: take_bit_eq_mask mask_eq_exp_minus_1)
  then show ?thesis by (simp add: take_bit_eq_mod)
qed

lemma toa_digit:
  assumes "0 \<le> n" "n < 16"
  shows "valid_hex (schar (toa n))" "nib (schar (toa n)) = n" "toa n \<noteq> NUL"
proof -
  have "valid_hex (schar (toa n)) \<and> nib (schar (toa n)) = n \<and> toa n \<noteq> NUL"
    if "n \<in> set [0, 1, 2, 3, 4, 5, 6, 7, 8, 9, 10, 11, 12, 13, 14, 15 :: int]"
    using that by (elim set_ConsD [elim_format] disjE)
      (simp_all add: toa_def char_of_int_def char_of_def schar_def valid_hex_def nib_def)
  then show "valid_hex (schar (toa n))" "nib (schar (toa n)) = n" "toa n \<noteq> NUL"
    using digit_cases [OF assms] by blast+
qed

lemma nibbles:
  fixes c :: char
  defines "h \<equiv> drop_bit 4 (schar c) AND 15" and "l \<equiv> schar c AND 15"
  shows "0 \<le> h" "h < 16" "0 \<le> l" "l < 16" "char_of_int (h * 16 + l) = c"
proof -
  have h: "h = schar c div 16 mod 16" and l: "l = schar c mod 16"
    by (simp_all add: h_def l_def drop_bit_eq_div and_15)
  show "0 \<le> h" "h < 16" "0 \<le> l" "l < 16" by (simp_all add: h l)
  have "h * 16 + l = schar c mod 256"
    unfolding h l using zmod_zmult2_eq [of 16 "schar c" 16] by simp
  then show "char_of_int (h * 16 + l) = c" by (simp add: char_of_int_def schar_mod)
qed

lemma nibble_toa_NUL [simp]:
  "toa (drop_bit 4 (schar c) AND 15) \<noteq> NUL" "toa (schar c AND 15) \<noteq> NUL"
  "NUL \<noteq> toa (drop_bit 4 (schar c) AND 15)" "NUL \<noteq> toa (schar c AND 15)"
  using nibbles(1-4) [of c] toa_digit(3) by metis+

lemma unreserved_plain: "unreserved (schar c) \<Longrightarrow> c \<noteq> NUL \<and> c \<noteq> CHR ''%''"
  by (auto simp: unreserved_def schar_def)

lemma encode_char_eq:
  "encode_char c =
     (if unreserved (schar c) then [c]
      else [CHR ''%'', toa (drop_bit 4 (schar c) AND 15), toa (schar c AND 15)])"
  using unreserved_plain [of c] by (simp add: encode_char_def c_str_value_def)

lemma encode_no_NUL: "NUL \<notin> set (percent_encode s)"
  by (induction s) (auto simp: encode_char_eq dest: unreserved_plain)

lemma pd_spec_encode: "pd_spec (percent_encode s) = Inr (filter (\<lambda>c. c \<noteq> NUL) s)"
proof (induction s)
  case (Cons c s)
  then show ?case
    using unreserved_plain [of c] nibbles [of c] toa_digit
    by (auto simp: encode_char_eq c_str_value_def)
qed simp

section \<open>Properties\<close>

text \<open>decoding an encoded string gives the string back, without its NUL characters
  (the decoder appends a C string, so an encoded NUL adds nothing).\<close>

theorem percent_roundtrip:
  "percent_decode (percent_encode s) = Some (Inr (filter (\<lambda>c. c \<noteq> NUL) s))"
  using percent_decode_loop_spec [OF encode_no_NUL [of s], of "[]" "[]"]
  by (simp add: percent_decode_def pd_spec_encode)

text \<open>the decoder never reads past the terminating NUL of its input and, up to the first
  NUL of the string, computes the reference decoding: it throws exactly on a percent sign that
  two hexadecimal digits do not follow.\<close>

theorem percent_decode_is_spec:
  "percent_decode s = Some (pd_spec (takeWhile (\<lambda>c. c \<noteq> NUL) s))"
proof -
  let ?u = "takeWhile (\<lambda>c. c \<noteq> NUL) s"
  have "NUL \<notin> set ?u" by (auto dest: set_takeWhileD)
  moreover have "\<exists>t. s @ [NUL] = ?u @ NUL # t"
    by (induction s) auto
  then obtain t where "s @ [NUL] = ?u @ NUL # t" ..
  ultimately show ?thesis
    using percent_decode_loop_spec [of ?u t "[]"]
    by (simp add: percent_decode_def id_def map_sum_Nil)
qed

end
