(* ===== verification/Big_Id.thy ===== *)
theory Big_Id
  imports Text
begin

text \<open>
  \<open>src/cpp/big_id.h\<close> and \<open>src/cpp/big_id_serial.h\<close>: 32 and 20 byte identifiers, their
  order and their hexadecimal text.
\<close>

section \<open>The identifiers and their order\<close>

text \<open>
  \<open>memcmp\<close> of two objects of the same size: the sign of the first difference of the bytes
  read as \<open>unsigned char\<close>.
\<close>

fun memcmp :: "byte list \<Rightarrow> byte list \<Rightarrow> int" where
  "memcmp (a # as) (b # bs) =
     (if a = b then memcmp as bs else if a < b then - 1 else 1)"
| "memcmp _ _ = 0"

typedef big_id = "{b :: byte list. length b = 32}"
  morphisms m_buf Big_Id by (rule exI [of _ "replicate 32 0"]) simp

typedef small_id = "{b :: byte list. length b = 20}"
  morphisms m_buf20 Small_Id by (rule exI [of _ "replicate 20 0"]) simp

setup_lifting type_definition_big_id
setup_lifting type_definition_small_id

lemma memcmp_refl [simp]: "memcmp a a = 0"
  by (induction a) simp_all

lemma memcmp_eq_0: "length a = length b \<Longrightarrow> memcmp a b = 0 \<longleftrightarrow> a = b"
  by (induction a b rule: memcmp.induct) auto

lemma memcmp_less: "length a = length b \<Longrightarrow> memcmp a b < 0 \<longleftrightarrow> a < b"
  by (induction a b rule: memcmp.induct) auto

instantiation big_id :: equal
begin

lift_definition equal_big_id :: "big_id \<Rightarrow> big_id \<Rightarrow> bool" is "\<lambda>a b. memcmp a b = 0" .

instance
  by standard (transfer, simp add: memcmp_eq_0)

end

instantiation small_id :: equal
begin

lift_definition equal_small_id :: "small_id \<Rightarrow> small_id \<Rightarrow> bool" is "\<lambda>a b. memcmp a b = 0" .

instance
  by standard (transfer, simp add: memcmp_eq_0)

end

definition big_id_lt :: "big_id \<Rightarrow> big_id \<Rightarrow> bool" where
  "big_id_lt a b \<longleftrightarrow> memcmp (m_buf a) (m_buf b) < 0"

lemma big_id_lt_iff: "big_id_lt a b \<longleftrightarrow> m_buf a < m_buf b"
  using m_buf [of a] m_buf [of b] by (simp add: big_id_lt_def memcmp_less)

instantiation big_id :: linorder
begin

definition less_big_id :: "big_id \<Rightarrow> big_id \<Rightarrow> bool" where
  "less_big_id = big_id_lt"

definition less_eq_big_id :: "big_id \<Rightarrow> big_id \<Rightarrow> bool" where
  "less_eq_big_id a b \<longleftrightarrow> \<not> b < a"

instance
  by standard (auto simp: less_eq_big_id_def less_big_id_def big_id_lt_iff m_buf_inject)

end

definition small_id_lt :: "small_id \<Rightarrow> small_id \<Rightarrow> bool" where
  "small_id_lt a b \<longleftrightarrow> memcmp (m_buf20 a) (m_buf20 b) < 0"

lemma small_id_lt_iff: "small_id_lt a b \<longleftrightarrow> m_buf20 a < m_buf20 b"
  using m_buf20 [of a] m_buf20 [of b] by (simp add: small_id_lt_def memcmp_less)

instantiation small_id :: linorder
begin

definition less_small_id :: "small_id \<Rightarrow> small_id \<Rightarrow> bool" where
  "less_small_id = small_id_lt"

definition less_eq_small_id :: "small_id \<Rightarrow> small_id \<Rightarrow> bool" where
  "less_eq_small_id a b \<longleftrightarrow> \<not> b < a"

instance
  by standard (auto simp: less_eq_small_id_def less_small_id_def small_id_lt_iff m_buf20_inject)

end

section \<open>Hexadecimal text\<close>

text \<open>One hexadecimal digit of the loop in \<open>to_ascii_hex\<close>.\<close>

definition hex_digit :: "byte \<Rightarrow> byte" where
  "hex_digit nib = (if nib < 10 then chr CHR ''0'' + nib else chr CHR ''a'' + nib - 10)"

fun to_ascii_hex_loop :: "byte list \<Rightarrow> byte list \<Rightarrow> nat list \<Rightarrow> byte list option" where
  "to_ascii_hex_loop ascii id_buff [] = Some ascii"
| "to_ascii_hex_loop ascii id_buff (i # is) = do {
     b \<leftarrow> rd id_buff i;
     let nib = drop_bit 4 b;
     ascii \<leftarrow> wr ascii (i * 2) (hex_digit nib);
     let nib = b AND 15;
     ascii \<leftarrow> wr ascii (i * 2 + 1) (hex_digit nib);
     to_ascii_hex_loop ascii id_buff is }"

definition to_ascii_hex :: "byte list \<Rightarrow> byte list \<Rightarrow> nat \<Rightarrow> byte list option" where
  "to_ascii_hex ascii id_buff id_len = do {
     ascii \<leftarrow> to_ascii_hex_loop ascii id_buff [0..<id_len];
     wr ascii (id_len * 2) 0 }"

definition hex_to_i :: "byte \<Rightarrow> byte" where
  "hex_to_i nib =
     (if chr CHR ''0'' \<le> nib \<and> nib \<le> chr CHR ''9'' then nib - chr CHR ''0''
      else if chr CHR ''a'' \<le> nib \<and> nib \<le> chr CHR ''f'' then nib - chr CHR ''a'' + 10
      else if chr CHR ''A'' \<le> nib \<and> nib \<le> chr CHR ''F'' then nib - chr CHR ''A'' + 10
      else 0)"

text \<open>
  \<open>toHexString\<close> fills a local array of \<open>2 * id_size + 1\<close> characters and returns the C string
  in it; \<open>sdisp\<close> prints the first six digits and three dots.
\<close>

definition c_string :: "byte list \<Rightarrow> byte list" where
  "c_string a = takeWhile (\<lambda>c. c \<noteq> 0) a"

definition toHexString :: "big_id \<Rightarrow> byte list option" where
  "toHexString bid = map_option c_string (to_ascii_hex (replicate 65 0) (m_buf bid) 32)"

definition toHexString_small :: "small_id \<Rightarrow> byte list option" where
  "toHexString_small sid = map_option c_string (to_ascii_hex (replicate 41 0) (m_buf20 sid) 20)"

definition short_display :: "byte list \<Rightarrow> nat \<Rightarrow> byte list option" where
  "short_display id_buff id_len = do {
     ascii \<leftarrow> to_ascii_hex (replicate (id_len * 2 + 1) 0) id_buff id_len;
     ascii \<leftarrow> wr ascii 8 (chr CHR ''.'');
     ascii \<leftarrow> wr ascii 7 (chr CHR ''.'');
     ascii \<leftarrow> wr ascii 6 (chr CHR ''.'');
     ascii \<leftarrow> wr ascii 9 0;
     Some (c_string ascii) }"

text \<open>Reading an identifier: two characters of \<open>str.c_str()\<close> per byte, unchecked.\<close>

fun hex_string_bytes :: "byte list \<Rightarrow> nat list \<Rightarrow> byte list option" where
  "hex_string_bytes ss [] = Some []"
| "hex_string_bytes ss (i # is) = do {
     nib1 \<leftarrow> rd ss (2 * i);
     nib2 \<leftarrow> rd ss (2 * i + 1);
     bs \<leftarrow> hex_string_bytes ss is;
     Some ((push_bit 4 (hex_to_i nib1) + hex_to_i nib2) # bs) }"

definition bigHexStringId :: "byte list \<Rightarrow> big_id option" where
  "bigHexStringId str = map_option Big_Id (hex_string_bytes (str @ [0]) [0..<32])"

definition smallHexStringId :: "byte list \<Rightarrow> small_id option" where
  "smallHexStringId str = map_option Small_Id (hex_string_bytes (str @ [0]) [0..<20])"

section \<open>The text as a function of the bytes\<close>

definition hex_text :: "byte list \<Rightarrow> byte list" where
  "hex_text bs = concat (map (\<lambda>b. [hex_digit (drop_bit 4 b), hex_digit (b AND 15)]) bs)"

lemma hex_text_simps [simp]:
  "hex_text [] = []"
  "hex_text (b # bs) = hex_digit (drop_bit 4 b) # hex_digit (b AND 15) # hex_text bs"
  by (simp_all add: hex_text_def)

lemma length_hex_text [simp]: "length (hex_text bs) = 2 * length bs"
  by (induction bs) simp_all

lemma replicate_two: "replicate (Suc (Suc n)) x = x # x # replicate n x"
  by simp

lemma to_ascii_hex_loop_spec:
  "j * 2 = length P \<Longrightarrow> j = length D \<Longrightarrow>
     to_ascii_hex_loop (P @ replicate (2 * length bs) 0 @ Z) (D @ bs) [j..<j + length bs] =
       Some (P @ hex_text bs @ Z)"
proof (induction bs arbitrary: j P D)
  case (Cons b bs)
  let ?P = "P @ [hex_digit (drop_bit 4 b), hex_digit (b AND 15)]"
  have "[j..<j + length (b # bs)] = j # [Suc j..<Suc j + length bs]"
    by (simp add: upt_rec del: upt_Suc)
  then show ?case
    using Cons.IH [of "Suc j" ?P "D @ [b]"] Cons.prems by (simp add: mem_simps del: upt_Suc)
qed simp

lemma to_ascii_hex_spec:
  assumes "length bs = n"
  shows "to_ascii_hex (replicate (Suc (2 * n)) 0) bs n = Some (hex_text bs @ [0])"
proof -
  have "replicate (Suc (2 * n)) (0::byte) = [] @ replicate (2 * length bs) 0 @ [0]"
    using assms by (simp add: replicate_append_same)
  then show ?thesis
    using to_ascii_hex_loop_spec [of 0 "[]" "[]" bs "[0]"] assms
      wr_append_0 [of "hex_text bs" 0 "[]" 0]
    by (simp add: to_ascii_hex_def mult.commute)
qed

lemma byte_lt_16_cases: "n < 16 \<Longrightarrow> n \<in> of_nat ` {0..<16::nat}" for n :: byte
  by (rule image_eqI [of _ _ "unat n"]) (simp_all add: word_less_nat_alt)

lemma hex_digit_read:
  assumes "n < (16 :: byte)"
  shows "hex_to_i (hex_digit n) = n" "hex_digit n \<noteq> 0"
proof -
  have "\<forall>k \<in> set [0..<16]. hex_to_i (hex_digit (of_nat k)) = of_nat k \<and> hex_digit (of_nat k) \<noteq> 0"
    by (simp add: upt_rec hex_digit_def hex_to_i_def)
  then show "hex_to_i (hex_digit n) = n" "hex_digit n \<noteq> 0"
    using byte_lt_16_cases [OF assms] by auto
qed

lemma nibble_bounds [simp]: "drop_bit 4 b < (16 :: byte)" "b AND 15 < (16 :: byte)"
proof -
  have "unat b < 2 ^ LENGTH(8)" by (rule unsigned_less)
  then show "drop_bit 4 b < (16 :: byte)"
    by (simp add: word_less_nat_alt drop_bit_eq_div unat_div less_mult_imp_div_less)
  have "b AND 15 \<le> 15" by (rule word_and_le1)
  then show "b AND 15 < (16 :: byte)" by (rule order.strict_trans1) simp
qed

lemma nibble_join: "push_bit 4 (drop_bit 4 b) + (b AND 15) = (b :: byte)"
proof -
  have "b AND 15 = take_bit 4 b" by (simp add: take_bit_eq_mask mask_eq_exp_minus_1)
  then show ?thesis using bits_ident [of 4 b] by simp
qed

lemma hex_string_bytes_spec:
  "j = length P \<Longrightarrow> hex_string_bytes (hex_text (P @ bs) @ Z) [j..<j + length bs] = Some bs"
proof (induction bs arbitrary: j P)
  case (Cons b bs)
  have upt: "[length P..<Suc (length P + length bs)] = length P # [Suc (length P)..<Suc (length P + length bs)]"
    by (simp add: upt_rec del: upt_Suc)
  have hx: "hex_text (P @ b # bs) = hex_text P @ hex_digit (drop_bit 4 b) # hex_digit (b AND 15) # hex_text bs"
    by (simp add: hex_text_def)
  have rds: "rd (hex_text P @ x # y # t) (2 * length P) = Some x"
    "rd (hex_text P @ x # y # t) (Suc (2 * length P)) = Some y" for x y t
    using rd_append [of "hex_text P" "x # y # t" 0] rd_append [of "hex_text P" "x # y # t" 1]
    by (simp_all add: mem_simps)
  show ?case
    using Cons.IH [of "Suc j" "P @ [b]"] Cons.prems
    by (simp add: upt hx rds hex_digit_read nibble_join del: upt_Suc)
qed simp

lemma hex_digit_ascii: "hex_digit (drop_bit 4 b) \<noteq> 0" "hex_digit (b AND 15) \<noteq> 0"
  by (simp_all add: hex_digit_read)

lemma c_string_hex: "c_string (hex_text bs @ [0]) = hex_text bs"
proof -
  have "\<forall>c \<in> set (hex_text bs). c \<noteq> 0" by (induction bs) (simp_all add: hex_digit_ascii)
  then show ?thesis by (simp add: c_string_def takeWhile_append)
qed

section \<open>The two identifier types share one text format\<close>

locale hex_id =
  fixes rep :: "'i \<Rightarrow> byte list" and abs :: "byte list \<Rightarrow> 'i" and size :: nat
    and to_hex :: "'i \<Rightarrow> byte list option" and of_hex :: "byte list \<Rightarrow> 'i option"
  assumes rep_length: "length (rep i) = size"
    and abs_rep: "abs (rep i) = i"
    and to_hex_eq: "to_hex i = map_option c_string (to_ascii_hex (replicate (Suc (2 * size)) 0) (rep i) size)"
    and of_hex_eq: "of_hex s = map_option abs (hex_string_bytes (s @ [0]) [0..<size])"
begin

lemma to_hex_text: "to_hex i = Some (hex_text (rep i))"
  unfolding to_hex_eq to_ascii_hex_spec [OF rep_length] by (simp add: c_string_hex)

lemma of_hex_to_hex: "of_hex (hex_text (rep i) @ z) = Some i"
  using hex_string_bytes_spec [of 0 "[]" "rep i" "z @ [0]"]
  by (simp add: of_hex_eq rep_length abs_rep)

lemma to_hex_inj: "to_hex i = to_hex j \<Longrightarrow> i = j"
  using of_hex_to_hex [of i "[]"] of_hex_to_hex [of j "[]"] by (simp add: to_hex_text)

end

interpretation big: hex_id m_buf Big_Id 32 toHexString bigHexStringId
proof
  show "length (m_buf i) = 32" for i using m_buf [of i] by simp
qed (simp_all add: m_buf_inverse toHexString_def bigHexStringId_def)

interpretation small: hex_id m_buf20 Small_Id 20 toHexString_small smallHexStringId
proof
  show "length (m_buf20 i) = 20" for i using m_buf20 [of i] by simp
qed (simp_all add: m_buf20_inverse toHexString_small_def smallHexStringId_def)

section \<open>Properties\<close>

text \<open>the hexadecimal text of an identifier has two digits per byte, writing it never
  leaves the local array, and reading the text (also when more characters follow) gives the
  identifier back, for both identifier types.\<close>

theorem hex_id_roundtrip:
  "toHexString i = Some (hex_text (m_buf i)) \<and> length (hex_text (m_buf i)) = 64 \<and>
   bigHexStringId (hex_text (m_buf i) @ z) = Some i \<and>
   toHexString_small j = Some (hex_text (m_buf20 j)) \<and> length (hex_text (m_buf20 j)) = 40 \<and>
   smallHexStringId (hex_text (m_buf20 j) @ z) = Some j"
  using big.to_hex_text [of i] big.of_hex_to_hex [of i z] small.to_hex_text [of j]
    small.of_hex_to_hex [of j z] big.rep_length [of i] small.rep_length [of j] by simp

lemma hex_string_bytes_defined:
  "hex_string_bytes ss ks \<noteq> None \<longleftrightarrow> (\<forall>k \<in> set ks. 2 * k + 1 < length ss)"
  by (induction ks) (auto simp: rd_def split: Option.bind_splits)

text \<open>reading an identifier from a text that is too short reads past the end of the
  string: it is safe exactly when the text has at least 63 characters (39 for the short
  identifiers), the terminating NUL serving as the last digit.\<close>

theorem hex_id_read_bound:
  "(bigHexStringId s \<noteq> None \<longleftrightarrow> 63 \<le> length s) \<and> (smallHexStringId s \<noteq> None \<longleftrightarrow> 39 \<le> length s)"
proof -
  have "(\<forall>k \<in> set [0..<n]. 2 * k + 1 < length (s @ [0::byte])) \<longleftrightarrow> 2 * n - 1 \<le> length s" if "0 < n" for n
    using that by (auto dest: bspec [of _ _ "n - 1"])
  from this [of 32] this [of 20] show ?thesis
    using hex_string_bytes_defined [of "s @ [0]" "[0..<32]"]
      hex_string_bytes_defined [of "s @ [0]" "[0..<20]"]
    by (simp add: bigHexStringId_def smallHexStringId_def del: upt_Suc)
qed

end
