(* ===== verification/Crc.thy ===== *)
theory Crc
  imports Prelude
begin

text \<open>
  The two table driven checksums: the CRC-32 of STUN's FINGERPRINT attribute
  (\<open>src/cpp/stun.cpp\<close>) and the CRC-32C of the SCTP common header
  (\<open>src/cpp/sctp_dispatch.cpp\<close>).  Both tables are proved to be the tables of their
  polynomials, so that the table driven update is the bitwise one; every polynomial with the
  highest bit set gives a checksum that notices any change of a single byte.
\<close>

section \<open>The tables and the loops of the code\<close>

definition stun_crc32_tab :: "u32 list" where
  "stun_crc32_tab = [
    0x00000000, 0x77073096, 0xee0e612c, 0x990951ba, 0x076dc419, 0x706af48f,
    0xe963a535, 0x9e6495a3, 0x0edb8832, 0x79dcb8a4, 0xe0d5e91e, 0x97d2d988,
    0x09b64c2b, 0x7eb17cbd, 0xe7b82d07, 0x90bf1d91, 0x1db71064, 0x6ab020f2,
    0xf3b97148, 0x84be41de, 0x1adad47d, 0x6ddde4eb, 0xf4d4b551, 0x83d385c7,
    0x136c9856, 0x646ba8c0, 0xfd62f97a, 0x8a65c9ec, 0x14015c4f, 0x63066cd9,
    0xfa0f3d63, 0x8d080df5, 0x3b6e20c8, 0x4c69105e, 0xd56041e4, 0xa2677172,
    0x3c03e4d1, 0x4b04d447, 0xd20d85fd, 0xa50ab56b, 0x35b5a8fa, 0x42b2986c,
    0xdbbbc9d6, 0xacbcf940, 0x32d86ce3, 0x45df5c75, 0xdcd60dcf, 0xabd13d59,
    0x26d930ac, 0x51de003a, 0xc8d75180, 0xbfd06116, 0x21b4f4b5, 0x56b3c423,
    0xcfba9599, 0xb8bda50f, 0x2802b89e, 0x5f058808, 0xc60cd9b2, 0xb10be924,
    0x2f6f7c87, 0x58684c11, 0xc1611dab, 0xb6662d3d, 0x76dc4190, 0x01db7106,
    0x98d220bc, 0xefd5102a, 0x71b18589, 0x06b6b51f, 0x9fbfe4a5, 0xe8b8d433,
    0x7807c9a2, 0x0f00f934, 0x9609a88e, 0xe10e9818, 0x7f6a0dbb, 0x086d3d2d,
    0x91646c97, 0xe6635c01, 0x6b6b51f4, 0x1c6c6162, 0x856530d8, 0xf262004e,
    0x6c0695ed, 0x1b01a57b, 0x8208f4c1, 0xf50fc457, 0x65b0d9c6, 0x12b7e950,
    0x8bbeb8ea, 0xfcb9887c, 0x62dd1ddf, 0x15da2d49, 0x8cd37cf3, 0xfbd44c65,
    0x4db26158, 0x3ab551ce, 0xa3bc0074, 0xd4bb30e2, 0x4adfa541, 0x3dd895d7,
    0xa4d1c46d, 0xd3d6f4fb, 0x4369e96a, 0x346ed9fc, 0xad678846, 0xda60b8d0,
    0x44042d73, 0x33031de5, 0xaa0a4c5f, 0xdd0d7cc9, 0x5005713c, 0x270241aa,
    0xbe0b1010, 0xc90c2086, 0x5768b525, 0x206f85b3, 0xb966d409, 0xce61e49f,
    0x5edef90e, 0x29d9c998, 0xb0d09822, 0xc7d7a8b4, 0x59b33d17, 0x2eb40d81,
    0xb7bd5c3b, 0xc0ba6cad, 0xedb88320, 0x9abfb3b6, 0x03b6e20c, 0x74b1d29a,
    0xead54739, 0x9dd277af, 0x04db2615, 0x73dc1683, 0xe3630b12, 0x94643b84,
    0x0d6d6a3e, 0x7a6a5aa8, 0xe40ecf0b, 0x9309ff9d, 0x0a00ae27, 0x7d079eb1,
    0xf00f9344, 0x8708a3d2, 0x1e01f268, 0x6906c2fe, 0xf762575d, 0x806567cb,
    0x196c3671, 0x6e6b06e7, 0xfed41b76, 0x89d32be0, 0x10da7a5a, 0x67dd4acc,
    0xf9b9df6f, 0x8ebeeff9, 0x17b7be43, 0x60b08ed5, 0xd6d6a3e8, 0xa1d1937e,
    0x38d8c2c4, 0x4fdff252, 0xd1bb67f1, 0xa6bc5767, 0x3fb506dd, 0x48b2364b,
    0xd80d2bda, 0xaf0a1b4c, 0x36034af6, 0x41047a60, 0xdf60efc3, 0xa867df55,
    0x316e8eef, 0x4669be79, 0xcb61b38c, 0xbc66831a, 0x256fd2a0, 0x5268e236,
    0xcc0c7795, 0xbb0b4703, 0x220216b9, 0x5505262f, 0xc5ba3bbe, 0xb2bd0b28,
    0x2bb45a92, 0x5cb36a04, 0xc2d7ffa7, 0xb5d0cf31, 0x2cd99e8b, 0x5bdeae1d,
    0x9b64c2b0, 0xec63f226, 0x756aa39c, 0x026d930a, 0x9c0906a9, 0xeb0e363f,
    0x72076785, 0x05005713, 0x95bf4a82, 0xe2b87a14, 0x7bb12bae, 0x0cb61b38,
    0x92d28e9b, 0xe5d5be0d, 0x7cdcefb7, 0x0bdbdf21, 0x86d3d2d4, 0xf1d4e242,
    0x68ddb3f8, 0x1fda836e, 0x81be16cd, 0xf6b9265b, 0x6fb077e1, 0x18b74777,
    0x88085ae6, 0xff0f6a70, 0x66063bca, 0x11010b5c, 0x8f659eff, 0xf862ae69,
    0x616bffd3, 0x166ccf45, 0xa00ae278, 0xd70dd2ee, 0x4e048354, 0x3903b3c2,
    0xa7672661, 0xd06016f7, 0x4969474d, 0x3e6e77db, 0xaed16a4a, 0xd9d65adc,
    0x40df0b66, 0x37d83bf0, 0xa9bcae53, 0xdebb9ec5, 0x47b2cf7f, 0x30b5ffe9,
    0xbdbdf21c, 0xcabac28a, 0x53b39330, 0x24b4a3a6, 0xbad03605, 0xcdd70693,
    0x54de5729, 0x23d967bf, 0xb3667a2e, 0xc4614ab8, 0x5d681b02, 0x2a6f2b94,
    0xb40bbe37, 0xc30c8ea1, 0x5a05df1b, 0x2d02ef8d]"

definition sctp_crc32_tab :: "u32 list" where
  "sctp_crc32_tab = [
    0x00000000, 0xf26b8303, 0xe13b70f7, 0x1350f3f4, 0xc79a971f, 0x35f1141c,
    0x26a1e7e8, 0xd4ca64eb, 0x8ad958cf, 0x78b2dbcc, 0x6be22838, 0x9989ab3b,
    0x4d43cfd0, 0xbf284cd3, 0xac78bf27, 0x5e133c24, 0x105ec76f, 0xe235446c,
    0xf165b798, 0x030e349b, 0xd7c45070, 0x25afd373, 0x36ff2087, 0xc494a384,
    0x9a879fa0, 0x68ec1ca3, 0x7bbcef57, 0x89d76c54, 0x5d1d08bf, 0xaf768bbc,
    0xbc267848, 0x4e4dfb4b, 0x20bd8ede, 0xd2d60ddd, 0xc186fe29, 0x33ed7d2a,
    0xe72719c1, 0x154c9ac2, 0x061c6936, 0xf477ea35, 0xaa64d611, 0x580f5512,
    0x4b5fa6e6, 0xb93425e5, 0x6dfe410e, 0x9f95c20d, 0x8cc531f9, 0x7eaeb2fa,
    0x30e349b1, 0xc288cab2, 0xd1d83946, 0x23b3ba45, 0xf779deae, 0x05125dad,
    0x1642ae59, 0xe4292d5a, 0xba3a117e, 0x4851927d, 0x5b016189, 0xa96ae28a,
    0x7da08661, 0x8fcb0562, 0x9c9bf696, 0x6ef07595, 0x417b1dbc, 0xb3109ebf,
    0xa0406d4b, 0x522bee48, 0x86e18aa3, 0x748a09a0, 0x67dafa54, 0x95b17957,
    0xcba24573, 0x39c9c670, 0x2a993584, 0xd8f2b687, 0x0c38d26c, 0xfe53516f,
    0xed03a29b, 0x1f682198, 0x5125dad3, 0xa34e59d0, 0xb01eaa24, 0x42752927,
    0x96bf4dcc, 0x64d4cecf, 0x77843d3b, 0x85efbe38, 0xdbfc821c, 0x2997011f,
    0x3ac7f2eb, 0xc8ac71e8, 0x1c661503, 0xee0d9600, 0xfd5d65f4, 0x0f36e6f7,
    0x61c69362, 0x93ad1061, 0x80fde395, 0x72966096, 0xa65c047d, 0x5437877e,
    0x4767748a, 0xb50cf789, 0xeb1fcbad, 0x197448ae, 0x0a24bb5a, 0xf84f3859,
    0x2c855cb2, 0xdeeedfb1, 0xcdbe2c45, 0x3fd5af46, 0x7198540d, 0x83f3d70e,
    0x90a324fa, 0x62c8a7f9, 0xb602c312, 0x44694011, 0x5739b3e5, 0xa55230e6,
    0xfb410cc2, 0x092a8fc1, 0x1a7a7c35, 0xe811ff36, 0x3cdb9bdd, 0xceb018de,
    0xdde0eb2a, 0x2f8b6829, 0x82f63b78, 0x709db87b, 0x63cd4b8f, 0x91a6c88c,
    0x456cac67, 0xb7072f64, 0xa457dc90, 0x563c5f93, 0x082f63b7, 0xfa44e0b4,
    0xe9141340, 0x1b7f9043, 0xcfb5f4a8, 0x3dde77ab, 0x2e8e845f, 0xdce5075c,
    0x92a8fc17, 0x60c37f14, 0x73938ce0, 0x81f80fe3, 0x55326b08, 0xa759e80b,
    0xb4091bff, 0x466298fc, 0x1871a4d8, 0xea1a27db, 0xf94ad42f, 0x0b21572c,
    0xdfeb33c7, 0x2d80b0c4, 0x3ed04330, 0xccbbc033, 0xa24bb5a6, 0x502036a5,
    0x4370c551, 0xb11b4652, 0x65d122b9, 0x97baa1ba, 0x84ea524e, 0x7681d14d,
    0x2892ed69, 0xdaf96e6a, 0xc9a99d9e, 0x3bc21e9d, 0xef087a76, 0x1d63f975,
    0x0e330a81, 0xfc588982, 0xb21572c9, 0x407ef1ca, 0x532e023e, 0xa145813d,
    0x758fe5d6, 0x87e466d5, 0x94b49521, 0x66df1622, 0x38cc2a06, 0xcaa7a905,
    0xd9f75af1, 0x2b9cd9f2, 0xff56bd19, 0x0d3d3e1a, 0x1e6dcdee, 0xec064eed,
    0xc38d26c4, 0x31e6a5c7, 0x22b65633, 0xd0ddd530, 0x0417b1db, 0xf67c32d8,
    0xe52cc12c, 0x1747422f, 0x49547e0b, 0xbb3ffd08, 0xa86f0efc, 0x5a048dff,
    0x8ecee914, 0x7ca56a17, 0x6ff599e3, 0x9d9e1ae0, 0xd3d3e1ab, 0x21b862a8,
    0x32e8915c, 0xc083125f, 0x144976b4, 0xe622f5b7, 0xf5720643, 0x07198540,
    0x590ab964, 0xab613a67, 0xb831c993, 0x4a5a4a90, 0x9e902e7b, 0x6cfbad78,
    0x7fab5e8c, 0x8dc0dd8f, 0xe330a81a, 0x115b2b19, 0x020bd8ed, 0xf0605bee,
    0x24aa3f05, 0xd6c1bc06, 0xc5914ff2, 0x37faccf1, 0x69e9f0d5, 0x9b8273d6,
    0x88d28022, 0x7ab90321, 0xae7367ca, 0x5c18e4c9, 0x4f48173d, 0xbd23943e,
    0xf36e6f75, 0x0105ec76, 0x12551f82, 0xe03e9c81, 0x34f4f86a, 0xc69f7b69,
    0xd5cf889d, 0x27a40b9e, 0x79b737ba, 0x8bdcb4b9, 0x988c474d, 0x6ae7c44e,
    0xbe2da0a5, 0x4c4623a6, 0x5f16d052, 0xad7d5351]"

text \<open>\<open>crc = crc32_tab[(crc ^ *p++) & 0xff] ^ (crc >> 8)\<close>, once per byte.\<close>

definition crc_step :: "u32 list \<Rightarrow> u32 \<Rightarrow> byte \<Rightarrow> u32 option" where
  "crc_step tab crc b = do {
     t \<leftarrow> rd tab (unat ((crc XOR ucast b) AND 0xff));
     Some (t XOR drop_bit 8 crc) }"

fun crc_loop :: "u32 list \<Rightarrow> u32 \<Rightarrow> byte list \<Rightarrow> u32 option" where
  "crc_loop tab crc [] = Some crc"
| "crc_loop tab crc (b # bs) = do { crc \<leftarrow> crc_step tab crc b; crc_loop tab crc bs }"

definition fingerprint_xor_value :: u32 where
  "fingerprint_xor_value = 0x5354554E"

definition crc32_xor :: "byte list \<Rightarrow> u32 option" where
  "crc32_xor buf = do {
     crc \<leftarrow> crc_loop stun_crc32_tab (NOT 0) buf;
     Some ((crc XOR NOT 0) XOR fingerprint_xor_value) }"

definition swap_bytes :: "u32 \<Rightarrow> u32" where
  "swap_bytes crc = push_bit 24 crc + (push_bit 8 crc AND 0x00ff0000) +
     (drop_bit 8 crc AND 0x0000ff00) + drop_bit 24 crc"

definition crc32_sctp :: "byte list \<Rightarrow> u32 option" where
  "crc32_sctp buf =
     (if length buf < 12 then Some (NOT 0)
      else do {
        pre \<leftarrow> rd_range buf 0 8;
        crc \<leftarrow> crc_loop sctp_crc32_tab (NOT 0) pre;
        crc \<leftarrow> crc_loop sctp_crc32_tab crc [0, 0, 0, 0];
        rest \<leftarrow> rd_range buf 12 (length buf - 12);
        crc \<leftarrow> crc_loop sctp_crc32_tab crc rest;
        Some (swap_bytes (NOT crc)) })"

section \<open>The bitwise reference\<close>

definition crc_bit :: "u32 \<Rightarrow> u32 \<Rightarrow> u32" where
  "crc_bit poly c = (if bit c 0 then drop_bit 1 c XOR poly else drop_bit 1 c)"

definition crc_byte :: "u32 \<Rightarrow> u32 \<Rightarrow> byte \<Rightarrow> u32" where
  "crc_byte poly c b = (crc_bit poly ^^ 8) (c XOR ucast b)"

definition stun_poly :: u32 where "stun_poly = 0xedb88320"
definition sctp_poly :: u32 where "sctp_poly = 0x82f63b78"

lemma crc_bit_linear: "crc_bit p (a XOR b) = crc_bit p a XOR crc_bit p b"
  by (rule bit_word_eqI) (auto simp: crc_bit_def bit_simps)

lemma crc_bits_linear: "(crc_bit p ^^ n) (a XOR b) = (crc_bit p ^^ n) a XOR (crc_bit p ^^ n) b"
  by (induction n) (simp_all add: crc_bit_linear)

lemma crc_bits_0 [simp]: "(crc_bit p ^^ n) 0 = 0"
  by (induction n) (simp_all add: crc_bit_def)

lemma crc_bits_high: "take_bit n z = 0 \<Longrightarrow> (crc_bit p ^^ n) z = drop_bit n z"
proof (induction n arbitrary: z)
  case (Suc n)
  have "bit (take_bit (Suc n) z) 0 = bit z 0" by (simp add: bit_simps)
  then have "crc_bit p z = drop_bit 1 z" using Suc.prems by (simp add: crc_bit_def)
  moreover have "take_bit n (drop_bit 1 z) = drop_bit 1 (take_bit (Suc n) z)"
    by (simp add: drop_bit_take_bit)
  ultimately show ?case
    using Suc.IH [of "drop_bit 1 z"] Suc.prems by (simp add: funpow_Suc_right del: funpow.simps)
qed simp

text \<open>The table of a linear function is built by doubling.\<close>

lemma of_nat_power_xor:
  assumes "i < 2 ^ k" "k < 32"
  shows "(of_nat (2 ^ k + i) :: u32) = 2 ^ k XOR of_nat i"
proof -
  have "2 ^ k AND (of_nat i :: u32) = 0"
  proof (rule bit_word_eqI)
    fix n assume "n < LENGTH(32)"
    have "i div 2 ^ k = 0" using assms by simp
    then show "bit (2 ^ k AND (of_nat i :: u32)) n \<longleftrightarrow> bit (0 :: u32) n"
      by (auto simp: bit_simps bit_nat_def)
  qed
  then show ?thesis by (simp add: disjunctive_xor_eq_or disjunctive_add_eq_or)
qed

definition double_table :: "u32 \<Rightarrow> u32 list \<Rightarrow> u32 list" where
  "double_table v t = t @ map (\<lambda>x. v XOR x) t"

lemma linear_table:
  fixes f :: "u32 \<Rightarrow> u32"
  assumes lin: "\<And>a b. f (a XOR b) = f a XOR f b" and k: "k < 32"
  shows "map (\<lambda>i. f (of_nat i)) [0..<2 ^ Suc k] =
    double_table (f (2 ^ k)) (map (\<lambda>i. f (of_nat i)) [0..<2 ^ k])"
proof -
  have shift: "map (\<lambda>i. 2 ^ k + i) [0..<2 ^ k] = [2 ^ k..<2 ^ k + 2 ^ k]"
    using map_add_upt [of "2 ^ k" "2 ^ k"] by (simp only: add.commute)
  have "[0..<2 ^ Suc k] = [0..<2 ^ k] @ map (\<lambda>i. 2 ^ k + i) [0..<2 ^ k]"
    using upt_add_eq_append [of 0 "2 ^ k" "2 ^ k"] unfolding shift
    by (simp only: power_Suc mult_2 le0 simp_thms)
  then show ?thesis
    using of_nat_power_xor [OF _ k] by (simp add: double_table_def lin [symmetric])
qed

lemma crc_bit_numeral:
  "crc_bit p (numeral n) =
     (if odd (numeral n :: u32) then drop_bit 1 (numeral n) XOR p else drop_bit 1 (numeral n))"
  "crc_bit p 1 = p"
  by (simp_all add: crc_bit_def bit_0)

lemma power_table:
  fixes f :: "u32 \<Rightarrow> u32"
  assumes lin: "\<And>a b. f (a XOR b) = f a XOR f b" and z: "f 0 = 0"
  shows "map (\<lambda>i. f (of_nat i)) [0..<256] =
    double_table (f 128) (double_table (f 64) (double_table (f 32) (double_table (f 16)
      (double_table (f 8) (double_table (f 4) (double_table (f 2) (double_table (f 1) [0])))))))"
  using linear_table [of f 7, OF lin] linear_table [of f 6, OF lin] linear_table [of f 5, OF lin]
    linear_table [of f 4, OF lin] linear_table [of f 3, OF lin] linear_table [of f 2, OF lin]
    linear_table [of f 1, OF lin] linear_table [of f 0, OF lin]
  by (simp add: z upt_rec [of 0 "Suc 0"] del: upt_Suc)

lemma eight_times: "(f ^^ 8) x = f (f (f (f (f (f (f (f x)))))))"
  by (simp add: eval_nat_numeral)

lemma stun_bits:
  "(crc_bit stun_poly ^^ 8) 1 = 0x77073096"
  "(crc_bit stun_poly ^^ 8) 2 = 0xee0e612c"
  "(crc_bit stun_poly ^^ 8) 4 = 0x076dc419"
  "(crc_bit stun_poly ^^ 8) 8 = 0x0edb8832"
  "(crc_bit stun_poly ^^ 8) 16 = 0x1db71064"
  "(crc_bit stun_poly ^^ 8) 32 = 0x3b6e20c8"
  "(crc_bit stun_poly ^^ 8) 64 = 0x76dc4190"
  "(crc_bit stun_poly ^^ 8) 128 = 0xedb88320"
  by (simp_all add: stun_poly_def crc_bit_numeral eight_times)

lemma stun_table:
  "stun_crc32_tab = map (\<lambda>i. (crc_bit stun_poly ^^ 8) (of_nat i)) [0..<256]"
  unfolding power_table [of "crc_bit stun_poly ^^ 8", OF crc_bits_linear crc_bits_0]
  by (simp add: stun_bits stun_crc32_tab_def double_table_def)

lemma sctp_bits:
  "(crc_bit sctp_poly ^^ 8) 1 = 0xf26b8303"
  "(crc_bit sctp_poly ^^ 8) 2 = 0xe13b70f7"
  "(crc_bit sctp_poly ^^ 8) 4 = 0xc79a971f"
  "(crc_bit sctp_poly ^^ 8) 8 = 0x8ad958cf"
  "(crc_bit sctp_poly ^^ 8) 16 = 0x105ec76f"
  "(crc_bit sctp_poly ^^ 8) 32 = 0x20bd8ede"
  "(crc_bit sctp_poly ^^ 8) 64 = 0x417b1dbc"
  "(crc_bit sctp_poly ^^ 8) 128 = 0x82f63b78"
  by (simp_all add: sctp_poly_def crc_bit_numeral eight_times)

lemma sctp_table:
  "sctp_crc32_tab = map (\<lambda>i. (crc_bit sctp_poly ^^ 8) (of_nat i)) [0..<256]"
  unfolding power_table [of "crc_bit sctp_poly ^^ 8", OF crc_bits_linear crc_bits_0]
  by (simp add: sctp_bits sctp_crc32_tab_def double_table_def)

section \<open>The table driven update is the bitwise one\<close>

definition crc_bytes :: "u32 \<Rightarrow> u32 \<Rightarrow> byte list \<Rightarrow> u32" where
  "crc_bytes poly = foldl (crc_byte poly)"

text \<open>The four (or fewer) bytes of a burst, as the word that is folded into the register.\<close>

fun pack :: "byte list \<Rightarrow> u32" where
  "pack [] = 0"
| "pack (b # bs) = ucast b XOR push_bit 8 (pack bs)"

lemma take_bit_ucast_byte: "8 \<le> n \<Longrightarrow> take_bit n (ucast (b :: byte) :: u32) = ucast b"
  by (rule bit_word_eqI) (auto simp: bit_simps dest: bit_imp_le_length)

lemma pack_small: "length bs \<le> 4 \<Longrightarrow> take_bit (8 * length bs) (pack bs) = pack bs"
proof (induction bs)
  case (Cons b bs)
  have "take_bit (8 + 8 * length bs) (push_bit 8 (pack bs)) = push_bit 8 (pack bs)"
    using Cons by (simp add: take_bit_push_bit)
  then show ?case by (simp add: take_bit_ucast_byte)
qed simp

lemma shift_back:
  assumes "length bs \<le> 3"
  shows "drop_bit 8 (push_bit 8 (pack bs)) = pack bs"
proof (rule bit_word_eqI)
  fix n assume "n < LENGTH(32)"
  have "take_bit (8 * length bs) (pack bs) = pack bs" using assms by (simp add: pack_small)
  then have "bit (pack bs) n \<Longrightarrow> n < 8 * length bs" by (metis bit_take_bit_iff)
  then show "bit (drop_bit 8 (push_bit 8 (pack bs))) n = bit (pack bs) n"
    using assms by (auto simp: bit_simps)
qed

lemma take_bit_push_8: "take_bit 8 (push_bit 8 (w :: u32)) = 0"
  by (rule bit_word_eqI) (auto simp: bit_simps)

lemma xor_cancel: "x XOR a = x XOR b \<longleftrightarrow> a = (b :: u32)"
proof
  assume "x XOR a = x XOR b"
  then have "(x XOR x) XOR a = (x XOR x) XOR b" by (simp only: xor.assoc)
  then show "a = b" by simp
qed simp

lemma pack_inject: "length u = length v \<Longrightarrow> length u \<le> 4 \<Longrightarrow> pack u = pack v \<Longrightarrow> u = v"
proof (induction u v rule: list_induct2)
  case (Cons a u b v)
  have "take_bit 8 (pack (a # u)) = take_bit 8 (pack (b # v))" using Cons.prems by simp
  then have "(ucast a :: u32) = ucast b"
    by (simp only: pack.simps take_bit_xor take_bit_push_8 take_bit_ucast_byte xor.right_neutral order_refl)
  then have bits: "bit (ucast a :: u32) n = bit (ucast b :: u32) n" for n by simp
  have ab: "a = b"
  proof (rule bit_word_eqI)
    show "bit a n = bit b n" if "n < LENGTH(8)" for n using bits [of n] that by (simp add: bit_simps)
  qed
  have "push_bit 8 (pack u) = push_bit 8 (pack v)"
    using Cons.prems ab by (simp add: xor_cancel)
  moreover have "length u \<le> 3" "length v \<le> 3" using Cons by simp_all
  ultimately have "pack u = pack v" by (metis shift_back)
  then show ?case using ab Cons by simp
qed simp

lemma crc_bytes_pack:
  "length bs \<le> 4 \<Longrightarrow> crc_bytes p c bs = (crc_bit p ^^ (8 * length bs)) (c XOR pack bs)"
proof (induction bs arbitrary: c)
  case (Cons b bs)
  have "pack bs = (crc_bit p ^^ 8) (push_bit 8 (pack bs))"
    using Cons.prems by (simp add: crc_bits_high take_bit_push_8 shift_back)
  then have "crc_byte p c b XOR pack bs = (crc_bit p ^^ 8) ((c XOR ucast b) XOR push_bit 8 (pack bs))"
    by (simp add: crc_byte_def crc_bits_linear)
  then have "crc_bytes p (crc_byte p c b) bs =
      (crc_bit p ^^ (8 * length bs)) ((crc_bit p ^^ 8) (c XOR pack (b # bs)))"
    using Cons by (simp add: xor.assoc)
  then show ?case
    by (simp add: crc_bytes_def funpow_add add.commute [of 8] del: funpow.simps)
qed (simp add: crc_bytes_def)

text \<open>
  What the two checksums rely on: the table is the table of a polynomial that contains the
  highest power (its bits are reversed, so that is bit 31).
\<close>

locale crc_table =
  fixes tab :: "u32 list" and poly :: u32
  assumes is_table: "tab = map (\<lambda>i. (crc_bit poly ^^ 8) (of_nat i)) [0..<256]"
    and high: "bit poly 31"
begin

lemma step: "crc_step tab crc b = Some (crc_byte poly crc b)"
proof -
  define z where "z = crc XOR ucast b"
  have m: "z AND 0xff = take_bit 8 z" by (simp add: take_bit_eq_mask mask_eq_exp_minus_1)
  have lt: "unat (z AND 0xff) < 256"
    using take_bit_nat_less_exp [of 8 "unat z"] by (simp add: m unsigned_take_bit_eq)
  have "z = (z AND 0xff) XOR push_bit 8 (drop_bit 8 crc)"
    unfolding m by (rule bit_word_eqI) (auto simp: z_def bit_simps dest: bit_imp_le_length)
  then have "(crc_bit poly ^^ 8) z =
      (crc_bit poly ^^ 8) (z AND 0xff) XOR (crc_bit poly ^^ 8) (push_bit 8 (drop_bit 8 crc))"
    by (metis crc_bits_linear)
  also have "(crc_bit poly ^^ 8) (push_bit 8 (drop_bit 8 crc)) = drop_bit 8 crc"
    by (simp add: crc_bits_high take_bit_push_8)
      (rule bit_word_eqI, auto simp: bit_simps dest: bit_imp_le_length)
  finally show ?thesis
    using lt by (simp add: crc_step_def crc_byte_def is_table mem_in flip: z_def)
qed

lemma loop: "crc_loop tab crc bs = Some (crc_bytes poly crc bs)"
  by (induction bs arbitrary: crc) (simp_all add: step crc_bytes_def)

lemma bit_inject: "crc_bit poly a = crc_bit poly b \<Longrightarrow> a = b"
proof -
  assume eq: "crc_bit poly a = crc_bit poly b"
  have "bit (crc_bit poly c) 31 = bit c 0" for c
    using high by (auto simp: crc_bit_def bit_simps dest: bit_imp_le_length)
  then have b0: "bit a 0 = bit b 0" using eq by metis
  then have "drop_bit 1 a = drop_bit 1 b"
    using eq by (auto simp: crc_bit_def xor_cancel xor.commute [of _ poly] split: if_splits)
  then have "bit (drop_bit 1 a) n = bit (drop_bit 1 b) n" for n by simp
  then have "bit a (Suc n) = bit b (Suc n)" for n by (simp add: bit_simps)
  then show "a = b" using b0 by (intro bit_word_eqI) (metis not0_implies_Suc)
qed

lemma bits_inject: "(crc_bit poly ^^ n) a = (crc_bit poly ^^ n) b \<Longrightarrow> a = b"
  by (induction n) (auto dest: bit_inject)

lemma byte_inject: "crc_byte poly a b = crc_byte poly a' b \<Longrightarrow> a = a'"
  unfolding crc_byte_def by (drule bits_inject) (simp add: xor_cancel xor.commute [of _ "ucast b"])

lemma bytes_inject: "crc_bytes poly a bs = crc_bytes poly a' bs \<longleftrightarrow> a = a'"
  by (induction bs arbitrary: a a') (auto simp: crc_bytes_def dest: byte_inject)

lemma detects_burst:
  assumes "length u = length v" "length u \<le> 4"
  shows "crc_bytes poly c (xs @ u @ ys) = crc_bytes poly c (xs @ v @ ys) \<longleftrightarrow> u = v"
proof -
  have "crc_bytes poly c (xs @ u @ ys) = crc_bytes poly c (xs @ v @ ys) \<longleftrightarrow>
      crc_bytes poly (crc_bytes poly c xs) u = crc_bytes poly (crc_bytes poly c xs) v"
    using bytes_inject [unfolded crc_bytes_def] by (simp add: crc_bytes_def)
  also have "\<dots> \<longleftrightarrow> u = v"
    using assms by (auto simp: crc_bytes_pack xor_cancel dest!: bits_inject intro: pack_inject)
  finally show ?thesis .
qed

end

interpretation stun_crc: crc_table stun_crc32_tab stun_poly
  by unfold_locales (rule stun_table, simp add: stun_poly_def)

interpretation sctp_crc: crc_table sctp_crc32_tab sctp_poly
  by unfold_locales (rule sctp_table, simp add: sctp_poly_def)

section \<open>Properties\<close>

lemma crc32_xor_eq: "crc32_xor buf = Some (NOT (crc_bytes stun_poly (NOT 0) buf) XOR fingerprint_xor_value)"
  by (simp add: crc32_xor_def stun_crc.loop)

text \<open>The eight bytes before the checksum of an SCTP packet, four zero bytes, and the rest.\<close>

definition without_checksum :: "byte list \<Rightarrow> byte list" where
  "without_checksum buf = take 8 buf @ [0, 0, 0, 0] @ drop 12 buf"

lemma crc32_sctp_eq:
  "12 \<le> length buf \<Longrightarrow>
     crc32_sctp buf = Some (swap_bytes (NOT (crc_bytes sctp_poly (NOT 0) (without_checksum buf))))"
  by (simp add: crc32_sctp_def sctp_crc.loop mem_in without_checksum_def del: crc_loop.simps)
    (simp add: crc_bytes_def)

text \<open>
  the table driven FINGERPRINT checksum of STUN never reads outside its table, is the
  reflected CRC-32 computed bit by bit, and two messages that differ in a burst of at most
  four bytes have different fingerprints.
\<close>

theorem fingerprint_is_crc32:
  "crc32_xor buf = Some (NOT (crc_bytes stun_poly (NOT 0) buf) XOR fingerprint_xor_value) \<and>
   (length u = length v \<and> length u \<le> 4 \<longrightarrow>
      (crc32_xor (xs @ u @ ys) = crc32_xor (xs @ v @ ys) \<longleftrightarrow> u = v))"
  using stun_crc.detects_burst [of u v "NOT 0" xs ys]
  by (auto simp: crc32_xor_eq xor_cancel xor.commute [of _ fingerprint_xor_value])

lemma fingerprint_is_crc32_witness:
  "crc32_xor ([1, 2] @ [3] @ [4]) \<noteq> crc32_xor ([1, 2] @ [5] @ [4])"
  using fingerprint_is_crc32 [of "[]" "[3]" "[5]" "[1, 2]" "[4]"] by simp

lemma byte_masks: "(0x00ff0000 :: u32) = push_bit 16 (mask 8)" "(0x0000ff00 :: u32) = push_bit 8 (mask 8)"
  by (simp_all add: mask_eq_exp_minus_1 push_bit_eq_mult)

lemma swap_bytes_or:
  "swap_bytes c = push_bit 24 c OR (push_bit 8 c AND 0x00ff0000) OR
      (drop_bit 8 c AND 0x0000ff00) OR drop_bit 24 c"
proof -
  define a where "a = push_bit 24 c"
  define b where "b = (push_bit 8 c AND 0x00ff0000)"
  define d where "d = (drop_bit 8 c AND 0x0000ff00)"
  define e where "e = drop_bit 24 c"
  have 1: "a AND b = 0" and 2: "(a OR b) AND d = 0" and 3: "(a OR b OR d) AND e = 0"
    by (rule bit_word_eqI; auto simp: a_def b_def d_def e_def byte_masks bit_simps
      dest: bit_imp_le_length)+
  have "swap_bytes c = a + b + d + e" by (simp add: swap_bytes_def a_def b_def d_def e_def)
  also have "\<dots> = a OR b OR d OR e"
    using 1 2 3 by (simp add: disjunctive_add_eq_or or.assoc)
  finally show ?thesis by (simp add: a_def b_def d_def e_def)
qed

lemma bit_swap_bytes:
  assumes "n < 32"
  shows "bit (swap_bytes c) n \<longleftrightarrow>
    bit c (if n < 8 then n + 24 else if n < 16 then n + 8 else if n < 24 then n - 8 else n - 24)"
proof -
  consider "n < 8" | "8 \<le> n \<and> n < 16" | "16 \<le> n \<and> n < 24" | "24 \<le> n \<and> n < 32"
    using assms by linarith
  then show ?thesis
    unfolding swap_bytes_or byte_masks
    by cases (auto simp: bit_simps add.commute dest: bit_imp_le_length)
qed

lemma swap_bytes_swap: "swap_bytes (swap_bytes c) = c"
proof (rule bit_word_eqI)
  fix n assume "n < LENGTH(32)"
  then consider "n < 8" | "8 \<le> n" "n < 16" | "16 \<le> n" "n < 24" | "24 \<le> n" "n < 32"
    by (simp, linarith)
  then show "bit (swap_bytes (swap_bytes c)) n = bit c n"
    by cases (auto simp: bit_swap_bytes less_diff_conv2 le_diff_conv2 not_less)
qed

lemma swap_bytes_inject: "swap_bytes a = swap_bytes b \<longleftrightarrow> a = b"
  by (metis swap_bytes_swap)

text \<open>
  the SCTP checksum is the CRC-32C, bit by bit, of the packet with its checksum field
  taken as zero: it does not depend on that field, and a burst of at most four bytes
  after the common header changes it.
\<close>

theorem sctp_checksum_is_crc32c:
  "12 \<le> length buf \<Longrightarrow>
     crc32_sctp buf = Some (swap_bytes (NOT (crc_bytes sctp_poly (NOT 0) (without_checksum buf)))) \<and>
     (length f = 4 \<longrightarrow> crc32_sctp (take 8 buf @ f @ drop 12 buf) = crc32_sctp buf) \<and>
     (length u = length v \<and> length u \<le> 4 \<longrightarrow>
       (crc32_sctp (buf @ u @ ys) = crc32_sctp (buf @ v @ ys) \<longleftrightarrow> u = v))"
proof (intro conjI impI)
  assume len: "12 \<le> length buf"
  then show "crc32_sctp buf =
      Some (swap_bytes (NOT (crc_bytes sctp_poly (NOT 0) (without_checksum buf))))"
    by (rule crc32_sctp_eq)
  show "crc32_sctp (take 8 buf @ f @ drop 12 buf) = crc32_sctp buf" if "length f = 4"
    using that len by (simp add: crc32_sctp_eq without_checksum_def)
  have "without_checksum (buf @ w @ ys) = without_checksum buf @ w @ ys" for w
    using len by (simp add: without_checksum_def)
  then show "crc32_sctp (buf @ u @ ys) = crc32_sctp (buf @ v @ ys) \<longleftrightarrow> u = v"
    if "length u = length v \<and> length u \<le> 4"
    using that len sctp_crc.detects_burst [of u v "NOT 0" "without_checksum buf" ys]
    by (auto simp: crc32_sctp_eq swap_bytes_inject)
qed

lemma sctp_checksum_is_crc32c_witness:
  "crc32_sctp (replicate 12 1 @ [3] @ [7]) \<noteq> crc32_sctp (replicate 12 1 @ [5] @ [7])"
  using sctp_checksum_is_crc32c [of "replicate 12 1" "[0, 0, 0, 0]" "[3]" "[5]" "[7]"] by simp

end
