(* ===== verification/Stun.thy ===== *)
theory Stun
  imports Big_Endian Crc
begin

text \<open>
  The STUN messages of \<open>src/cpp/stun.cpp\<close> and \<open>src/cpp/stun.h\<close>: the parser that the WebRTC
  socket runs on whatever arrives, and the builder of the reply.  The functions outside the
  repository are parameters: \<open>lookup\<close> (the resource store), \<open>parse_conn\<close> (the generated
  protobuf parser of \<open>webrtc_connection.proto\<close>) and \<open>hmac\<close> (HMAC-SHA1).  A message is the list
  of its \<open>len\<close> bytes, pointers into it are offsets.
\<close>

section \<open>Constants\<close>

definition stun_msg_header_size :: nat where "stun_msg_header_size = 20"
definition attribute_header_size :: nat where "attribute_header_size = 4"
definition method_class_mask :: u16 where "method_class_mask = 0x0110"
definition request_class :: u16 where "request_class = 0x0000"
definition success_response_class :: u16 where "success_response_class = 0x0100"
definition binding :: u16 where "binding = 0x0001"

definition MAPPED_ADDRESS :: u16 where "MAPPED_ADDRESS = 0x0001"
definition USERNAME :: u16 where "USERNAME = 0x0006"
definition MESSAGE_INTEGRITY :: u16 where "MESSAGE_INTEGRITY = 0x0008"
definition XOR_MAPPED_ADDRESS :: u16 where "XOR_MAPPED_ADDRESS = 0x0020"
definition PRIORITY :: u16 where "PRIORITY = 0x0024"
definition USE_CANDIDATE :: u16 where "USE_CANDIDATE = 0x0025"
definition FINGERPRINT :: u16 where "FINGERPRINT = 0x8028"
definition ICE_CONTROLLED :: u16 where "ICE_CONTROLLED = 0x8029"
definition ICE_CONTROLLING :: u16 where "ICE_CONTROLLING = 0x802A"

lemmas attribute_types = MAPPED_ADDRESS_def USERNAME_def MESSAGE_INTEGRITY_def
  XOR_MAPPED_ADDRESS_def PRIORITY_def USE_CANDIDATE_def FINGERPRINT_def ICE_CONTROLLED_def
  ICE_CONTROLLING_def

lemmas header_sizes = stun_msg_header_size_def attribute_header_size_def

text \<open>\<open>raw_magic_cookie\<close> holds these four bytes in memory order once a parser exists.\<close>

definition raw_magic_cookie :: "byte list" where
  "raw_magic_cookie = [0x21, 0x12, 0xa4, 0x42]"

definition ipv4_in_6_header :: "byte list" where
  "ipv4_in_6_header = [0, 0, 0, 0, 0, 0, 0, 0, 0, 0, 0xff, 0xff]"

definition known_methods :: "u16 list" where
  "known_methods = [binding]"

definition known_required_attribs :: "u16 list" where
  "known_required_attribs =
     [MAPPED_ADDRESS, USERNAME, MESSAGE_INTEGRITY, XOR_MAPPED_ADDRESS, PRIORITY, USE_CANDIDATE]"

section \<open>Data\<close>

text \<open>The \<open>Connection\<close> message of the protobuf file.\<close>

record connection =
  c_remote_ufrag :: "byte list"
  c_remote_pwd :: "byte list"
  c_remote_sctp_port :: u32
  c_remote_x509_digest :: "byte list"
  c_local_ufrag :: "byte list"
  c_local_pwd :: "byte list"
  c_local_sctp_port :: u32

definition empty_connection :: connection where
  "empty_connection =
     \<lparr> c_remote_ufrag = [], c_remote_pwd = [], c_remote_sctp_port = 0, c_remote_x509_digest = [],
       c_local_ufrag = [], c_local_pwd = [], c_local_sctp_port = 0 \<rparr>"

record stun_msg =
  stun_method :: u16
  method_class :: u16
  remote_ufrag :: "byte list"
  remote_pwd :: "byte list"
  remote_sctp_port :: u16
  local_ufrag :: "byte list"
  local_pwd :: "byte list"
  local_sctp_port :: u16
  has_fingerprint :: bool
  has_use_candidate :: bool
  has_ice_controlling :: bool
  known_client :: bool

text \<open>The reasons for which the parser returns the invalid message \<open>{}\<close>.\<close>

datatype stun_reject =
  Too_short | First_bits_not_zero | Bad_cookie | Size_mismatch | Unknown_method |
  Bad_attribute_data | Attribute_past_end | Unknown_required_attribute |
  No_colon | Empty_ufrag | Unknown_user | Bad_connection_data |
  Bad_integrity_length | Integrity_without_username | Integrity_mismatch |
  Bad_use_candidate_length | Bad_ice_controlling_length |
  Bad_fingerprint_length | Fingerprint_mismatch

text \<open>The local variables of the parser that its attribute loop updates.\<close>

record parse_state =
  p_user_name :: "byte list"
  p_conn :: connection
  p_use_candidate :: bool
  p_ice_controlling :: bool
  p_known_client :: bool

definition init_parse_state :: parse_state where
  "init_parse_state =
     \<lparr> p_user_name = [], p_conn = empty_connection, p_use_candidate = False,
       p_ice_controlling = False, p_known_client = False \<rparr>"

type_synonym lookup_fun = "byte list \<Rightarrow> byte list option"
type_synonym conn_parser = "byte list \<Rightarrow> connection option"
type_synonym hmac_fun = "byte list \<Rightarrow> byte list \<Rightarrow> byte list"

section \<open>The parser\<close>

fun memchr :: "byte list \<Rightarrow> byte \<Rightarrow> nat option" where
  "memchr [] c = None"
| "memchr (b # bs) c = (if b = c then Some 0 else map_option Suc (memchr bs c))"

text \<open>The cases of the \<open>switch\<close>: the attribute at offset \<open>ptr\<close>, its type and its length.\<close>

definition parse_username ::
  "lookup_fun \<Rightarrow> conn_parser \<Rightarrow> byte list \<Rightarrow> nat \<Rightarrow> nat \<Rightarrow> parse_state \<Rightarrow> (stun_reject + parse_state) option"
where
  "parse_username lookup parse_conn msg ptr attr_len st = do {
     val \<leftarrow> rd_range msg (ptr + attribute_header_size) attr_len;
     case memchr val 0x3a of
       None \<Rightarrow> Some (Inl No_colon)
     | Some pos \<Rightarrow>
         if pos = 0 \<or> pos = attr_len then Some (Inl Empty_ufrag)
         else (case lookup val of
             None \<Rightarrow> Some (Inl Unknown_user)
           | Some res \<Rightarrow>
               (case parse_conn res of
                 None \<Rightarrow> Some (Inl Bad_connection_data)
               | Some conn \<Rightarrow>
                   Some (Inr (st\<lparr>p_user_name := val, p_conn := conn, p_known_client := True\<rparr>)))) }"

definition parse_message_integrity ::
  "hmac_fun \<Rightarrow> byte list \<Rightarrow> nat \<Rightarrow> nat \<Rightarrow> parse_state \<Rightarrow> (stun_reject + parse_state) option"
where
  "parse_message_integrity hmac msg ptr attr_len st =
     (if attr_len \<noteq> 20 then Some (Inl Bad_integrity_length)
      else if p_user_name st = [] then Some (Inl Integrity_without_username)
      else do {
        let end_ptr = ptr + attribute_header_size + attr_len;
        let modified_len = end_ptr - stun_msg_header_size;
        let cpy_size = ptr;
        cpy \<leftarrow> rd_range msg 0 cpy_size;
        cpy \<leftarrow> set_be_uint16 (of_nat modified_len) cpy 2;
        let md = hmac (c_local_pwd (p_conn st)) cpy;
        val \<leftarrow> rd_range msg (ptr + attribute_header_size) 20;
        if md \<noteq> val then Some (Inl Integrity_mismatch) else Some (Inr st) })"

definition parse_fingerprint ::
  "byte list \<Rightarrow> nat \<Rightarrow> nat \<Rightarrow> parse_state \<Rightarrow> (stun_reject + parse_state) option"
where
  "parse_fingerprint msg ptr attr_len st =
     (if attr_len \<noteq> 4 then Some (Inl Bad_fingerprint_length)
      else do {
        presented_crc \<leftarrow> get_be_uint32 msg (ptr + attribute_header_size);
        pre \<leftarrow> rd_range msg 0 ptr;
        computed_crc \<leftarrow> crc32_xor pre;
        if computed_crc \<noteq> presented_crc then Some (Inl Fingerprint_mismatch) else Some (Inr st) })"

definition parse_attribute ::
  "lookup_fun \<Rightarrow> conn_parser \<Rightarrow> hmac_fun \<Rightarrow> byte list \<Rightarrow> nat \<Rightarrow> u16 \<Rightarrow> nat \<Rightarrow> parse_state \<Rightarrow>
     (stun_reject + parse_state) option"
where
  "parse_attribute lookup parse_conn hmac msg ptr attr_type attr_len st =
     (if attr_type = USERNAME then parse_username lookup parse_conn msg ptr attr_len st
      else if attr_type = MESSAGE_INTEGRITY then parse_message_integrity hmac msg ptr attr_len st
      else if attr_type = USE_CANDIDATE then
        if attr_len \<noteq> 0 then Some (Inl Bad_use_candidate_length)
        else Some (Inr (st\<lparr>p_use_candidate := True\<rparr>))
      else if attr_type = ICE_CONTROLLING then
        if attr_len \<noteq> 8 then Some (Inl Bad_ice_controlling_length)
        else Some (Inr (st\<lparr>p_ice_controlling := True\<rparr>))
      else if attr_type = FINGERPRINT then parse_fingerprint msg ptr attr_len st
      else Some (Inr st))"

function parse_attributes ::
  "lookup_fun \<Rightarrow> conn_parser \<Rightarrow> hmac_fun \<Rightarrow> byte list \<Rightarrow> nat \<Rightarrow> parse_state \<Rightarrow>
     (stun_reject + parse_state) option"
where
  "parse_attributes lookup parse_conn hmac msg ptr st =
     (if ptr < length msg then
        if length msg < ptr + attribute_header_size then Some (Inl Bad_attribute_data)
        else do {
          attr_type \<leftarrow> get_be_uint16 msg ptr;
          attr_len \<leftarrow> map_option unat (get_be_uint16 msg (ptr + 2));
          if length msg < ptr + attribute_header_size + attr_len then Some (Inl Attribute_past_end)
          else if attr_type AND 0x8000 = 0 \<and> attr_type \<notin> set known_required_attribs
          then Some (Inl Unknown_required_attribute)
          else do {
            r \<leftarrow> parse_attribute lookup parse_conn hmac msg ptr attr_type attr_len st;
            case r of
              Inl e \<Rightarrow> Some (Inl e)
            | Inr st \<Rightarrow>
                parse_attributes lookup parse_conn hmac msg
                  (ptr + attribute_header_size + align4 attr_len) st } }
      else Some (Inr st))"
  by pat_completeness auto

termination parse_attributes
  by (relation "measure (\<lambda>(_, _, _, msg, ptr, _). length msg - ptr)")
    (auto simp: attribute_header_size_def)

declare parse_attributes.simps [simp del]

definition parse_stun_msg ::
  "lookup_fun \<Rightarrow> conn_parser \<Rightarrow> hmac_fun \<Rightarrow> byte list \<Rightarrow> (stun_reject + stun_msg) option"
where
  "parse_stun_msg lookup parse_conn hmac msg =
     (if length msg < 20 then Some (Inl Too_short)
      else do {
        b0 \<leftarrow> rd msg 0;
        if b0 AND 0xc0 \<noteq> 0 then Some (Inl First_bits_not_zero)
        else do {
          cookie \<leftarrow> rd_range msg 4 4;
          if cookie \<noteq> raw_magic_cookie then Some (Inl Bad_cookie)
          else do {
            msgSize \<leftarrow> get_be_uint16 msg 2;
            if length msg \<noteq> unat msgSize + stun_msg_header_size then Some (Inl Size_mismatch)
            else do {
              mth \<leftarrow> get_be_uint16 msg 0;
              let meth = mth AND NOT method_class_mask;
              let mclass = mth AND method_class_mask;
              if meth \<notin> set known_methods then Some (Inl Unknown_method)
              else do {
                r \<leftarrow> parse_attributes lookup parse_conn hmac msg stun_msg_header_size
                       init_parse_state;
                case r of
                  Inl e \<Rightarrow> Some (Inl e)
                | Inr st \<Rightarrow> Some (Inr
                    \<lparr> stun_method = meth, method_class = mclass,
                      remote_ufrag = c_remote_ufrag (p_conn st),
                      remote_pwd = c_remote_pwd (p_conn st),
                      remote_sctp_port = ucast (c_remote_sctp_port (p_conn st)),
                      local_ufrag = c_local_ufrag (p_conn st),
                      local_pwd = c_local_pwd (p_conn st),
                      local_sctp_port = ucast (c_local_sctp_port (p_conn st)),
                      has_fingerprint = False,
                      has_use_candidate = p_use_candidate st,
                      has_ice_controlling = p_ice_controlling st,
                      known_client = p_known_client st \<rparr>) } } } } })"

section \<open>The builder of replies\<close>

text \<open>
  A socket address: the bytes of its port and of its address as they lie in memory (network
  order).  \<open>add_xor_mapped_address\<close> treats every family but \<open>AF_INET6\<close> as \<open>AF_INET\<close>.
\<close>

datatype sockaddr_storage =
  Sockaddr_in (sa_port: "byte list") (sa_addr: "byte list")
| Sockaddr_in6 (sa_port: "byte list") (sa_addr: "byte list")

fun wf_sockaddr :: "sockaddr_storage \<Rightarrow> bool" where
  "wf_sockaddr (Sockaddr_in p a) \<longleftrightarrow> length p = 2 \<and> length a = 4"
| "wf_sockaddr (Sockaddr_in6 p a) \<longleftrightarrow> length p = 2 \<and> length a = 16"

definition xor_bytes :: "byte list \<Rightarrow> byte list \<Rightarrow> byte list" where
  "xor_bytes s1 s2 = map2 (XOR) s1 s2"

definition stun_message_builder :: "u16 \<Rightarrow> byte list \<Rightarrow> byte list option" where
  "stun_message_builder message_type trans_id = do {
     let buff = replicate 20 0;
     buff \<leftarrow> set_be_uint16 message_type buff 0;
     buff \<leftarrow> wr_range buff 4 raw_magic_cookie;
     tid \<leftarrow> rd_range trans_id 0 12;
     wr_range buff 8 tid }"

definition add_ipv4_xor_mapped_address ::
  "byte list \<Rightarrow> byte list \<Rightarrow> byte list \<Rightarrow> byte list option"
where
  "add_ipv4_xor_mapped_address port addr buff = do {
     let attr = replicate 12 0;
     attr \<leftarrow> set_be_uint16 XOR_MAPPED_ADDRESS attr 0;
     attr \<leftarrow> set_be_uint16 8 attr 2;
     attr \<leftarrow> set_be_uint16 1 attr 4;
     c2 \<leftarrow> rd_range buff 4 2;
     attr \<leftarrow> wr_range attr 6 (xor_bytes port c2);
     s1 \<leftarrow> rd_range addr 0 4;
     s2 \<leftarrow> rd_range buff 4 4;
     attr \<leftarrow> wr_range attr 8 (xor_bytes s1 s2);
     let sz = align4 (length buff);
     let buff = resize (sz + 12) buff;
     wr_range buff sz attr }"

definition add_ipv6_xor_mapped_address ::
  "byte list \<Rightarrow> byte list \<Rightarrow> byte list \<Rightarrow> byte list option"
where
  "add_ipv6_xor_mapped_address port addr buff = do {
     let attr = replicate 24 0;
     attr \<leftarrow> set_be_uint16 XOR_MAPPED_ADDRESS attr 0;
     attr \<leftarrow> set_be_uint16 20 attr 2;
     attr \<leftarrow> set_be_uint16 1 attr 4;
     c2 \<leftarrow> rd_range buff 4 2;
     attr \<leftarrow> wr_range attr 6 (xor_bytes port c2);
     s1 \<leftarrow> rd_range addr 0 16;
     s2 \<leftarrow> rd_range buff 4 16;
     attr \<leftarrow> wr_range attr 8 (xor_bytes s1 s2);
     let sz = align4 (length buff);
     let buff = resize (sz + 24) buff;
     wr_range buff sz attr }"

fun add_xor_mapped_address :: "sockaddr_storage \<Rightarrow> byte list \<Rightarrow> byte list option" where
  "add_xor_mapped_address (Sockaddr_in6 port addr) buff = do {
     pre \<leftarrow> rd_range addr 0 12;
     if pre = ipv4_in_6_header then do {
       addr4 \<leftarrow> rd_range addr 12 4;
       add_ipv4_xor_mapped_address port addr4 buff }
     else add_ipv6_xor_mapped_address port addr buff }"
| "add_xor_mapped_address (Sockaddr_in port addr) buff = add_ipv4_xor_mapped_address port addr buff"

text \<open>\<open>add_user_name\<close> copies the name to \<open>&buff[4]\<close>, into the header, and not behind the
  attribute header it has just written.\<close>

definition add_user_name :: "byte list \<Rightarrow> byte list \<Rightarrow> byte list option" where
  "add_user_name user_name buff = do {
     let sz = align4 (length buff);
     let usz = length user_name mod 65536;
     let buff = resize (sz + 4 + usz) buff;
     buff \<leftarrow> set_be_uint16 USERNAME buff sz;
     buff \<leftarrow> set_be_uint16 (of_nat usz) buff (sz + 2);
     wr_range buff 4 (take usz user_name) }"

definition add_ice_controlled :: "byte list \<Rightarrow> byte list option" where
  "add_ice_controlled buff = do {
     let sz = align4 (length buff);
     let buff = resize (sz + 12) buff;
     buff \<leftarrow> set_be_uint16 ICE_CONTROLLED buff sz;
     buff \<leftarrow> set_be_uint16 8 buff (sz + 2);
     set_be_uint64 0 buff (sz + 4) }"

definition add_priority :: "u32 \<Rightarrow> byte list \<Rightarrow> byte list option" where
  "add_priority prio buff = do {
     let sz = align4 (length buff);
     let buff = resize (sz + 8) buff;
     buff \<leftarrow> set_be_uint16 PRIORITY buff sz;
     buff \<leftarrow> set_be_uint16 4 buff (sz + 2);
     set_be_uint32 prio buff (sz + 4) }"

definition add_message_integrity :: "hmac_fun \<Rightarrow> byte list \<Rightarrow> byte list \<Rightarrow> byte list option" where
  "add_message_integrity hmac pwd buff = do {
     let sz = align4 (length buff);
     let buff = resize (sz + 24) buff;
     buff \<leftarrow> set_be_uint16 (of_nat (sz + 24 - stun_msg_header_size)) buff 2;
     buff \<leftarrow> set_be_uint16 MESSAGE_INTEGRITY buff sz;
     buff \<leftarrow> set_be_uint16 20 buff (sz + 2);
     pre \<leftarrow> rd_range buff 0 sz;
     wr_range buff (sz + 4) (hmac pwd pre) }"

definition add_fingerprint :: "byte list \<Rightarrow> byte list option" where
  "add_fingerprint buff = do {
     let sz = align4 (length buff);
     let buff = resize (sz + 8) buff;
     buff \<leftarrow> set_be_uint16 (of_nat (sz + 8 - stun_msg_header_size)) buff 2;
     buff \<leftarrow> set_be_uint16 FINGERPRINT buff sz;
     buff \<leftarrow> set_be_uint16 4 buff (sz + 2);
     pre \<leftarrow> rd_range buff 0 sz;
     crc \<leftarrow> crc32_xor pre;
     set_be_uint32 crc buff (sz + 4) }"

definition create_stun_reply ::
  "hmac_fun \<Rightarrow> stun_msg \<Rightarrow> byte list \<Rightarrow> sockaddr_storage \<Rightarrow> byte list option"
where
  "create_stun_reply hmac stun msg sockaddr =
     (if method_class stun = request_class \<and> stun_method stun = binding then do {
        tid \<leftarrow> rd_range msg 8 12;
        buff \<leftarrow> stun_message_builder (binding OR success_response_class) tid;
        buff \<leftarrow> add_xor_mapped_address sockaddr buff;
        buff \<leftarrow> (if has_ice_controlling stun then add_ice_controlled buff else Some buff);
        buff \<leftarrow> (if local_pwd stun \<noteq> [] then add_message_integrity hmac (local_pwd stun) buff
                else Some buff);
        add_fingerprint buff }
      else Some [])"

section \<open>The parser as a walk over attributes and a check of each\<close>

text \<open>
  The attributes of a message from an offset on, each with its type, its offset and its length,
  and the error that ends the walk, if any.
\<close>

type_synonym attr = "u16 \<times> nat \<times> nat"

definition type_at :: "byte list \<Rightarrow> nat \<Rightarrow> u16" where
  "type_at msg p = dec_be (take 2 (drop p msg))"

definition len_at :: "byte list \<Rightarrow> nat \<Rightarrow> nat" where
  "len_at msg p = unat (type_at msg (p + 2))"

definition val_at :: "byte list \<Rightarrow> nat \<Rightarrow> nat \<Rightarrow> byte list" where
  "val_at msg p l = take l (drop (p + 4) msg)"

function attributes :: "byte list \<Rightarrow> nat \<Rightarrow> attr list \<times> stun_reject option" where
  "attributes msg p =
     (if p < length msg then
        if length msg < p + 4 then ([], Some Bad_attribute_data)
        else if length msg < p + 4 + len_at msg p then ([], Some Attribute_past_end)
        else let (as, e) = attributes msg (p + 4 + round4 (len_at msg p)) in
             ((type_at msg p, p, len_at msg p) # as, e)
      else ([], None))"
  by pat_completeness auto

termination attributes
  by (relation "measure (\<lambda>(msg, p). length msg - p)") auto

declare attributes.simps [simp del]

definition patch_length :: "nat \<Rightarrow> byte list \<Rightarrow> byte list" where
  "patch_length n pre = take 2 pre @ enc_be 2 (of_nat n :: u16) @ drop 4 pre"

definition connection_of :: "lookup_fun \<Rightarrow> conn_parser \<Rightarrow> byte list \<Rightarrow> connection option" where
  "connection_of lookup parse_conn user = Option.bind (lookup user) parse_conn"

definition attr_state ::
  "lookup_fun \<Rightarrow> conn_parser \<Rightarrow> byte list \<Rightarrow> parse_state \<Rightarrow> attr \<Rightarrow> parse_state"
where
  "attr_state lookup parse_conn msg st = (\<lambda>(t, p, l).
     if t = USERNAME then
       st\<lparr>p_user_name := val_at msg p l, p_known_client := True,
          p_conn := the (connection_of lookup parse_conn (val_at msg p l))\<rparr>
     else if t = USE_CANDIDATE then st\<lparr>p_use_candidate := True\<rparr>
     else if t = ICE_CONTROLLING then st\<lparr>p_ice_controlling := True\<rparr>
     else st)"

definition attr_error ::
  "lookup_fun \<Rightarrow> conn_parser \<Rightarrow> hmac_fun \<Rightarrow> byte list \<Rightarrow> parse_state \<Rightarrow> attr \<Rightarrow> stun_reject option"
where
  "attr_error lookup parse_conn hmac msg st = (\<lambda>(t, p, l).
     if t AND 0x8000 = 0 \<and> t \<notin> set known_required_attribs then Some Unknown_required_attribute
     else if t = USERNAME then
       (if 0x3a \<notin> set (val_at msg p l) then Some No_colon
        else if hd (val_at msg p l) = 0x3a then Some Empty_ufrag
        else if lookup (val_at msg p l) = None then Some Unknown_user
        else if connection_of lookup parse_conn (val_at msg p l) = None then Some Bad_connection_data
        else None)
     else if t = MESSAGE_INTEGRITY then
       (if l \<noteq> 20 then Some Bad_integrity_length
        else if p_user_name st = [] then Some Integrity_without_username
        else if val_at msg p l \<noteq> hmac (c_local_pwd (p_conn st)) (patch_length (p + 4) (take p msg))
        then Some Integrity_mismatch else None)
     else if t = USE_CANDIDATE then (if l \<noteq> 0 then Some Bad_use_candidate_length else None)
     else if t = ICE_CONTROLLING then (if l \<noteq> 8 then Some Bad_ice_controlling_length else None)
     else if t = FINGERPRINT then
       (if l \<noteq> 4 then Some Bad_fingerprint_length
        else if crc32_xor (take p msg) \<noteq> Some (dec_be (val_at msg p l)) then Some Fingerprint_mismatch
        else None)
     else None)"

fun check_all ::
  "lookup_fun \<Rightarrow> conn_parser \<Rightarrow> hmac_fun \<Rightarrow> byte list \<Rightarrow> attr list \<Rightarrow> parse_state \<Rightarrow>
     stun_reject + parse_state"
where
  "check_all lookup parse_conn hmac msg [] st = Inr st"
| "check_all lookup parse_conn hmac msg (a # as) st =
     (case attr_error lookup parse_conn hmac msg st a of
        Some e \<Rightarrow> Inl e
      | None \<Rightarrow> check_all lookup parse_conn hmac msg as (attr_state lookup parse_conn msg st a))"

lemma memchr_eq:
  "memchr bs c = (if c \<in> set bs then Some (length (takeWhile (\<lambda>b. b \<noteq> c) bs)) else None)"
  by (induction bs) auto

lemma memchr_pos:
  assumes "c \<in> set bs"
  obtains n where "memchr bs c = Some n" "n < length bs" "n = 0 \<longleftrightarrow> hd bs = c"
proof
  show "memchr bs c = Some (length (takeWhile (\<lambda>b. b \<noteq> c) bs))" using assms by (simp add: memchr_eq)
  show "length (takeWhile (\<lambda>b. b \<noteq> c) bs) < length bs"
    using assms by (induction bs) auto
  show "length (takeWhile (\<lambda>b. b \<noteq> c) bs) = 0 \<longleftrightarrow> hd bs = c"
    using assms by (cases bs) auto
qed

lemma length_val_at: "p + 4 + l \<le> length msg \<Longrightarrow> length (val_at msg p l) = l"
  by (simp add: val_at_def)

lemma parse_username_eq:
  assumes "p + 4 + l \<le> length msg"
  shows "parse_username lookup parse_conn msg p l st =
    Some (case attr_error lookup parse_conn hmac msg st (USERNAME, p, l) of
      Some e \<Rightarrow> Inl e | None \<Rightarrow> Inr (attr_state lookup parse_conn msg st (USERNAME, p, l)))"
proof -
  let ?v = "val_at msg p l"
  have rd: "rd_range msg (p + attribute_header_size) l = Some ?v"
    using assms by (simp add: mem_in attribute_header_size_def val_at_def)
  have known: "\<not> (USERNAME AND 0x8000 = 0 \<and> USERNAME \<notin> set known_required_attribs)"
    by (simp add: known_required_attribs_def)
  show ?thesis
  proof (cases "0x3a \<in> set ?v")
    case False
    then have "memchr ?v 0x3a = None" by (simp add: memchr_eq)
    then show ?thesis
      using False known by (simp add: parse_username_def rd attr_error_def)
  next
    case True
    then obtain n where n: "memchr ?v 0x3a = Some n" "n < length ?v" "n = 0 \<longleftrightarrow> hd ?v = 0x3a"
      by (rule memchr_pos)
    have "n \<noteq> l" using n(2) assms by (simp add: length_val_at)
    then show ?thesis
      using True n known
      by (simp add: parse_username_def rd attr_error_def attr_state_def connection_of_def split: option.split)
  qed
qed

lemma parse_message_integrity_eq:
  assumes "p + 4 + l \<le> length msg" "20 \<le> p"
  shows "parse_message_integrity hmac msg p l st =
    Some (case attr_error lookup parse_conn hmac msg st (MESSAGE_INTEGRITY, p, l) of
      Some e \<Rightarrow> Inl e | None \<Rightarrow> Inr (attr_state lookup parse_conn msg st (MESSAGE_INTEGRITY, p, l)))"
proof -
  have "rd_range msg 0 p = Some (take p msg)" using assms by (simp add: mem_in)
  moreover have "set_be_uint16 (4 + of_nat p) (take p msg) 2 = Some (patch_length (p + 4) (take p msg))"
    using assms by (simp add: set_be_uint16_eq wr_range_in patch_length_def add.commute)
  moreover have "rd_range msg (p + 4) 20 = Some (val_at msg p l)" if "l = 20"
    using assms that by (simp add: mem_in val_at_def)
  ultimately show ?thesis
    by (auto simp: parse_message_integrity_def attr_error_def attr_state_def header_sizes
      attribute_types known_required_attribs_def Let_def split: if_splits)
qed

lemma parse_fingerprint_eq:
  assumes "p + 4 + l \<le> length msg" "20 \<le> p"
  shows "parse_fingerprint msg p l st =
    Some (case attr_error lookup parse_conn hmac msg st (FINGERPRINT, p, l) of
      Some e \<Rightarrow> Inl e | None \<Rightarrow> Inr (attr_state lookup parse_conn msg st (FINGERPRINT, p, l)))"
proof -
  have "rd_range msg 0 p = Some (take p msg)" using assms by (simp add: mem_in)
  moreover have "get_be_uint32 msg (p + 4) = Some (dec_be (val_at msg p l))" if "l = 4"
    using assms that by (simp add: get_be_uint32_eq mem_in val_at_def)
  ultimately show ?thesis
    by (auto simp: parse_fingerprint_def attr_error_def attr_state_def header_sizes
      attribute_types known_required_attribs_def crc32_xor_eq split: if_splits)
qed

lemma parse_attribute_eq:
  assumes "p + 4 + l \<le> length msg" "20 \<le> p"
    and known: "\<not> (t AND 0x8000 = 0 \<and> t \<notin> set known_required_attribs)"
  shows "parse_attribute lookup parse_conn hmac msg p t l st =
    Some (case attr_error lookup parse_conn hmac msg st (t, p, l) of
      Some e \<Rightarrow> Inl e | None \<Rightarrow> Inr (attr_state lookup parse_conn msg st (t, p, l)))"
proof -
  consider "t = USERNAME" | "t = MESSAGE_INTEGRITY" | "t = FINGERPRINT"
    | "t \<notin> {USERNAME, MESSAGE_INTEGRITY, FINGERPRINT}" by blast
  then show ?thesis
  proof cases
    case 1
    show ?thesis
      unfolding 1 parse_attribute_def using parse_username_eq [OF assms(1)] by simp
  next
    case 2
    show ?thesis
      unfolding 2 parse_attribute_def using parse_message_integrity_eq [OF assms(1,2)]
      by (simp add: attribute_types)
  next
    case 3
    show ?thesis
      unfolding 3 parse_attribute_def using parse_fingerprint_eq [OF assms(1,2)]
      by (simp add: attribute_types)
  next
    case 4
    then show ?thesis
      using known
      by (auto simp: parse_attribute_def attr_error_def attr_state_def attribute_types
        known_required_attribs_def)
  qed
qed

lemma get_be_uint16_at:
  "p + 2 \<le> length msg \<Longrightarrow> get_be_uint16 msg p = Some (type_at msg p)"
  by (simp add: get_be_uint16_eq mem_in type_at_def)

lemma unat_type_at: "unat (type_at msg (Suc (Suc p))) = len_at msg p"
  by (simp add: len_at_def)

lemma parse_attributes_eq:
  "20 \<le> p \<Longrightarrow> length msg \<le> 65555 \<Longrightarrow>
   parse_attributes lookup parse_conn hmac msg p st =
     Some (case check_all lookup parse_conn hmac msg (fst (attributes msg p)) st of
       Inl e \<Rightarrow> Inl e
     | Inr st \<Rightarrow> (case snd (attributes msg p) of None \<Rightarrow> Inr st | Some e \<Rightarrow> Inl e))"
proof (induction msg p arbitrary: st rule: attributes.induct)
  case (1 msg p)
  note unfolds = parse_attributes.simps [of lookup parse_conn hmac msg p st] attributes.simps [of msg p]
  show ?case
  proof (cases "p < length msg \<and> p + 4 \<le> length msg \<and> p + 4 + len_at msg p \<le> length msg")
    case False
    then show ?thesis
      by (auto simp: unfolds header_sizes get_be_uint16_at unat_type_at not_less)
  next
    case True
    then have l: "align4 (len_at msg p) = round4 (len_at msg p)"
      using "1.prems" by (intro align4_round4) simp
    let ?t = "type_at msg p" and ?l = "len_at msg p"
    obtain as e where as: "attributes msg (p + 4 + round4 ?l) = (as, e)" by fastforce
    have att: "attributes msg p = ((?t, p, ?l) # as, e)"
      using True by (simp add: attributes.simps [of msg p] as)
    show ?thesis
    proof (cases "?t AND 0x8000 = 0 \<and> ?t \<notin> set known_required_attribs")
      case unknown: True
      then show ?thesis
        using True unfolding att
        by (simp add: unfolds header_sizes get_be_uint16_at unat_type_at attr_error_def)
    next
      case False
      have IH: "parse_attributes lookup parse_conn hmac msg (p + 4 + round4 ?l) st' =
          Some (case check_all lookup parse_conn hmac msg as st' of
            Inl e \<Rightarrow> Inl e | Inr st \<Rightarrow> (case e of None \<Rightarrow> Inr st | Some e \<Rightarrow> Inl e))" for st'
        using "1.IH" [of st'] "1.prems" True unfolding as fst_conv snd_conv by simp
      have "parse_attributes lookup parse_conn hmac msg p st =
          Option.bind (parse_attribute lookup parse_conn hmac msg p ?t ?l st)
            (\<lambda>r. case r of Inl e \<Rightarrow> Some (Inl e)
              | Inr st \<Rightarrow> parse_attributes lookup parse_conn hmac msg (p + 4 + round4 ?l) st)"
        using True False
        by (auto simp: unfolds(1) header_sizes get_be_uint16_at unat_type_at l)
      then show ?thesis
        unfolding att fst_conv snd_conv using True False "1.prems"
          parse_attribute_eq [of p ?l msg ?t lookup parse_conn hmac st]
        by (simp add: IH split: option.split)
    qed
  qed
qed

definition header_error :: "byte list \<Rightarrow> stun_reject option" where
  "header_error msg =
     (if length msg < 20 then Some Too_short
      else if msg ! 0 AND 0xc0 \<noteq> 0 then Some First_bits_not_zero
      else if take 4 (drop 4 msg) \<noteq> raw_magic_cookie then Some Bad_cookie
      else if length msg \<noteq> unat (type_at msg 2) + 20 then Some Size_mismatch
      else if type_at msg 0 AND NOT method_class_mask \<noteq> binding then Some Unknown_method
      else None)"

definition result_msg :: "byte list \<Rightarrow> parse_state \<Rightarrow> stun_msg" where
  "result_msg msg st =
     \<lparr> stun_method = type_at msg 0 AND NOT method_class_mask,
       method_class = type_at msg 0 AND method_class_mask,
       remote_ufrag = c_remote_ufrag (p_conn st), remote_pwd = c_remote_pwd (p_conn st),
       remote_sctp_port = ucast (c_remote_sctp_port (p_conn st)),
       local_ufrag = c_local_ufrag (p_conn st), local_pwd = c_local_pwd (p_conn st),
       local_sctp_port = ucast (c_local_sctp_port (p_conn st)),
       has_fingerprint = False, has_use_candidate = p_use_candidate st,
       has_ice_controlling = p_ice_controlling st, known_client = p_known_client st \<rparr>"

definition parse_spec ::
  "lookup_fun \<Rightarrow> conn_parser \<Rightarrow> hmac_fun \<Rightarrow> byte list \<Rightarrow> stun_reject + stun_msg"
where
  "parse_spec lookup parse_conn hmac msg =
     (case header_error msg of
        Some e \<Rightarrow> Inl e
      | None \<Rightarrow>
          (case check_all lookup parse_conn hmac msg (fst (attributes msg 20)) init_parse_state of
             Inl e \<Rightarrow> Inl e
           | Inr st \<Rightarrow>
               (case snd (attributes msg 20) of Some e \<Rightarrow> Inl e | None \<Rightarrow> Inr (result_msg msg st))))"

lemma parse_stun_msg_eq:
  "parse_stun_msg lookup parse_conn hmac msg = Some (parse_spec lookup parse_conn hmac msg)"
proof (cases "length msg < 20")
  case True
  then show ?thesis by (simp add: parse_stun_msg_def parse_spec_def header_error_def)
next
  case False
  then have "20 \<le> length msg" by simp
  then have rds: "rd msg 0 = Some (msg ! 0)" "rd_range msg 4 4 = Some (take 4 (drop 4 msg))"
      "get_be_uint16 msg 2 = Some (type_at msg 2)" "get_be_uint16 msg 0 = Some (type_at msg 0)"
    using get_be_uint16_at [of 0 msg] get_be_uint16_at [of 2 msg]
    by (auto simp: rd_def rd_range_def)
  have "unat (type_at msg 2) < 65536" using unsigned_less [of "type_at msg 2"] by simp
  then have "parse_attributes lookup parse_conn hmac msg 20 init_parse_state =
     Some (case check_all lookup parse_conn hmac msg (fst (attributes msg 20)) init_parse_state of
       Inl e \<Rightarrow> Inl e
     | Inr st \<Rightarrow> (case snd (attributes msg 20) of None \<Rightarrow> Inr st | Some e \<Rightarrow> Inl e))"
    if "length msg = unat (type_at msg 2) + 20"
    using that by (intro parse_attributes_eq) simp_all
  then show ?thesis
    using False by (auto simp: parse_stun_msg_def parse_spec_def rds known_methods_def header_error_def
      stun_msg_header_size_def result_msg_def Let_def split: sum.split option.split)
qed

lemma check_all_state:
  "check_all lookup parse_conn hmac msg as st = Inr st' \<Longrightarrow>
     st' = foldl (attr_state lookup parse_conn msg) st as"
  by (induction as arbitrary: st) (auto split: option.splits)

lemma check_all_each:
  "check_all lookup parse_conn hmac msg (xs @ a # ys) st = Inr st' \<Longrightarrow>
     attr_error lookup parse_conn hmac msg (foldl (attr_state lookup parse_conn msg) st xs) a = None"
  by (induction xs arbitrary: st) (auto split: option.splits)

text \<open>The values of the USERNAME attributes of a list of attributes, in order.\<close>

definition user_names :: "byte list \<Rightarrow> attr list \<Rightarrow> byte list list" where
  "user_names msg as = map (\<lambda>(t, p, l). val_at msg p l) (filter (\<lambda>(t, p, l). t = USERNAME) as)"

lemma attribute_types_distinct:
  "USERNAME \<noteq> USE_CANDIDATE" "USERNAME \<noteq> ICE_CONTROLLING" "USE_CANDIDATE \<noteq> ICE_CONTROLLING"
  "USE_CANDIDATE \<noteq> USERNAME" "ICE_CONTROLLING \<noteq> USERNAME" "ICE_CONTROLLING \<noteq> USE_CANDIDATE"
  by (simp_all add: attribute_types)

lemma attr_state_fields:
  "p_known_client (attr_state lookup parse_conn msg st (t, p, l)) \<longleftrightarrow> t = USERNAME \<or> p_known_client st"
  "p_use_candidate (attr_state lookup parse_conn msg st (t, p, l)) \<longleftrightarrow> t = USE_CANDIDATE \<or> p_use_candidate st"
  "p_ice_controlling (attr_state lookup parse_conn msg st (t, p, l)) \<longleftrightarrow>
     t = ICE_CONTROLLING \<or> p_ice_controlling st"
  "p_user_name (attr_state lookup parse_conn msg st (t, p, l)) =
     (if t = USERNAME then val_at msg p l else p_user_name st)"
  "p_conn (attr_state lookup parse_conn msg st (t, p, l)) =
     (if t = USERNAME then the (connection_of lookup parse_conn (val_at msg p l)) else p_conn st)"
  by (simp_all add: attr_state_def attribute_types_distinct)

lemma user_names_snoc:
  "user_names msg (as @ [(t, p, l)]) =
     user_names msg as @ (if t = USERNAME then [val_at msg p l] else [])"
  by (simp add: user_names_def)

lemma fold_state:
  assumes "st = foldl (attr_state lookup parse_conn msg) init_parse_state as"
  shows "p_known_client st \<longleftrightarrow> USERNAME \<in> fst ` set as"
    and "p_use_candidate st \<longleftrightarrow> USE_CANDIDATE \<in> fst ` set as"
    and "p_ice_controlling st \<longleftrightarrow> ICE_CONTROLLING \<in> fst ` set as"
    and "p_user_name st = (if user_names msg as = [] then [] else last (user_names msg as))"
    and "p_conn st = (if user_names msg as = [] then empty_connection
           else the (connection_of lookup parse_conn (last (user_names msg as))))"
proof -
  have "(p_known_client st \<longleftrightarrow> USERNAME \<in> fst ` set as) \<and>
    (p_use_candidate st \<longleftrightarrow> USE_CANDIDATE \<in> fst ` set as) \<and>
    (p_ice_controlling st \<longleftrightarrow> ICE_CONTROLLING \<in> fst ` set as) \<and>
    p_user_name st = (if user_names msg as = [] then [] else last (user_names msg as)) \<and>
    p_conn st = (if user_names msg as = [] then empty_connection
      else the (connection_of lookup parse_conn (last (user_names msg as))))"
    using assms
  proof (induction as arbitrary: st rule: rev_induct)
    case Nil
    then show ?case by (simp add: init_parse_state_def user_names_def)
  next
    case (snoc a as)
    obtain t p l where a: "a = (t, p, l)" by (cases a)
    show ?case
      using snoc.IH [OF refl] snoc.prems
      by (auto simp: a attr_state_fields user_names_snoc)
  qed
  then show "p_known_client st \<longleftrightarrow> USERNAME \<in> fst ` set as"
    and "p_use_candidate st \<longleftrightarrow> USE_CANDIDATE \<in> fst ` set as"
    and "p_ice_controlling st \<longleftrightarrow> ICE_CONTROLLING \<in> fst ` set as"
    and "p_user_name st = (if user_names msg as = [] then [] else last (user_names msg as))"
    and "p_conn st = (if user_names msg as = [] then empty_connection
           else the (connection_of lookup parse_conn (last (user_names msg as))))"
    by blast+
qed

lemma user_names_mem:
  "u \<in> set (user_names msg as) \<Longrightarrow> \<exists>xs p l ys. as = xs @ (USERNAME, p, l) # ys \<and> u = val_at msg p l"
  by (auto simp: user_names_def in_set_conv_decomp)

lemma checked_user_known:
  assumes "check_all lookup parse_conn hmac msg as st = Inr st'" "u \<in> set (user_names msg as)"
  shows "connection_of lookup parse_conn u \<noteq> None"
proof -
  obtain xs p l ys where "as = xs @ (USERNAME, p, l) # ys" "u = val_at msg p l"
    using user_names_mem [OF assms(2)] by blast
  moreover from this have "attr_error lookup parse_conn hmac msg
      (foldl (attr_state lookup parse_conn msg) st xs) (USERNAME, p, l) = None"
    using assms(1) by (simp add: check_all_each)
  ultimately show ?thesis by (simp add: attr_error_def split: if_splits)
qed

section \<open>Properties of the parser\<close>

text \<open>
  C36: on every byte sequence the parser terminates without ever reading outside of the message,
  whatever the store, the protobuf parser and the HMAC function return, and its result is that
  of the specification: check the header, split the rest into attributes, check them in order.
\<close>

theorem parse_stun_msg_is_spec:
  "parse_stun_msg lookup parse_conn hmac msg \<noteq> None \<and>
   parse_stun_msg lookup parse_conn hmac msg = Some (parse_spec lookup parse_conn hmac msg)"
  by (simp add: parse_stun_msg_eq)

text \<open>
  an accepted message is exactly as long as its header says, is a binding message, consists
  of complete attributes, and reports a known client, a use candidate request or the controlling
  role if and only if the attribute is there.  Each FINGERPRINT in it is the checksum of what
  precedes it, and each MESSAGE_INTEGRITY the HMAC, under the local password of the
  connection of the last user name before it, of what precedes it with the length field ending
  at this attribute.
\<close>

theorem accepted_message:
  assumes "parse_stun_msg lookup parse_conn hmac msg = Some (Inr m)"
  shows "length msg = 20 + unat (type_at msg 2) \<and> stun_method m = binding \<and> snd (attributes msg 20) = None \<and>
    (known_client m \<longleftrightarrow> USERNAME \<in> fst ` set (fst (attributes msg 20))) \<and>
    (has_use_candidate m \<longleftrightarrow> USE_CANDIDATE \<in> fst ` set (fst (attributes msg 20))) \<and>
    (has_ice_controlling m \<longleftrightarrow> ICE_CONTROLLING \<in> fst ` set (fst (attributes msg 20))) \<and>
    (\<forall>xs p l ys. fst (attributes msg 20) = xs @ (FINGERPRINT, p, l) # ys \<longrightarrow>
       l = 4 \<and> crc32_xor (take p msg) = Some (dec_be (val_at msg p 4))) \<and>
    (\<forall>xs p l ys. fst (attributes msg 20) = xs @ (MESSAGE_INTEGRITY, p, l) # ys \<longrightarrow>
       l = 20 \<and> user_names msg xs \<noteq> [] \<and>
       (\<exists>c. connection_of lookup parse_conn (last (user_names msg xs)) = Some c \<and>
          val_at msg p 20 = hmac (c_local_pwd c) (patch_length (p + 4) (take p msg))))"
proof -
  let ?as = "fst (attributes msg 20)"
  obtain st where hdr: "header_error msg = None" and
      chk: "check_all lookup parse_conn hmac msg ?as init_parse_state = Inr st" and
      fin: "snd (attributes msg 20) = None" and m: "m = result_msg msg st"
    using assms by (auto simp: parse_stun_msg_eq parse_spec_def split: option.splits sum.splits)
  have st: "st = foldl (attr_state lookup parse_conn msg) init_parse_state ?as"
    using chk by (rule check_all_state)
  have "length msg = 20 + unat (type_at msg 2)" "stun_method m = binding"
    using hdr by (auto simp: header_error_def m result_msg_def split: if_splits)
  moreover have "l = 4 \<and> crc32_xor (take p msg) = Some (dec_be (val_at msg p 4))"
    if "?as = xs @ (FINGERPRINT, p, l) # ys" for xs p l ys
    using check_all_each [OF chk [unfolded that]]
    by (auto simp: attr_error_def attribute_types split: if_splits)
  moreover have "l = 20 \<and> user_names msg xs \<noteq> [] \<and>
       (\<exists>c. connection_of lookup parse_conn (last (user_names msg xs)) = Some c \<and>
          val_at msg p 20 = hmac (c_local_pwd c) (patch_length (p + 4) (take p msg)))"
    if as: "?as = xs @ (MESSAGE_INTEGRITY, p, l) # ys" for xs p l ys
  proof -
    have err: "attr_error lookup parse_conn hmac msg
        (foldl (attr_state lookup parse_conn msg) init_parse_state xs) (MESSAGE_INTEGRITY, p, l) = None"
      using check_all_each [OF chk [unfolded as]] .
    then have l: "l = 20" and u: "user_names msg xs \<noteq> []" and
        v: "val_at msg p 20 = hmac (c_local_pwd (the (connection_of lookup parse_conn
          (last (user_names msg xs))))) (patch_length (p + 4) (take p msg))"
      by (auto simp: attr_error_def attribute_types fold_state [OF refl] split: if_splits)
    have "set (user_names msg xs) \<subseteq> set (user_names msg ?as)"
      by (auto simp: as user_names_def)
    then have "last (user_names msg xs) \<in> set (user_names msg ?as)"
      using last_in_set [OF u] by blast
    then have "connection_of lookup parse_conn (last (user_names msg xs)) \<noteq> None"
      using chk by (rule checked_user_known [rotated])
    then show ?thesis using l u v by auto
  qed
  ultimately show ?thesis
    using fin by (simp add: m result_msg_def fold_state [OF st])
qed

text \<open>A binding request of the user \<open>a:b\<close> with a constant HMAC.\<close>

definition sample_request :: "byte list" where
  "sample_request =
    [0, 1, 0, 32, 0x21, 0x12, 0xa4, 0x42, 0, 0, 0, 0, 0, 0, 0, 0, 0, 0, 0, 0,
     0, 6, 0, 3, 97, 58, 98, 0, 0, 8, 0, 20, 7, 7, 7, 7, 7, 7, 7, 7, 7, 7,
     7, 7, 7, 7, 7, 7, 7, 7, 7, 7]"

lemma sample_types:
  "length sample_request = 52"
  "type_at sample_request 0 = 1" "type_at sample_request 2 = 32"
  "type_at sample_request 20 = USERNAME" "type_at sample_request 22 = 3"
  "type_at sample_request 28 = MESSAGE_INTEGRITY" "type_at sample_request 30 = 20"
  by (simp_all add: type_at_def sample_request_def dec_be_def attribute_types)

lemma sample_attributes:
  "attributes sample_request 20 = ([(USERNAME, 20, 3), (MESSAGE_INTEGRITY, 28, 20)], None)"
  by (simp add: attributes.simps [of sample_request 20] attributes.simps [of sample_request 28]
    attributes.simps [of sample_request 52] sample_types len_at_def round4_def)

lemma sample_values:
  "val_at sample_request 20 3 = [97, 58, 98]" "val_at sample_request 28 20 = replicate 20 7"
  by (simp_all add: val_at_def sample_request_def numeral_eq_Suc)

lemma sample_request_parsed:
  "\<exists>m. parse_stun_msg (\<lambda>u. Some u) (\<lambda>r. Some empty_connection) (\<lambda>k d. replicate 20 7) sample_request =
     Some (Inr m)"
proof -
  have "header_error sample_request = None"
    by (simp add: header_error_def sample_types) (simp add: sample_request_def raw_magic_cookie_def method_class_mask_def binding_def)
  then show ?thesis
    by (simp add: parse_stun_msg_eq parse_spec_def sample_attributes attr_error_def attr_state_def
      sample_values attribute_types known_required_attribs_def connection_of_def)
qed

lemma accepted_message_witness:
  "length sample_request = 20 + unat (type_at sample_request 2) \<and>
   USERNAME \<in> fst ` set (fst (attributes sample_request 20))"
  using sample_request_parsed accepted_message [of "\<lambda>u. Some u" "\<lambda>r. Some empty_connection" "\<lambda>k d. replicate 20 7" sample_request]
  by (auto simp: sample_attributes)
end
