(* ===== verification/Stun_Reply.thy ===== *)
theory Stun_Reply
  imports Stun
begin

text \<open>
  The replies of \<open>create_stun_reply\<close> (\<open>src/cpp/stun.cpp\<close>): the exact bytes every builder
  operation appends, the reply as a whole, and what the parser of this library and the client
  that sent the request find in it.
\<close>

section \<open>The reply\<close>

text \<open>An attribute: type, length and value.\<close>

definition enc_attr :: "u16 \<Rightarrow> byte list \<Rightarrow> byte list" where
  "enc_attr t v = enc_be 2 t @ enc_be 2 (of_nat (length v) :: u16) @ v"

definition xor_address :: "sockaddr_storage \<Rightarrow> byte list \<Rightarrow> byte list" where
  "xor_address sa tid = enc_be 2 (1 :: u16) @ xor_bytes (sa_port sa) (take 2 raw_magic_cookie) @
     (case sa of
       Sockaddr_in _ a \<Rightarrow> xor_bytes a raw_magic_cookie
     | Sockaddr_in6 _ a \<Rightarrow>
         if take 12 a = ipv4_in_6_header then xor_bytes (drop 12 a) raw_magic_cookie
         else xor_bytes a (raw_magic_cookie @ tid))"

definition reply_header :: "u16 \<Rightarrow> byte list \<Rightarrow> byte list" where
  "reply_header n tid = enc_be 2 (binding OR success_response_class) @ enc_be 2 n @ raw_magic_cookie @ tid"

lemma length_xor_bytes [simp]: "length (xor_bytes a b) = min (length a) (length b)"
  by (simp add: xor_bytes_def)

lemma length_cookie [simp]: "length raw_magic_cookie = 4"
  by (simp add: raw_magic_cookie_def)

lemma length_enc_attr [simp]: "length (enc_attr t v) = 4 + length v"
  by (simp add: enc_attr_def)

lemma stun_message_builder_eq:
  "length tid = 12 \<Longrightarrow>
     stun_message_builder (binding OR success_response_class) tid = Some (reply_header 0 tid)"
  by (simp add: stun_message_builder_def set_be_uint16_eq wr_range_def rd_range_def reply_header_def)
    (simp add: enc_be_def numeral_2_eq_2)

lemma wr_end:
  "length buff mod 4 = 0 \<Longrightarrow> length buff < 65536 \<Longrightarrow> length ys = n \<Longrightarrow>
     wr_range (resize (align4 (length buff) + n) buff) (align4 (length buff)) ys = Some (buff @ ys)"
  by (simp add: align4_eq resize_grow mem_simps wr_range_def)

lemma add_ipv4_eq:
  assumes "length tid = 12" "length port = 2" "length addr = 4"
  shows "add_ipv4_xor_mapped_address port addr (reply_header 0 tid) = Some (reply_header 0 tid @
     enc_attr XOR_MAPPED_ADDRESS (xor_address (Sockaddr_in port addr) tid))"
proof -
  let ?h = "reply_header 0 tid"
  have h: "length ?h = 20" "rd_range ?h 4 2 = Some (take 2 raw_magic_cookie)"
    "rd_range ?h 4 4 = Some raw_magic_cookie"
    using assms by (simp_all add: reply_header_def rd_range_def)
  show ?thesis
    unfolding add_ipv4_xor_mapped_address_def
    using assms
    by (simp add: h Let_def set_be_uint16_eq wr_range_in rd_range_in align4_eq resize_grow enc_attr_def
      xor_address_def)
qed

lemma add_ipv6_eq:
  assumes "length tid = 12" "length port = 2" "length addr = 16" "take 12 addr \<noteq> ipv4_in_6_header"
  shows "add_ipv6_xor_mapped_address port addr (reply_header 0 tid) = Some (reply_header 0 tid @
     enc_attr XOR_MAPPED_ADDRESS (xor_address (Sockaddr_in6 port addr) tid))"
proof -
  let ?h = "reply_header 0 tid"
  have h: "length ?h = 20" "rd_range ?h 4 2 = Some (take 2 raw_magic_cookie)"
    "rd_range ?h 4 16 = Some (raw_magic_cookie @ tid)"
    using assms by (simp_all add: reply_header_def rd_range_def)
  show ?thesis
    unfolding add_ipv6_xor_mapped_address_def
    using assms
    by (simp add: h Let_def set_be_uint16_eq wr_range_in rd_range_in align4_eq resize_grow enc_attr_def
      xor_address_def)
qed

lemma add_xor_mapped_address_eq:
  assumes "length tid = 12" "wf_sockaddr sa"
  shows "add_xor_mapped_address sa (reply_header 0 tid) = Some (reply_header 0 tid @
     enc_attr XOR_MAPPED_ADDRESS (xor_address sa tid))"
proof (cases sa)
  case (Sockaddr_in p a)
  then show ?thesis using assms by (simp add: add_ipv4_eq)
next
  case (Sockaddr_in6 p a)
  then show ?thesis
    using assms add_ipv4_eq [of tid p "drop 12 a"] add_ipv6_eq [of tid p a]
    by (cases "take 12 a = ipv4_in_6_header")
      (simp_all add: rd_range_def xor_address_def min_absorb2)
qed

lemma add_ice_controlled_eq:
  assumes "length buff mod 4 = 0" "length buff < 65000"
  shows "add_ice_controlled buff = Some (buff @ enc_attr ICE_CONTROLLED (replicate 8 0))"
proof -
  have z: "enc_be 8 (0 :: u64) = replicate 8 0" by (simp add: enc_be_def upt_rec numeral_eq_Suc)
  show ?thesis
    using assms
    by (simp add: add_ice_controlled_def Let_def align4_eq resize_grow set_be_uint16_eq
      set_be_uint64_eq mem_simps wr_range_in enc_attr_def z)
qed

lemma patch_length_eq:
  "4 \<le> length buff \<Longrightarrow> set_be_uint16 (of_nat n) buff 2 = Some (patch_length n buff)"
  by (simp add: set_be_uint16_eq wr_range_in patch_length_def)

lemma length_patch_length [simp]: "4 \<le> length buff \<Longrightarrow> length (patch_length n buff) = length buff"
  by (simp add: patch_length_def)

lemma patch_length_append:
  "4 \<le> length buff \<Longrightarrow> patch_length n (buff @ q) = patch_length n buff @ q"
  by (simp add: patch_length_def)

lemma write_attr_header:
  "Option.bind (set_be_uint16 t (p @ replicate (n + 4) 0) (length p))
     (\<lambda>b. Option.bind (set_be_uint16 l b (length p + 2)) k) =
   k (p @ enc_be 2 t @ enc_be 2 l @ replicate n 0)"
  by (simp add: set_be_uint16_eq mem_simps wr_range_in)

lemma grow_and_patch:
  assumes "length buff mod 4 = 0" "length buff < 65000" "20 \<le> length buff"
  shows "set_be_uint16 (of_nat m) (resize (align4 (length buff) + n) buff) 2 =
      Some (patch_length m buff @ replicate n 0)"
  using assms by (subst patch_length_eq) (simp_all add: align4_eq resize_grow patch_length_append)

lemma add_message_integrity_eq:
  assumes "length buff mod 4 = 0" "length buff < 65000" "20 \<le> length buff"
    and hm: "\<And>d. length (hmac pwd d) = 20"
    and pre: "pre = patch_length (length buff + 4) buff"
  shows "add_message_integrity hmac pwd buff = Some (pre @ enc_attr MESSAGE_INTEGRITY (hmac pwd pre))"
proof -
  have len: "length buff = length pre" using assms by (simp add: pre)
  have pre': "patch_length (4 + length buff) buff = pre" by (simp add: pre add.commute)
  have "add_message_integrity hmac pwd buff =
    (let b = pre @ enc_be 2 MESSAGE_INTEGRITY @ enc_be 2 (20 :: u16) @ replicate 20 0
     in Option.bind (rd_range b 0 (length pre)) (\<lambda>p. wr_range b (length pre + 4) (hmac pwd p)))"
    using assms(1-3) write_attr_header [of MESSAGE_INTEGRITY pre 20 20]
    unfolding add_message_integrity_def Let_def grow_and_patch [OF assms(1-3)]
    by (simp add: align4_eq stun_msg_header_size_def pre') (simp add: len)
  then show ?thesis
    by (simp add: mem_simps wr_range_in enc_attr_def rd_range_in hm)
qed

lemma add_fingerprint_eq:
  assumes "length buff mod 4 = 0" "length buff < 65000" "20 \<le> length buff"
    and pre: "pre = patch_length (length buff - 12) buff"
  shows "add_fingerprint buff = Some (pre @ enc_attr FINGERPRINT (enc_be 4 (the (crc32_xor pre))))"
proof -
  have len: "length buff = length pre" using assms by (simp add: pre)
  have "length buff + 8 - 20 = length buff - 12" by simp
  then have "add_fingerprint buff =
    (let b = pre @ enc_be 2 FINGERPRINT @ enc_be 2 (4 :: u16) @ replicate 4 0
     in do { p \<leftarrow> rd_range b 0 (length pre); crc \<leftarrow> crc32_xor p; set_be_uint32 crc b (length pre + 4) })"
    using assms(1-3) write_attr_header [of FINGERPRINT pre 4 4]
    unfolding add_fingerprint_def Let_def grow_and_patch [OF assms(1-3)]
    by (simp add: align4_eq stun_msg_header_size_def flip: pre) (simp add: len)
  then show ?thesis
    by (simp add: mem_simps wr_range_in enc_attr_def rd_range_in crc32_xor_eq set_be_uint32_eq)
qed

section \<open>The whole reply\<close>

definition reply_attrs :: "sockaddr_storage \<Rightarrow> byte list \<Rightarrow> bool \<Rightarrow> byte list" where
  "reply_attrs sa tid ice = enc_attr XOR_MAPPED_ADDRESS (xor_address sa tid) @
     (if ice then enc_attr ICE_CONTROLLED (replicate 8 0) else [])"

definition reply_integrity :: "hmac_fun \<Rightarrow> byte list \<Rightarrow> byte list \<Rightarrow> byte list \<Rightarrow> byte list" where
  "reply_integrity hmac pwd tid as =
     (if pwd = [] then []
      else enc_attr MESSAGE_INTEGRITY (hmac pwd (reply_header (of_nat (length as + 24)) tid @ as)))"

definition reply_with_fingerprint :: "byte list \<Rightarrow> byte list \<Rightarrow> byte list" where
  "reply_with_fingerprint tid as =
     (let pre = reply_header (of_nat (length as + 8)) tid @ as
      in pre @ enc_attr FINGERPRINT (enc_be 4 (the (crc32_xor pre))))"

definition reply_bytes ::
  "hmac_fun \<Rightarrow> sockaddr_storage \<Rightarrow> byte list \<Rightarrow> bool \<Rightarrow> byte list \<Rightarrow> byte list"
where
  "reply_bytes hmac sa tid ice pwd =
     (let as = reply_attrs sa tid ice
      in reply_with_fingerprint tid (as @ reply_integrity hmac pwd tid as))"

lemma length_reply_header [simp]: "length (reply_header n tid) = 8 + length tid"
  by (simp add: reply_header_def)

lemma patch_reply_header:
  "patch_length n (reply_header m tid @ as) = reply_header (of_nat n) tid @ as"
  by (simp add: patch_length_def reply_header_def)

lemma length_xor_address:
  assumes "wf_sockaddr sa" "length tid = 12"
  shows "length (xor_address sa tid) = 8 \<or> length (xor_address sa tid) = 20"
  using assms by (cases sa) (auto simp: xor_address_def)

lemma length_reply_attrs:
  assumes "wf_sockaddr sa" "length tid = 12"
  shows "length (reply_attrs sa tid ice) mod 4 = 0" "length (reply_attrs sa tid ice) \<le> 36"
  using length_xor_address [OF assms] by (auto simp: reply_attrs_def)

lemma length_reply_integrity:
  assumes "\<And>k d. length (hmac k d) = 20"
  shows "length (reply_integrity hmac pwd tid as) = (if pwd = [] then 0 else 24)"
  using assms by (simp add: reply_integrity_def)

lemma create_stun_reply_eq:
  assumes req: "method_class m = request_class" "stun_method m = binding"
    and msg: "20 \<le> length msg" and sa: "wf_sockaddr sa" and hm: "\<And>k d. length (hmac k d) = 20"
  shows "create_stun_reply hmac m msg sa =
    Some (reply_bytes hmac sa (take 12 (drop 8 msg)) (has_ice_controlling m) (local_pwd m))"
proof -
  define tid where "tid = take 12 (drop 8 msg)"
  have tid: "length tid = 12" using msg by (simp add: tid_def)
  let ?x = "enc_attr XOR_MAPPED_ADDRESS (xor_address sa tid)"
  define as where "as = reply_attrs sa tid (has_ice_controlling m)"
  have as: "length as mod 4 = 0" "length as \<le> 36"
    using length_reply_attrs [OF sa tid] by (simp_all add: as_def)
  have as_mod: "(20 + length as) mod 4 = 0" using as(1) by presburger
  have x: "length (reply_header 0 tid @ ?x) mod 4 = 0" "length (reply_header 0 tid @ ?x) < 65000"
    using length_xor_address [OF sa tid] tid by auto
  have ice: "(if has_ice_controlling m then add_ice_controlled (reply_header 0 tid @ ?x)
       else Some (reply_header 0 tid @ ?x)) = Some (reply_header 0 tid @ as)"
    using add_ice_controlled_eq [OF x] by (simp add: as_def reply_attrs_def)
  define mi where "mi = reply_integrity hmac (local_pwd m) tid as"
  have mi: "length mi mod 4 = 0" "length mi \<le> 24" using hm by (auto simp: mi_def length_reply_integrity)
  have integrity: "(if local_pwd m \<noteq> [] then add_message_integrity hmac (local_pwd m) (reply_header 0 tid @ as)
       else Some (reply_header 0 tid @ as)) = Some (reply_header
         (if local_pwd m = [] then 0 else of_nat (length as + 24)) tid @ as @ mi)"
    using add_message_integrity_eq [of "reply_header 0 tid @ as" hmac "local_pwd m", OF _ _ _ hm refl]
      as tid as_mod by (simp add: patch_reply_header mi_def reply_integrity_def add.commute)
  have final: "add_fingerprint (reply_header n tid @ as @ mi) = Some (reply_with_fingerprint tid (as @ mi))" for n
  proof -
    have "(20 + (length as + length mi)) mod 4 = 0" using as(1) mi(1) by presburger
    moreover have "20 + (length as + length mi) - 12 = length as + length mi + 8" by simp
    ultimately show ?thesis
      using add_fingerprint_eq [of "reply_header n tid @ as @ mi", OF _ _ _ refl] as mi tid
      by (simp add: patch_reply_header reply_with_fingerprint_def add_ac)
  qed
  have "rd_range msg 8 12 = Some tid" using msg by (simp add: tid_def rd_range_in)
  then have "create_stun_reply hmac m msg sa = do {
      buff \<leftarrow> (if has_ice_controlling m then add_ice_controlled (reply_header 0 tid @ ?x)
              else Some (reply_header 0 tid @ ?x));
      buff \<leftarrow> (if local_pwd m \<noteq> [] then add_message_integrity hmac (local_pwd m) buff else Some buff);
      add_fingerprint buff }"
    using req stun_message_builder_eq [OF tid] add_xor_mapped_address_eq [OF tid sa]
    by (simp add: create_stun_reply_def)
  also have "\<dots> = Some (reply_with_fingerprint tid (as @ mi))"
    by (simp only: ice integrity final Option.bind.bind_lunit)
  finally show ?thesis by (simp add: reply_bytes_def as_def mi_def Let_def flip: tid_def)
qed

section \<open>The attributes of the reply\<close>

lemma type_at_append: "type_at (p @ enc_be 2 t @ q) (length p) = t"
  by (simp add: type_at_def dec_enc_be)

lemma attributes_enc_attr:
  assumes "length v mod 4 = 0" "length v < 65536"
  shows "attributes (p @ enc_attr t v @ q) (length p) =
    (let (as, e) = attributes (p @ enc_attr t v @ q) (length p + 4 + length v)
     in ((t, length p, length v) # as, e))"
proof -
  let ?m = "p @ enc_attr t v @ q"
  have t: "type_at ?m (length p) = t" by (simp add: enc_attr_def type_at_append)
  have l: "len_at ?m (length p) = length v"
    using type_at_append [of "p @ enc_be 2 t" "of_nat (length v)" "v @ q"] assms
    by (simp add: len_at_def enc_attr_def unat_of_nat)
  show ?thesis
    using assms(1) attributes.simps [of ?m "length p"] by (simp only: t l round4_id) simp
qed

lemma attributes_end: "attributes m (length m) = ([], None)"
  by (simp add: attributes.simps)

lemma val_at_enc_attr: "val_at (p @ enc_attr t v @ q) (length p) (length v) = v"
  by (simp add: val_at_def enc_attr_def)

fun attr_list :: "nat \<Rightarrow> (u16 \<times> byte list) list \<Rightarrow> attr list" where
  "attr_list p [] = []"
| "attr_list p ((t, v) # avs) = (t, p, length v) # attr_list (p + 4 + length v) avs"

lemma attributes_of_list:
  assumes "\<forall>(t, v) \<in> set avs. length v mod 4 = 0 \<and> length v < 65536"
  shows "attributes (p @ concat (map (\<lambda>(t, v). enc_attr t v) avs)) (length p) =
    (attr_list (length p) avs, None)"
  using assms
proof (induction avs arbitrary: p)
  case Nil
  then show ?case by (simp add: attributes_end)
next
  case (Cons a avs)
  obtain t v where a: "a = (t, v)" by (cases a)
  then show ?case
    using Cons.prems Cons.IH [of "p @ enc_attr t v"]
    by (simp add: attributes_enc_attr add.assoc)
qed

text \<open>The attributes of the reply; \<open>mi\<close> and \<open>crc\<close> are the values of the last two.\<close>

definition reply_list ::
  "sockaddr_storage \<Rightarrow> byte list \<Rightarrow> bool \<Rightarrow> byte list option \<Rightarrow> byte list \<Rightarrow> (u16 \<times> byte list) list"
where
  "reply_list sa tid ice mi crc = (XOR_MAPPED_ADDRESS, xor_address sa tid) #
     (if ice then [(ICE_CONTROLLED, replicate 8 0)] else []) @
     (case mi of None \<Rightarrow> [] | Some v \<Rightarrow> [(MESSAGE_INTEGRITY, v)]) @ [(FINGERPRINT, crc)]"

lemma reply_bytes_list:
  assumes "wf_sockaddr sa" "length tid = 12" and hm: "\<And>k d. length (hmac k d) = 20"
  obtains mi crc where
    "reply_bytes hmac sa tid ice pwd =
       reply_header (of_nat (length (reply_bytes hmac sa tid ice pwd) - 20)) tid @
       concat (map (\<lambda>(t, v). enc_attr t v) (reply_list sa tid ice mi crc))"
    "length (reply_bytes hmac sa tid ice pwd) \<le> 88"
    "mi = (if pwd = [] then None else Some (hmac pwd (reply_header
       (of_nat (length (reply_attrs sa tid ice) + 24)) tid @ reply_attrs sa tid ice)))"
    "length crc = 4"
    "crc32_xor (reply_header (of_nat (length (reply_bytes hmac sa tid ice pwd) - 20)) tid @
       reply_attrs sa tid ice @ (case mi of None \<Rightarrow> [] | Some v \<Rightarrow> enc_attr MESSAGE_INTEGRITY v)) =
     Some (dec_be crc)"
proof -
  let ?as = "reply_attrs sa tid ice"
  define mi where "mi = (if pwd = [] then None else Some (hmac pwd (reply_header
       (of_nat (length ?as + 24)) tid @ ?as)))"
  define M where "M = reply_integrity hmac pwd tid ?as"
  have M: "M = (case mi of None \<Rightarrow> [] | Some v \<Rightarrow> enc_attr MESSAGE_INTEGRITY v)"
    by (simp add: M_def mi_def reply_integrity_def)
  define n where "n = length ?as + length M + 8"
  define pre where "pre = reply_header (of_nat n) tid @ ?as @ M"
  define crc where "crc = enc_be 4 (the (crc32_xor pre))"
  have bytes: "reply_bytes hmac sa tid ice pwd = pre @ enc_attr FINGERPRINT crc"
    by (simp add: reply_bytes_def reply_with_fingerprint_def Let_def pre_def crc_def n_def flip: M_def)
  have crc: "length crc = 4" by (simp add: crc_def)
  have len: "length (reply_bytes hmac sa tid ice pwd) - 20 = n"
    using assms(2) crc by (simp add: bytes pre_def n_def)
  have "length M \<le> 24" using hm by (simp add: M_def length_reply_integrity)
  then have small: "length (reply_bytes hmac sa tid ice pwd) \<le> 88"
    using length_reply_attrs(2) [OF assms(1,2), of ice] crc assms(2) by (simp add: bytes pre_def)
  have attrs: "concat (map (\<lambda>(t, v). enc_attr t v) (reply_list sa tid ice mi crc)) =
      ?as @ M @ enc_attr FINGERPRINT crc"
    by (simp add: M reply_list_def reply_attrs_def split: option.split)
  have sum: "crc32_xor pre = Some (dec_be crc)"
    by (simp add: crc_def dec_enc_be crc32_xor_eq)
  show thesis
  proof (rule that [of mi crc, unfolded len])
    show "reply_bytes hmac sa tid ice pwd =
        reply_header (of_nat n) tid @ concat (map (\<lambda>(t, v). enc_attr t v) (reply_list sa tid ice mi crc))"
      unfolding attrs by (simp add: bytes pre_def)
    show "crc32_xor (reply_header (of_nat n) tid @ ?as @
        (case mi of None \<Rightarrow> [] | Some v \<Rightarrow> enc_attr MESSAGE_INTEGRITY v)) = Some (dec_be crc)"
      using sum unfolding pre_def M .
  qed (use small crc mi_def in simp_all)
qed

lemma reply_header_type:
  "type_at (reply_header n tid @ q) 0 = binding OR success_response_class"
  "type_at (reply_header n tid @ q) 2 = n"
  using type_at_append [of "[]" "binding OR success_response_class"]
    type_at_append [of "enc_be 2 (binding OR success_response_class)" n]
  by (simp_all add: reply_header_def)

lemma reply_header_parts:
  "take 4 (drop 4 (reply_header n tid @ q)) = raw_magic_cookie"
  "length tid = 12 \<Longrightarrow> take 12 (drop 8 (reply_header n tid @ q)) = tid"
  "(reply_header n tid @ q) ! 0 = 1"
  by (simp_all add: reply_header_def)
    (simp add: enc_be_def binding_def success_response_class_def nth_append)

lemma header_error_reply:
  assumes "length tid = 12" "length q < 65536"
  shows "header_error (reply_header (of_nat (length q)) tid @ q) = None"
  using assms unfolding header_error_def reply_header_type reply_header_parts
  by (simp add: unat_of_nat binding_def success_response_class_def method_class_mask_def)

lemma reply_facts:
  assumes req: "method_class m = request_class" "stun_method m = binding"
    and msg: "20 \<le> length msg" and sa: "wf_sockaddr sa" and hm: "\<And>k d. length (hmac k d) = 20"
  shows "\<exists>r mi crc. create_stun_reply hmac m msg sa = Some r \<and>
    length r = 20 + length (concat (map (\<lambda>(t, v). enc_attr t v)
      (reply_list sa (take 12 (drop 8 msg)) (has_ice_controlling m) mi crc))) \<and> length crc = 4 \<and>
    val_at r 20 (length (xor_address sa (take 12 (drop 8 msg)))) = xor_address sa (take 12 (drop 8 msg)) \<and>
    header_error r = None \<and>
    type_at r 0 = binding OR success_response_class \<and>
    take 12 (drop 8 r) = take 12 (drop 8 msg) \<and>
    attributes r 20 = (attr_list 20 (reply_list sa (take 12 (drop 8 msg)) (has_ice_controlling m) mi crc), None) \<and>
    drop (length r - 4) r = crc \<and> crc32_xor (take (length r - 8) r) = Some (dec_be crc) \<and>
    (mi = None \<longleftrightarrow> local_pwd m = []) \<and>
    (local_pwd m \<noteq> [] \<longrightarrow> Some (take 20 (drop (length r - 28) r)) = mi \<and>
       take 20 (drop (length r - 28) r) =
         hmac (local_pwd m) (patch_length (length r - 28) (take (length r - 32) r)))"
proof -
  define tid where "tid = take 12 (drop 8 msg)"
  have tid: "length tid = 12" using msg by (simp add: tid_def)
  define r where "r = reply_bytes hmac sa tid (has_ice_controlling m) (local_pwd m)"
  have create: "create_stun_reply hmac m msg sa = Some r"
    using create_stun_reply_eq [OF assms] by (simp add: r_def tid_def)
  obtain mi crc where r: "r = reply_header (of_nat (length r - 20)) tid @
       concat (map (\<lambda>(t, v). enc_attr t v) (reply_list sa tid (has_ice_controlling m) mi crc))"
    and len: "length r \<le> 88"
    and mi: "mi = (if local_pwd m = [] then None else Some (hmac (local_pwd m) (reply_header
       (of_nat (length (reply_attrs sa tid (has_ice_controlling m)) + 24)) tid @
       reply_attrs sa tid (has_ice_controlling m))))"
    and crc: "length crc = 4"
    and sum: "crc32_xor (reply_header (of_nat (length r - 20)) tid @
       reply_attrs sa tid (has_ice_controlling m) @
       (case mi of None \<Rightarrow> [] | Some v \<Rightarrow> enc_attr MESSAGE_INTEGRITY v)) = Some (dec_be crc)"
    by (rule reply_bytes_list [of sa tid hmac "has_ice_controlling m" "local_pwd m", OF sa tid hm,
      folded r_def])
  let ?as = "reply_attrs sa tid (has_ice_controlling m)"
  let ?mi = "case mi of None \<Rightarrow> [] | Some v \<Rightarrow> enc_attr MESSAGE_INTEGRITY v"
  let ?h = "reply_header (of_nat (length r - 20)) tid"
  have parts: "r = ?h @ ?as @ ?mi @ enc_attr FINGERPRINT crc"
    by (subst r) (simp add: reply_list_def reply_attrs_def split: option.split)
  have "length r - 20 = length (?as @ ?mi @ enc_attr FINGERPRINT crc)"
    using arg_cong [OF parts, of length] tid by simp
  then have hdr: "header_error r = None"
    using header_error_reply [OF tid, of "?as @ ?mi @ enc_attr FINGERPRINT crc"] len parts by simp
  have "length (xor_address sa tid) mod 4 = 0 \<and> length (xor_address sa tid) \<le> 20"
    using length_xor_address [OF sa tid] by auto
  then have "attributes r 20 = (attr_list 20 (reply_list sa tid (has_ice_controlling m) mi crc), None)"
    using attributes_of_list [of "reply_list sa tid (has_ice_controlling m) mi crc" ?h] crc tid mi hm
    by (subst r) (auto simp: reply_list_def)
  moreover have "drop (length r - 4) r = crc" "take (length r - 8) r = ?h @ ?as @ ?mi"
    using crc arg_cong [OF parts, of length]
    by (subst parts, simp add: enc_attr_def)+
  moreover have "type_at r 0 = binding OR success_response_class" "take 12 (drop 8 r) = tid"
    by (subst parts, rule reply_header_type reply_header_parts(2) [OF tid])+
  moreover have "Some (take 20 (drop (length r - 28) r)) = mi \<and>
       take 20 (drop (length r - 28) r) =
         hmac (local_pwd m) (patch_length (length r - 28) (take (length r - 32) r))" if "local_pwd m \<noteq> []"
  proof -
    define c where "c = hmac (local_pwd m) (reply_header (of_nat (length ?as + 24)) tid @ ?as)"
    have c: "mi = Some c" "length c = 20" using that mi hm by (simp_all add: c_def)
    have rc: "r = ?h @ ?as @ enc_attr MESSAGE_INTEGRITY c @ enc_attr FINGERPRINT crc"
      using parts c by simp
    have lr: "length r = 20 + length ?as + 32"
      using arg_cong [OF rc, of length] tid crc c by simp
    then have "length r - 28 = length ?as + 24" "length r - 32 = 20 + length ?as" by simp_all
    moreover have "take 20 (drop (length ?as + 24) r) = c"
      using tid c by (subst rc) (simp add: enc_attr_def)
    moreover have "take (20 + length ?as) r = ?h @ ?as"
      using tid by (subst rc) simp
    ultimately show ?thesis
      using c by (simp add: patch_reply_header c_def)
  qed
  moreover have "length r = 20 + length (concat (map (\<lambda>(t, v). enc_attr t v)
      (reply_list sa tid (has_ice_controlling m) mi crc)))"
    using tid by (subst r) simp
  moreover have "val_at r 20 (length (xor_address sa tid)) = xor_address sa tid"
    using val_at_enc_attr [of ?h XOR_MAPPED_ADDRESS "xor_address sa tid"] tid
    by (subst r) (simp add: reply_list_def)
  ultimately show ?thesis
    using create hdr sum mi crc by (auto simp: tid_def)
qed

section \<open>Properties\<close>

text \<open>
  the reply to a binding request is a well formed success response with the transaction id
  of the request: its length field is right, its attributes are the mapped address, the ICE role
  if the request had one, the integrity value if there is a password, and the fingerprint; the
  fingerprint is the checksum of everything before it, and the integrity value is the HMAC of
  everything before it with the length field that a receiver reconstructs.
\<close>

theorem stun_reply_well_formed:
  assumes req: "method_class m = request_class" "stun_method m = binding"
    and msg: "20 \<le> length msg" and sa: "wf_sockaddr sa" and hm: "\<And>k d. length (hmac k d) = 20"
  shows "\<exists>r mi crc. create_stun_reply hmac m msg sa = Some r \<and> header_error r = None \<and>
    type_at r 0 = binding OR success_response_class \<and>
    take 12 (drop 8 r) = take 12 (drop 8 msg) \<and>
    attributes r 20 = (attr_list 20 (reply_list sa (take 12 (drop 8 msg)) (has_ice_controlling m) mi crc), None) \<and>
    drop (length r - 4) r = crc \<and> crc32_xor (take (length r - 8) r) = Some (dec_be crc) \<and>
    (mi = None \<longleftrightarrow> local_pwd m = []) \<and>
    (local_pwd m \<noteq> [] \<longrightarrow> Some (take 20 (drop (length r - 28) r)) = mi \<and>
       take 20 (drop (length r - 28) r) =
         hmac (local_pwd m) (patch_length (length r - 28) (take (length r - 32) r)))"
  using reply_facts [of m msg sa hmac, OF assms] by blast

text \<open>
  the parser of this library accepts such a reply, as a success response to a binding
  request without a user, exactly when it carries no integrity value; with one it rejects the reply
  because a reply names no user.
\<close>

theorem stun_reply_parsed:
  assumes req: "method_class m = request_class" "stun_method m = binding"
    and msg: "20 \<le> length msg" and sa: "wf_sockaddr sa" and hm: "\<And>k d. length (hmac k d) = 20"
  shows "\<exists>r. create_stun_reply hmac m msg sa = Some r \<and>
    (local_pwd m \<noteq> [] \<longrightarrow>
       parse_stun_msg lookup parse_conn hmac r = Some (Inl Integrity_without_username)) \<and>
    (local_pwd m = [] \<longrightarrow> (\<exists>m'. parse_stun_msg lookup parse_conn hmac r = Some (Inr m') \<and>
       stun_method m' = binding \<and> method_class m' = success_response_class \<and> \<not> known_client m'))"
proof -
  let ?tid = "take 12 (drop 8 msg)"
  obtain r mi crc where r: "create_stun_reply hmac m msg sa = Some r" "header_error r = None"
      "type_at r 0 = binding OR success_response_class"
      "attributes r 20 = (attr_list 20 (reply_list sa ?tid (has_ice_controlling m) mi crc), None)"
      "drop (length r - 4) r = crc" "crc32_xor (take (length r - 8) r) = Some (dec_be crc)"
      "mi = None \<longleftrightarrow> local_pwd m = []" "length crc = 4"
      "length r = 20 + length (concat (map (\<lambda>(t, v). enc_attr t v)
        (reply_list sa ?tid (has_ice_controlling m) mi crc)))"
      "local_pwd m \<noteq> [] \<longrightarrow> Some (take 20 (drop (length r - 28) r)) = mi"
    using reply_facts [of m msg sa hmac, OF assms] by metis
  note checks = attr_error_def attr_state_def attribute_types known_required_attribs_def
  have p: "attr_error lookup parse_conn hmac r st (FINGERPRINT, length r - 8, 4) = None" for st
  proof -
    have "length r - 8 + 4 = length r - 4" using r(9) by simp
    then have "val_at r (length r - 8) 4 = crc" using r(5,8) by (simp add: val_at_def)
    then show ?thesis using r(6) by (simp add: attr_error_def attribute_types)
  qed
  have x: "attr_error lookup parse_conn hmac r st (XOR_MAPPED_ADDRESS, p, l) = None"
    "attr_error lookup parse_conn hmac r st (ICE_CONTROLLED, p, l) = None"
    "p_user_name st = [] \<Longrightarrow>
      attr_error lookup parse_conn hmac r st (MESSAGE_INTEGRITY, p, 20) = Some Integrity_without_username"
    "attr_state lookup parse_conn r st (XOR_MAPPED_ADDRESS, p, l) = st"
    "attr_state lookup parse_conn r st (ICE_CONTROLLED, p, l) = st"
    "attr_state lookup parse_conn r st (FINGERPRINT, p, l) = st" for st p l
    by (simp_all add: checks)
  have "length (the mi) = 20" if "local_pwd m \<noteq> []"
  proof -
    have "28 \<le> length r" using r(8,9) by (simp add: reply_list_def)
    moreover have "the mi = take 20 (drop (length r - 28) r)" using r(10) that by auto
    ultimately show ?thesis by simp
  qed
  then have "check_all lookup parse_conn hmac r
      (attr_list 20 (reply_list sa ?tid (has_ice_controlling m) mi crc)) init_parse_state =
      (if local_pwd m = [] then Inr init_parse_state else Inl Integrity_without_username)"
    using p [of init_parse_state] r(7,8,9)
    by (cases "has_ice_controlling m"; cases mi)
      (simp_all add: reply_list_def x init_parse_state_def add.commute)
  then show ?thesis
    using r(1-4)
    by (auto simp: parse_stun_msg_eq parse_spec_def result_msg_def binding_def init_parse_state_def
      method_class_mask_def success_response_class_def)
qed

text \<open>The address a client should learn: for a mapped IPv4 address, the IPv4 address.\<close>

definition plain_address :: "sockaddr_storage \<Rightarrow> byte list" where
  "plain_address sa =
     (case sa of Sockaddr_in _ a \<Rightarrow> a
      | Sockaddr_in6 _ a \<Rightarrow> if take 12 a = ipv4_in_6_header then drop 12 a else a)"

lemma xor_bytes_cancel: "length a \<le> length b \<Longrightarrow> xor_bytes (xor_bytes a b) b = a"
  unfolding xor_bytes_def by (rule nth_equalityI) (simp_all add: xor.assoc)

lemma xor_bytes_prefix: "length a = length b \<Longrightarrow> xor_bytes a (b @ c) = xor_bytes a b"
  by (simp add: xor_bytes_def zip_append2)

lemma xor_address_plain:
  assumes "wf_sockaddr sa" "length tid = 12"
  shows "xor_bytes (take 2 (drop 2 (xor_address sa tid))) (take 2 raw_magic_cookie) = sa_port sa"
    and "xor_bytes (drop 4 (xor_address sa tid)) (raw_magic_cookie @ tid) = plain_address sa"
  using assms
  by (cases sa; auto simp: xor_address_def plain_address_def xor_bytes_cancel xor_bytes_prefix)+

text \<open>
  the mapped address in the reply decodes, with the magic cookie and the transaction id,
  to the port and the address the request came from (an IPv4 address in IPv6 clothing as the IPv4
  address); the family field says IPv4 for every address.
\<close>

theorem stun_reply_reflects_address:
  assumes req: "method_class m = request_class" "stun_method m = binding"
    and msg: "20 \<le> length msg" and sa: "wf_sockaddr sa" and hm: "\<And>k d. length (hmac k d) = 20"
  shows "\<exists>r v. create_stun_reply hmac m msg sa = Some r \<and>
    type_at r 20 = XOR_MAPPED_ADDRESS \<and> v = val_at r 20 (len_at r 20) \<and>
    dec_be (take 2 v) = (1 :: u16) \<and>
    xor_bytes (take 2 (drop 2 v)) (take 2 raw_magic_cookie) = sa_port sa \<and>
    xor_bytes (drop 4 v) (raw_magic_cookie @ take 12 (drop 8 msg)) = plain_address sa"
proof -
  let ?tid = "take 12 (drop 8 msg)"
  have tid: "length ?tid = 12" using msg by simp
  obtain r mi crc where r: "create_stun_reply hmac m msg sa = Some r"
      "attributes r 20 = (attr_list 20 (reply_list sa ?tid (has_ice_controlling m) mi crc), None)"
      "val_at r 20 (length (xor_address sa ?tid)) = xor_address sa ?tid"
    using reply_facts [of m msg sa hmac, OF assms] by metis
  have "type_at r 20 = XOR_MAPPED_ADDRESS" "len_at r 20 = length (xor_address sa ?tid)"
    using r(2) by (simp_all add: attributes.simps [of r 20] reply_list_def split: if_splits prod.splits)
  moreover have "dec_be (take 2 (xor_address sa ?tid)) = (1 :: u16)"
    by (simp add: xor_address_def dec_enc_be)
  ultimately show ?thesis
    using r(1,3) xor_address_plain [OF sa tid] by auto
qed

text \<open>The request of a user behind \<open>192.0.2.1:8080\<close>.\<close>

definition sample_msg :: stun_msg where
  "sample_msg = \<lparr> stun_method = binding, method_class = request_class, remote_ufrag = [], remote_pwd = [],
     remote_sctp_port = 5000, local_ufrag = [97], local_pwd = [112, 119], local_sctp_port = 5000,
     has_fingerprint = False, has_use_candidate = False, has_ice_controlling = True,
     known_client = True \<rparr>"

definition sample_address :: sockaddr_storage where
  "sample_address = Sockaddr_in [0x1f, 0x90] [192, 0, 2, 1]"

lemma sample_facts:
  "method_class sample_msg = request_class" "stun_method sample_msg = binding"
  "20 \<le> length sample_request" "wf_sockaddr sample_address"
  by (simp_all add: sample_msg_def sample_address_def sample_types)

lemma stun_reply_well_formed_witness:
  "\<exists>r. create_stun_reply (\<lambda>k d. replicate 20 7) sample_msg sample_request sample_address = Some r \<and>
     header_error r = None \<and> take 12 (drop 8 r) = replicate 12 0"
  using stun_reply_well_formed [OF sample_facts, of "\<lambda>k d. replicate 20 7"]
  by (auto simp: sample_request_def numeral_eq_Suc)

lemma stun_reply_parsed_witness:
  "\<exists>r. create_stun_reply (\<lambda>k d. replicate 20 7) sample_msg sample_request sample_address = Some r \<and>
     parse_stun_msg (\<lambda>u. None) (\<lambda>r. None) (\<lambda>k d. replicate 20 7) r = Some (Inl Integrity_without_username)"
  using stun_reply_parsed [OF sample_facts, of "\<lambda>k d. replicate 20 7" "\<lambda>u. None" "\<lambda>r. None"]
  by (simp add: sample_msg_def)

lemma stun_reply_reflects_address_witness:
  "\<exists>r v. create_stun_reply (\<lambda>k d. replicate 20 7) sample_msg sample_request sample_address = Some r \<and>
     v = val_at r 20 (len_at r 20) \<and>
     xor_bytes (drop 4 v) (raw_magic_cookie @ take 12 (drop 8 sample_request)) = [192, 0, 2, 1]"
  using stun_reply_reflects_address [OF sample_facts, of "\<lambda>k d. replicate 20 7"]
  by (auto simp: plain_address_def sample_address_def)

end
