(* ===== verification/Data_Channel.thy ===== *)
theory Data_Channel
  imports Big_Endian
begin

text \<open>
  The data channels of \<open>src/cpp/data_channel_dispatch.cpp\<close> and \<open>.h\<close>: what the payload of an SCTP
  DATA chunk does.  A chunk is the list of its \<open>chunk_len\<close> bytes.  The callback \<open>add_chunk\<close> that
  the SCTP layer passes to the constructor is a parameter on the state \<open>'s\<close> of that layer; the
  locale \<open>chunk_sink\<close> states what a data channel needs of it.
\<close>

section \<open>State\<close>

record data_channel_stream =
  channel_type :: int
  priority :: int
  reliability :: int
  label :: "byte list"
  protocol :: "byte list"

type_synonym streams = "u16 \<rightharpoonup> data_channel_stream"
type_synonym 's sink = "u32 \<Rightarrow> byte list \<Rightarrow> 's \<Rightarrow> 's"

definition dc_data_chunk_header_size :: nat where "dc_data_chunk_header_size = 16"

definition PPID_DCEP :: u32 where "PPID_DCEP = 50"
definition PPID_String :: u32 where "PPID_String = 51"
definition PPID_Binary :: u32 where "PPID_Binary = 53"
definition PPID_EmptyString :: u32 where "PPID_EmptyString = 56"
definition PPID_EmptyBinary :: u32 where "PPID_EmptyBinary = 57"

lemmas ppids = PPID_DCEP_def PPID_String_def PPID_Binary_def PPID_EmptyString_def PPID_EmptyBinary_def

section \<open>Operations\<close>

text \<open>\<open>data_channel_stream::do_data\<close> acknowledges strings; it ignores the other payloads.\<close>

definition do_data :: "'s sink \<Rightarrow> u32 \<Rightarrow> u32 \<Rightarrow> 's \<Rightarrow> 's" where
  "do_data add_chunk tsn ppid s = (if ppid = PPID_String then add_chunk tsn [] s else s)"

text \<open>\<open>streams.emplace\<close> keeps the stream that an identifier already has.\<close>

definition emplace :: "u16 \<Rightarrow> data_channel_stream \<Rightarrow> streams \<Rightarrow> streams" where
  "emplace k v m = (case m k of None \<Rightarrow> m(k \<mapsto> v) | Some _ \<Rightarrow> m)"

definition do_dcep :: "'s sink \<Rightarrow> u32 \<Rightarrow> u16 \<Rightarrow> byte list \<Rightarrow> 's \<times> streams \<Rightarrow> ('s \<times> streams) option"
where
  "do_dcep add_chunk tsn stream_id data = (\<lambda>(s, streams).
     if 0 < length data then do {
       b0 \<leftarrow> rd data 0;
       if b0 = 0x03 then
         if 12 \<le> length data then do {
           ctype \<leftarrow> rd data 1;
           prio \<leftarrow> get_be_uint16 data 2;
           reli \<leftarrow> get_be_uint32 data 4;
           label_len \<leftarrow> map_option unat (get_be_uint16 data 8);
           protocol_len \<leftarrow> map_option unat (get_be_uint16 data 10);
           let required_len = 12 + label_len + protocol_len;
           if required_len \<le> length data then do {
             lab \<leftarrow> rd_range data 12 label_len;
             prot \<leftarrow> rd_range data (12 + label_len) protocol_len;
             let stream = \<lparr> channel_type = uint ctype, priority = uint prio, reliability = sint reli,
                            label = lab, protocol = prot \<rparr>;
             let streams = emplace stream_id stream streams;
             Some (add_chunk tsn [0x02] s, streams) }
           else Some (s, streams) }
         else Some (s, streams)
       else Some (s, streams) }
     else Some (s, streams))"

definition recv_data_chunk :: "'s sink \<Rightarrow> byte list \<Rightarrow> 's \<times> streams \<Rightarrow> ('s \<times> streams) option" where
  "recv_data_chunk add_chunk chunk = (\<lambda>(s, streams).
     if length chunk < dc_data_chunk_header_size then Some (s, streams)
     else do {
       flags \<leftarrow> rd chunk 1;
       let beginning = (flags AND 0x02 \<noteq> 0);
       let ending = (flags AND 0x01 \<noteq> 0);
       tsn \<leftarrow> get_be_uint32 chunk 4;
       stream_id \<leftarrow> get_be_uint16 chunk 8;
       stream_seq_num \<leftarrow> get_be_uint16 chunk 10;
       ppid \<leftarrow> get_be_uint32 chunk 12;
       data \<leftarrow> rd_range chunk dc_data_chunk_header_size (length chunk - dc_data_chunk_header_size);
       if ppid = PPID_DCEP then do_dcep add_chunk tsn stream_id data (s, streams)
       else if ppid \<in> {PPID_String, PPID_Binary, PPID_EmptyString, PPID_EmptyBinary} then
         (case streams stream_id of
           Some stream \<Rightarrow>
             if beginning \<and> ending then Some (do_data add_chunk tsn ppid s, streams)
             else Some (s, streams)
         | None \<Rightarrow> Some (s, streams))
       else Some (s, streams) })"

section \<open>What a chunk does\<close>

text \<open>
  The effect of a chunk as a value: nothing, an acknowledgement of its TSN, or a new stream
  with the reply \<open>DATA_CHANNEL_ACK\<close>.
\<close>

datatype dc_effect =
  Dc_Ignore
| Dc_Ack u32
| Dc_Open u32 u16 data_channel_stream

definition u16_at :: "byte list \<Rightarrow> nat \<Rightarrow> u16" where
  "u16_at p i = dec_be (take 2 (drop i p))"

definition u32_at :: "byte list \<Rightarrow> nat \<Rightarrow> u32" where
  "u32_at p i = dec_be (take 4 (drop i p))"

definition open_effect :: "u32 \<Rightarrow> u16 \<Rightarrow> byte list \<Rightarrow> dc_effect" where
  "open_effect tsn stream_id d =
     (let ll = unat (u16_at d 8); pl = unat (u16_at d 10)
      in if 12 \<le> length d \<and> d ! 0 = 3 \<and> 12 + ll + pl \<le> length d then
        Dc_Open tsn stream_id
          \<lparr> channel_type = uint (d ! 1), priority = uint (u16_at d 2), reliability = sint (u32_at d 4),
            label = take ll (drop 12 d), protocol = take pl (drop (12 + ll) d) \<rparr>
      else Dc_Ignore)"

definition chunk_effect :: "streams \<Rightarrow> byte list \<Rightarrow> dc_effect" where
  "chunk_effect streams c =
     (if length c < 16 then Dc_Ignore
      else if u32_at c 12 = PPID_DCEP then open_effect (u32_at c 4) (u16_at c 8) (drop 16 c)
      else if u32_at c 12 = PPID_String \<and> streams (u16_at c 8) \<noteq> None \<and> bit (c ! 1) 0 \<and> bit (c ! 1) 1
      then Dc_Ack (u32_at c 4)
      else Dc_Ignore)"

fun apply_effect :: "'s sink \<Rightarrow> dc_effect \<Rightarrow> 's \<times> streams \<Rightarrow> 's \<times> streams" where
  "apply_effect add_chunk Dc_Ignore (s, streams) = (s, streams)"
| "apply_effect add_chunk (Dc_Ack tsn) (s, streams) = (add_chunk tsn [] s, streams)"
| "apply_effect add_chunk (Dc_Open tsn sid st) (s, streams) =
     (add_chunk tsn [0x02] s, emplace sid st streams)"

lemma get_u16_at: "i + 2 \<le> length p \<Longrightarrow> get_be_uint16 p i = Some (u16_at p i)"
  by (simp add: get_be_uint16_eq rd_range_in u16_at_def)

lemma get_u32_at: "i + 4 \<le> length p \<Longrightarrow> get_be_uint32 p i = Some (u32_at p i)"
  by (simp add: get_be_uint32_eq rd_range_in u32_at_def)

lemma do_dcep_eq:
  "do_dcep add_chunk tsn sid d ss = Some (apply_effect add_chunk (open_effect tsn sid d) ss)"
proof (cases ss)
  case (Pair s streams)
  show ?thesis
  proof (cases "12 \<le> length d")
    case True
    then have "rd d 0 = Some (d ! 0)" "rd d 1 = Some (d ! 1)" by (auto simp: rd_def)
    with True show ?thesis
      by (simp add: Pair do_dcep_def open_effect_def get_u16_at get_u32_at rd_range_in Let_def)
  next
    case False
    then show ?thesis by (auto simp: Pair do_dcep_def open_effect_def rd_def)
  qed
qed

lemma and_1_bit: "(b :: byte) AND 1 \<noteq> 0 \<longleftrightarrow> bit b 0"
  by (simp add: and_one_eq bit_0 odd_iff_mod_2_eq_one)

lemma and_2_bit: "(b :: byte) AND 2 \<noteq> 0 \<longleftrightarrow> bit b 1"
  using and_exp_eq_0_iff_not_bit [of b 1] by simp

lemma recv_data_chunk_eq:
  "recv_data_chunk add_chunk c (s, streams) =
     Some (apply_effect add_chunk (chunk_effect streams c) (s, streams))"
proof (cases "length c < 16")
  case True
  then show ?thesis by (simp add: recv_data_chunk_def chunk_effect_def dc_data_chunk_header_size_def)
next
  case False
  then have "rd c 1 = Some (c ! 1)" "get_be_uint32 c 4 = Some (u32_at c 4)"
    "get_be_uint16 c 8 = Some (u16_at c 8)" "get_be_uint16 c 10 = Some (u16_at c 10)"
    "get_be_uint32 c 12 = Some (u32_at c 12)" "rd_range c 16 (length c - 16) = Some (drop 16 c)"
    by (auto simp: rd_def rd_range_def get_u16_at get_u32_at)
  then show ?thesis
    using False
    by (auto simp: recv_data_chunk_def chunk_effect_def dc_data_chunk_header_size_def do_dcep_eq
      do_data_def and_1_bit and_2_bit ppids Let_def split: option.split)
qed

section \<open>The interface to the transport\<close>

text \<open>
  A data channel only needs that the callback keeps the transport's invariant; then so does
  every chunk.
\<close>

locale chunk_sink =
  fixes add_chunk :: "'s sink" and inv :: "'s \<Rightarrow> bool"
  assumes keeps: "inv s \<Longrightarrow> inv (add_chunk tsn c s)"
begin

lemma recv_keeps:
  assumes "inv s" "recv_data_chunk add_chunk c (s, streams) = Some (s', streams')"
  shows "inv s'"
  using assms by (cases "chunk_effect streams c") (auto simp: recv_data_chunk_eq keeps)

lemma recv_streams_grow:
  assumes "recv_data_chunk add_chunk c (s, streams) = Some (s', streams')"
  shows "streams \<subseteq>\<^sub>m streams'"
  using assms
  by (cases "chunk_effect streams c")
    (auto simp: recv_data_chunk_eq emplace_def map_le_def split: option.splits)

end

section \<open>Properties\<close>

text \<open>
  whatever bytes a DATA chunk holds, its handler stays inside the chunk, and it does exactly one
  of three things: an open message whose label and protocol fit into the chunk creates the
  stream (unless the identifier has one already) and is answered; an unfragmented string for a known
  stream is acknowledged; everything else, binary payloads included, has no effect at all.
\<close>

theorem recv_data_chunk_effect:
  "recv_data_chunk add_chunk c (s, streams) =
     Some (case chunk_effect streams c of
         Dc_Ignore \<Rightarrow> (s, streams)
       | Dc_Ack tsn \<Rightarrow> (add_chunk tsn [] s, streams)
       | Dc_Open tsn sid st \<Rightarrow> (add_chunk tsn [2] s, if streams sid = None then streams(sid \<mapsto> st) else streams))"
  by (auto simp: recv_data_chunk_eq emplace_def split: dc_effect.split option.split)

end
