(* ===== verification/Sctp.thy ===== *)
theory Sctp
  imports Crc Data_Channel
begin

text \<open>
  The SCTP endpoint of \<open>src/cpp/sctp_dispatch.cpp\<close> and \<open>.h\<close> that runs on top of DTLS.  An object
  is a record with the data members; \<open>std::set<uint32_t>\<close> is the strictly ascending list of its
  elements, in the order in which the code iterates over it.  \<open>send_reply\<close> is the second
  component of the results: the packet that is handed to it.
\<close>

section \<open>State\<close>

record sctp_dispatch =
  local_port :: u16
  remote_port :: u16
  tsns :: "u32 list"
  chunks :: "byte list list"
  duplicate_tsns :: "u32 list"
  verification_tag :: u32
  last_complete_tsn :: u32

type_synonym sctp = "sctp_dispatch \<times> streams"

definition new_sctp :: "u16 \<Rightarrow> u16 \<Rightarrow> sctp" where
  "new_sctp lp rp = (\<lparr> local_port = lp, remote_port = rp, tsns = [], chunks = [],
     duplicate_tsns = [], verification_tag = 0, last_complete_tsn = 0 \<rparr>, Map.empty)"

definition k_sctp_common_header_size :: nat where "k_sctp_common_header_size = 12"
definition k_sctp_chunk_header_size :: nat where "k_sctp_chunk_header_size = 4"
definition k_sctp_option_header_size :: nat where "k_sctp_option_header_size = 4"
definition k_init_chunk_header_size :: nat where "k_init_chunk_header_size = 20"
definition k_sack_chunk_header_size :: nat where "k_sack_chunk_header_size = 16"

lemmas sctp_sizes = k_sctp_common_header_size_def k_sctp_chunk_header_size_def
  k_sctp_option_header_size_def k_init_chunk_header_size_def k_sack_chunk_header_size_def

definition CHNK_DATA :: byte where "CHNK_DATA = 0"
definition CHNK_INIT :: byte where "CHNK_INIT = 1"
definition CHNK_INIT_ACK :: byte where "CHNK_INIT_ACK = 2"
definition CHNK_SACK :: byte where "CHNK_SACK = 3"
definition CHNK_HEARTBEAT :: byte where "CHNK_HEARTBEAT = 4"
definition CHNK_HEARTBEAT_ACK :: byte where "CHNK_HEARTBEAT_ACK = 5"
definition CHNK_COOKIE_ECHO :: byte where "CHNK_COOKIE_ECHO = 10"
definition CHNK_COOKIE_ACK :: byte where "CHNK_COOKIE_ACK = 11"

lemmas chunk_types = CHNK_DATA_def CHNK_INIT_def CHNK_INIT_ACK_def CHNK_SACK_def CHNK_HEARTBEAT_def
  CHNK_HEARTBEAT_ACK_def CHNK_COOKIE_ECHO_def CHNK_COOKIE_ACK_def

definition OPT_FORWARD_TSN :: byte where "OPT_FORWARD_TSN = 192"
definition OPT_SUPPORTED_EXTENSIONS_FIRST_BYTE :: byte where
  "OPT_SUPPORTED_EXTENSIONS_FIRST_BYTE = 0x80"
definition OPT_SUPPORTED_EXTENSIONS_SECOND_BYTE :: byte where
  "OPT_SUPPORTED_EXTENSIONS_SECOND_BYTE = 0x08"
definition OPT_COOKIE :: u16 where "OPT_COOKIE = 7"

section \<open>Operations\<close>

text \<open>\<open>std::set::insert\<close>: the new set, and whether the element was new.\<close>

definition set_insert :: "u32 \<Rightarrow> u32 list \<Rightarrow> u32 list \<times> bool" where
  "set_insert x xs = (if x \<in> set xs then (xs, False) else (insort x xs, True))"

text \<open>The callback that \<open>connect\<close> gives to the data channels.\<close>

definition add_chunk :: "u32 \<Rightarrow> byte list \<Rightarrow> sctp_dispatch \<Rightarrow> sctp_dispatch" where
  "add_chunk tsn chunk s =
     (let s = (if last_complete_tsn s < tsn then
                 (case set_insert tsn (tsns s) of
                    (ts, new) \<Rightarrow>
                      if new then s\<lparr>tsns := ts\<rparr>
                      else s\<lparr>duplicate_tsns := duplicate_tsns s @ [tsn]\<rparr>)
               else s)
      in if 0 < length chunk then s\<lparr>chunks := chunks s @ [chunk]\<rparr> else s)"

text \<open>The option loop of \<open>do_chunk_init\<close>: whether all options are acceptable.\<close>

function check_options :: "byte list \<Rightarrow> nat \<Rightarrow> bool option" where
  "check_options init_data opt_start =
     (if opt_start + k_sctp_option_header_size < length init_data then do {
        opt_type \<leftarrow> rd init_data opt_start;
        opt_flags \<leftarrow> rd init_data (opt_start + 1);
        opt_len \<leftarrow> map_option unat (get_be_uint16 init_data (opt_start + 2));
        if opt_len < k_sctp_option_header_size then Some False
        else if length init_data < opt_start + opt_len then Some False
        else if opt_type = OPT_FORWARD_TSN then check_options init_data (opt_start + round4 opt_len)
        else if opt_type = OPT_SUPPORTED_EXTENSIONS_FIRST_BYTE then
          if opt_flags \<noteq> OPT_SUPPORTED_EXTENSIONS_SECOND_BYTE then Some False
          else check_options init_data (opt_start + round4 opt_len)
        else Some False }
      else Some True)"
  by pat_completeness auto

lemma round4_progress: "4 \<le> n \<Longrightarrow> i < l \<Longrightarrow> l - (i + round4 n) < l - (i :: nat)"
  using round4_ge [of n] by simp

termination check_options
  by (relation "measure (\<lambda>(d, i). length d - i)") (auto simp: sctp_sizes intro!: round4_progress)

declare check_options.simps [simp del]

definition do_chunk_init :: "byte list \<Rightarrow> sctp_dispatch \<Rightarrow> (bool \<times> sctp_dispatch) option" where
  "do_chunk_init init_data s =
     (if length init_data < k_init_chunk_header_size then Some (False, s)
      else do {
        vt \<leftarrow> get_be_uint32 init_data 4;
        let s = s\<lparr>verification_tag := vt\<rparr>;
        window_credit \<leftarrow> get_be_uint32 init_data 8;
        out_streams \<leftarrow> get_be_uint16 init_data 12;
        in_streams \<leftarrow> get_be_uint16 init_data 14;
        initial_tsn \<leftarrow> get_be_uint32 init_data 16;
        let s = s\<lparr>last_complete_tsn := initial_tsn - 1\<rparr>;
        ok \<leftarrow> check_options init_data k_init_chunk_header_size;
        if \<not> ok then Some (False, s)
        else do {
          let cookie_len = k_sctp_option_header_size;
          let rounded_init_len = round4 (length init_data);
          let len_with_cookie = rounded_init_len + cookie_len;
          let ack_chunk = replicate len_with_cookie 0;
          ack_chunk \<leftarrow> wr_range ack_chunk 0 init_data;
          ack_chunk \<leftarrow> wr ack_chunk 0 CHNK_INIT_ACK;
          ack_chunk \<leftarrow> set_be_uint16 (of_nat len_with_cookie) ack_chunk 2;
          ack_chunk \<leftarrow> set_be_uint16 OPT_COOKIE ack_chunk rounded_init_len;
          ack_chunk \<leftarrow> set_be_uint16 (of_nat cookie_len) ack_chunk (rounded_init_len + 2);
          Some (True, s\<lparr>tsns := fst (set_insert (last_complete_tsn s + 1) (tsns s)),
                        chunks := chunks s @ [ack_chunk]\<rparr>) } })"

text \<open>
  One chunk of the \<open>switch\<close> in \<open>parse_sctp_chunks\<close>, \<open>False\<close> where it returns false.  The types
  that are only logged change nothing.
\<close>

definition do_chunk :: "byte list \<Rightarrow> sctp \<Rightarrow> (bool \<times> sctp) option" where
  "do_chunk chunk = (\<lambda>(s, dcd). do {
     chunk_type \<leftarrow> rd chunk 0;
     if chunk_type = CHNK_DATA then do {
       ss \<leftarrow> recv_data_chunk add_chunk chunk (s, dcd);
       Some (True, ss) }
     else if chunk_type = CHNK_INIT then do {
       r \<leftarrow> do_chunk_init chunk s;
       case r of
         (True, s) \<Rightarrow> Some (True, s, dcd)
       | (False, s) \<Rightarrow> Some (False, s\<lparr>verification_tag := 0\<rparr>, dcd) }
     else if chunk_type = CHNK_HEARTBEAT then do {
       let reply_chunk = chunk;
       reply_chunk \<leftarrow> wr reply_chunk 0 CHNK_HEARTBEAT_ACK;
       Some (True, s\<lparr>chunks := chunks s @ [reply_chunk]\<rparr>, dcd) }
     else if chunk_type = CHNK_COOKIE_ECHO then do {
       let reply_chunk = replicate 4 0;
       reply_chunk \<leftarrow> wr reply_chunk 0 CHNK_COOKIE_ACK;
       reply_chunk \<leftarrow> set_be_uint16 4 reply_chunk 2;
       Some (True, s\<lparr>chunks := chunks s @ [reply_chunk]\<rparr>, dcd) }
     else Some (True, s, dcd) })"

function parse_chunk_loop :: "byte list \<Rightarrow> nat \<Rightarrow> sctp \<Rightarrow> (bool \<times> sctp) option" where
  "parse_chunk_loop msg chunk_start ss =
     (if chunk_start + k_sctp_chunk_header_size \<le> length msg then do {
        chunk_len \<leftarrow> map_option unat (get_be_uint16 msg (chunk_start + 2));
        let rounded_chunk_len = round4 chunk_len;
        if chunk_len < k_sctp_chunk_header_size then Some (False, ss)
        else if chunk_start + chunk_len \<le> length msg then do {
          chunk \<leftarrow> rd_range msg chunk_start chunk_len;
          r \<leftarrow> do_chunk chunk ss;
          case r of
            (True, ss) \<Rightarrow> parse_chunk_loop msg (chunk_start + rounded_chunk_len) ss
          | (False, ss) \<Rightarrow> Some (False, ss) }
        else Some (False, ss) }
      else Some (True, ss))"
  by pat_completeness auto

termination parse_chunk_loop
  by (relation "measure (\<lambda>(d, i, ss). length d - i)") (auto simp: sctp_sizes intro!: round4_progress)

declare parse_chunk_loop.simps [simp del]

definition parse_sctp_chunks :: "byte list \<Rightarrow> sctp \<Rightarrow> (bool \<times> sctp) option" where
  "parse_sctp_chunks msg ss = parse_chunk_loop msg k_sctp_common_header_size ss"

text \<open>The loops of \<open>send_acks\<close>: the cumulative TSN, the blocks behind it, the encoding.\<close>

fun advance :: "u32 \<Rightarrow> u32 list \<Rightarrow> u32 \<times> u32 list" where
  "advance cum [] = (cum, [])"
| "advance cum (t # ts) = (if t = cum + 1 then advance (cum + 1) ts else (cum, t # ts))"

fun block_loop ::
  "u32 \<Rightarrow> u32 \<Rightarrow> u32 \<Rightarrow> (u32 \<times> u32) list \<Rightarrow> u32 list \<Rightarrow> u32 \<times> u32 \<times> (u32 \<times> u32) list"
where
  "block_loop cum prev block_start tsn_blocks [] = (prev, block_start, tsn_blocks)"
| "block_loop cum prev block_start tsn_blocks (t # ts) =
     (if t \<noteq> prev + 1
      then block_loop cum t t (tsn_blocks @ [(block_start - cum, prev - cum)]) ts
      else block_loop cum t block_start tsn_blocks ts)"

definition gap_blocks :: "u32 \<Rightarrow> u32 list \<Rightarrow> (u32 \<times> u32) list" where
  "gap_blocks cum ts =
     (case ts of [] \<Rightarrow> []
      | t0 # _ \<Rightarrow>
          (case block_loop cum (t0 - 1) t0 [] ts of
             (prev, block_start, bs) \<Rightarrow> bs @ [(block_start - cum, prev - cum)]))"

fun write_blocks :: "byte list \<Rightarrow> nat \<Rightarrow> (u32 \<times> u32) list \<Rightarrow> (byte list \<times> nat) option" where
  "write_blocks sack ptr [] = Some (sack, ptr)"
| "write_blocks sack ptr (b # bs) = do {
     sack \<leftarrow> set_be_uint16 (ucast (fst b)) sack ptr;
     sack \<leftarrow> set_be_uint16 (ucast (snd b)) sack (ptr + 2);
     write_blocks sack (ptr + 4) bs }"

fun write_dups :: "byte list \<Rightarrow> nat \<Rightarrow> u32 list \<Rightarrow> byte list option" where
  "write_dups sack ptr [] = Some sack"
| "write_dups sack ptr (d # ds) = do {
     sack \<leftarrow> set_be_uint16 (ucast d) sack ptr;
     write_dups sack (ptr + 4) ds }"

definition build_sack :: "u32 \<Rightarrow> (u32 \<times> u32) list \<Rightarrow> u32 list \<Rightarrow> byte list option" where
  "build_sack cum tsn_blocks dups = do {
     let blocks_size = length tsn_blocks * 4;
     let dups_size = length dups * 4;
     let sack_size = k_sack_chunk_header_size + blocks_size + dups_size;
     let sack = replicate sack_size 0;
     sack \<leftarrow> wr sack 0 CHNK_SACK;
     sack \<leftarrow> set_be_uint16 (of_nat sack_size) sack 2;
     sack \<leftarrow> set_be_uint32 cum sack 4;
     sack \<leftarrow> set_be_uint32 (65536 * 4) sack 8;
     sack \<leftarrow> set_be_uint16 (of_nat (length tsn_blocks)) sack 12;
     sack \<leftarrow> set_be_uint16 (of_nat (length dups)) sack 14;
     sack_ptr \<leftarrow> write_blocks sack k_sack_chunk_header_size tsn_blocks;
     case sack_ptr of (sack, ptr) \<Rightarrow> write_dups sack ptr dups }"

fun write_chunks :: "byte list \<Rightarrow> nat \<Rightarrow> byte list list \<Rightarrow> (byte list \<times> nat) option" where
  "write_chunks reply ptr [] = Some (reply, ptr)"
| "write_chunks reply ptr (c # cs) = do {
     reply \<leftarrow> wr_range reply ptr c;
     write_chunks reply (ptr + round4 (length c)) cs }"

definition build_reply :: "sctp_dispatch \<Rightarrow> byte list \<Rightarrow> byte list option" where
  "build_reply s sack = do {
     let total_reply_size = k_sctp_common_header_size +
       sum_list (map (\<lambda>c. round4 (length c)) (chunks s)) + length sack;
     let reply = replicate total_reply_size 0;
     reply \<leftarrow> set_be_uint16 (local_port s) reply 0;
     reply \<leftarrow> set_be_uint16 (remote_port s) reply 2;
     reply \<leftarrow> set_be_uint32 (verification_tag s) reply 4;
     reply_ptr \<leftarrow> write_chunks reply k_sctp_common_header_size (chunks s);
     case reply_ptr of (reply, ptr) \<Rightarrow> do {
       reply \<leftarrow> wr_range reply ptr sack;
       crc \<leftarrow> crc32_sctp reply;
       set_be_uint32 crc reply 8 } }"

definition send_acks :: "sctp_dispatch \<Rightarrow> (sctp_dispatch \<times> byte list) option" where
  "send_acks s = do {
     let (cum, ts) = advance (last_complete_tsn s) (tsns s);
     let s = s\<lparr>last_complete_tsn := cum, tsns := ts\<rparr>;
     let tsn_blocks = gap_blocks (last_complete_tsn s) (tsns s);
     sack \<leftarrow> build_sack (last_complete_tsn s) tsn_blocks (duplicate_tsns s);
     reply \<leftarrow> build_reply s sack;
     Some (s\<lparr>chunks := [], duplicate_tsns := []\<rparr>, reply) }"

definition recv_msg :: "byte list \<Rightarrow> sctp \<Rightarrow> (sctp \<times> byte list option) option" where
  "recv_msg msg ss =
     (if k_sctp_common_header_size \<le> length msg then do {
        computed_crc \<leftarrow> crc32_sctp msg;
        provided_src \<leftarrow> get_be_uint32 msg 8;
        if computed_crc = provided_src then do {
          r \<leftarrow> parse_sctp_chunks msg ss;
          case r of
            (True, s, dcd) \<Rightarrow> do { sr \<leftarrow> send_acks s; Some ((fst sr, dcd), Some (snd sr)) }
          | (False, s, dcd) \<Rightarrow> Some ((s, dcd), None) }
        else Some (ss, None) }
      else Some (ss, None))"

section \<open>The packets that are sent\<close>

definition pad4 :: "byte list \<Rightarrow> byte list" where
  "pad4 c = c @ replicate (round4 (length c) - length c) 0"

definition sack_bytes :: "u32 \<Rightarrow> (u32 \<times> u32) list \<Rightarrow> u32 list \<Rightarrow> byte list" where
  "sack_bytes cum bl dups = [CHNK_SACK, 0] @
     enc_be 2 (of_nat (16 + 4 * length bl + 4 * length dups) :: u16) @
     enc_be 4 cum @ enc_be 4 (262144 :: u32) @
     enc_be 2 (of_nat (length bl) :: u16) @ enc_be 2 (of_nat (length dups) :: u16) @
     concat (map (\<lambda>b. enc_be 2 (ucast (fst b) :: u16) @ enc_be 2 (ucast (snd b) :: u16)) bl) @
     concat (map (\<lambda>d. enc_be 2 (ucast d :: u16) @ [0, 0]) dups)"

definition packet_head :: "sctp_dispatch \<Rightarrow> byte list" where
  "packet_head s = enc_be 2 (local_port s) @ enc_be 2 (remote_port s) @ enc_be 4 (verification_tag s)"

definition packet_body :: "sctp_dispatch \<Rightarrow> byte list \<Rightarrow> byte list" where
  "packet_body s sack = concat (map pad4 (chunks s)) @ sack"

definition packet :: "sctp_dispatch \<Rightarrow> byte list \<Rightarrow> byte list" where
  "packet s sack = packet_head s @
     enc_be 4 (the (crc32_sctp (packet_head s @ [0, 0, 0, 0] @ packet_body s sack))) @
     packet_body s sack"

lemma length_pad4 [simp]: "length (pad4 c) = round4 (length c)"
  using round4_ge [of "length c"] by (simp add: pad4_def)

lemma length_packet_head [simp]: "length (packet_head s) = 8"
  by (simp add: packet_head_def)

lemma write_blocks_eq:
  "write_blocks (p @ replicate (4 * length bl) 0 @ q) (length p) bl =
     Some (p @ concat (map (\<lambda>b. enc_be 2 (ucast (fst b) :: u16) @ enc_be 2 (ucast (snd b) :: u16)) bl) @ q,
           length p + 4 * length bl)"
proof (induction bl arbitrary: p)
  case (Cons b bl)
  have "replicate (4 * length (b # bl)) (0 :: byte) @ q =
      replicate 4 0 @ replicate (4 * length bl) 0 @ q"
    by (simp flip: replicate_add append_assoc)
  then show ?case
    using Cons [of "p @ enc_be 2 (ucast (fst b) :: u16) @ enc_be 2 (ucast (snd b) :: u16)"]
    by (simp add: set_be_uint16_eq mem_simps wr_range_in)
qed simp

lemma write_dups_eq:
  "write_dups (p @ replicate (4 * length ds) 0) (length p) ds =
     Some (p @ concat (map (\<lambda>d. enc_be 2 (ucast d :: u16) @ [0, 0]) ds))"
proof (induction ds arbitrary: p)
  case (Cons d ds)
  have two: "[0, 0] = replicate 2 (0 :: byte)" by (simp add: numeral_2_eq_2)
  have "replicate (4 * length (d # ds)) (0 :: byte) = replicate 4 0 @ replicate (4 * length ds) 0"
    by (simp flip: replicate_add)
  then show ?case
    using Cons [of "p @ enc_be 2 (ucast d :: u16) @ replicate 2 0"] unfolding two
    by (simp add: set_be_uint16_eq mem_simps wr_range_in)
qed simp

lemma write_chunks_eq:
  "write_chunks (p @ replicate (sum_list (map (\<lambda>c. round4 (length c)) cs)) 0 @ q) (length p) cs =
     Some (p @ concat (map pad4 cs) @ q, length p + sum_list (map (\<lambda>c. round4 (length c)) cs))"
proof (induction cs arbitrary: p)
  case (Cons c cs)
  let ?n = "sum_list (map (\<lambda>c. round4 (length c)) cs)"
  have "replicate (round4 (length c) + ?n) (0 :: byte) @ q =
      replicate (length c) 0 @ replicate (round4 (length c) - length c) 0 @ replicate ?n 0 @ q"
    using round4_ge [of "length c"] by (simp flip: replicate_add append_assoc)
  then show ?case
    using Cons [of "p @ pad4 c"]
    by (simp add: mem_simps wr_range_in pad4_def round4_ge)
qed simp

lemma build_sack_eq: "build_sack cum bl dups = Some (sack_bytes cum bl dups)"
proof -
  let ?b = "replicate (4 * length bl) (0 :: byte)" and ?d = "replicate (4 * length dups) (0 :: byte)"
  let ?h = "[CHNK_SACK, 0] @ enc_be 2 (of_nat (16 + 4 * length bl + 4 * length dups) :: u16) @
     enc_be 4 cum @ enc_be 4 (262144 :: u32) @
     enc_be 2 (of_nat (length bl) :: u16) @ enc_be 2 (of_nat (length dups) :: u16)"
  let ?bb = "concat (map (\<lambda>b. enc_be 2 (ucast (fst b) :: u16) @ enc_be 2 (ucast (snd b) :: u16)) bl)"
  have len: "length ?bb = 4 * length bl" by (induction bl) simp_all
  have "replicate (16 + length bl * 4 + length dups * 4) (0 :: byte) = replicate 16 0 @ ?b @ ?d"
    by (simp add: mult.commute flip: replicate_add)
  moreover have "replicate 16 (0 :: byte) = [0, 0] @ replicate 14 0" by (simp add: numeral_eq_Suc)
  ultimately have "build_sack cum bl dups = Option.bind (write_blocks (?h @ ?b @ ?d) 16 bl)
      (\<lambda>(sack, ptr). write_dups sack ptr dups)"
    by (simp add: build_sack_def k_sack_chunk_header_size_def set_be_uint16_eq set_be_uint32_eq
      wr_in wr_range_in mult.commute [of _ 4] replicate_add)
  moreover have "write_blocks (?h @ ?b @ ?d) 16 bl = Some (?h @ ?bb @ ?d, 16 + 4 * length bl)"
    using write_blocks_eq [of ?h bl ?d] by simp
  moreover have "write_dups (?h @ ?bb @ ?d) (16 + 4 * length bl) dups =
      Some (sack_bytes cum bl dups)"
  proof -
    have "length (?h @ ?bb) = 16 + 4 * length bl" by (simp add: len)
    then show ?thesis
      using write_dups_eq [of "?h @ ?bb" dups] by (simp add: sack_bytes_def)
  qed
  ultimately show ?thesis by simp
qed

lemma build_reply_eq: "build_reply s sack = Some (packet s sack)"
proof -
  let ?n = "sum_list (map (\<lambda>c. round4 (length c)) (chunks s))"
  let ?h = "packet_head s @ replicate 4 0"
  let ?body = "packet_body s sack"
  have "replicate (12 + ?n + length sack) (0 :: byte) =
      replicate 8 0 @ replicate 4 0 @ replicate ?n 0 @ replicate (length sack) 0"
    by (simp flip: replicate_add append_assoc)
  then have "build_reply s sack = do {
      reply_ptr \<leftarrow> write_chunks (?h @ replicate ?n 0 @ replicate (length sack) 0) 12 (chunks s);
      case reply_ptr of (reply, ptr) \<Rightarrow> do {
        reply \<leftarrow> wr_range reply ptr sack;
        crc \<leftarrow> crc32_sctp reply;
        set_be_uint32 crc reply 8 } }"
    by (simp add: build_reply_def k_sctp_common_header_size_def set_be_uint16_eq set_be_uint32_eq
      wr_range_in packet_head_def Let_def)
  also have "\<dots> = do { crc \<leftarrow> crc32_sctp (?h @ ?body); set_be_uint32 crc (?h @ ?body) 8 }"
  proof -
    have len: "length (concat (map pad4 (chunks s))) = ?n"
      by (simp add: length_concat comp_def)
    have "wr_range (?h @ concat (map pad4 (chunks s)) @ replicate (length sack) 0) (12 + ?n) sack =
        Some (?h @ ?body)"
      using wr_range_append(1) [of "?h @ concat (map pad4 (chunks s))" "replicate (length sack) 0" 0 sack]
      by (simp add: len packet_body_def wr_range_in)
    then show ?thesis
      using write_chunks_eq [of ?h "chunks s" "replicate (length sack) 0"] by simp
  qed
  also have "\<dots> = Some (packet s sack)"
    by (simp add: packet_def crc32_sctp_eq set_be_uint32_eq wr_range_in numeral_eq_Suc)
  finally show ?thesis .
qed

lemma packet_checksum:
  "crc32_sctp (packet s sack) = get_be_uint32 (packet s sack) 8"
proof -
  let ?p = "packet_head s @ [0, 0, 0, 0] @ packet_body s sack"
  have "without_checksum (packet s sack) = without_checksum ?p"
    by (simp add: without_checksum_def packet_def)
  then have "crc32_sctp (packet s sack) = crc32_sctp ?p"
    by (simp add: crc32_sctp_eq packet_def)
  moreover have "rd_range (packet s sack) 8 4 = Some (enc_be 4 (the (crc32_sctp ?p)))"
    by (simp add: packet_def rd_range_def)
  ultimately show ?thesis
    by (simp add: get_be_uint32_eq dec_enc_be crc32_sctp_eq)
qed

section \<open>Nothing is read out of bounds\<close>

lemma check_options_defined: "check_options d i \<noteq> None"
proof (induction d i rule: check_options.induct)
  case (1 d i)
  show ?case
  proof (cases "i + 4 < length d")
    case True
    then have rd: "rd d i = Some (d ! i)" "rd d (Suc i) = Some (d ! Suc i)"
      "get_be_uint16 d (Suc (Suc i)) = Some (u16_at d (i + 2))"
      using get_u16_at [of "i + 2" d] by (auto simp: rd_def)
    then show ?thesis
      using True 1 [of "d ! i" "d ! Suc i" "unat (u16_at d (i + 2))"]
      by (auto simp: check_options.simps [of d i] sctp_sizes)
  next
    case False
    then show ?thesis by (simp add: check_options.simps [of d i] sctp_sizes)
  qed
qed

text \<open>The INIT chunk as INIT_ACK: itself, with another type and length, and an empty cookie.\<close>

definition init_ack :: "byte list \<Rightarrow> byte list" where
  "init_ack d = [CHNK_INIT_ACK, d ! 1] @ enc_be 2 (of_nat (round4 (length d) + 4) :: u16) @
     drop 4 (pad4 d) @ enc_be 2 OPT_COOKIE @ enc_be 2 (4 :: u16)"

definition init_state :: "byte list \<Rightarrow> sctp_dispatch \<Rightarrow> sctp_dispatch" where
  "init_state d s = s\<lparr>verification_tag := u32_at d 4, last_complete_tsn := u32_at d 16 - 1\<rparr>"

lemma do_chunk_init_eq:
  assumes "20 \<le> length d"
  shows "do_chunk_init d s = Some (if check_options d 20 = Some True
      then (True, (init_state d s)\<lparr>tsns := fst (set_insert (u32_at d 16) (tsns s)),
                    chunks := chunks s @ [init_ack d]\<rparr>)
      else (False, init_state d s))"
proof -
  obtain b where b: "check_options d 20 = Some b" using check_options_defined by blast
  obtain a1 a2 a3 a4 r where d: "d = a1 # a2 # a3 # a4 # r"
    using assms by (auto simp: numeral_eq_Suc Suc_le_length_iff)
  let ?n = "round4 (length d)"
  define z where "z = replicate (?n - length d) (0 :: byte)"
  have "replicate (?n + 4) (0 :: byte) = replicate (length d) 0 @ z @ replicate 4 0"
    using round4_ge [of "length d"] by (simp add: z_def flip: replicate_add append_assoc)
  then have w1: "wr_range (replicate (?n + 4) 0) 0 d = Some (d @ z @ replicate 4 0)"
    by (simp add: wr_range_def)
  have w2: "set_be_uint16 l (CHNK_INIT_ACK # a2 # a3 # a4 # r @ z @ replicate 4 0) 2 =
      Some (CHNK_INIT_ACK # a2 # enc_be 2 l @ r @ z @ replicate 4 0)" for l
    by (simp add: set_be_uint16_eq wr_range_def)
  have len: "?n = length (CHNK_INIT_ACK # a2 # enc_be 2 l @ r @ z)" for l :: u16
    using round4_ge [of "length d"] by (simp add: z_def d)
  have w3: "set_be_uint16 c (CHNK_INIT_ACK # a2 # enc_be 2 l @ r @ z @ replicate 4 0) ?n =
      Some (CHNK_INIT_ACK # a2 # enc_be 2 l @ r @ z @ enc_be 2 c @ replicate 2 0)" for c l :: u16
    using wr_range_append(2) [of "CHNK_INIT_ACK # a2 # enc_be 2 l @ r @ z"]
    unfolding set_be_uint16_eq by (subst len [of l]) (simp add: wr_range_in)
  have w4: "set_be_uint16 k (CHNK_INIT_ACK # a2 # enc_be 2 l @ r @ z @ enc_be 2 c @ replicate 2 0) (?n + 2) =
      Some (CHNK_INIT_ACK # a2 # enc_be 2 l @ r @ z @ enc_be 2 c @ enc_be 2 k)" for k c l :: u16
    using wr_range_append(1) [of "CHNK_INIT_ACK # a2 # enc_be 2 l @ r @ z" "enc_be 2 c @ replicate 2 0" 2]
    unfolding set_be_uint16_eq by (subst len [of l]) (simp add: wr_range_in)
  have rds: "get_be_uint32 d 4 = Some (u32_at d 4)" "get_be_uint32 d 8 = Some (u32_at d 8)"
    "get_be_uint16 d 12 = Some (u16_at d 12)" "get_be_uint16 d 14 = Some (u16_at d 14)"
    "get_be_uint32 d 16 = Some (u32_at d 16)"
    using assms by (simp_all add: get_u16_at get_u32_at)
  have "wr (d @ z @ replicate 4 0) 0 CHNK_INIT_ACK = Some (CHNK_INIT_ACK # a2 # a3 # a4 # r @ z @ replicate 4 0)"
    by (simp add: d wr_def)
  moreover have "init_ack d = CHNK_INIT_ACK # a2 # enc_be 2 (of_nat (?n + 4) :: u16) @ r @ z @
      enc_be 2 OPT_COOKIE @ enc_be 2 (4 :: u16)"
    by (simp add: init_ack_def pad4_def z_def) (simp add: d)
  ultimately show ?thesis
    using assms b
    by (simp add: do_chunk_init_def sctp_sizes rds w1 w2 w3 w4 [unfolded add_2_eq_Suc'] init_state_def Let_def)
qed

section \<open>Chunks and packets as values\<close>

definition chunk_result :: "byte list \<Rightarrow> sctp \<Rightarrow> bool \<times> sctp" where
  "chunk_result c = (\<lambda>(s, dcd).
     if c ! 0 = CHNK_DATA then (True, apply_effect add_chunk (chunk_effect dcd c) (s, dcd))
     else if c ! 0 = CHNK_INIT then
       if 20 \<le> length c \<and> check_options c 20 = Some True then
         (True, (init_state c s)\<lparr>tsns := fst (set_insert (u32_at c 16) (tsns s)),
                   chunks := chunks s @ [init_ack c]\<rparr>, dcd)
       else (False, (if length c < 20 then s else init_state c s)\<lparr>verification_tag := 0\<rparr>, dcd)
     else if c ! 0 = CHNK_HEARTBEAT then
       (True, s\<lparr>chunks := chunks s @ [c[0 := CHNK_HEARTBEAT_ACK]]\<rparr>, dcd)
     else if c ! 0 = CHNK_COOKIE_ECHO then
       (True, s\<lparr>chunks := chunks s @ [[CHNK_COOKIE_ACK, 0] @ enc_be 2 (4 :: u16)]\<rparr>, dcd)
     else (True, s, dcd))"

lemma do_chunk_eq: "c \<noteq> [] \<Longrightarrow> do_chunk c ss = Some (chunk_result c ss)"
proof (cases ss)
  case (Pair s dcd)
  assume c: "c \<noteq> []"
  have x: "set_be_uint16 4 ((replicate 4 0)[0 := CHNK_COOKIE_ACK]) 2 =
      Some (CHNK_COOKIE_ACK # 0 # enc_be 2 (4 :: u16))"
    by (simp add: set_be_uint16_eq wr_range_def numeral_eq_Suc)
  show ?thesis
  proof (cases "c ! 0 = CHNK_INIT")
    case True
    then show ?thesis
      using c do_chunk_init_eq [of c s]
      by (cases "length c < 20") (auto simp: Pair do_chunk_def chunk_result_def rd_def chunk_types
        do_chunk_init_def [of c s] sctp_sizes)
  next
    case False
    then show ?thesis
      using c by (auto simp: Pair do_chunk_def chunk_result_def rd_def wr_def recv_data_chunk_eq x Let_def)
  qed
qed

text \<open>The chunks of a packet: the bytes of each, and whether the walk reaches the end.\<close>

function split_chunks :: "byte list \<Rightarrow> nat \<Rightarrow> byte list list \<times> bool" where
  "split_chunks msg i =
     (if i + 4 \<le> length msg then
        let n = unat (u16_at msg (i + 2))
        in if n < 4 \<or> length msg < i + n then ([], False)
           else let (cs, ok) = split_chunks msg (i + round4 n)
                in (take n (drop i msg) # cs, ok)
      else ([], True))"
  by pat_completeness auto

termination split_chunks
  by (relation "measure (\<lambda>(d, i). length d - i)") (auto intro!: round4_progress)

declare split_chunks.simps [simp del]

fun run_chunks :: "byte list list \<Rightarrow> sctp \<Rightarrow> bool \<times> sctp" where
  "run_chunks [] ss = (True, ss)"
| "run_chunks (c # cs) ss = (case chunk_result c ss of
     (True, ss) \<Rightarrow> run_chunks cs ss | (False, ss) \<Rightarrow> (False, ss))"

lemma parse_chunk_loop_eq:
  "parse_chunk_loop msg i ss = Some (case run_chunks (fst (split_chunks msg i)) ss of
     (ok, ss) \<Rightarrow> (ok \<and> snd (split_chunks msg i), ss))"
proof (induction msg i arbitrary: ss rule: split_chunks.induct)
  case (1 msg i)
  define n where "n = unat (u16_at msg (Suc (Suc i)))"
  show ?case
  proof (cases "i + 4 \<le> length msg \<and> \<not> (n < 4 \<or> length msg < i + n)")
    case False
    then show ?thesis
      using get_u16_at [of "i + 2" msg]
      by (auto simp: parse_chunk_loop.simps [of msg i] split_chunks.simps [of msg i] sctp_sizes Let_def
        simp flip: n_def)
  next
    case True
    let ?c = "take n (drop i msg)"
    obtain cs ok where cs: "split_chunks msg (i + round4 n) = (cs, ok)" by fastforce
    have sp: "split_chunks msg i = (?c # cs, ok)"
      using True by (simp add: split_chunks.simps [of msg i] Let_def cs flip: n_def)
    have IH: "parse_chunk_loop msg (i + round4 n) ss = Some (case run_chunks cs ss of
        (ok', ss) \<Rightarrow> (ok' \<and> ok, ss))" for ss
      using "1.IH" [of n ss] True unfolding cs fst_conv snd_conv by (simp add: n_def)
    have c: "?c \<noteq> []" using True by auto
    have "parse_chunk_loop msg i ss = (case chunk_result ?c ss of
        (True, ss) \<Rightarrow> parse_chunk_loop msg (i + round4 n) ss | (False, ss) \<Rightarrow> Some (False, ss))"
      using True get_u16_at [of "i + 2" msg] do_chunk_eq [OF c, of ss]
      by (simp add: parse_chunk_loop.simps [of msg i] sctp_sizes rd_range_in Let_def flip: n_def)
    then show ?thesis
      unfolding sp fst_conv snd_conv IH by (auto split: prod.split bool.split)
  qed
qed

section \<open>The cumulative acknowledgement\<close>

lemma advance_spec:
  "advance cum ts = (cum', ts') \<Longrightarrow>
     \<exists>k. ts = map (\<lambda>i. cum + 1 + of_nat i) [0..<k] @ ts' \<and> cum' = cum + of_nat k \<and>
       (ts' = [] \<or> hd ts' \<noteq> cum' + 1)"
proof (induction cum ts rule: advance.induct)
  case (1 cum)
  then show ?case by (intro exI [of _ 0]) simp
next
  case (2 cum t ts)
  show ?case
  proof (cases "t = cum + 1")
    case True
    then obtain k where k: "ts = map (\<lambda>i. cum + 1 + 1 + of_nat i) [0..<k] @ ts'"
        "cum' = cum + 1 + of_nat k" "ts' = [] \<or> hd ts' \<noteq> cum' + 1"
      using 2 by auto
    have "map (\<lambda>i. cum + 1 + of_nat i) [0..<Suc k] =
        (cum + 1) # map (\<lambda>i. cum + 1 + of_nat (Suc i)) [0..<k]"
      by (simp add: upt_conv_Cons comp_def del: upt_Suc flip: map_Suc_upt)
    then show ?thesis
      using True k by (intro exI [of _ "Suc k"]) (simp add: add_ac)
  next
    case False
    then show ?thesis using 2 by (intro exI [of _ 0]) auto
  qed
qed

section \<open>The gap blocks\<close>

text \<open>The runs of consecutive numbers in an ascending list, the first one being \<open>b..p\<close>.\<close>

fun runs :: "u32 \<Rightarrow> u32 \<Rightarrow> u32 list \<Rightarrow> (u32 \<times> u32) list" where
  "runs b p [] = [(b, p)]"
| "runs b p (x # xs) = (if x = p + 1 then runs b x xs else (b, p) # runs x x xs)"

lemma block_loop_runs:
  "block_loop cum prev bs acc ts = (p, b, bl) \<Longrightarrow>
     bl @ [(b - cum, p - cum)] = acc @ runs (bs - cum) (prev - cum) (map (\<lambda>t. t - cum) ts)"
proof (induction cum prev bs acc ts rule: block_loop.induct)
  case (2 cum prev bs acc t ts)
  have "t - cum = prev - cum + 1 \<longleftrightarrow> t = prev + 1" by (auto simp: diff_eq_eq algebra_simps)
  then show ?case using 2 by (auto split: if_splits)
qed simp

lemma gap_blocks_runs:
  "gap_blocks cum (t # ts) = runs (t - cum) (t - cum) (map (\<lambda>t. t - cum) ts)"
proof -
  obtain p b bl where "block_loop cum t t [] ts = (p, b, bl)" by (cases "block_loop cum t t [] ts")
  then show ?thesis
    using block_loop_runs by (fastforce simp: gap_blocks_def)
qed

lemma unat_inc: "p < x \<Longrightarrow> unat (p + 1) = Suc (unat (p :: u32))"
proof -
  assume "p < x"
  moreover have "unat x < 2 ^ LENGTH(32)" by (rule unsigned_less)
  ultimately have "Suc (unat p) < 2 ^ LENGTH(32)" by (simp add: word_less_nat_alt)
  then show ?thesis by (simp add: unat_word_ariths)
qed

lemma interval_inc: "b \<le> p \<Longrightarrow> p < x \<Longrightarrow> {b..p + 1} = insert (p + 1) {b..(p :: u32)}"
  using unat_inc [of p x]
  by (auto simp: word_le_nat_alt word_unat_eq_iff le_Suc_eq)

lemma runs_cover:
  "sorted_wrt (<) (p # xs) \<Longrightarrow> b \<le> p \<Longrightarrow> (\<Union>(c, d) \<in> set (runs b p xs). {c..d}) = {b..p} \<union> set xs"
proof (induction b p xs rule: runs.induct)
  case (2 b p x xs)
  show ?case
  proof (cases "x = p + 1")
    case True
    then have "b \<le> x" using 2 by auto
    then have "(\<Union>(c, d) \<in> set (runs b x xs). {c..d}) = {b..x} \<union> set xs"
      using 2 True by auto
    moreover have "{b..x} = insert x {b..p}" using 2 True interval_inc [of b p x] by auto
    ultimately show ?thesis using True by auto
  next
    case False
    then show ?thesis using 2 by auto
  qed
qed simp

text \<open>Consecutive blocks do not touch.\<close>

definition apart :: "u32 \<times> u32 \<Rightarrow> u32 \<times> u32 \<Rightarrow> bool" where
  "apart x y \<longleftrightarrow> Suc (unat (snd x)) < unat (fst y)"

lemma runs_first: "sorted_wrt (<) (p # xs) \<Longrightarrow> b \<le> p \<Longrightarrow> x \<in> set (runs b p xs) \<Longrightarrow> b \<le> fst x \<and> fst x \<le> snd x"
proof (induction b p xs rule: runs.induct)
  case (2 b p y ys)
  then show ?case by (cases "y = p + 1") (fastforce split: if_splits)+
qed auto

lemma runs_apart: "sorted_wrt (<) (p # xs) \<Longrightarrow> b \<le> p \<Longrightarrow> sorted_wrt apart (runs b p xs)"
proof (induction b p xs rule: runs.induct)
  case (2 b p x xs)
  show ?case
  proof (cases "x = p + 1")
    case True
    then show ?thesis using 2 by auto
  next
    case False
    have px: "p < x" using 2 by auto
    have "Suc (unat p) < unat x"
      using px False unat_inc [OF px] by (metis Suc_lessI word_less_nat_alt word_unat_eq_iff)
    then have "apart (b, p) y" if "y \<in> set (runs x x xs)" for y
      using runs_first [of x xs x y] 2 that by (auto simp: apart_def word_le_nat_alt)
    then show ?thesis using False 2 by auto
  qed
qed simp

lemma offset_mono:
  assumes "cum \<le> a" "a < (b :: u32)"
  shows "a - cum < b - cum"
  using assms by (simp add: word_less_nat_alt word_le_nat_alt unat_sub)

lemma offsets_sorted:
  assumes "sorted_wrt (<) ts" "\<forall>t \<in> set ts. cum \<le> t"
  shows "sorted_wrt (<) (map (\<lambda>t. t - cum) (ts :: u32 list))"
  using assms by (auto simp: sorted_wrt_map intro!: sorted_wrt_mono_rel [OF _ assms(1)] offset_mono)

definition tsn_inv :: "sctp_dispatch \<Rightarrow> bool" where
  "tsn_inv s \<longleftrightarrow> sorted_wrt (<) (tsns s) \<and> (\<forall>t \<in> set (tsns s). last_complete_tsn s < t)"

lemma gap_blocks_spec:
  assumes "sorted_wrt (<) ts" "\<forall>t \<in> set ts. cum < t"
  shows "(\<Union>(c, d) \<in> set (gap_blocks cum ts). {c..d}) = (\<lambda>t. t - cum) ` set ts"
    and "sorted_wrt apart (gap_blocks cum ts)"
proof -
  have "cum \<le> t" if "t \<in> set ts" for t using assms(2) that by auto
  then have "sorted_wrt (<) (map (\<lambda>t. t - cum) ts)" using offsets_sorted [OF assms(1)] by simp
  then show "(\<Union>(c, d) \<in> set (gap_blocks cum ts). {c..d}) = (\<lambda>t. t - cum) ` set ts"
    and "sorted_wrt apart (gap_blocks cum ts)"
  proof (atomize(full), cases ts)
    case Nil
    then show "(\<Union>(c, d) \<in> set (gap_blocks cum ts). {c..d}) = (\<lambda>t. t - cum) ` set ts \<and>
        sorted_wrt apart (gap_blocks cum ts)"
      by (simp add: gap_blocks_def)
  next
    case (Cons t us)
    let ?o = "t - cum" and ?os = "map (\<lambda>t. t - cum) us"
    assume "sorted_wrt (<) (map (\<lambda>t. t - cum) ts)"
    then have s: "sorted_wrt (<) (?o # ?os)" using Cons by simp
    show "(\<Union>(c, d) \<in> set (gap_blocks cum ts). {c..d}) = (\<lambda>t. t - cum) ` set ts \<and>
        sorted_wrt apart (gap_blocks cum ts)"
      unfolding Cons gap_blocks_runs runs_cover [OF s order_refl]
      using runs_apart [OF s order_refl] by simp
  qed
qed

section \<open>Invariants\<close>

lemma set_insert_sorted:
  "sorted_wrt (<) xs \<Longrightarrow> sorted_wrt (<) (fst (set_insert x xs))"
  by (auto simp: set_insert_def strict_sorted_iff sorted_insort distinct_insort)

lemma set_insert_set: "set (fst (set_insert x xs)) = insert x (set xs)"
  by (auto simp: set_insert_def set_insort_key)

lemma add_chunk_tsns:
  "tsns (add_chunk tsn c s) =
     (if last_complete_tsn s < tsn then fst (set_insert tsn (tsns s)) else tsns s)"
  "last_complete_tsn (add_chunk tsn c s) = last_complete_tsn s"
  by (auto simp: add_chunk_def Let_def set_insert_def)

definition tsns_sorted :: "sctp_dispatch \<Rightarrow> bool" where
  "tsns_sorted s \<longleftrightarrow> sorted_wrt (<) (tsns s)"

text \<open>The SCTP endpoint is a sink for the data channels, with either invariant.\<close>

interpretation sorted_sink: chunk_sink add_chunk tsns_sorted
  by unfold_locales (simp add: tsns_sorted_def add_chunk_tsns set_insert_sorted)

interpretation tsn_sink: chunk_sink add_chunk tsn_inv
  by unfold_locales (auto simp: tsn_inv_def add_chunk_tsns set_insert_sorted set_insert_set)

lemma chunk_result_sorted:
  "tsns_sorted s \<Longrightarrow> chunk_result c (s, dcd) = (ok, s', dcd') \<Longrightarrow> tsns_sorted s'"
  using sorted_sink.recv_keeps [of s c dcd s' dcd']
  by (auto simp: chunk_result_def recv_data_chunk_eq tsns_sorted_def init_state_def set_insert_sorted
    split: if_splits)

lemma chunk_result_tsn_inv:
  "c ! 0 \<noteq> CHNK_INIT \<Longrightarrow> tsn_inv s \<Longrightarrow> chunk_result c (s, dcd) = (ok, s', dcd') \<Longrightarrow> tsn_inv s'"
  using tsn_sink.recv_keeps [of s c dcd s' dcd']
  by (auto simp: chunk_result_def recv_data_chunk_eq tsn_inv_def split: if_splits)

lemma run_chunks_sorted:
  "run_chunks cs (s, dcd) = (ok, s', dcd') \<Longrightarrow> tsns_sorted s \<Longrightarrow> tsns_sorted s'"
  by (induction cs arbitrary: s dcd)
    (auto split: prod.splits bool.splits dest: chunk_result_sorted)

lemma run_chunks_tsn_inv:
  "run_chunks cs (s, dcd) = (ok, s', dcd') \<Longrightarrow> \<forall>c \<in> set cs. c ! 0 \<noteq> CHNK_INIT \<Longrightarrow> tsn_inv s \<Longrightarrow> tsn_inv s'"
  by (induction cs arbitrary: s dcd)
    (auto split: prod.splits bool.splits dest: chunk_result_tsn_inv)

text \<open>What one received packet does.\<close>

definition acked :: "sctp_dispatch \<Rightarrow> sctp_dispatch" where
  "acked s = (case advance (last_complete_tsn s) (tsns s) of
     (cum, ts) \<Rightarrow> s\<lparr>last_complete_tsn := cum, tsns := ts\<rparr>)"

definition ack_packet :: "sctp_dispatch \<Rightarrow> byte list" where
  "ack_packet s = packet s (sack_bytes (last_complete_tsn s)
     (gap_blocks (last_complete_tsn s) (tsns s)) (duplicate_tsns s))"

lemma send_acks_eq:
  "send_acks s = Some ((acked s)\<lparr>chunks := [], duplicate_tsns := []\<rparr>, ack_packet (acked s))"
  by (simp add: send_acks_def acked_def ack_packet_def build_sack_eq build_reply_eq Let_def
    split: prod.split)

definition checksum_ok :: "byte list \<Rightarrow> bool" where
  "checksum_ok msg \<longleftrightarrow> 12 \<le> length msg \<and> crc32_sctp msg = get_be_uint32 msg 8"

definition recv_spec :: "byte list \<Rightarrow> sctp \<Rightarrow> sctp \<times> byte list option" where
  "recv_spec msg ss =
     (if checksum_ok msg then
        (case run_chunks (fst (split_chunks msg 12)) ss of
           (ok, s, dcd) \<Rightarrow>
             if ok \<and> snd (split_chunks msg 12) then
               (((acked s)\<lparr>chunks := [], duplicate_tsns := []\<rparr>, dcd), Some (ack_packet (acked s)))
             else ((s, dcd), None))
      else (ss, None))"

lemma recv_msg_eq: "recv_msg msg ss = Some (recv_spec msg ss)"
proof (cases "12 \<le> length msg")
  case True
  then have "get_be_uint32 msg 8 = Some (u32_at msg 8)" by (simp add: get_u32_at)
  then show ?thesis
    using True crc32_sctp_eq [OF True]
    by (auto simp: recv_msg_def recv_spec_def checksum_ok_def sctp_sizes parse_sctp_chunks_def
      parse_chunk_loop_eq send_acks_eq split: prod.split bool.split)
qed (simp add: recv_msg_def recv_spec_def checksum_ok_def sctp_sizes)

lemma inc_less_iff: "p < x \<Longrightarrow> p + 1 \<le> x \<and> p < p + 1 \<and> (y < x \<longrightarrow> p < y \<longrightarrow> p + 1 \<le> (y :: u32))"
  using unat_inc [of p x] by (auto simp: word_less_nat_alt word_le_nat_alt)

lemma less_inc: "p < (x :: u32) \<Longrightarrow> (p + 1 < y \<longleftrightarrow> p < y \<and> y \<noteq> p + 1)"
  using unat_inc [of p x] by (auto simp: word_less_nat_alt word_unat_eq_iff)

lemma advance_exact:
  "advance l ts = (cum, ts') \<Longrightarrow> sorted_wrt (<) ts \<Longrightarrow> \<forall>t \<in> set ts. l < t \<Longrightarrow>
     l \<le> cum \<and> {l <.. cum} \<subseteq> set ts \<and> set ts' = {t \<in> set ts. cum < t} \<and> sorted_wrt (<) ts' \<and>
     cum + 1 \<notin> set ts'"
proof (induction l ts rule: advance.induct)
  case (2 l t ts)
  have l: "l < t" using 2 by simp
  show ?case
  proof (cases "t = l + 1")
    case True
    have "\<forall>u \<in> set ts. l + 1 < u" using 2 True by auto
    then have IH: "l + 1 \<le> cum" "{l + 1 <.. cum} \<subseteq> set ts" "set ts' = {t \<in> set ts. cum < t}"
        "sorted_wrt (<) ts'" "cum + 1 \<notin> set ts'"
      using 2 True by auto
    have "l \<le> cum" using l IH(1) unfolding True by (metis less_le_trans less_imp_le)
    moreover have "{l <.. cum} \<subseteq> insert t {l + 1 <.. cum}"
    proof
      fix x assume "x \<in> {l <.. cum}"
      then show "x \<in> insert t {l + 1 <.. cum}"
        using less_inc [OF l, of x] by (cases "x = t") (simp_all add: True)
    qed
    ultimately have "l \<le> cum \<and> {l <.. cum} \<subseteq> set (t # ts)" using IH(2) by auto
    moreover have "\<not> cum < t" using IH(1) True by auto
    ultimately show ?thesis using IH(3-5) True by auto
  next
    case False
    then have "l + 1 < t" using less_inc [OF l, of t] l by simp
    then have "l + 1 \<notin> set (t # ts)" using 2 by auto
    then show ?thesis using 2 False by auto
  qed
qed auto

section \<open>Runs of the endpoint\<close>

text \<open>\<open>sctp_run msgs outs ss\<close>: a new endpoint that receives \<open>msgs\<close> sends \<open>outs\<close> and is in state \<open>ss\<close>.\<close>

inductive sctp_run :: "u16 \<Rightarrow> u16 \<Rightarrow> byte list list \<Rightarrow> byte list list \<Rightarrow> sctp \<Rightarrow> bool" for lp rp where
  sctp_start: "sctp_run lp rp [] [] (new_sctp lp rp)"
| sctp_step: "sctp_run lp rp msgs outs ss \<Longrightarrow> recv_msg msg ss = Some (ss', out) \<Longrightarrow>
    sctp_run lp rp (msgs @ [msg]) (outs @ (case out of None \<Rightarrow> [] | Some r \<Rightarrow> [r])) ss'"

lemma add_chunk_ports:
  "local_port (add_chunk tsn c s) = local_port s" "remote_port (add_chunk tsn c s) = remote_port s"
  by (simp_all add: add_chunk_def Let_def split: prod.split)

lemma chunk_result_ports:
  assumes "chunk_result c (s, dcd) = (ok, s', dcd')"
  shows "local_port s' = local_port s \<and> remote_port s' = remote_port s"
  using assms
  by (cases "chunk_effect dcd c")
    (auto simp: chunk_result_def init_state_def add_chunk_ports split: if_splits)

lemma run_chunks_ports:
  "run_chunks cs (s, dcd) = (ok, s', dcd') \<Longrightarrow> local_port s' = local_port s \<and> remote_port s' = remote_port s"
  by (induction cs arbitrary: s dcd) (auto split: prod.splits bool.splits dest!: chunk_result_ports)

lemma acked_fields:
  "local_port (acked s) = local_port s" "remote_port (acked s) = remote_port s"
  "verification_tag (acked s) = verification_tag s" "chunks (acked s) = chunks s"
  "duplicate_tsns (acked s) = duplicate_tsns s"
  by (simp_all add: acked_def split: prod.split)

lemma advance_sorted: "advance cum ts = (cum', ts') \<Longrightarrow> sorted_wrt (<) ts \<Longrightarrow> sorted_wrt (<) ts'"
  by (induction cum ts rule: advance.induct) (auto split: if_splits)

lemma acked_sorted: "tsns_sorted s \<Longrightarrow> tsns_sorted (acked s)"
  by (auto simp: acked_def tsns_sorted_def dest: advance_sorted split: prod.split)

lemma length_packet_body: "length (packet_body s (sack_bytes cum bl dups)) mod 4 = 0"
proof -
  have "length (concat (map pad4 cs)) mod 4 = 0" for cs
    by (induction cs) (auto simp: mod_add_eq [symmetric])
  moreover have "length (sack_bytes cum bl dups) = 4 * (4 + length bl + length dups)"
  proof -
    have "length (concat (map (\<lambda>b. enc_be 2 (ucast (fst b) :: u16) @ enc_be 2 (ucast (snd b) :: u16)) bl)) =
        4 * length bl" by (induction bl) simp_all
    moreover have "length (concat (map (\<lambda>d. enc_be 2 (ucast d :: u16) @ [0, 0 :: byte]) dups)) = 4 * length dups"
      by (induction dups) simp_all
    ultimately show ?thesis by (simp only: sack_bytes_def length_append length_enc_be) simp
  qed
  ultimately show ?thesis by (simp add: packet_body_def mod_add_eq [symmetric])
qed

text \<open>What holds of every packet an endpoint with these ports sends.\<close>

definition good_packet :: "u16 \<Rightarrow> u16 \<Rightarrow> byte list \<Rightarrow> bool" where
  "good_packet lp rp r \<longleftrightarrow> checksum_ok r \<and> length r mod 4 = 0 \<and> u16_at r 0 = lp \<and> u16_at r 2 = rp"

lemma ack_packet_good: "good_packet (local_port s) (remote_port s) (ack_packet s)"
proof -
  have "length (ack_packet s) mod 4 = 0"
    using length_packet_body by (simp add: ack_packet_def packet_def mod_add_eq [symmetric])
  moreover have "u16_at (ack_packet s) 0 = local_port s" "u16_at (ack_packet s) 2 = remote_port s"
    by (simp_all add: u16_at_def ack_packet_def packet_def packet_head_def dec_enc_be)
  moreover have "12 \<le> length (ack_packet s)" by (simp add: ack_packet_def packet_def)
  ultimately show ?thesis
    using packet_checksum by (simp add: good_packet_def checksum_ok_def ack_packet_def)
qed

lemma recv_keeps_ports_sorted:
  assumes "recv_msg msg (s, dcd) = Some ((s', dcd'), out)"
  shows "local_port s' = local_port s \<and> remote_port s' = remote_port s \<and> (tsns_sorted s \<longrightarrow> tsns_sorted s') \<and>
    (\<forall>r. out = Some r \<longrightarrow> good_packet (local_port s) (remote_port s) r)"
proof -
  obtain ok s1 dcd1 where r: "run_chunks (fst (split_chunks msg 12)) (s, dcd) = (ok, s1, dcd1)"
    by (cases "run_chunks (fst (split_chunks msg 12)) (s, dcd)") auto
  note ports = run_chunks_ports [OF r] and sorted = run_chunks_sorted [OF r]
  have "tsns_sorted s \<Longrightarrow> tsns_sorted ((acked s1)\<lparr>chunks := [], duplicate_tsns := []\<rparr>)"
    using acked_sorted [OF sorted] by (simp add: tsns_sorted_def)
  then show ?thesis
    using assms r ports sorted ack_packet_good [of "acked s1"]
    by (auto simp: recv_msg_eq recv_spec_def acked_fields split: if_splits)
qed

section \<open>Properties\<close>

text \<open>
  C37: receiving a packet never reads outside of it, whatever its bytes and the state of the
  endpoint, and does what the specification says: a packet with a wrong checksum (or shorter
  than a header) changes nothing; otherwise its chunks are applied in order up to the first bad
  one, and only if all are good a packet with the collected replies and a SACK is sent and the
  replies and duplicates are forgotten.
\<close>

theorem sctp_recv_is_spec: "recv_msg msg ss = Some (recv_spec msg ss)"
  by (rule recv_msg_eq)

text \<open>
  C39: whatever packets an endpoint receives, it keeps its ports and a strictly ascending list
  of TSNs, and every packet that it sends has a valid CRC-32C, a length that is a multiple of four
  and the two ports.
\<close>

theorem sctp_run_good:
  "sctp_run lp rp msgs outs (s, dcd) \<Longrightarrow>
     local_port s = lp \<and> remote_port s = rp \<and> sorted_wrt (<) (tsns s) \<and>
     (\<forall>r \<in> set outs. good_packet lp rp r)"
proof (induction msgs outs "(s, dcd)" arbitrary: s dcd rule: sctp_run.induct)
  case sctp_start
  then show ?case by (auto simp: new_sctp_def)
next
  case (sctp_step msgs outs ss msg out)
  obtain s0 dcd0 where ss: "ss = (s0, dcd0)" by (cases ss)
  show ?case
    using sctp_step recv_keeps_ports_sorted [of msg s0 dcd0 s dcd out]
    by (auto simp: ss tsns_sorted_def split: option.splits)
qed

text \<open>
  C38: a SACK acknowledges exactly what was received: starting from TSNs above the cumulative TSN,
  the new cumulative TSN is advanced over every TSN that follows it without a gap, and only over
  received ones; what remains is the set of received TSNs above it, the next TSN is not among them,
  and the gap blocks of the packet are disjoint, do not touch and cover exactly these TSNs (as
  offsets of the full 32 bits; the packet keeps their low 16 bits).
\<close>

theorem sctp_sack_exact:
  assumes inv: "tsn_inv s" and ack: "send_acks s = Some (s', r)"
  defines "cum \<equiv> last_complete_tsn s'"
  defines "blocks \<equiv> gap_blocks cum (tsns s')"
  shows "tsn_inv s' \<and> last_complete_tsn s \<le> cum \<and>
    {last_complete_tsn s <.. cum} \<subseteq> set (tsns s) \<and> cum + 1 \<notin> set (tsns s') \<and>
    set (tsns s') = {t \<in> set (tsns s). cum < t} \<and>
    (\<Union>(b, e) \<in> set blocks. {b..e}) = (\<lambda>t. t - cum) ` set (tsns s') \<and> sorted_wrt apart blocks \<and>
    (\<exists>s0. chunks s0 = chunks s \<and> r = packet s0 (sack_bytes cum blocks (duplicate_tsns s)))"
proof -
  obtain c ts where adv: "advance (last_complete_tsn s) (tsns s) = (c, ts)" by fastforce
  have s': "s' = s\<lparr>last_complete_tsn := c, tsns := ts, chunks := [], duplicate_tsns := []\<rparr>"
      "r = ack_packet (s\<lparr>last_complete_tsn := c, tsns := ts\<rparr>)"
    using ack by (auto simp: send_acks_eq acked_def adv)
  have c: "cum = c" "tsns s' = ts" by (simp_all add: cum_def s')
  have ex: "last_complete_tsn s \<le> c \<and> {last_complete_tsn s <.. c} \<subseteq> set (tsns s) \<and>
      set ts = {t \<in> set (tsns s). c < t} \<and> sorted_wrt (<) ts \<and> c + 1 \<notin> set ts"
    using advance_exact [OF adv] inv unfolding tsn_inv_def by blast
  then have inv': "sorted_wrt (<) ts" "\<forall>t \<in> set ts. c < t" by auto
  have pkt: "r = packet (s\<lparr>last_complete_tsn := c, tsns := ts\<rparr>)
      (sack_bytes c (gap_blocks c ts) (duplicate_tsns s))"
    by (simp add: s' ack_packet_def)
  have keep: "tsn_inv s'" using inv' by (simp add: tsn_inv_def s')
  from ex show ?thesis
    unfolding blocks_def c
  proof (elim conjE, intro conjI exI [of _ "s\<lparr>last_complete_tsn := c, tsns := ts\<rparr>"])
    show "(\<Union>(b, e) \<in> set (gap_blocks c ts). {b..e}) = (\<lambda>t. t - c) ` set ts"
      by (rule gap_blocks_spec(1) [OF inv'])
    show "sorted_wrt apart (gap_blocks c ts)" by (rule gap_blocks_spec(2) [OF inv'])
    show "r = packet (s\<lparr>last_complete_tsn := c, tsns := ts\<rparr>)
      (sack_bytes c (gap_blocks c ts) (duplicate_tsns s))" by (rule pkt)
  qed (assumption | rule keep | simp)+
qed

definition sample_sctp :: sctp_dispatch where
  "sample_sctp = \<lparr> local_port = 5000, remote_port = 5000, tsns = [11, 12, 15, 16, 20], chunks = [],
     duplicate_tsns = [12], verification_tag = 7, last_complete_tsn = 10 \<rparr>"

lemma sctp_sack_exact_witness:
  "\<exists>s' r. send_acks sample_sctp = Some (s', r) \<and> last_complete_tsn s' = 12 \<and>
     gap_blocks 12 (tsns s') = [(3, 4), (8, 8)] \<and> sorted_wrt apart [(3, 4), (8, 8)]"
proof -
  have "tsn_inv sample_sctp" by (simp add: tsn_inv_def sample_sctp_def)
  then show ?thesis
    using sctp_sack_exact [OF _ send_acks_eq, of sample_sctp]
    by (simp add: send_acks_eq acked_def sample_sctp_def gap_blocks_def)
qed

lemma split_single:
  assumes "length p = 12" "length c = 4 * k" "0 < k" "unat (u16_at c 2) = length c"
  shows "split_chunks (p @ c) 12 = ([c], True)"
proof -
  have u: "u16_at (p @ c) 14 = u16_at c 2" using assms by (simp add: u16_at_def)
  have "split_chunks (p @ c) (12 + 4 * k) = ([], True)"
    using assms by (simp add: split_chunks.simps)
  then show ?thesis
    using assms by (simp add: split_chunks.simps [of "p @ c" 12] u round4_id Let_def)
qed

definition sample_init :: "byte list" where
  "sample_init = [1, 0, 0, 20, 0, 0, 0, 9, 0, 1, 0, 0, 0, 1, 0, 1, 0, 0, 0, 100]"

definition sample_init_msg :: "byte list" where
  "sample_init_msg = packet sample_sctp sample_init"

lemma sample_init_facts:
  "checksum_ok sample_init_msg" "split_chunks sample_init_msg 12 = ([sample_init], True)"
  "sample_init ! 0 = CHNK_INIT" "20 \<le> length sample_init" "check_options sample_init 20 = Some True"
proof -
  show "checksum_ok sample_init_msg"
    using packet_checksum by (simp add: checksum_ok_def sample_init_msg_def packet_def)
  have "length sample_init = 4 * 5" "unat (u16_at sample_init 2) = length sample_init"
    by (simp_all add: sample_init_def u16_at_def dec_be_def)
  then show "split_chunks sample_init_msg 12 = ([sample_init], True)"
    using split_single [of "packet_head sample_sctp @ enc_be 4 (the (crc32_sctp
      (packet_head sample_sctp @ [0, 0, 0, 0] @ sample_init)))" sample_init 5]
    by (simp add: sample_init_msg_def packet_def packet_body_def sample_sctp_def)
qed (simp_all add: sample_init_def CHNK_INIT_def check_options.simps sctp_sizes)

text \<open>The answer of a new endpoint to an INIT packet is a good packet.\<close>

lemma sctp_run_good_witness:
  "\<exists>s dcd r. sctp_run 5000 5000 [sample_init_msg] [r] (s, dcd) \<and> good_packet 5000 5000 r"
proof -
  obtain s dcd out where out: "recv_msg sample_init_msg (new_sctp 5000 5000) = Some ((s, dcd), out)"
    by (metis recv_msg_eq surj_pair)
  have "out \<noteq> None"
    using out sample_init_facts
    by (auto simp: recv_msg_eq recv_spec_def chunk_result_def new_sctp_def chunk_types)
  then obtain r where r: "out = Some r" by blast
  have "sctp_run 5000 5000 ([] @ [sample_init_msg]) ([] @ [r]) (s, dcd)"
    using sctp_step [OF sctp_start out] by (simp add: r)
  then show ?thesis using sctp_run_good by fastforce
qed

text \<open>
  the answer to an INIT chunk (in a packet with nothing else) is a packet with the INIT_ACK,
  which is the INIT chunk with the type and the length changed and an empty cookie appended, under the
  initiate tag of the peer; and the SACK in the same packet acknowledges the initial TSN,
  although no DATA chunk with that TSN has been received.
\<close>

theorem sctp_init_answer:
  assumes "checksum_ok msg" "split_chunks msg 12 = ([c], True)"
    and "c ! 0 = CHNK_INIT" "20 \<le> length c" "check_options c 20 = Some True"
    and "tsns s = []" "chunks s = []" "duplicate_tsns s = []"
  shows "\<exists>s0 s' r. recv_msg msg (s, dcd) = Some ((s', dcd), Some r) \<and>
    chunks s0 = [init_ack c] \<and> verification_tag s0 = u32_at c 4 \<and>
    r = packet s0 (sack_bytes (u32_at c 16) [] []) \<and>
    verification_tag s' = u32_at c 4 \<and> last_complete_tsn s' = u32_at c 16 \<and> tsns s' = []"
proof -
  let ?s1 = "(init_state c s)\<lparr>tsns := fst (set_insert (u32_at c 16) []), chunks := [init_ack c]\<rparr>"
  have "run_chunks [c] (s, dcd) = (True, ?s1, dcd)"
    using assms by (simp add: chunk_result_def chunk_types)
  moreover have "acked ?s1 = ?s1\<lparr>last_complete_tsn := u32_at c 16, tsns := []\<rparr>"
    by (simp add: acked_def set_insert_def init_state_def)
  ultimately show ?thesis
    using assms
    by (intro exI [of _ "?s1\<lparr>last_complete_tsn := u32_at c 16, tsns := []\<rparr>"]
        exI [of _ "s\<lparr>verification_tag := u32_at c 4, last_complete_tsn := u32_at c 16, tsns := [],
          chunks := [], duplicate_tsns := []\<rparr>"] exI)
      (simp add: recv_msg_eq recv_spec_def ack_packet_def gap_blocks_def init_state_def)
qed

lemma sctp_init_answer_witness:
  "\<exists>s' r. recv_msg sample_init_msg (new_sctp 5000 5000) = Some ((s', Map.empty), Some r) \<and>
     last_complete_tsn s' = 100"
proof -
  have "u32_at sample_init 16 = 100" by (simp add: u32_at_def sample_init_def dec_be_def)
  then show ?thesis
    using sctp_init_answer [OF sample_init_facts, of "fst (new_sctp 5000 5000)" Map.empty]
    by (auto simp: new_sctp_def)
qed

end
