(* ===== verification/Time_Utils.thy ===== *)
theory Time_Utils
  imports Prelude "HOL-Library.Signed_Division"
begin

text \<open>
  The time arithmetic of \<open>src/cpp/time_utils.h\<close>: \<open>timespec\<close> with its operators, and the calendar
  functions that add months and years to a number of seconds since 1970.  The fields are
  unbounded integers (they are 64 bit in the code and far from their limits for any time of a
  clock).  The operators on \<open>double\<close> are not modelled.
\<close>

section \<open>\<open>timespec\<close>\<close>

datatype timespec = Timespec (tv_sec: int) (tv_nsec: int)

text \<open>\<open>operator<\<close> and \<open>operator<=\<close>, which are the order of the type.\<close>

definition timespec_lt :: "timespec \<Rightarrow> timespec \<Rightarrow> bool" where
  "timespec_lt spec1 spec2 \<longleftrightarrow>
     (if tv_sec spec1 \<noteq> tv_sec spec2 then tv_sec spec1 < tv_sec spec2
      else tv_nsec spec1 < tv_nsec spec2)"

definition timespec_le :: "timespec \<Rightarrow> timespec \<Rightarrow> bool" where
  "timespec_le spec1 spec2 \<longleftrightarrow> \<not> timespec_lt spec2 spec1"

instantiation timespec :: linorder
begin

definition less_timespec :: "timespec \<Rightarrow> timespec \<Rightarrow> bool" where
  "less_timespec = timespec_lt"

definition less_eq_timespec :: "timespec \<Rightarrow> timespec \<Rightarrow> bool" where
  "less_eq_timespec = timespec_le"

instance
  by standard
    (auto simp: less_timespec_def less_eq_timespec_def timespec_lt_def timespec_le_def timespec.expand
      split: if_splits)

end

lemmas timespec_order = less_timespec_def less_eq_timespec_def timespec_lt_def timespec_le_def

definition timespec_plus :: "timespec \<Rightarrow> timespec \<Rightarrow> timespec" where
  "timespec_plus spec1 spec2 =
     (let sec = tv_sec spec1 + tv_sec spec2;
          nsec = tv_nsec spec1 + tv_nsec spec2
      in if nsec > 1000000000 then Timespec (sec + 1) (nsec - 1000000000) else Timespec sec nsec)"

definition timespec_plus_seconds :: "timespec \<Rightarrow> int \<Rightarrow> timespec" where
  "timespec_plus_seconds spec1 seconds = Timespec (tv_sec spec1 + seconds) (tv_nsec spec1)"

definition timespec_minus :: "timespec \<Rightarrow> timespec \<Rightarrow> timespec" where
  "timespec_minus spec1 spec2 =
     (let sec = tv_sec spec1 - tv_sec spec2
      in if tv_nsec spec2 > tv_nsec spec1
         then Timespec (sec - 1) (1000000000 + tv_nsec spec1 - tv_nsec spec2)
         else Timespec sec (tv_nsec spec1 - tv_nsec spec2))"

definition timespec_minus_seconds :: "timespec \<Rightarrow> int \<Rightarrow> timespec" where
  "timespec_minus_seconds spec1 seconds = Timespec (tv_sec spec1 - seconds) (tv_nsec spec1)"

text \<open>The instant in nanoseconds, and the form in which it is unique.\<close>

definition nanos :: "timespec \<Rightarrow> int" where
  "nanos s = tv_sec s * 1000000000 + tv_nsec s"

definition normal :: "timespec \<Rightarrow> bool" where
  "normal s \<longleftrightarrow> 0 \<le> tv_nsec s \<and> tv_nsec s < 1000000000"

lemma nanos_plus: "nanos (timespec_plus a b) = nanos a + nanos b"
  by (simp add: nanos_def timespec_plus_def Let_def algebra_simps)

lemma nanos_minus: "nanos (timespec_minus a b) = nanos a - nanos b"
  by (simp add: nanos_def timespec_minus_def Let_def algebra_simps)

lemma normal_minus: "normal a \<Longrightarrow> normal b \<Longrightarrow> normal (timespec_minus a b)"
  by (auto simp: normal_def timespec_minus_def Let_def)

lemma normal_plus:
  "normal a \<Longrightarrow> normal b \<Longrightarrow>
     normal (timespec_plus a b) \<longleftrightarrow> tv_nsec a + tv_nsec b \<noteq> 1000000000"
  by (auto simp: normal_def timespec_plus_def Let_def)

lemma less_nanos: "normal a \<Longrightarrow> normal b \<Longrightarrow> a < b \<longleftrightarrow> nanos a < nanos b"
  by (auto simp: timespec_order nanos_def normal_def)

lemma normal_inject: "normal a \<Longrightarrow> normal b \<Longrightarrow> nanos a = nanos b \<longleftrightarrow> a = b"
  by (metis less_nanos less_irrefl neq_iff)

section \<open>The calendar of the C library\<close>

text \<open>\<open>struct tm\<close> with the year counted from 1900, \<open>gmtime_r\<close>, and \<open>mktime\<close> in the zone UTC for fields
  in their ranges.\<close>

record tm =
  tm_year :: int
  tm_mon :: int
  tm_mday :: int
  tm_hour :: int
  tm_min :: int
  tm_sec :: int

definition leap :: "int \<Rightarrow> bool" where
  "leap y \<longleftrightarrow> y mod 4 = 0 \<and> (y mod 100 \<noteq> 0 \<or> y mod 400 = 0)"

definition month_length :: "int \<Rightarrow> int \<Rightarrow> int" where
  "month_length y m =
     (if m = 1 then if leap y then 29 else 28
      else if m \<in> {0, 2, 4, 6, 7, 9, 11} then 31 else 30)"

text \<open>Days from 1970 to the beginning of a year, and of a year to the beginning of a month.\<close>

definition year_start :: "int \<Rightarrow> int" where
  "year_start y = 365 * (y - 1970) + ((y - 1) div 4 - 492) - ((y - 1) div 100 - 19) + ((y - 1) div 400 - 4)"

fun month_start :: "int \<Rightarrow> nat \<Rightarrow> int" where
  "month_start y 0 = 0"
| "month_start y (Suc m) = month_start y m + month_length y (int m)"

function year_of :: "int \<Rightarrow> int \<Rightarrow> int" where
  "year_of d y =
     (if d < year_start y then year_of d (y - 1)
      else if year_start (y + 1) \<le> d then year_of d (y + 1) else y)"
  by pat_completeness auto

lemma div_pred: "0 < k \<Longrightarrow> y div k = (y - 1) div k + (if k dvd y then 1 else (0 :: int))"
proof -
  assume k: "0 < k"
  have y: "(y - 1) div k = y div k + (y mod k - 1) div k"
    using div_mult_self4 [of k "y div k" "y mod k - 1"] k by (simp add: algebra_simps)
  have "(y mod k - 1) div k = (if k dvd y then - 1 else 0)"
  proof (cases "k dvd y")
    case True
    then show ?thesis using k by (simp add: div_eq_minus1)
  next
    case False
    then have "y mod k \<noteq> 0" by (simp add: dvd_eq_mod_eq_0)
    then have "0 < y mod k" using pos_mod_sign [OF k, of y] by simp
    then show ?thesis using False pos_mod_bound [OF k, of y] by (simp add: div_pos_pos_trivial)
  qed
  then show ?thesis using y by simp
qed

lemma year_start_Suc: "year_start (y + 1) = year_start y + (if leap y then 366 else 365)"
proof -
  have "(100 :: int) dvd 400" "(4 :: int) dvd 100" by (simp_all add: dvd_eq_mod_eq_0)
  then have dvds: "400 dvd y \<longrightarrow> 100 dvd y" "100 dvd y \<longrightarrow> 4 dvd y"
    using dvd_trans by blast+
  have count: "(c \<longrightarrow> b) \<Longrightarrow> (b \<longrightarrow> a) \<Longrightarrow> (if a \<and> (\<not> b \<or> c) then 366 else 365) =
      365 + (if a then 1 else 0) - (if b then 1 else 0) + (if c then 1 else (0 :: int))" for a b c
    by (cases a; cases b; cases c; simp)
  have l: "(if leap y then 366 else 365) =
      365 + (if 4 dvd y then 1 else 0) - (if 100 dvd y then 1 else 0) + (if 400 dvd y then 1 else (0 :: int))"
    unfolding leap_def mod_eq_0_iff_dvd using dvds by (rule count)
  have "year_start (y + 1) - year_start y =
      365 + (y div 4 - (y - 1) div 4) - (y div 100 - (y - 1) div 100) + (y div 400 - (y - 1) div 400)"
    by (simp add: year_start_def algebra_simps)
  also have "\<dots> = 365 + (if 4 dvd y then 1 else 0) - (if 100 dvd y then 1 else 0) + (if 400 dvd y then 1 else 0)"
  proof -
    have d: "y div k - (y - 1) div k = (if k dvd y then 1 else 0)" if "0 < k" for k
      using div_pred [OF that, of y] by linarith
    show ?thesis by (simp only: d [of 4] d [of 100] d [of 400] zero_less_numeral)
  qed
  finally show ?thesis unfolding l by linarith
qed

lemma year_start_mono: "y \<le> z \<Longrightarrow> year_start y \<le> year_start z"
proof (induction z rule: int_ge_induct)
  case (step z)
  then show ?case using year_start_Suc [of z] by (simp split: if_splits)
qed simp

termination year_of
proof (relation "measure (\<lambda>(d, y). if d < year_start y then nat (year_start y - d)
      else if year_start (y + 1) \<le> d then nat (d - year_start (y + 1)) + 1 else 0)")
  fix d y assume "d < year_start y"
  then show "((d, y - 1), d, y) \<in> measure (\<lambda>(d, y). if d < year_start y then nat (year_start y - d)
      else if year_start (y + 1) \<le> d then nat (d - year_start (y + 1)) + 1 else 0)"
    using year_start_Suc [of "y - 1"] by (simp split: if_splits)
next
  fix d y assume "\<not> d < year_start y" "year_start (y + 1) \<le> d"
  then show "((d, y + 1), d, y) \<in> measure (\<lambda>(d, y). if d < year_start y then nat (year_start y - d)
      else if year_start (y + 1) \<le> d then nat (d - year_start (y + 1)) + 1 else 0)"
    using year_start_Suc [of "y + 1"] by (simp add: add.assoc split: if_splits)
qed simp

declare year_of.simps [simp del]

lemma year_of_bounds: "year_start (year_of d y) \<le> d \<and> d < year_start (year_of d y + 1)"
  by (induction d y rule: year_of.induct) (subst year_of.simps, auto simp: year_of.simps)

lemma year_of_unique:
  assumes "year_start z \<le> d" "d < year_start (z + 1)"
  shows "year_of d y = z"
proof (rule ccontr)
  assume "year_of d y \<noteq> z"
  then consider "z + 1 \<le> year_of d y" | "year_of d y + 1 \<le> z" by linarith
  then show False
    using year_of_bounds [of d y] assms year_start_mono [of "z + 1" "year_of d y"]
      year_start_mono [of "year_of d y + 1" z] by cases auto
qed

text \<open>The month in which the \<open>d\<close>-th day of a year lies.\<close>

fun month_of :: "int \<Rightarrow> int \<Rightarrow> nat \<Rightarrow> nat" where
  "month_of y d 0 = 0"
| "month_of y d (Suc m) = (if month_start y (Suc m) \<le> d then Suc m else month_of y d m)"

definition gmtime :: "int \<Rightarrow> tm" where
  "gmtime s =
     (let d = s div 86400; r = s mod 86400;
          y = year_of d (1970 + d div 365);
          yd = d - year_start y;
          m = month_of y yd 11
      in \<lparr> tm_year = y - 1900, tm_mon = int m, tm_mday = yd - month_start y m + 1,
           tm_hour = r div 3600, tm_min = r mod 3600 div 60, tm_sec = r mod 60 \<rparr>)"

definition mktime :: "tm \<Rightarrow> int" where
  "mktime t =
     (let y = tm_year t + 1900
      in (year_start y + month_start y (nat (tm_mon t)) + tm_mday t - 1) * 86400 +
           tm_hour t * 3600 + tm_min t * 60 + tm_sec t)"

text \<open>The fields that \<open>gmtime\<close> produces.\<close>

definition valid_tm :: "tm \<Rightarrow> bool" where
  "valid_tm t \<longleftrightarrow>
     0 \<le> tm_mon t \<and> tm_mon t < 12 \<and> 1 \<le> tm_mday t \<and> tm_mday t \<le> month_length (tm_year t + 1900) (tm_mon t) \<and>
     0 \<le> tm_hour t \<and> tm_hour t < 24 \<and> 0 \<le> tm_min t \<and> tm_min t < 60 \<and> 0 \<le> tm_sec t \<and> tm_sec t < 60"

lemma month_length_bounds: "28 \<le> month_length y m \<and> month_length y m \<le> 31"
  by (simp add: month_length_def)

lemma month_start_mono: "m \<le> n \<Longrightarrow> month_start y m \<le> month_start y n"
proof (induction n rule: dec_induct)
  case (step n)
  then show ?case using month_length_bounds [of y "int n"] by simp
qed simp

lemma month_start_12: "month_start y 12 = (if leap y then 366 else 365)"
  by (simp add: numeral_eq_Suc month_length_def)

lemma month_of_le: "month_of y d m \<le> m"
  by (induction m) (auto intro: le_SucI)

lemma month_of_lower: "0 \<le> d \<Longrightarrow> month_start y (month_of y d m) \<le> d"
  by (induction m) auto

lemma month_of_upper: "d < month_start y (Suc m) \<Longrightarrow> d < month_start y (Suc (month_of y d m))"
  by (induction m) (auto split: if_splits)

lemma month_of_unique:
  assumes "month_start y k \<le> d" "d < month_start y (Suc k)" "k \<le> m"
  shows "month_of y d m = k"
  using assms(3)
proof (induction m rule: dec_induct)
  case base
  then show ?case using assms(1) by (cases k) auto
next
  case (step m)
  then show ?case using assms(2) month_start_mono [of "Suc k" "Suc m" y] by auto
qed

lemma mod_div_bounds:
  assumes "0 \<le> (r :: int)" "r < 86400"
  shows "0 \<le> r div 3600 \<and> r div 3600 < 24 \<and> 0 \<le> r mod 3600 div 60 \<and> r mod 3600 div 60 < 60 \<and>
     0 \<le> r mod 60 \<and> r mod 60 < 60 \<and> r div 3600 * 3600 + r mod 3600 div 60 * 60 + r mod 60 = r"
proof -
  define q u where "q = r div 3600" and "u = r mod 3600"
  define v w where "v = u div 60" and "w = u mod 60"
  have w: "r mod 60 = w" by (simp add: w_def u_def mod_mod_cancel)
  have "r = q * 3600 + u" "0 \<le> u" "u < 3600" by (simp_all add: q_def u_def)
  moreover have "u = v * 60 + w" "0 \<le> w" "w < 60" by (simp_all add: v_def w_def)
  moreover have "0 \<le> q" "0 \<le> v"
    using assms(1) \<open>0 \<le> u\<close> by (simp_all add: q_def v_def pos_imp_zdiv_nonneg_iff)
  ultimately show ?thesis
    using assms unfolding w q_def [symmetric] u_def [symmetric] v_def [symmetric] by linarith
qed

lemma gmtime_facts: "valid_tm (gmtime s) \<and> mktime (gmtime s) = s"
proof -
  define d where "d = s div 86400"
  define r where "r = s mod 86400"
  define y where "y = year_of d (1970 + d div 365)"
  define yd where "yd = d - year_start y"
  define m where "m = month_of y yd 11"
  have t: "gmtime s = \<lparr> tm_year = y - 1900, tm_mon = int m, tm_mday = yd - month_start y m + 1,
      tm_hour = r div 3600, tm_min = r mod 3600 div 60, tm_sec = r mod 60 \<rparr>"
    by (simp add: gmtime_def Let_def d_def r_def y_def yd_def m_def)
  have "0 \<le> r" "r < 86400" by (simp_all add: r_def)
  note rb = mod_div_bounds [OF this]
  have yd: "0 \<le> yd" "yd < month_start y 12"
    using year_of_bounds [of d "1970 + d div 365"] year_start_Suc [of y]
    by (simp_all add: yd_def month_start_12 flip: y_def)
  have m: "m < 12" "month_start y m \<le> yd" "yd < month_start y (Suc m)"
    using month_of_le [of y yd 11] month_of_lower [OF yd(1), of y 11] month_of_upper [of yd y 11] yd(2)
    by (simp_all add: m_def)
  have "valid_tm (gmtime s)" using m rb by (simp add: valid_tm_def t)
  moreover have "mktime (gmtime s) = d * 86400 + r"
    using rb by (simp add: mktime_def t yd_def algebra_simps)
  ultimately show ?thesis by (simp add: d_def r_def)
qed

lemma seconds_split:
  assumes "0 \<le> h" "h < 24" "0 \<le> mi" "mi < 60" "0 \<le> se" "se < (60 :: int)"
  defines "r \<equiv> h * 3600 + mi * 60 + se"
  shows "(d * 86400 + r) div 86400 = d" "r mod 86400 = r"
    "r div 3600 = h" "r mod 3600 div 60 = mi" "r mod 60 = se"
proof -
  have r: "0 \<le> r" "r < 86400" using assms by simp_all
  then show "(d * 86400 + r) div 86400 = d" "r mod 86400 = r" by simp_all
  have u: "0 \<le> mi * 60 + se" "mi * 60 + se < 3600" using assms by simp_all
  then show "r div 3600 = h"
    by (intro int_div_pos_eq [of _ _ _ "mi * 60 + se"]) (simp_all add: r_def)
  have "r mod 3600 = mi * 60 + se"
    using u by (intro int_mod_pos_eq [of _ _ h]) (simp_all add: r_def)
  moreover have "(mi * 60 + se) div 60 = mi"
    using assms by (intro int_div_pos_eq [of _ _ _ se]) simp_all
  ultimately show "r mod 3600 div 60 = mi" by simp
  show "r mod 60 = se"
    using assms by (intro int_mod_pos_eq [of _ _ "h * 60 + mi"]) (simp_all add: r_def)
qed

lemma gmtime_mktime: "valid_tm t \<Longrightarrow> gmtime (mktime t) = t"
proof -
  assume v: "valid_tm t"
  define y where "y = tm_year t + 1900"
  define m where "m = nat (tm_mon t)"
  define d where "d = year_start y + month_start y m + tm_mday t - 1"
  have m: "int m = tm_mon t" "m < 12" using v by (auto simp: m_def valid_tm_def)
  have md: "1 \<le> tm_mday t" "tm_mday t \<le> month_length y (int m)" using v by (auto simp: valid_tm_def y_def m)
  have "month_start y (Suc m) \<le> month_start y 12" using m by (intro month_start_mono) simp
  moreover have "0 \<le> month_start y m" using month_start_mono [of 0 m y] by simp
  ultimately have "year_start y \<le> d" "d < year_start (y + 1)"
    using md year_start_Suc [of y] by (simp_all add: d_def month_start_12)
  then have y: "year_of d z = y" for z by (rule year_of_unique)
  have mo: "month_of y (d - year_start y) 11 = m"
    using md m by (intro month_of_unique) (simp_all add: d_def)
  have ms: "mktime t = d * 86400 + (tm_hour t * 3600 + tm_min t * 60 + tm_sec t)"
    by (simp add: mktime_def d_def y_def m_def Let_def)
  have "0 \<le> tm_hour t" "tm_hour t < 24" "0 \<le> tm_min t" "tm_min t < 60" "0 \<le> tm_sec t" "tm_sec t < 60"
    using v by (simp_all add: valid_tm_def)
  note sp = seconds_split [OF this]
  show ?thesis
    using m by (simp add: gmtime_def ms sp y mo Let_def) (simp add: d_def y_def)
qed

section \<open>Adding months and years\<close>

definition is_leap_year :: "int \<Rightarrow> bool" where
  "is_leap_year full_year \<longleftrightarrow>
     full_year smod 4 = 0 \<and> (full_year smod 100 \<noteq> 0 \<or> full_year smod 400 = 0)"

definition epoc_time_plus_n_months :: "int \<Rightarrow> int \<Rightarrow> int" where
  "epoc_time_plus_n_months epoc_seconds num_months =
     (let t = gmtime epoc_seconds;
          months = tm_year t * 12 + tm_mon t + num_months;
          year = months sdiv 12;
          month = months smod 12;
          ndays_in_month =
            (if month = 1 then
               let full_year = year + 1900 in if is_leap_year full_year then 29 else 28
             else if month \<in> {0, 2, 4, 6, 7, 9, 11} then 31
             else 30);
          t = t\<lparr>tm_mon := month, tm_year := year\<rparr>;
          t = (if tm_mday t > ndays_in_month then t\<lparr>tm_mday := ndays_in_month\<rparr> else t)
      in mktime t)"

definition epoc_time_plus_n_years :: "int \<Rightarrow> int \<Rightarrow> int" where
  "epoc_time_plus_n_years epoc_seconds num_years =
     (let t = gmtime epoc_seconds;
          t = t\<lparr>tm_year := tm_year t + num_years\<rparr>;
          t = (if tm_mon t = 0 \<or> tm_mday t = 29 then
                 let full_year = tm_year t + 1900
                 in if \<not> is_leap_year full_year then t\<lparr>tm_mday := 28\<rparr> else t
               else t)
      in mktime t)"

lemma smod_eq_0: "0 < k \<Longrightarrow> (a :: int) smod k = 0 \<longleftrightarrow> a mod k = 0"
  by (auto simp: signed_modulo_int_def sgn_if mod_eq_0_iff_dvd)

lemma is_leap_year_eq: "is_leap_year y = leap y"
  by (simp add: is_leap_year_def leap_def smod_eq_0)

lemma sdiv_smod_nonneg: "0 \<le> a \<Longrightarrow> a sdiv 12 = a div 12 \<and> a smod 12 = (a :: int) mod 12"
  by (simp add: signed_divide_int_def signed_modulo_int_def sgn_if)

lemma code_days:
  "(if m = 1 then if is_leap_year (y + 1900) then 29 else 28
    else if m \<in> {0, 2, 4, 6, 7, 9, 11} then 31 else 30) = month_length (y + 1900) m"
  by (simp only: month_length_def is_leap_year_eq)

lemma clamp_day:
  "(if k < tm_mday (t\<lparr>tm_mon := m, tm_year := y\<rparr>) then t\<lparr>tm_mon := m, tm_year := y, tm_mday := k\<rparr>
    else t\<lparr>tm_mon := m, tm_year := y\<rparr>) = t\<lparr>tm_year := y, tm_mon := m, tm_mday := min (tm_mday t) k\<rparr>"
  by (cases t) simp

lemma set_day:
  "(if c then t\<lparr>tm_year := y, tm_mday := k\<rparr> else t\<lparr>tm_year := y\<rparr>) =
    t\<lparr>tm_year := y, tm_mday := if c then k else tm_mday t\<rparr>"
  by (cases t) simp

section \<open>Properties\<close>

text \<open>
  on normal times (nanoseconds below one second) the order is the order of the instants,
  subtraction is exact and normal, and addition is exact and normal except when the nanoseconds add
  up to exactly one second: then they are left at 1000000000.
\<close>

theorem timespec_arithmetic:
  assumes "normal a" "normal b"
  shows "(a < b \<longleftrightarrow> nanos a < nanos b) \<and> (a = b \<longleftrightarrow> nanos a = nanos b) \<and>
    normal (timespec_minus a b) \<and> nanos (timespec_minus a b) = nanos a - nanos b \<and>
    nanos (timespec_plus a b) = nanos a + nanos b \<and>
    (normal (timespec_plus a b) \<longleftrightarrow> tv_nsec a + tv_nsec b \<noteq> 1000000000) \<and>
    normal (timespec_plus_seconds a n) \<and> nanos (timespec_plus_seconds a n) = nanos a + n * 1000000000 \<and>
    normal (timespec_minus_seconds a n) \<and> nanos (timespec_minus_seconds a n) = nanos a - n * 1000000000"
  using assms
  by (simp add: less_nanos normal_inject normal_minus nanos_minus nanos_plus normal_plus)
    (simp add: timespec_plus_seconds_def timespec_minus_seconds_def normal_def nanos_def algebra_simps)

lemma timespec_arithmetic_witness:
  "\<not> normal (timespec_plus (Timespec 1 400000000) (Timespec 2 600000000))"
  using timespec_arithmetic [of "Timespec 1 400000000" "Timespec 2 600000000" 0]
  by (simp add: normal_def)

text \<open>
  adding months keeps the time of the day, moves the calendar month by exactly that number
  of months and keeps the day of the month, or takes the last day of a month that is shorter, leap years
  included; the result is a date of the calendar (for dates from 1900 on).
\<close>

theorem plus_n_months_calendar:
  assumes "0 \<le> tm_year (gmtime s) * 12 + tm_mon (gmtime s) + n"
  shows "gmtime (epoc_time_plus_n_months s n) =
    (let t = gmtime s; months = tm_year t * 12 + tm_mon t + n
     in t\<lparr>tm_year := months div 12, tm_mon := months mod 12,
          tm_mday := min (tm_mday t) (month_length (months div 12 + 1900) (months mod 12))\<rparr>)"
proof -
  define t where "t = gmtime s"
  define months where "months = tm_year t * 12 + tm_mon t + n"
  have v: "valid_tm t" using gmtime_facts [of s] by (simp add: t_def)
  have m: "months sdiv 12 = months div 12" "months smod 12 = months mod 12" "0 \<le> months mod 12" "months mod 12 < 12"
    using sdiv_smod_nonneg [of months] assms by (simp_all add: months_def t_def)
  let ?t' = "t\<lparr>tm_year := months div 12, tm_mon := months mod 12,
          tm_mday := min (tm_mday t) (month_length (months div 12 + 1900) (months mod 12))\<rparr>"
  have "epoc_time_plus_n_months s n = mktime ?t'"
    unfolding epoc_time_plus_n_months_def Let_def t_def [symmetric] months_def [symmetric] m code_days
    by (simp only: clamp_day)
  moreover have "valid_tm ?t'"
    using v m month_length_bounds [of "months div 12 + 1900" "months mod 12"]
    by (auto simp: valid_tm_def)
  ultimately show ?thesis by (simp add: gmtime_mktime Let_def flip: t_def months_def)
qed

lemma plus_n_months_calendar_witness:
  "tm_mday (gmtime (epoc_time_plus_n_months 1706659200 1)) = 29"
proof -
  let ?t = "\<lparr> tm_year = 124, tm_mon = 0, tm_mday = 31, tm_hour = 0, tm_min = 0, tm_sec = 0 \<rparr>"
  have "mktime ?t = 1706659200" by (simp add: mktime_def year_start_def)
  moreover have "valid_tm ?t" by (simp add: valid_tm_def month_length_def)
  ultimately have t: "gmtime 1706659200 = ?t" using gmtime_mktime [of ?t] by simp
  show ?thesis
    using plus_n_months_calendar [of 1706659200 1] unfolding t Let_def
    by (simp add: month_length_def leap_def)
qed

text \<open>
  adding years keeps the time of the day and the month, and moves the year by exactly that
  number; but the day becomes the 28th, if the target year is not a leap year, for every day of January
  and for every 29th of any month, and not only for the 29th of February.
\<close>

theorem plus_n_years_calendar:
  "gmtime (epoc_time_plus_n_years s n) =
    (let t = gmtime s
     in t\<lparr>tm_year := tm_year t + n,
          tm_mday := if (tm_mon t = 0 \<or> tm_mday t = 29) \<and> \<not> leap (tm_year t + n + 1900) then 28
                     else tm_mday t\<rparr>)"
proof -
  define t where "t = gmtime s"
  have v: "valid_tm t" using gmtime_facts [of s] by (simp add: t_def)
  let ?t' = "t\<lparr>tm_year := tm_year t + n,
          tm_mday := if (tm_mon t = 0 \<or> tm_mday t = 29) \<and> \<not> leap (tm_year t + n + 1900) then 28
                     else tm_mday t\<rparr>"
  have "epoc_time_plus_n_years s n = mktime ?t'"
    unfolding epoc_time_plus_n_years_def Let_def t_def [symmetric] is_leap_year_eq
    by (simp only: set_day [symmetric]) simp
  moreover have "tm_mday ?t' \<le> month_length (tm_year ?t' + 1900) (tm_mon ?t')"
  proof (cases "tm_mon t = 1")
    case True
    then have "tm_mday t \<le> 29" using v by (simp add: valid_tm_def month_length_def split: if_splits)
    then show ?thesis using True by (simp add: month_length_def)
  next
    case False
    have "month_length (tm_year ?t' + 1900) (tm_mon t) = month_length (tm_year t + 1900) (tm_mon t)"
      using False by (simp only: month_length_def if_False)
    then show ?thesis
      using v month_length_bounds [of "tm_year t + 1900" "tm_mon t"] by (simp add: valid_tm_def)
  qed
  then have "valid_tm ?t'"
    using v by (simp add: valid_tm_def)
  ultimately show ?thesis by (simp add: gmtime_mktime Let_def flip: t_def)
qed

end
