(* ===== verification/Dtls.thy ===== *)
theory Dtls
  imports Sctp Stun Time_Utils
begin

text \<open>
  DTLS below SCTP: the two BIOs of \<open>src/cpp/dtls_bio.cpp\<close> (a queue of received datagrams, and a
  socket that is only written) and the associations of \<open>src/cpp/dtls_dispatch.cpp\<close>, one per peer
  address, with the sweep that drops idle ones.  OpenSSL's functions are parameters, collected
  in the record \<open>ssl_api\<close>.
\<close>

section \<open>The datagram queue\<close>

record simple_queue_io =
  buffs :: "byte list list"
  q_addr :: "byte list"
  q_addr_len :: nat

definition simple_queue_read :: "simple_queue_io option \<Rightarrow> nat \<Rightarrow> int \<times> byte list \<times> simple_queue_io option" where
  "simple_queue_read b outl =
     (case b of
        None \<Rightarrow> (- 1, [], b)
      | Some ioq \<Rightarrow>
          (case buffs ioq of
             [] \<Rightarrow> (- 1, [], b)
           | f # rest \<Rightarrow>
               let sz = length f;
                   sz = (if sz > outl then outl else sz)
               in (int sz, take sz f, Some (ioq\<lparr>buffs := rest\<rparr>))))"

definition simple_queue_write :: "simple_queue_io option \<Rightarrow> byte list \<Rightarrow> int \<times> simple_queue_io option" where
  "simple_queue_write b inp =
     (case b of
        None \<Rightarrow> (- 1, b)
      | Some ioq \<Rightarrow> (int (length inp), Some (ioq\<lparr>buffs := buffs ioq @ [inp]\<rparr>)))"

text \<open>\<open>simple_queue_puts\<close> writes the C string; \<open>simple_queue_gets\<close> reads one byte at a time into at
  most \<open>size - 1\<close> bytes, the result is the content of the buffer and its \<open>strlen\<close>.\<close>

definition simple_queue_puts :: "simple_queue_io option \<Rightarrow> byte list \<Rightarrow> int \<times> simple_queue_io option" where
  "simple_queue_puts b str = simple_queue_write b (takeWhile (\<lambda>c. c \<noteq> 0) str)"

fun gets_loop :: "nat \<Rightarrow> simple_queue_io option \<Rightarrow> byte list \<Rightarrow> byte list \<times> simple_queue_io option" where
  "gets_loop 0 b buf = (buf, b)"
| "gets_loop (Suc n) b buf =
     (case simple_queue_read b 1 of
        (ret, out, b) \<Rightarrow>
          if ret > 0 \<and> out \<noteq> [10] then gets_loop n b (buf @ out) else (buf, b))"

definition simple_queue_gets ::
  "simple_queue_io option \<Rightarrow> nat \<Rightarrow> nat \<times> byte list \<times> simple_queue_io option"
where
  "simple_queue_gets b sz =
     (case gets_loop (sz - 1) b [] of
        (buf, b) \<Rightarrow> (length (takeWhile (\<lambda>c. c \<noteq> 0) buf), buf @ [0], b))"

text \<open>The control commands, by their OpenSSL names; the ones that are only logged are \<open>Ctrl_Log\<close>.\<close>

datatype bio_ctrl =
  Ctrl_Log | Ctrl_Pending | Ctrl_Mtu_Overhead | Ctrl_Query_Mtu | Ctrl_Set_Mtu int |
  Ctrl_Ktls_Send | Ctrl_Ktls_Recv | Ctrl_Set_Peer "byte list" | Ctrl_Get_Peer |
  Ctrl_Fallback_Mtu | Ctrl_Unknown

definition simple_queue_ctrl :: "simple_queue_io \<Rightarrow> bio_ctrl \<Rightarrow> int \<times> byte list \<times> simple_queue_io" where
  "simple_queue_ctrl ioq cmd =
     (case cmd of
        Ctrl_Log \<Rightarrow> (1, [], ioq)
      | Ctrl_Pending \<Rightarrow> (0, [], ioq)
      | Ctrl_Mtu_Overhead \<Rightarrow> (28, [], ioq)
      | Ctrl_Query_Mtu \<Rightarrow> (1400, [], ioq)
      | Ctrl_Set_Mtu num \<Rightarrow> (num, [], ioq)
      | Ctrl_Ktls_Send \<Rightarrow> (0, [], ioq)
      | Ctrl_Ktls_Recv \<Rightarrow> (0, [], ioq)
      | Ctrl_Set_Peer p \<Rightarrow>
          (1, [], ioq\<lparr>q_addr := take (q_addr_len ioq) p @ drop (q_addr_len ioq) (q_addr ioq)\<rparr>)
      | Ctrl_Get_Peer \<Rightarrow> (int (q_addr_len ioq), take (q_addr_len ioq) (q_addr ioq), ioq)
      | Ctrl_Fallback_Mtu \<Rightarrow> (0, [], ioq)
      | Ctrl_Unknown \<Rightarrow> (0, [], ioq))"

text \<open>The socket BIO: its address in memory starts with the family (little endian), and
  writing hands the datagram to \<open>sendto\<close>.\<close>

record upd_sock_io =
  u_sock :: int
  u_family :: u16
  u_addr :: "byte list"
  u_addr_len :: nat

definition AF_INET :: u16 where "AF_INET = 2"
definition AF_INET6 :: u16 where "AF_INET6 = 10"

definition udp_sock_read :: "nat \<Rightarrow> int" where
  "udp_sock_read outl = - 1"

definition udp_sock_write ::
  "(int \<Rightarrow> byte list \<Rightarrow> byte list \<Rightarrow> int) \<Rightarrow> upd_sock_io option \<Rightarrow> byte list \<Rightarrow> int"
where
  "udp_sock_write sendto b inp =
     (case b of None \<Rightarrow> - 1 | Some ioq \<Rightarrow> sendto (u_sock ioq) inp (take (u_addr_len ioq) (u_addr ioq)))"

definition udp_sock_ctrl :: "upd_sock_io \<Rightarrow> bio_ctrl \<Rightarrow> int \<times> byte list \<times> upd_sock_io" where
  "udp_sock_ctrl ioq cmd =
     (case cmd of
        Ctrl_Log \<Rightarrow> (1, [], ioq)
      | Ctrl_Pending \<Rightarrow> (0, [], ioq)
      | Ctrl_Mtu_Overhead \<Rightarrow> (28, [], ioq)
      | Ctrl_Query_Mtu \<Rightarrow> (1400, [], ioq)
      | Ctrl_Set_Mtu num \<Rightarrow> (num, [], ioq)
      | Ctrl_Ktls_Send \<Rightarrow> (0, [], ioq)
      | Ctrl_Ktls_Recv \<Rightarrow> (0, [], ioq)
      | Ctrl_Set_Peer p \<Rightarrow>
          (1, [], ioq\<lparr>u_addr := take (u_addr_len ioq) p @ drop (u_addr_len ioq) (u_addr ioq)\<rparr>)
      | Ctrl_Get_Peer \<Rightarrow> (int (u_addr_len ioq), take (u_addr_len ioq) (u_addr ioq), ioq)
      | Ctrl_Fallback_Mtu \<Rightarrow>
          (if u_family ioq = AF_INET6 \<and> take 12 (u_addr ioq) \<noteq> ipv4_in_6_header
           then 1280 - 48 else 576 - 28, [], ioq)
      | Ctrl_Unknown \<Rightarrow> (0, [], ioq))"

text \<open>The constructors copy the socket address and its length for its family.  \<close>

definition addr_len_of :: "u16 \<Rightarrow> nat" where
  "addr_len_of family = (if family = AF_INET then 16 else 28)"

definition BIO_new_simple_queue :: "u16 \<Rightarrow> byte list \<Rightarrow> simple_queue_io option" where
  "BIO_new_simple_queue family addr =
     Some \<lparr> buffs = [], q_addr = addr, q_addr_len = addr_len_of family \<rparr>"

definition BIO_new_udp_sock :: "int \<Rightarrow> u16 \<Rightarrow> byte list \<Rightarrow> upd_sock_io option" where
  "BIO_new_udp_sock fd family addr =
     Some \<lparr> u_sock = fd, u_family = family, u_addr = addr, u_addr_len = addr_len_of family \<rparr>"

definition udp_sock_puts ::
  "(int \<Rightarrow> byte list \<Rightarrow> byte list \<Rightarrow> int) \<Rightarrow> upd_sock_io option \<Rightarrow> byte list \<Rightarrow> int"
where
  "udp_sock_puts sendto b str = udp_sock_write sendto b (takeWhile (\<lambda>c. c \<noteq> 0) str)"

text \<open>
  The interface of a datagram transport, as the TLS layer uses it: what is written can be read
  back, one datagram per read, in order.
\<close>

locale datagram_queue =
  fixes put :: "'q \<Rightarrow> byte list \<Rightarrow> 'q"
    and get :: "'q \<Rightarrow> nat \<Rightarrow> (byte list \<times> 'q) option"
    and content :: "'q \<Rightarrow> byte list list"
  assumes put_content: "content (put q d) = content q @ [d]"
    and get_None: "get q n = None \<longleftrightarrow> content q = []"
    and get_Some: "get q n = Some (d, q') \<Longrightarrow> \<exists>f. content q = f # content q' \<and> d = take n f"
begin

fun get_all :: "nat \<Rightarrow> nat \<Rightarrow> 'q \<Rightarrow> byte list list \<times> 'q" where
  "get_all n 0 q = ([], q)"
| "get_all n (Suc k) q = (case get q n of None \<Rightarrow> ([], q)
     | Some (d, q) \<Rightarrow> (case get_all n k q of (ds, q) \<Rightarrow> (d # ds, q)))"

lemma get_all_content: "fst (get_all n (length (content q)) q) = map (take n) (content q)"
proof (induction "length (content q)" arbitrary: q)
  case 0
  then show ?case by simp
next
  case (Suc k)
  then obtain d q' where g: "get q n = Some (d, q')"
    using get_None [of q n] by (cases "get q n") auto
  then obtain f where f: "content q = f # content q'" "d = take n f" using get_Some by blast
  then have "k = length (content q')" using Suc(2) by simp
  then have "fst (get_all n k q') = map (take n) (content q')" using Suc(1) by blast
  then show ?case
    using f g \<open>k = length (content q')\<close> by (simp split: prod.split) (metis fst_conv)
qed

lemma put_all_content: "content (foldl put q ds) = content q @ ds"
  by (induction ds arbitrary: q) (simp_all add: put_content)

lemma fifo:
  assumes "content q = []"
  shows "fst (get_all n (length ds) (foldl put q ds)) = map (take n) ds"
  using get_all_content [of n "foldl put q ds"] assms by (simp add: put_all_content)

end

definition queue_put :: "simple_queue_io \<Rightarrow> byte list \<Rightarrow> simple_queue_io" where
  "queue_put q d = the (snd (simple_queue_write (Some q) d))"

definition queue_get :: "simple_queue_io \<Rightarrow> nat \<Rightarrow> (byte list \<times> simple_queue_io) option" where
  "queue_get q n = (case simple_queue_read (Some q) n of
     (ret, d, b) \<Rightarrow> if ret < 0 then None else Some (d, the b))"

interpretation dtls_queue: datagram_queue queue_put queue_get buffs
proof
  show "buffs (queue_put q d) = buffs q @ [d]" for q d
    by (simp add: queue_put_def simple_queue_write_def)
  show "queue_get q n = None \<longleftrightarrow> buffs q = []" for q n
    by (simp add: queue_get_def simple_queue_read_def Let_def split: list.split)
  show "\<exists>f. buffs q = f # buffs q' \<and> d = take n f" if "queue_get q n = Some (d, q')" for q n d q'
    using that by (auto simp: queue_get_def simple_queue_read_def Let_def split: list.splits if_splits)
qed

section \<open>Associations\<close>

text \<open>
  The calls into OpenSSL, on the state \<open>'ssl\<close> of one connection.  \<open>api_read\<close> returns the
  plaintext of the next record, or \<open>None\<close> where \<open>SSL_read\<close> returns no data.
\<close>

record 'ssl ssl_api =
  api_new :: "sockaddr_storage \<Rightarrow> 'ssl"
  api_has_rbio :: "'ssl \<Rightarrow> bool"
  api_bio_write :: "'ssl \<Rightarrow> byte list \<Rightarrow> 'ssl"
  api_listen :: "'ssl \<Rightarrow> int \<times> 'ssl"
  api_accept :: "'ssl \<Rightarrow> int \<times> 'ssl"
  api_read :: "'ssl \<Rightarrow> nat \<Rightarrow> (byte list \<times> 'ssl) option"
  api_write :: "'ssl \<Rightarrow> byte list \<Rightarrow> 'ssl"

record 'ssl sctp_association =
  ssl :: 'ssl
  listened :: bool
  accepted :: bool
  sctp :: sctp
  last_used_time :: timespec

definition new_association ::
  "'ssl ssl_api \<Rightarrow> sockaddr_storage \<Rightarrow> u16 \<Rightarrow> u16 \<Rightarrow> timespec \<Rightarrow> 'ssl sctp_association"
where
  "new_association api addr lp rp now =
     \<lparr> ssl = api_new api addr, listened = False, accepted = False, sctp = new_sctp lp rp,
       last_used_time = now \<rparr>"

text \<open>The loop that hands every decrypted record to SCTP, whose replies are encrypted: it ends when
  \<open>SSL_read\<close> has no more data.  \<open>None\<close> is a loop that does not end.\<close>

partial_function (option) read_loop ::
  "'ssl ssl_api \<Rightarrow> nat \<Rightarrow> 'ssl sctp_association \<Rightarrow> 'ssl sctp_association option"
where
  "read_loop api n a =
     (case api_read api (ssl a) n of
        None \<Rightarrow> Some a
      | Some (decrypted, s) \<Rightarrow>
          (case recv_msg decrypted (sctp a) of
             None \<Rightarrow> None
           | Some (sc, reply) \<Rightarrow>
               read_loop api n (a\<lparr>ssl := (case reply of None \<Rightarrow> s | Some r \<Rightarrow> api_write api s r),
                                  sctp := sc\<rparr>)))"

definition association_recv_msg ::
  "'ssl ssl_api \<Rightarrow> timespec \<Rightarrow> byte list \<Rightarrow> 'ssl sctp_association \<Rightarrow> 'ssl sctp_association option"
where
  "association_recv_msg api now msg a =
     (let a = a\<lparr>last_used_time := now\<rparr>
      in if \<not> api_has_rbio api (ssl a) then Some a
         else
           let a = a\<lparr>ssl := api_bio_write api (ssl a) msg\<rparr>;
               (ok, a) =
                 (if \<not> listened a then
                    case api_listen api (ssl a) of (ret, s) \<Rightarrow>
                      if ret \<le> 0 then (False, a\<lparr>ssl := s\<rparr>) else (True, a\<lparr>ssl := s, listened := True\<rparr>)
                  else (True, a))
           in if \<not> ok then Some a
              else
                let (ok, a) =
                  (if \<not> accepted a then
                     case api_accept api (ssl a) of (ret, s) \<Rightarrow>
                       if ret \<le> 0 then (False, a\<lparr>ssl := s\<rparr>) else (True, a\<lparr>ssl := s, accepted := True\<rparr>)
                   else (True, a))
                in if \<not> ok then Some a else read_loop api (length msg + 100) a)"

text \<open>The dispatcher: the map from peer addresses to associations and the scheduled sweep, if any.\<close>

record 'ssl dtls_dispatch =
  sctp_associations :: "(sockaddr_storage \<times> 'ssl sctp_association) list"
  sweep_task :: "timespec option"

definition new_dtls :: "'ssl dtls_dispatch" where
  "new_dtls = \<lparr> sctp_associations = [], sweep_task = None \<rparr>"

definition sweep_inactive :: "timespec \<Rightarrow> 'ssl dtls_dispatch \<Rightarrow> 'ssl dtls_dispatch" where
  "sweep_inactive now d = d\<lparr>sweep_task := Some (timespec_plus_seconds now 30)\<rparr>"

text \<open>The task itself, at the time \<open>now\<close>.\<close>

definition run_sweep :: "timespec \<Rightarrow> 'ssl dtls_dispatch \<Rightarrow> 'ssl dtls_dispatch" where
  "run_sweep now d =
     (let as = filter (\<lambda>(k, a). \<not> timespec_plus_seconds (last_used_time a) 30 < now) (sctp_associations d);
          d = d\<lparr>sctp_associations := as, sweep_task := None\<rparr>
      in if 0 < length as then sweep_inactive now d else d)"

definition register_association ::
  "'ssl ssl_api \<Rightarrow> timespec \<Rightarrow> sockaddr_storage \<Rightarrow> u16 \<Rightarrow> u16 \<Rightarrow> 'ssl dtls_dispatch \<Rightarrow> 'ssl dtls_dispatch"
where
  "register_association api now addr lp rp d =
     (case map_of (sctp_associations d) addr of
        None \<Rightarrow>
          let conn = new_association api addr lp rp now;
              d = d\<lparr>sctp_associations := (addr, conn) # sctp_associations d\<rparr>
          in if length (sctp_associations d) = 1 then sweep_inactive now d else d
      | Some _ \<Rightarrow> d)"

definition dtls_recv_msg ::
  "'ssl ssl_api \<Rightarrow> timespec \<Rightarrow> byte list \<Rightarrow> sockaddr_storage \<Rightarrow> 'ssl dtls_dispatch \<Rightarrow> 'ssl dtls_dispatch option"
where
  "dtls_recv_msg api now msg addr d =
     (case map_of (sctp_associations d) addr of
        Some conn \<Rightarrow> do {
          conn \<leftarrow> association_recv_msg api now msg conn;
          Some (d\<lparr>sctp_associations := map (\<lambda>(k, a). (k, if k = addr then conn else a)) (sctp_associations d)\<rparr>) }
      | None \<Rightarrow> Some d)"

section \<open>The read loop ends\<close>

text \<open>
  What the code relies on: every record that \<open>SSL_read\<close> returns comes out of the datagrams that
  were received, so that a measure of the unread input decreases, and \<open>SSL_write\<close> adds no input.
\<close>

definition reads_consume :: "'ssl ssl_api \<Rightarrow> ('ssl \<Rightarrow> nat) \<Rightarrow> bool" where
  "reads_consume api pending \<longleftrightarrow>
     (\<forall>s n d s'. api_read api s n = Some (d, s') \<longrightarrow> pending s' < pending s) \<and>
     (\<forall>s r. pending (api_write api s r) \<le> pending s)"

lemma read_loop_ends:
  assumes "reads_consume api pending"
  shows "read_loop api n a \<noteq> None"
proof (induction "pending (ssl a)" arbitrary: a rule: less_induct)
  case less
  show ?case
  proof (cases "api_read api (ssl a) n")
    case None
    then show ?thesis by (simp add: read_loop.simps)
  next
    case (Some ds)
    obtain d s where ds: "ds = (d, s)" by (cases ds)
    obtain sc reply where rm: "recv_msg d (sctp a) = Some (sc, reply)"
      by (metis recv_msg_eq surj_pair)
    let ?a = "a\<lparr>ssl := (case reply of None \<Rightarrow> s | Some r \<Rightarrow> api_write api s r), sctp := sc\<rparr>"
    have "pending s < pending (ssl a)" using assms Some ds by (auto simp: reads_consume_def)
    moreover have "pending (ssl ?a) \<le> pending s"
      using assms by (auto simp: reads_consume_def split: option.split)
    ultimately have "read_loop api n ?a \<noteq> None" using less [of ?a] by linarith
    then show ?thesis by (simp add: read_loop.simps [of api n a] Some ds rm)
  qed
qed

section \<open>Reachable states\<close>

text \<open>The handshake order of an association, and that SCTP is untouched before its end.\<close>

definition untouched :: "sctp \<Rightarrow> bool" where
  "untouched sc \<longleftrightarrow> (\<exists>lp rp. sc = new_sctp lp rp)"

definition association_inv :: "'ssl sctp_association \<Rightarrow> bool" where
  "association_inv a \<longleftrightarrow> (accepted a \<longrightarrow> listened a) \<and> (\<not> accepted a \<longrightarrow> untouched (sctp a))"

definition dtls_inv :: "'ssl dtls_dispatch \<Rightarrow> bool" where
  "dtls_inv d \<longleftrightarrow> distinct (map fst (sctp_associations d)) \<and>
     (sctp_associations d \<noteq> [] \<longrightarrow> sweep_task d \<noteq> None) \<and>
     (\<forall>(k, a) \<in> set (sctp_associations d). association_inv a)"

inductive dtls_reachable :: "'ssl ssl_api \<Rightarrow> 'ssl dtls_dispatch \<Rightarrow> bool" for api where
  dtls_start: "dtls_reachable api new_dtls"
| dtls_register: "dtls_reachable api d \<Longrightarrow> dtls_reachable api (register_association api now addr lp rp d)"
| dtls_recv: "dtls_reachable api d \<Longrightarrow> dtls_recv_msg api now msg addr d = Some d' \<Longrightarrow> dtls_reachable api d'"
| dtls_sweep: "dtls_reachable api d \<Longrightarrow> sweep_task d = Some t \<Longrightarrow> t \<le> now \<Longrightarrow> dtls_reachable api (run_sweep now d)"

lemma read_loop_flags:
  "read_loop api n a = Some a' \<Longrightarrow> accepted a' = accepted a \<and> listened a' = listened a"
proof (induct rule: read_loop.raw_induct [rotated 1, consumes 1])
  case (1 read_loop n a a')
  show ?case
    using 1(2) by (auto split: option.splits prod.splits dest!: 1(1))
qed

lemma association_recv_inv:
  assumes "association_inv a" "association_recv_msg api now msg a = Some a'"
  shows "association_inv a'"
  using assms
  by (auto simp: association_recv_msg_def association_inv_def Let_def
    split: if_splits prod.splits dest!: read_loop_flags)

lemma register_inv: "dtls_inv d \<Longrightarrow> dtls_inv (register_association api now addr lp rp d)"
  by (auto simp: dtls_inv_def register_association_def sweep_inactive_def new_association_def
    association_inv_def untouched_def map_of_eq_None_iff Let_def split: option.split)

lemma recv_inv:
  assumes "dtls_inv d" "dtls_recv_msg api now msg addr d = Some d'"
  shows "dtls_inv d'"
proof (cases "map_of (sctp_associations d) addr")
  case None
  then show ?thesis using assms by (simp add: dtls_recv_msg_def)
next
  case (Some conn)
  then obtain conn' where c: "association_recv_msg api now msg conn = Some conn'"
      "d' = d\<lparr>sctp_associations := map (\<lambda>(k, a). (k, if k = addr then conn' else a)) (sctp_associations d)\<rparr>"
    using assms(2) by (auto simp: dtls_recv_msg_def bind_Some_iff)
  have "association_inv conn'"
  proof (rule association_recv_inv [OF _ c(1)])
    have "(addr, conn) \<in> set (sctp_associations d)" using Some by (rule map_of_SomeD)
    then show "association_inv conn" using assms(1) unfolding dtls_inv_def by blast
  qed
  moreover have "map fst (map (\<lambda>(k, a). (k, if k = addr then conn' else a)) kvs) = map fst kvs" for kvs
    by (induction kvs) auto
  moreover have "\<forall>(k, a) \<in> set (sctp_associations d). association_inv a"
    using assms(1) by (simp add: dtls_inv_def)
  ultimately have "\<forall>(k, a) \<in> set (sctp_associations d'). association_inv a"
      "map fst (sctp_associations d') = map fst (sctp_associations d)"
    by (auto simp: c(2) split: if_split_asm)
  moreover have "sctp_associations d' = [] \<longleftrightarrow> sctp_associations d = []" "sweep_task d' = sweep_task d"
    by (simp_all add: c(2))
  ultimately show ?thesis using assms(1) by (simp add: dtls_inv_def)
qed

lemma sweep_inv: "dtls_inv d \<Longrightarrow> dtls_inv (run_sweep now d)"
  by (auto simp: dtls_inv_def run_sweep_def sweep_inactive_def Let_def distinct_map_filter)

section \<open>Properties\<close>

text \<open>A concrete TLS layer for the witnesses: every datagram is a record, nothing is encrypted.\<close>

definition plain_api :: "byte list list ssl_api" where
  "plain_api = \<lparr> api_new = (\<lambda>_. []), api_has_rbio = (\<lambda>_. True), api_bio_write = (\<lambda>s m. s @ [m]),
     api_listen = (\<lambda>s. (1, s)), api_accept = (\<lambda>s. (1, s)),
     api_read = (\<lambda>s n. case s of [] \<Rightarrow> None | d # s \<Rightarrow> Some (take n d, s)), api_write = (\<lambda>s r. s) \<rparr>"

lemma plain_api_consumes: "reads_consume plain_api length"
  by (auto simp: reads_consume_def plain_api_def split: list.splits)

definition peer0 :: sockaddr_storage where
  "peer0 = Sockaddr_in [19, 136] [10, 0, 0, 7]"

definition registered0 :: "byte list list dtls_dispatch" where
  "registered0 = register_association plain_api (Timespec 10 0) peer0 5000 5000 new_dtls"

text \<open>
  C40: in every state that the dispatcher reaches by registering peers, receiving datagrams and
  sweeping, a peer address has at most one association, a sweep is scheduled whenever there are
  associations, no association is accepted before it is listened, and before it is accepted its
  SCTP endpoint is still the new one: no datagram reaches SCTP before the DTLS handshake.
\<close>

theorem dtls_reachable_safe:
  "dtls_reachable api d \<Longrightarrow>
     distinct (map fst (sctp_associations d)) \<and>
     (sctp_associations d \<noteq> [] \<longrightarrow> sweep_task d \<noteq> None) \<and>
     (\<forall>(addr, a) \<in> set (sctp_associations d).
        (accepted a \<longrightarrow> listened a) \<and> (\<not> accepted a \<longrightarrow> (\<exists>lp rp. sctp a = new_sctp lp rp)))"
proof -
  assume "dtls_reachable api d"
  then have "dtls_inv d"
  proof induction
    case dtls_start
    then show ?case by (simp add: dtls_inv_def new_dtls_def)
  qed (auto intro: register_inv recv_inv sweep_inv)
  then show ?thesis by (auto simp: dtls_inv_def association_inv_def untouched_def)
qed

theorem dtls_reachable_safe_witness:
  "sctp_associations registered0 = [(peer0, new_association plain_api peer0 5000 5000 (Timespec 10 0))] \<and>
   sweep_task registered0 \<noteq> None"
proof -
  have as: "sctp_associations registered0 =
      [(peer0, new_association plain_api peer0 5000 5000 (Timespec 10 0))]"
    by (simp add: registered0_def register_association_def new_dtls_def sweep_inactive_def)
  have "dtls_reachable plain_api registered0"
    unfolding registered0_def by (intro dtls_reachable.intros)
  from dtls_reachable_safe [OF this] as show ?thesis by simp
qed

text \<open>
  if every record that OpenSSL returns is taken from received input, receiving a datagram
  always ends; a datagram from an address that is not registered changes nothing.
\<close>

theorem dtls_recv_ends:
  assumes "reads_consume api pending"
  shows "\<exists>d'. dtls_recv_msg api now msg addr d = Some d' \<and>
    (map_of (sctp_associations d) addr = None \<longrightarrow> d' = d)"
proof (cases "map_of (sctp_associations d) addr")
  case None
  then show ?thesis by (simp add: dtls_recv_msg_def)
next
  case (Some conn)
  have "association_recv_msg api now msg conn \<noteq> None"
    using read_loop_ends [OF assms] by (simp add: association_recv_msg_def Let_def split: prod.split)
  then show ?thesis using Some by (auto simp: dtls_recv_msg_def)
qed

theorem dtls_recv_ends_witness:
  "\<exists>d'. dtls_recv_msg plain_api (Timespec 11 0) [1, 2, 3] peer0 registered0 = Some d'"
  using dtls_recv_ends [OF plain_api_consumes] by blast

text \<open>
  a sweep keeps exactly the associations that were used within the last thirty seconds, and
  schedules the next sweep thirty seconds later if and only if there are any.
\<close>

theorem sweep_exact:
  assumes "distinct (map fst (sctp_associations d))"
  shows "map_of (sctp_associations (run_sweep now d)) addr =
      (case map_of (sctp_associations d) addr of
         None \<Rightarrow> None
       | Some a \<Rightarrow> if timespec_plus_seconds (last_used_time a) 30 < now then None else Some a) \<and>
    sweep_task (run_sweep now d) =
      (if sctp_associations (run_sweep now d) = [] then None else Some (timespec_plus_seconds now 30))"
proof -
  have f: "map_of (filter (\<lambda>(k, a). \<not> P a) kvs) addr =
      (case map_of kvs addr of None \<Rightarrow> None | Some a \<Rightarrow> if P a then None else Some a)"
    if "distinct (map fst kvs)" for kvs :: "(sockaddr_storage \<times> 'a sctp_association) list" and P
    using that by (induction kvs) (auto simp: map_of_eq_None_iff image_iff split: option.splits)
  have as: "sctp_associations (run_sweep now d) =
      filter (\<lambda>(k, a). \<not> timespec_plus_seconds (last_used_time a) 30 < now) (sctp_associations d)"
    by (simp add: run_sweep_def sweep_inactive_def Let_def)
  have "sweep_task (run_sweep now d) =
      (if sctp_associations (run_sweep now d) = [] then None else Some (timespec_plus_seconds now 30))"
    by (simp add: run_sweep_def sweep_inactive_def Let_def)
  then show ?thesis unfolding as f [OF assms] by blast
qed

theorem sweep_exact_witness:
  "map_of (sctp_associations (run_sweep (Timespec 40 0) registered0)) peer0 \<noteq> None \<and>
   map_of (sctp_associations (run_sweep (Timespec 40 1) registered0)) peer0 = None"
proof -
  have as: "sctp_associations registered0 =
      [(peer0, new_association plain_api peer0 5000 5000 (Timespec 10 0))]"
    by (simp add: registered0_def register_association_def new_dtls_def sweep_inactive_def)
  then have "distinct (map fst (sctp_associations registered0))" by simp
  note sw = sweep_exact [OF this, of _ peer0, THEN conjunct1]
  show ?thesis
    unfolding sw by (simp add: as new_association_def timespec_plus_seconds_def timespec_order)
qed

text \<open>
  the datagrams written into the queue BIO come out in the order in which they went in, one
  per read, each cut to the size of the read; the rest of a longer datagram is lost.
\<close>

theorem queue_bio_fifo:
  "fst (dtls_queue.get_all n (length ds) (foldl queue_put (the (BIO_new_simple_queue family addr)) ds)) =
     map (take n) ds"
  by (rule dtls_queue.fifo) (simp add: BIO_new_simple_queue_def)

text \<open>
  the fallback MTU of the socket BIO is 1232 for every IPv6 socket address, also for one that
  holds a mapped IPv4 address: the code compares the start of the socket address, which is its
  family, with the prefix of mapped addresses.
\<close>

theorem ipv6_fallback_mtu:
  assumes "u_family ioq = AF_INET6" "u_addr ioq = [10, 0] @ port_flow_address"
  shows "udp_sock_ctrl ioq Ctrl_Fallback_Mtu = (1232, [], ioq)"
  using assms by (simp add: udp_sock_ctrl_def ipv4_in_6_header_def)

theorem ipv6_fallback_mtu_witness:
  "fst (udp_sock_ctrl \<lparr> u_sock = 3, u_family = AF_INET6,
      u_addr = [10, 0, 19, 136, 0, 0, 0, 0] @ ipv4_in_6_header @ [10, 0, 0, 7, 0, 0, 0, 0], u_addr_len = 28 \<rparr>
    Ctrl_Fallback_Mtu) = 1232"
  using ipv6_fallback_mtu [of "\<lparr> u_sock = 3, u_family = AF_INET6,
      u_addr = [10, 0, 19, 136, 0, 0, 0, 0] @ ipv4_in_6_header @ [10, 0, 0, 7, 0, 0, 0, 0], u_addr_len = 28 \<rparr>"
    "[19, 136, 0, 0, 0, 0] @ ipv4_in_6_header @ [10, 0, 0, 7, 0, 0, 0, 0]"] by simp

end
