(* ===== verification/Systems.thy ===== *)
theory Systems
  imports Main
begin

text \<open>
  State machines: an inductive invariant holds in every reachable state, and a step by step
  simulation carries over to runs.  The components with a step relation interpret these
  locales on it.
\<close>

locale transition_invariant =
  fixes init :: "'s \<Rightarrow> bool"
    and step :: "'s \<Rightarrow> 's \<Rightarrow> bool"
    and inv :: "'s \<Rightarrow> bool"
  assumes init_inv: "init s \<Longrightarrow> inv s"
    and step_inv: "inv s \<Longrightarrow> step s s' \<Longrightarrow> inv s'"
begin

lemma reachable_inv: "step\<^sup>*\<^sup>* s s' \<Longrightarrow> init s \<Longrightarrow> inv s'"
  by (induction rule: rtranclp_induct) (auto intro: init_inv step_inv)

lemma steps_inv: "step\<^sup>*\<^sup>* s s' \<Longrightarrow> inv s \<Longrightarrow> inv s'"
  by (induction rule: rtranclp_induct) (auto intro: step_inv)

end

locale forward_simulation = transition_invariant init step inv
  for init :: "'s \<Rightarrow> bool" and step :: "'s \<Rightarrow> 's \<Rightarrow> bool" and inv :: "'s \<Rightarrow> bool" +
  fixes abs_step :: "'a \<Rightarrow> 'a \<Rightarrow> bool"
    and abs :: "'s \<Rightarrow> 'a"
  assumes simulates: "inv s \<Longrightarrow> step s s' \<Longrightarrow> abs s' = abs s \<or> abs_step (abs s) (abs s')"
begin

lemma run_simulated: "step\<^sup>*\<^sup>* s s' \<Longrightarrow> init s \<Longrightarrow> abs_step\<^sup>*\<^sup>* (abs s) (abs s')"
proof (induction rule: rtranclp_induct)
  case base
  then show ?case by simp
next
  case (step y z)
  have "inv y" using step reachable_inv by blast
  then have "abs z = abs y \<or> abs_step (abs y) (abs z)" using step(2) by (rule simulates)
  then show ?case using step by (auto intro: rtranclp.rtrancl_into_rtrancl)
qed

end

end
