(* ===== verification/Fiber_Mutex.thy ===== *)
theory Fiber_Mutex
  imports Prelude Systems
begin

text \<open>
  The synchronisation of fibers in \<open>src/cpp/fiber.h\<close> and \<open>src/cpp/fiber.cpp\<close>: \<open>fiber_mutex\<close> with its
  atomic counter \<open>state_\<close> and its list of sleeping fibers, and \<open>fiber_cond\<close>.  Any number of
  fibers run on any number of threads; a step is one atomic operation on \<open>state_\<close> or one
  manipulation of a list, and what a fiber does next is its program counter.
\<close>

section \<open>States\<close>

text \<open>
  The places in \<open>lock\<close>, \<open>unlock\<close>, \<open>sleep_till_woken\<close> and \<open>wait\<close>.  The argument of the places in
  \<open>unlock\<close> tells whether it is called for a fiber that waits for the condition: then the parent
  fiber runs it, and the fiber itself is suspended.
\<close>

datatype fiber_pc =
    Outside
  | Try_Lock
  | Enqueue
  | Suspend
  | Asleep
  | Spin
  | Critical
  | Cas_Release bool
  | Wake bool
  | Cas_Free bool
  | Cond_Asleep
  | Spin_Held

text \<open>
  The lists are the chains of \<open>next_wake_\<close> from their heads: the fibers that sleep for the mutex,
  those that wait for the condition, and the wake list of each thread.  The tail of
  the first one is the stored pointer.
\<close>

record ('f, 't) mutex_sys =
  lock_state :: int
  fiber_wake_head :: "'f list"
  fiber_wake_tail :: "'f option"
  cond_wake_head :: "'f list"
  wake_head :: "'t \<Rightarrow> 'f list"
  pc :: "'f \<Rightarrow> fiber_pc"

definition goes :: "'f \<Rightarrow> fiber_pc \<Rightarrow> ('f, 't) mutex_sys \<Rightarrow> ('f, 't) mutex_sys" where
  "goes f p s = s\<lparr>pc := (pc s)(f := p)\<rparr>"

section \<open>Operations\<close>

text \<open>One turn of the loop of \<open>lock\<close>: \<open>state_.fetch_add(1)\<close> and the switch on its result.\<close>

definition lock_turn :: "'f \<Rightarrow> ('f, 't) mutex_sys \<Rightarrow> ('f, 't) mutex_sys" where
  "lock_turn f s =
     (let old = lock_state s;
          s = s\<lparr>lock_state := old + 1\<rparr>
      in if old = 0 then goes f Critical s
         else if old = 1 then goes f Enqueue s
         else goes f Spin s)"

definition spin_back :: "'f \<Rightarrow> ('f, 't) mutex_sys \<Rightarrow> ('f, 't) mutex_sys" where
  "spin_back f s = goes f Try_Lock (s\<lparr>lock_state := lock_state s - 1\<rparr>)"

definition sleep_till_woken :: "'f \<Rightarrow> ('f, 't) mutex_sys \<Rightarrow> ('f, 't) mutex_sys" where
  "sleep_till_woken f s =
     (let s = (if fiber_wake_tail s = None then s\<lparr>fiber_wake_tail := Some f\<rparr> else s)
      in goes f Suspend (s\<lparr>fiber_wake_head := f # fiber_wake_head s\<rparr>))"

text \<open>The parent fiber, after the switch: \<open>oc_mutex_suspend\<close> and \<open>oc_cond_wait\<close>.\<close>

definition mutex_suspend :: "'f \<Rightarrow> ('f, 't) mutex_sys \<Rightarrow> ('f, 't) mutex_sys" where
  "mutex_suspend f s = goes f Asleep (s\<lparr>lock_state := lock_state s - 1\<rparr>)"

definition cond_wait :: "'f \<Rightarrow> ('f, 't) mutex_sys \<Rightarrow> ('f, 't) mutex_sys" where
  "cond_wait f s = goes f (Cas_Release True) (s\<lparr>cond_wake_head := cond_wake_head s @ [f]\<rparr>)"

text \<open>The tail's \<open>next_wake_\<close> is set to the wake list of the thread: a null tail is \<open>None\<close>.\<close>

definition wake_sleepers :: "'t \<Rightarrow> ('f, 't) mutex_sys \<Rightarrow> ('f, 't) mutex_sys option" where
  "wake_sleepers t s =
     (case fiber_wake_tail s of
        None \<Rightarrow> None
      | Some g \<Rightarrow>
          let chain = takeWhile (\<lambda>f. f \<noteq> g) (fiber_wake_head s) @ g # wake_head s t
          in Some (s\<lparr>wake_head := (wake_head s)(t := chain), fiber_wake_head := [],
                     fiber_wake_tail := None\<rparr>))"

text \<open>The two compare-and-exchange operations of \<open>unlock\<close>, \<open>None\<close> where they fail and are retried.\<close>

definition cas :: "int \<Rightarrow> int \<Rightarrow> ('f, 't) mutex_sys \<Rightarrow> ('f, 't) mutex_sys option" where
  "cas expected new s = (if lock_state s = expected then Some (s\<lparr>lock_state := new\<rparr>) else None)"

definition unlock_wake :: "'t \<Rightarrow> ('f, 't) mutex_sys \<Rightarrow> ('f, 't) mutex_sys option" where
  "unlock_wake t s = (if fiber_wake_head s \<noteq> [] then wake_sleepers t s else Some s)"

definition notify_all :: "'t \<Rightarrow> ('f, 't) mutex_sys \<Rightarrow> ('f, 't) mutex_sys" where
  "notify_all t s =
     (if cond_wake_head s \<noteq> []
      then s\<lparr>wake_head := (wake_head s)(t := cond_wake_head s @ wake_head s t), cond_wake_head := []\<rparr>
      else s)"

definition notify_one :: "'t \<Rightarrow> ('f, 't) mutex_sys \<Rightarrow> ('f, 't) mutex_sys" where
  "notify_one t s =
     (case cond_wake_head s of
        [] \<Rightarrow> s
      | f # next \<Rightarrow> s\<lparr>wake_head := (wake_head s)(t := f # wake_head s t), cond_wake_head := next\<rparr>)"

text \<open>The loop of \<open>wake_all\<close> takes the first fiber of its wake list, which returns into the loop of
  \<open>lock\<close>.\<close>

definition run_woken :: "'t \<Rightarrow> 'f \<Rightarrow> ('f, 't) mutex_sys \<Rightarrow> ('f, 't) mutex_sys" where
  "run_woken t f s = goes f Try_Lock (s\<lparr>wake_head := (wake_head s)(t := tl (wake_head s t))\<rparr>)"

inductive mutex_step :: "('f, 't) mutex_sys \<Rightarrow> ('f, 't) mutex_sys \<Rightarrow> bool" where
  call_lock: "pc s f = Outside \<Longrightarrow> mutex_step s (goes f Try_Lock s)"
| try_lock: "pc s f = Try_Lock \<Longrightarrow> mutex_step s (lock_turn f s)"
| spin: "pc s f = Spin \<Longrightarrow> mutex_step s (spin_back f s)"
| enqueue: "pc s f = Enqueue \<Longrightarrow> mutex_step s (sleep_till_woken f s)"
| suspend: "pc s f = Suspend \<Longrightarrow> mutex_step s (mutex_suspend f s)"
| call_unlock: "pc s f = Critical \<Longrightarrow> mutex_step s (goes f (Cas_Release False) s)"
| call_wait: "pc s f = Critical \<Longrightarrow> mutex_step s (cond_wait f s)"
| release: "pc s f = Cas_Release b \<Longrightarrow> cas 1 2 s = Some s' \<Longrightarrow> mutex_step s (goes f (Wake b) s')"
| wake: "pc s f = Wake b \<Longrightarrow> unlock_wake t s = Some s' \<Longrightarrow> mutex_step s (goes f (Cas_Free b) s')"
| free: "pc s f = Cas_Free b \<Longrightarrow> cas 2 0 s = Some s' \<Longrightarrow>
    mutex_step s (goes f (if b then Cond_Asleep else Outside) s')"
| notify_all: "pc s f = Critical \<Longrightarrow> mutex_step s (notify_all t s)"
| notify_one: "pc s f = Critical \<Longrightarrow> mutex_step s (notify_one t s)"
| run: "wake_head s t = f # fs \<Longrightarrow> mutex_step s (run_woken t f s)"
| spin_lock: "pc s f = Outside \<Longrightarrow> cas 0 2 s = Some s' \<Longrightarrow> mutex_step s (goes f Spin_Held s')"
| spin_unlock: "pc s f = Spin_Held \<Longrightarrow> cas 2 0 s = Some s' \<Longrightarrow> mutex_step s (goes f Outside s')"

text \<open>A new mutex and condition, with every fiber outside of them.\<close>

definition new_mutex :: "('f, 't) mutex_sys \<Rightarrow> bool" where
  "new_mutex s \<longleftrightarrow> lock_state s = 0 \<and> fiber_wake_head s = [] \<and> fiber_wake_tail s = None \<and>
     cond_wake_head s = [] \<and> (\<forall>t. wake_head s t = []) \<and> (\<forall>f. pc s f = Outside)"

section \<open>The counter\<close>

text \<open>What each place contributes to \<open>state_\<close>, and the places of the owner of the mutex.\<close>

fun weight :: "fiber_pc \<Rightarrow> int" where
  "weight Enqueue = 1"
| "weight Suspend = 1"
| "weight Spin = 1"
| "weight Critical = 1"
| "weight (Cas_Release b) = 1"
| "weight (Wake b) = 2"
| "weight (Cas_Free b) = 2"
| "weight Spin_Held = 2"
| "weight p = 0"

fun holding :: "fiber_pc \<Rightarrow> bool" where
  "holding Critical \<longleftrightarrow> True"
| "holding (Cas_Release b) \<longleftrightarrow> True"
| "holding (Wake b) \<longleftrightarrow> True"
| "holding (Cas_Free b) \<longleftrightarrow> True"
| "holding Spin_Held \<longleftrightarrow> True"
| "holding p \<longleftrightarrow> False"

fun queuing :: "fiber_pc \<Rightarrow> bool" where
  "queuing Enqueue \<longleftrightarrow> True"
| "queuing Suspend \<longleftrightarrow> True"
| "queuing p \<longleftrightarrow> False"

definition total :: "('f \<Rightarrow> fiber_pc) \<Rightarrow> int" where
  "total p = (\<Sum>f | weight (p f) \<noteq> 0. weight (p f))"

lemma weight_nonneg: "0 \<le> weight p"
  by (cases p) auto

lemma holding_weight: "holding p \<Longrightarrow> 1 \<le> weight p"
  by (cases p) auto

lemma queuing_weight: "queuing p \<Longrightarrow> weight p = 1 \<and> \<not> holding p"
  by (cases p) auto

lemma weight_le_1: "weight p \<le> 1 \<longleftrightarrow> weight p = 0 \<or> weight p = 1"
  using weight_nonneg [of p] by auto

lemma total_other:
  assumes "finite {f. weight (p f) \<noteq> 0}"
  shows "total p = weight (p f) + (\<Sum>g | weight (p g) \<noteq> 0 \<and> g \<noteq> f. weight (p g))"
proof (cases "weight (p f) = 0")
  case True
  then have "{g. weight (p g) \<noteq> 0 \<and> g \<noteq> f} = {g. weight (p g) \<noteq> 0}" by auto
  then show ?thesis by (simp add: total_def True)
next
  case False
  have "{g. weight (p g) \<noteq> 0 \<and> g \<noteq> f} = {g. weight (p g) \<noteq> 0} - {f}" by auto
  then show ?thesis unfolding total_def using assms False by (simp add: sum.remove)
qed

lemma total_upd:
  assumes "finite {f. weight (p f) \<noteq> 0}"
  shows "finite {g. weight ((p(f := x)) g) \<noteq> 0} \<and> total (p(f := x)) = total p - weight (p f) + weight x"
proof -
  have fin: "finite {g. weight ((p(f := x)) g) \<noteq> 0}"
    by (rule finite_subset [of _ "insert f {g. weight (p g) \<noteq> 0}"]) (auto simp: assms)
  have "(\<Sum>g | weight ((p(f := x)) g) \<noteq> 0 \<and> g \<noteq> f. weight ((p(f := x)) g)) =
      (\<Sum>g | weight (p g) \<noteq> 0 \<and> g \<noteq> f. weight (p g))"
    by (rule sum.cong) auto
  then show ?thesis
    using total_other [OF fin, of f] total_other [OF assms, of f] fin by (simp del: fun_upd_apply add: fun_upd_same)
qed

lemma total_ge_two:
  assumes "finite {f. weight (p f) \<noteq> 0}" and "f \<noteq> g"
  shows "weight (p f) + weight (p g) \<le> total p"
proof -
  have "finite {h. weight (p h) \<noteq> 0 \<and> h \<noteq> f}" using assms(1) by (rule rev_finite_subset) auto
  then have "weight (p g) \<le> (\<Sum>h | weight (p h) \<noteq> 0 \<and> h \<noteq> f. weight (p h))"
    by (cases "weight (p g) = 0") (auto intro!: member_le_sum sum_nonneg weight_nonneg assms(2) [symmetric])
  then show ?thesis using total_other [OF assms(1), of f] by linarith
qed

lemma total_ge:
  assumes "finite {f. weight (p f) \<noteq> 0}"
  shows "weight (p f) \<le> total p"
  unfolding total_other [OF assms, of f] by (simp add: sum_nonneg weight_nonneg)

lemma total_nonneg: "0 \<le> total p"
  by (simp add: total_def sum_nonneg weight_nonneg)

definition count_inv :: "int \<Rightarrow> ('f \<Rightarrow> fiber_pc) \<Rightarrow> bool" where
  "count_inv n p \<longleftrightarrow> finite {f. weight (p f) \<noteq> 0} \<and> n = total p \<and>
     (\<forall>f g. holding (p f) \<and> holding (p g) \<longrightarrow> f = g) \<and>
     ((\<exists>f. weight (p f) \<noteq> 0) \<longrightarrow> (\<exists>h. holding (p h))) \<and>
     (\<forall>f g. queuing (p f) \<and> queuing (p g) \<longrightarrow> f = g) \<and>
     (\<forall>f h. queuing (p f) \<and> holding (p h) \<longrightarrow> weight (p h) = 1)"

lemma count_zero: "count_inv 0 p \<Longrightarrow> weight (p f) = 0"
  using total_ge [of p f] weight_nonneg [of "p f"] by (auto simp: count_inv_def)

lemma count_owner: "count_inv n p \<Longrightarrow> n \<noteq> 0 \<Longrightarrow> \<exists>h. holding (p h)"
proof -
  assume a: "count_inv n p" "n \<noteq> 0"
  then have "\<exists>f. weight (p f) \<noteq> 0" by (auto simp: count_inv_def total_def intro: ccontr)
  then show ?thesis using a(1) by (auto simp: count_inv_def)
qed

lemma count_one:
  assumes "count_inv 1 p" "holding (p h)"
  shows "weight (p h) = 1" and "g \<noteq> h \<Longrightarrow> weight (p g) = 0"
proof -
  have fin: "finite {f. weight (p f) \<noteq> 0}" and one: "total p = 1"
    using assms(1) by (auto simp: count_inv_def)
  have h: "1 \<le> weight (p h)" using assms(2) by (rule holding_weight)
  then show "weight (p h) = 1" using total_ge [OF fin, of h] one by linarith
  show "weight (p g) = 0" if "g \<noteq> h"
    using total_ge_two [OF fin that] one h weight_nonneg [of "p g"] by linarith
qed

lemma count_two:
  assumes "count_inv 2 p" "holding (p h)" "weight (p h) = 2" "g \<noteq> h"
  shows "weight (p g) = 0"
proof -
  have fin: "finite {f. weight (p f) \<noteq> 0}" and two: "total p = 2"
    using assms(1) by (auto simp: count_inv_def)
  show ?thesis using total_ge_two [OF fin assms(4)] two assms(3) weight_nonneg [of "p g"] by linarith
qed

lemma count_keep:
  assumes "count_inv n p" "weight x = weight (p f)" "holding x = holding (p f)" "queuing x = queuing (p f)"
  shows "count_inv n (p(f := x))"
proof -
  have "finite {f. weight (p f) \<noteq> 0}" using assms(1) by (simp add: count_inv_def)
  note total_upd [OF this, of f x]
  moreover have w: "weight ((p(f := x)) g) = weight (p g)" "holding ((p(f := x)) g) = holding (p g)"
      "queuing ((p(f := x)) g) = queuing (p g)" for g
    using assms(2-4) by auto
  ultimately show ?thesis using assms(1,2) unfolding count_inv_def w by (simp del: fun_upd_apply) blast
qed

lemma count_acquire:
  assumes "count_inv 0 p" "holding x" "\<not> queuing x"
  shows "count_inv (weight x) (p(f := x))"
proof -
  have "finite {f. weight (p f) \<noteq> 0}" using assms(1) by (simp add: count_inv_def)
  note total_upd [OF this, of f x]
  moreover have z: "weight (p g) = 0" for g using assms(1) by (rule count_zero)
  moreover have "\<not> holding (p g)" "\<not> queuing (p g)" for g
    using z [of g] holding_weight [of "p g"] queuing_weight [of "p g"] by auto
  ultimately show ?thesis using assms unfolding count_inv_def by auto
qed

lemma count_enqueue:
  assumes "count_inv 1 p" "weight (p f) = 0"
  shows "count_inv 2 (p(f := Enqueue))"
proof -
  have fin: "finite {f. weight (p f) \<noteq> 0}" using assms(1) by (simp add: count_inv_def)
  obtain h where h: "holding (p h)" using count_owner [OF assms(1)] by auto
  have "h \<noteq> f" using h assms(2) holding_weight by fastforce
  have z: "weight (p g) = 0" if "g \<noteq> h" for g using count_one(2) [OF assms(1) h that] .
  have q: "\<not> queuing (p g)" for g
    using z [of g] queuing_weight [of "p g"] h by (cases "g = h") auto
  have hold: "holding (p g) \<longleftrightarrow> g = h" for g
    using z [of g] holding_weight [of "p g"] h by (cases "g = h") auto
  show ?thesis
    using total_upd [OF fin, of f Enqueue] assms \<open>h \<noteq> f\<close> count_one(1) [OF assms(1) h] h hold q
    unfolding count_inv_def by auto
qed

lemma count_spin:
  assumes "count_inv n p" "n \<noteq> 0" "weight (p f) = 0"
  shows "count_inv (n + 1) (p(f := Spin))"
proof -
  have fin: "finite {f. weight (p f) \<noteq> 0}" using assms(1) by (simp add: count_inv_def)
  obtain h where h: "holding (p h)" using count_owner [OF assms(1,2)] by auto
  have "\<not> holding (p f)" "\<not> queuing (p f)"
    using assms(3) holding_weight [of "p f"] queuing_weight [of "p f"] by auto
  then have w: "holding ((p(f := Spin)) g) = holding (p g)" "queuing ((p(f := Spin)) g) = queuing (p g)"
      "holding (p g) \<Longrightarrow> weight ((p(f := Spin)) g) = weight (p g)" for g
    by auto
  show ?thesis
    using total_upd [OF fin, of f Spin] assms h w(3) unfolding count_inv_def w(1,2) by auto
qed

lemma count_drop:
  assumes "count_inv n p" "weight (p f) = 1" "\<not> holding (p f)" "weight x = 0"
  shows "count_inv (n - 1) (p(f := x))"
proof -
  have fin: "finite {f. weight (p f) \<noteq> 0}" using assms(1) by (simp add: count_inv_def)
  have x: "\<not> holding x" "\<not> queuing x"
    using assms(4) holding_weight [of x] queuing_weight [of x] by auto
  obtain h where h: "holding (p h)" using assms(1,2) by (auto simp: count_inv_def)
  then have "h \<noteq> f" using assms(3) by auto
  have w: "holding ((p(f := x)) g) = holding (p g)" "queuing ((p(f := x)) g) \<Longrightarrow> queuing (p g)"
      "holding (p g) \<Longrightarrow> weight ((p(f := x)) g) = weight (p g)" for g
    using x assms(3) by (auto split: if_splits)
  have "count_inv (total (p(f := x))) (p(f := x))"
    unfolding count_inv_def w(1)
  proof (intro conjI allI impI)
    show "finite {g. weight ((p(f := x)) g) \<noteq> 0}" using total_upd [OF fin] by blast
    show "\<exists>h. holding (p h)" using h by blast
    show "g = g'" if "holding (p g) \<and> holding (p g')" for g g'
      using assms(1) that unfolding count_inv_def by blast
    show "g = g'" if "queuing ((p(f := x)) g) \<and> queuing ((p(f := x)) g')" for g g'
      using assms(1) that w(2) unfolding count_inv_def by blast
    show "weight ((p(f := x)) g') = 1" if "queuing ((p(f := x)) g) \<and> holding (p g')" for g g'
      using assms(1) that w(2,3) [of g'] w(2) [of g] unfolding count_inv_def by metis
  qed simp
  moreover have "total (p(f := x)) = n - 1"
    using total_upd [OF fin, of f x] assms(1,2,4) unfolding count_inv_def by linarith
  ultimately show ?thesis by simp
qed

lemma count_release:
  assumes "count_inv 1 p" "holding (p f)" "holding x" "weight x = 2"
  shows "count_inv 2 (p(f := x))"
proof -
  have fin: "finite {f. weight (p f) \<noteq> 0}" using assms(1) by (simp add: count_inv_def)
  have z: "weight (p g) = 0" if "g \<noteq> f" for g using count_one(2) [OF assms(1,2) that] .
  have q: "\<not> queuing ((p(f := x)) g)" for g
    using z [of g] queuing_weight [of "(p(f := x)) g"] assms(3) by (cases "g = f") auto
  have hold: "holding ((p(f := x)) g) \<longleftrightarrow> g = f" for g
    using z [of g] holding_weight [of "p g"] assms(3) by (cases "g = f") auto
  show ?thesis
    using total_upd [OF fin, of f x] assms(1,4) count_one(1) [OF assms(1,2)] q hold
    unfolding count_inv_def by (auto simp del: fun_upd_apply)
qed

lemma count_free:
  assumes "count_inv 2 p" "holding (p f)" "weight (p f) = 2" "weight x = 0"
  shows "count_inv 0 (p(f := x))"
proof -
  have fin: "finite {f. weight (p f) \<noteq> 0}" using assms(1) by (simp add: count_inv_def)
  have z: "weight ((p(f := x)) g) = 0" for g
    using count_two [OF assms(1-3), of g] assms(4) by (cases "g = f") auto
  have q: "\<not> queuing ((p(f := x)) g)" "\<not> holding ((p(f := x)) g)" for g
    using z [of g] queuing_weight [of "(p(f := x)) g"] holding_weight [of "(p(f := x)) g"] by auto
  show ?thesis
    using total_upd [OF fin, of f x] assms(1,3,4) q z
    unfolding count_inv_def by (auto simp del: fun_upd_apply)
qed

section \<open>The lists\<close>

text \<open>
  A sleeping fiber is on the list of the mutex, a waiting one on that of the condition, a woken one
  on the wake list of exactly one thread.  A fiber is never on two lists, so that one
  \<open>next_wake_\<close> per fiber is enough.
\<close>

fun will_wake :: "fiber_pc \<Rightarrow> bool" where
  "will_wake Critical \<longleftrightarrow> True"
| "will_wake (Cas_Release b) \<longleftrightarrow> True"
| "will_wake (Wake b) \<longleftrightarrow> True"
| "will_wake p \<longleftrightarrow> False"

fun waiting :: "fiber_pc \<Rightarrow> bool" where
  "waiting (Cas_Release b) \<longleftrightarrow> b"
| "waiting (Wake b) \<longleftrightarrow> b"
| "waiting (Cas_Free b) \<longleftrightarrow> b"
| "waiting Cond_Asleep \<longleftrightarrow> True"
| "waiting p \<longleftrightarrow> False"

definition sleepers_inv :: "'f list \<Rightarrow> 'f option \<Rightarrow> ('f \<Rightarrow> fiber_pc) \<Rightarrow> bool" where
  "sleepers_inv fs tail p \<longleftrightarrow> distinct fs \<and> (\<forall>f \<in> set fs. p f \<in> {Suspend, Asleep}) \<and>
     (\<forall>f. p f = Suspend \<longrightarrow> f \<in> set fs) \<and> tail = (if fs = [] then None else Some (last fs)) \<and>
     (fs \<noteq> [] \<longrightarrow> (\<exists>h. will_wake (p h)))"

definition waiters_inv :: "'f list \<Rightarrow> ('f \<Rightarrow> fiber_pc) \<Rightarrow> bool" where
  "waiters_inv fs p \<longleftrightarrow> distinct fs \<and> (\<forall>f \<in> set fs. waiting (p f)) \<and>
     (\<forall>f. waiting (p f) \<and> p f \<noteq> Cond_Asleep \<longrightarrow> f \<in> set fs)"

definition woken_inv :: "('t \<Rightarrow> 'f list) \<Rightarrow> ('f \<Rightarrow> fiber_pc) \<Rightarrow> bool" where
  "woken_inv w p \<longleftrightarrow> (\<forall>t. distinct (w t) \<and> (\<forall>f \<in> set (w t). p f \<in> {Asleep, Cond_Asleep})) \<and>
     (\<forall>t u. t \<noteq> u \<longrightarrow> set (w t) \<inter> set (w u) = {})"

definition place_inv :: "'f list \<Rightarrow> 'f list \<Rightarrow> ('t \<Rightarrow> 'f list) \<Rightarrow> ('f \<Rightarrow> fiber_pc) \<Rightarrow> bool" where
  "place_inv fs cs w p \<longleftrightarrow> (\<forall>t. set (w t) \<inter> (set fs \<union> set cs) = {}) \<and>
     (\<forall>f. p f = Asleep \<longrightarrow> f \<in> set fs \<or> (\<exists>t. f \<in> set (w t))) \<and>
     (\<forall>f. p f = Cond_Asleep \<longrightarrow> f \<in> set cs \<or> (\<exists>t. f \<in> set (w t)))"

definition lists_inv ::
  "'f list \<Rightarrow> 'f option \<Rightarrow> 'f list \<Rightarrow> ('t \<Rightarrow> 'f list) \<Rightarrow> ('f \<Rightarrow> fiber_pc) \<Rightarrow> bool"
where
  "lists_inv fs tp cs w p \<longleftrightarrow>
     sleepers_inv fs tp p \<and> waiters_inv cs p \<and> woken_inv w p \<and> place_inv fs cs w p"

definition mutex_inv :: "('f, 't) mutex_sys \<Rightarrow> bool" where
  "mutex_inv s \<longleftrightarrow> count_inv (lock_state s) (pc s) \<and>
     lists_inv (fiber_wake_head s) (fiber_wake_tail s) (cond_wake_head s) (wake_head s) (pc s)"

lemmas list_invs = sleepers_inv_def waiters_inv_def woken_inv_def place_inv_def

lemma will_wake_holding: "will_wake p \<Longrightarrow> holding p"
  by (cases p) auto

lemma not_sleeper: "sleepers_inv fs tp p \<Longrightarrow> p f \<notin> {Suspend, Asleep} \<Longrightarrow> f \<notin> set fs"
  unfolding sleepers_inv_def by blast

lemma not_waiter: "waiters_inv cs p \<Longrightarrow> \<not> waiting (p f) \<Longrightarrow> f \<notin> set cs"
  unfolding waiters_inv_def by blast

lemma not_woken: "woken_inv w p \<Longrightarrow> p f \<notin> {Asleep, Cond_Asleep} \<Longrightarrow> f \<notin> set (w t)"
  unfolding woken_inv_def by blast

lemma wokenD:
  assumes "woken_inv w p"
  shows "f \<in> set (w t) \<Longrightarrow> p f = Asleep \<or> p f = Cond_Asleep" "distinct (w t)"
    "t \<noteq> u \<Longrightarrow> set (w t) \<inter> set (w u) = {}"
  using assms unfolding woken_inv_def by blast+

lemma owner_stays:
  "\<not> will_wake (p f) \<Longrightarrow> (\<exists>h. will_wake (p h)) \<Longrightarrow> (\<exists>h. will_wake ((p(f := x)) h))"
  by (metis fun_upd_other)

text \<open>A move between two places that leaves the fiber on its list, if any.\<close>

definition on_stack :: "fiber_pc \<Rightarrow> bool" where
  "on_stack p \<longleftrightarrow> p \<notin> {Suspend, Asleep, Cond_Asleep}"

lemma lists_move:
  assumes "lists_inv fs tp cs w p"
    and "on_stack (p f)" "on_stack x" "waiting x = waiting (p f)" "will_wake (p f) \<Longrightarrow> will_wake x"
  shows "lists_inv fs tp cs w (p(f := x))"
proof -
  have inv: "sleepers_inv fs tp p" "waiters_inv cs p" "woken_inv w p" "place_inv fs cs w p"
    using assms(1) by (simp_all add: lists_inv_def)
  have f: "f \<notin> set fs" "\<And>t. f \<notin> set (w t)"
    using assms(2) not_sleeper [OF inv(1)] not_woken [OF inv(3)] by (auto simp: on_stack_def)
  then have eq: "\<forall>g \<in> set fs. (p(f := x)) g = p g" "\<And>t. \<forall>g \<in> set (w t). (p(f := x)) g = p g"
    by auto
  have wt: "waiting ((p(f := x)) g) = waiting (p g)" for g using assms(4) by simp
  have ww: "(\<exists>h. will_wake (p h)) \<Longrightarrow> (\<exists>h. will_wake ((p(f := x)) h))"
    using assms(5) by (metis fun_upd_other fun_upd_same)
  have sl: "(p(f := x)) g = q \<longleftrightarrow> p g = q" if "q \<in> {Suspend, Asleep, Cond_Asleep}" for g q
    using assms(2,3) that by (auto simp: on_stack_def)
  show ?thesis
    unfolding lists_inv_def
  proof (intro conjI)
    show "sleepers_inv fs tp (p(f := x))"
      using inv(1) eq(1) ww sl unfolding sleepers_inv_def by auto
    show "waiters_inv cs (p(f := x))"
      using inv(2) sl unfolding waiters_inv_def wt by auto
    show "woken_inv w (p(f := x))" using inv(3) eq(2) unfolding woken_inv_def by auto
    show "place_inv fs cs w (p(f := x))" using inv(4) sl unfolding place_inv_def by auto
  qed
qed

lemma lists_enqueue:
  assumes "lists_inv fs tp cs w p"
    and "p f = Enqueue" "will_wake (p h)"
  shows "lists_inv (f # fs) (if tp = None then Some f else tp) cs w (p(f := Suspend))"
proof -
  have inv: "sleepers_inv fs tp p" "waiters_inv cs p" "woken_inv w p" "place_inv fs cs w p"
    using assms(1) by (simp_all add: lists_inv_def)
  have f: "f \<notin> set fs" "f \<notin> set cs" "\<And>t. f \<notin> set (w t)"
    using assms(2) by (simp_all add: not_sleeper [OF inv(1)] not_waiter [OF inv(2)] not_woken [OF inv(3)])
  have "h \<noteq> f" using assms(2,3) by auto
  then have "will_wake ((p(f := Suspend)) h)" using assms(3) by simp
  then have ww: "\<exists>h. will_wake ((p(f := Suspend)) h)" by blast
  show ?thesis
    unfolding lists_inv_def
  proof (intro conjI)
    show "sleepers_inv (f # fs) (if tp = None then Some f else tp) (p(f := Suspend))"
      using inv(1) f(1) ww unfolding sleepers_inv_def by auto
    show "waiters_inv cs (p(f := Suspend))" using inv(2) assms(2) f(2) unfolding waiters_inv_def by auto
    show "woken_inv w (p(f := Suspend))" using inv(3) f(3) unfolding woken_inv_def by auto
    show "place_inv (f # fs) cs w (p(f := Suspend))" using inv(4) f(3) unfolding place_inv_def by auto
  qed
qed

lemma lists_suspend:
  assumes "lists_inv fs tp cs w p"
    and "p f = Suspend"
  shows "lists_inv fs tp cs w (p(f := Asleep))"
proof -
  have inv: "sleepers_inv fs tp p" "waiters_inv cs p" "woken_inv w p" "place_inv fs cs w p"
    using assms(1) by (simp_all add: lists_inv_def)
  have f: "f \<in> set fs" "f \<notin> set cs"
    using inv(1) assms(2) by (auto simp: sleepers_inv_def not_waiter [OF inv(2)])
  have ww: "(\<exists>h. will_wake (p h)) \<Longrightarrow> (\<exists>h. will_wake ((p(f := Asleep)) h))"
    using assms(2) by (intro owner_stays) simp
  show ?thesis
    unfolding lists_inv_def
  proof (intro conjI)
    show "sleepers_inv fs tp (p(f := Asleep))" using inv(1) f(1) ww unfolding sleepers_inv_def by auto
    show "waiters_inv cs (p(f := Asleep))" using inv(2) f(2) unfolding waiters_inv_def by auto
    show "woken_inv w (p(f := Asleep))" using inv(3) unfolding woken_inv_def by auto
    show "place_inv fs cs w (p(f := Asleep))" using inv(4) f(1) unfolding place_inv_def by auto
  qed
qed

lemma lists_wait:
  assumes "lists_inv fs tp cs w p"
    and "p f = Critical"
  shows "lists_inv fs tp (cs @ [f]) w (p(f := Cas_Release True))"
proof -
  have inv: "sleepers_inv fs tp p" "waiters_inv cs p" "woken_inv w p" "place_inv fs cs w p"
    using assms(1) by (simp_all add: lists_inv_def)
  have f: "f \<notin> set fs" "f \<notin> set cs" "\<And>t. f \<notin> set (w t)"
    using assms(2) by (simp_all add: not_sleeper [OF inv(1)] not_waiter [OF inv(2)] not_woken [OF inv(3)])
  have ww: "\<exists>h. will_wake ((p(f := Cas_Release True)) h)" by (rule exI [of _ f]) simp
  show ?thesis
    unfolding lists_inv_def
  proof (intro conjI)
    show "sleepers_inv fs tp (p(f := Cas_Release True))"
      using inv(1) f(1) ww unfolding sleepers_inv_def by auto
    show "waiters_inv (cs @ [f]) (p(f := Cas_Release True))"
      using inv(2) f(2) unfolding waiters_inv_def by auto
    show "woken_inv w (p(f := Cas_Release True))" using inv(3) f(3) unfolding woken_inv_def by auto
    show "place_inv fs (cs @ [f]) w (p(f := Cas_Release True))"
      using inv(4) f(3) unfolding place_inv_def by auto
  qed
qed

lemma lists_cond_asleep:
  assumes "lists_inv fs tp cs w p"
    and "p f = Cas_Free True"
  shows "lists_inv fs tp cs w (p(f := Cond_Asleep))"
proof -
  have inv: "sleepers_inv fs tp p" "waiters_inv cs p" "woken_inv w p" "place_inv fs cs w p"
    using assms(1) by (simp_all add: lists_inv_def)
  have f: "f \<notin> set fs" "f \<in> set cs" "\<And>t. f \<notin> set (w t)"
    using inv(2) assms(2) not_woken [OF inv(3), of f]
    by (auto simp: waiters_inv_def not_sleeper [OF inv(1)])
  have ww: "(\<exists>h. will_wake (p h)) \<Longrightarrow> (\<exists>h. will_wake ((p(f := Cond_Asleep)) h))"
    using assms(2) by (intro owner_stays) simp
  show ?thesis
    unfolding lists_inv_def
  proof (intro conjI)
    show "sleepers_inv fs tp (p(f := Cond_Asleep))" using inv(1) f(1) ww unfolding sleepers_inv_def by auto
    show "waiters_inv cs (p(f := Cond_Asleep))" using inv(2) f(2) unfolding waiters_inv_def by auto
    show "woken_inv w (p(f := Cond_Asleep))" using inv(3) unfolding woken_inv_def by auto
    show "place_inv fs cs w (p(f := Cond_Asleep))" using inv(4) f unfolding place_inv_def by auto
  qed
qed

lemma lists_run:
  assumes "lists_inv fs tp cs w p"
    and "w t = f # rest"
  shows "lists_inv fs tp cs (w(t := rest)) (p(f := Try_Lock))"
proof -
  have inv: "sleepers_inv fs tp p" "waiters_inv cs p" "woken_inv w p" "place_inv fs cs w p"
    using assms(1) by (simp_all add: lists_inv_def)
  have mem: "f \<in> set (w t)" using assms(2) by simp
  have f: "f \<notin> set fs" "f \<notin> set cs" using inv(4) mem unfolding place_inv_def by blast+
  have pf: "p f \<in> {Asleep, Cond_Asleep}" and ft: "f \<notin> set rest" and d: "distinct rest"
    and fu: "u \<noteq> t \<Longrightarrow> f \<notin> set (w u)" for u
    using inv(3) assms(2) mem unfolding woken_inv_def by (auto dest: spec [of _ t])
  have ww: "(\<exists>h. will_wake (p h)) \<Longrightarrow> (\<exists>h. will_wake ((p(f := Try_Lock)) h))"
    using pf by (intro owner_stays) auto
  have sub: "set ((w(t := rest)) u) = set (w u) - {f}" for u
    using assms(2) ft fu by (cases "u = t") auto
  show ?thesis
    unfolding lists_inv_def
  proof (intro conjI)
    show "sleepers_inv fs tp (p(f := Try_Lock))" using inv(1) f(1) ww unfolding sleepers_inv_def by auto
    show "waiters_inv cs (p(f := Try_Lock))" using inv(2) f(2) unfolding waiters_inv_def by auto
    show "woken_inv (w(t := rest)) (p(f := Try_Lock))"
      unfolding woken_inv_def sub
    proof (intro conjI allI impI)
      show "distinct ((w(t := rest)) u)" for u using wokenD(2) [OF inv(3), of u] d by simp
      show "\<forall>g \<in> set (w u) - {f}. (p(f := Try_Lock)) g \<in> {Asleep, Cond_Asleep}" for u
        using wokenD(1) [OF inv(3), of _ u] by auto
      show "(set (w u) - {f}) \<inter> (set (w v) - {f}) = {}" if "u \<noteq> v" for u v
        using wokenD(3) [OF inv(3) that] by blast
    qed
    show "place_inv fs cs (w(t := rest)) (p(f := Try_Lock))"
      using inv(4) unfolding place_inv_def sub by auto
  qed
qed

lemma lists_wake:
  assumes "lists_inv fs tp cs w p"
    and "p f = Wake b" "\<And>g. p g \<noteq> Suspend"
  shows "lists_inv [] None cs (w(t := fs @ w t)) (p(f := Cas_Free b))"
proof -
  have inv: "sleepers_inv fs tp p" "waiters_inv cs p" "woken_inv w p" "place_inv fs cs w p"
    using assms(1) by (simp_all add: lists_inv_def)
  have f: "f \<notin> set fs" "\<And>t. f \<notin> set (w t)"
    using assms(2) by (simp_all add: not_sleeper [OF inv(1)] not_woken [OF inv(3)])
  have as: "p g = Asleep" if "g \<in> set fs" for g
    using inv(1) assms(3) that unfolding sleepers_inv_def by blast
  then have "\<not> waiting (p g)" if "g \<in> set fs" for g using that by simp
  then have cs: "set fs \<inter> set cs = {}" using not_waiter [OF inv(2)] by blast
  have mem: "set ((w(t := fs @ w t)) u) = (if u = t then set fs \<union> set (w u) else set (w u))" for u
    by simp
  have fw: "set (w u) \<inter> set fs = {}" for u using inv(4) unfolding place_inv_def by blast
  show ?thesis
    unfolding lists_inv_def
  proof (intro conjI)
    show "sleepers_inv [] None (p(f := Cas_Free b))"
      using assms(3) unfolding sleepers_inv_def by simp
    show "waiters_inv cs (p(f := Cas_Free b))" using inv(2) assms(2) unfolding waiters_inv_def by auto
    show "woken_inv (w(t := fs @ w t)) (p(f := Cas_Free b))"
      unfolding woken_inv_def mem
    proof (intro conjI allI impI)
      show "distinct ((w(t := fs @ w t)) u)" for u
        using inv(1) wokenD(2) [OF inv(3)] fw [of t] by (auto simp: sleepers_inv_def)
      show "\<forall>g \<in> (if u = t then set fs \<union> set (w u) else set (w u)).
          (p(f := Cas_Free b)) g \<in> {Asleep, Cond_Asleep}" for u
        using wokenD(1) [OF inv(3), of _ u] as f by auto
      show "(if u = t then set fs \<union> set (w u) else set (w u)) \<inter>
          (if v = t then set fs \<union> set (w v) else set (w v)) = {}" if "u \<noteq> v" for u v
      proof -
        have "set (w u) \<inter> set (w v) = {}" by (rule wokenD(3) [OF inv(3) that])
        then show ?thesis using fw [of u] fw [of v] that by auto
      qed
    qed
    show "place_inv [] cs (w(t := fs @ w t)) (p(f := Cas_Free b))"
      unfolding place_inv_def mem
    proof (intro conjI allI impI)
      show "(if u = t then set fs \<union> set (w u) else set (w u)) \<inter> (set [] \<union> set cs) = {}" for u
        using inv(4) cs unfolding place_inv_def by auto
      show "g \<in> set [] \<or> (\<exists>u. g \<in> (if u = t then set fs \<union> set (w u) else set (w u)))"
        if "(p(f := Cas_Free b)) g = Asleep" for g
        using inv(4) that unfolding place_inv_def by (auto split: if_splits)
      show "g \<in> set cs \<or> (\<exists>u. g \<in> (if u = t then set fs \<union> set (w u) else set (w u)))"
        if "(p(f := Cas_Free b)) g = Cond_Asleep" for g
        using inv(4) that unfolding place_inv_def by (auto split: if_splits)
    qed
  qed
qed

text \<open>Both notifications move a prefix of the waiting fibers.\<close>

lemma lists_notify:
  assumes "lists_inv fs tp (xs @ ys) w p"
    and "\<And>g. waiting (p g) \<Longrightarrow> p g = Cond_Asleep"
  shows "lists_inv fs tp ys (w(t := xs @ w t)) p"
proof -
  have inv: "sleepers_inv fs tp p" "waiters_inv (xs @ ys) p" "woken_inv w p" "place_inv fs (xs @ ys) w p"
    using assms(1) by (simp_all add: lists_inv_def)
  have as: "p g = Cond_Asleep" if "g \<in> set (xs @ ys)" for g
  proof -
    have "waiting (p g)" using inv(2) that unfolding waiters_inv_def by blast
    then show ?thesis by (rule assms(2))
  qed
  then have "p g \<notin> {Suspend, Asleep}" if "g \<in> set xs" for g using that by simp
  then have not_fs: "set xs \<inter> set fs = {}" using not_sleeper [OF inv(1)] by blast
  have mem: "set ((w(t := xs @ w t)) u) = (if u = t then set xs \<union> set (w u) else set (w u))" for u
    by simp
  have fw: "set (w u) \<inter> set xs = {}" "set (w u) \<inter> set ys = {}" "set (w u) \<inter> set fs = {}" for u
    using inv(4) unfolding place_inv_def by auto
  have d: "distinct xs" "distinct ys" "set xs \<inter> set ys = {}"
    using inv(2) unfolding waiters_inv_def by auto
  show ?thesis
    unfolding lists_inv_def
  proof (intro conjI)
    show "sleepers_inv fs tp p" by (rule inv(1))
    show "waiters_inv ys p"
      unfolding waiters_inv_def
    proof (intro conjI allI impI)
      show "distinct ys" by (rule d(2))
      show "\<forall>g \<in> set ys. waiting (p g)" using inv(2) unfolding waiters_inv_def by simp
      show "g \<in> set ys" if "waiting (p g) \<and> p g \<noteq> Cond_Asleep" for g using assms(2) that by blast
    qed
    show "woken_inv (w(t := xs @ w t)) p"
      unfolding woken_inv_def mem
    proof (intro conjI allI impI)
      show "distinct ((w(t := xs @ w t)) u)" for u
        using wokenD(2) [OF inv(3)] d(1) fw(1) [of t] by auto
      show "\<forall>g \<in> (if u = t then set xs \<union> set (w u) else set (w u)). p g \<in> {Asleep, Cond_Asleep}" for u
        using wokenD(1) [OF inv(3), of _ u] as by auto
      show "(if u = t then set xs \<union> set (w u) else set (w u)) \<inter>
          (if v = t then set xs \<union> set (w v) else set (w v)) = {}" if "u \<noteq> v" for u v
      proof -
        have "set (w u) \<inter> set (w v) = {}" by (rule wokenD(3) [OF inv(3) that])
        then show ?thesis using fw(1) [of u] fw(1) [of v] that by auto
      qed
    qed
    show "place_inv fs ys (w(t := xs @ w t)) p"
      unfolding place_inv_def mem
    proof (intro conjI allI impI)
      show "(if u = t then set xs \<union> set (w u) else set (w u)) \<inter> (set fs \<union> set ys) = {}" for u
      proof -
        have "set (w u) \<inter> set fs = {}" "set (w u) \<inter> set ys = {}" by (rule fw)+
        then show ?thesis using d(3) not_fs by auto
      qed
      show "g \<in> set fs \<or> (\<exists>u. g \<in> (if u = t then set xs \<union> set (w u) else set (w u)))"
        if "p g = Asleep" for g
        using inv(4) that unfolding place_inv_def by (auto split: if_splits)
      show "g \<in> set ys \<or> (\<exists>u. g \<in> (if u = t then set xs \<union> set (w u) else set (w u)))"
        if "p g = Cond_Asleep" for g
        using inv(4) that unfolding place_inv_def by (auto split: if_splits)
    qed
  qed
qed

section \<open>Every step keeps the invariant\<close>

lemma goes_simps [simp]:
  "pc (goes f p s) = (pc s)(f := p)" "lock_state (goes f p s) = lock_state s"
  "fiber_wake_head (goes f p s) = fiber_wake_head s" "fiber_wake_tail (goes f p s) = fiber_wake_tail s"
  "cond_wake_head (goes f p s) = cond_wake_head s" "wake_head (goes f p s) = wake_head s"
  by (simp_all add: goes_def)

lemma cas_Some_iff: "cas e n s = Some s' \<longleftrightarrow> lock_state s = e \<and> s' = s\<lparr>lock_state := n\<rparr>"
  by (auto simp: cas_def)

lemma mutex_inv_move:
  assumes "mutex_inv s" "on_stack (pc s f)" "on_stack x" "waiting x = waiting (pc s f)"
    and "will_wake (pc s f) \<Longrightarrow> will_wake x" "count_inv n ((pc s)(f := x))"
  shows "mutex_inv (goes f x (s\<lparr>lock_state := n\<rparr>))"
  using lists_move [of "fiber_wake_head s" "fiber_wake_tail s" "cond_wake_head s" "wake_head s" "pc s" f x] assms
  by (simp add: mutex_inv_def)

lemma goes_same: "goes f x s = goes f x (s\<lparr>lock_state := lock_state s\<rparr>)"
  by simp

lemma lock_turn_inv:
  assumes inv: "mutex_inv s" and pc: "pc s f = Try_Lock"
  shows "mutex_inv (lock_turn f s)"
proof -
  have c: "count_inv (lock_state s) (pc s)" using inv by (simp add: mutex_inv_def)
  consider "lock_state s = 0" | "lock_state s = 1" | "lock_state s \<noteq> 0" "lock_state s \<noteq> 1" by blast
  then show ?thesis
  proof cases
    case 1
    then have "count_inv 1 ((pc s)(f := Critical))" using count_acquire [of "pc s" Critical f] c by simp
    then show ?thesis
      using inv pc 1 by (simp add: lock_turn_def mutex_inv_move on_stack_def)
  next
    case 2
    then have "count_inv 2 ((pc s)(f := Enqueue))" using count_enqueue [of "pc s" f] c pc by simp
    then show ?thesis
      using mutex_inv_move [of s f Enqueue 2] inv pc 2 by (simp add: lock_turn_def on_stack_def)
  next
    case 3
    then have "count_inv (lock_state s + 1) ((pc s)(f := Spin))" using count_spin [OF c] pc by simp
    then show ?thesis
      using mutex_inv_move [of s f Spin "lock_state s + 1"] inv pc 3
      by (simp add: lock_turn_def on_stack_def Let_def)
  qed
qed

lemma sleep_till_woken_inv:
  assumes inv: "mutex_inv s" and pc: "pc s f = Enqueue"
  shows "mutex_inv (sleep_till_woken f s)"
proof -
  have c: "count_inv (lock_state s) (pc s)" using inv by (simp add: mutex_inv_def)
  obtain h where h: "holding (pc s h)" using c pc unfolding count_inv_def by (metis weight.simps(1) zero_neq_one)
  then have "weight (pc s h) = 1" using c pc unfolding count_inv_def by (metis queuing.simps(1))
  then have "will_wake (pc s h)" using h by (cases "pc s h") auto
  with pc inv have "lists_inv (f # fiber_wake_head s)
      (if fiber_wake_tail s = None then Some f else fiber_wake_tail s)
      (cond_wake_head s) (wake_head s) ((pc s)(f := Suspend))"
    by (intro lists_enqueue) (simp_all add: mutex_inv_def)
  moreover have "count_inv (lock_state s) ((pc s)(f := Suspend))" using count_keep [OF c] pc by simp
  ultimately show ?thesis
    by (cases "fiber_wake_tail s") (simp_all add: mutex_inv_def sleep_till_woken_def Let_def)
qed

lemma mutex_suspend_inv:
  assumes inv: "mutex_inv s" and pc: "pc s f = Suspend"
  shows "mutex_inv (mutex_suspend f s)"
proof -
  have "count_inv (lock_state s) (pc s)" using inv by (simp add: mutex_inv_def)
  then have "count_inv (lock_state s - 1) ((pc s)(f := Asleep))" using count_drop pc by fastforce
  then show ?thesis
    using inv pc by (simp add: mutex_inv_def mutex_suspend_def lists_suspend)
qed

lemma cond_wait_inv:
  assumes inv: "mutex_inv s" and pc: "pc s f = Critical"
  shows "mutex_inv (cond_wait f s)"
proof -
  have "count_inv (lock_state s) (pc s)" using inv by (simp add: mutex_inv_def)
  then have "count_inv (lock_state s) ((pc s)(f := Cas_Release True))" using count_keep pc by fastforce
  then show ?thesis using inv pc by (simp add: mutex_inv_def cond_wait_def lists_wait)
qed

lemma wake_sleepers_chain:
  assumes "sleepers_inv (fiber_wake_head s) (fiber_wake_tail s) p"
  shows "unlock_wake t s = Some (s\<lparr>wake_head := (wake_head s)(t := fiber_wake_head s @ wake_head s t),
    fiber_wake_head := [], fiber_wake_tail := None\<rparr>)"
proof (cases "fiber_wake_head s" rule: rev_cases)
  case Nil
  then show ?thesis using assms by (simp add: unlock_wake_def sleepers_inv_def)
next
  case (snoc fs g)
  then have "g \<notin> set fs" using assms by (simp add: sleepers_inv_def)
  then have "takeWhile (\<lambda>f. f \<noteq> g) (fs @ [g]) = fs" by (induction fs) auto
  moreover have "fiber_wake_tail s = Some g" using snoc assms by (simp add: sleepers_inv_def)
  ultimately show ?thesis by (simp add: unlock_wake_def wake_sleepers_def snoc)
qed

lemma unlock_wake_inv:
  assumes inv: "mutex_inv s" and pc: "pc s f = Wake b" and w: "unlock_wake t s = Some s'"
  shows "mutex_inv (goes f (Cas_Free b) s')"
proof -
  have c: "count_inv (lock_state s) (pc s)" using inv by (simp add: mutex_inv_def)
  have "\<not> queuing (pc s g)" for g
  proof
    assume "queuing (pc s g)"
    moreover have "holding (pc s f)" by (simp add: pc)
    ultimately have "weight (pc s f) = 1" using c unfolding count_inv_def by blast
    then show False by (simp add: pc)
  qed
  then have "pc s g \<noteq> Suspend" for g by (metis queuing.simps(2))
  then have "lists_inv [] None (cond_wake_head s) ((wake_head s)(t := fiber_wake_head s @ wake_head s t))
      ((pc s)(f := Cas_Free b))"
    using inv pc by (intro lists_wake [where tp = "fiber_wake_tail s"]) (simp_all add: mutex_inv_def)
  moreover have "count_inv (lock_state s) ((pc s)(f := Cas_Free b))" using count_keep [OF c] pc by simp
  moreover have "s' = s\<lparr>wake_head := (wake_head s)(t := fiber_wake_head s @ wake_head s t),
      fiber_wake_head := [], fiber_wake_tail := None\<rparr>"
    using w wake_sleepers_chain [of s "pc s" t] inv by (simp add: mutex_inv_def lists_inv_def)
  ultimately show ?thesis using inv by (simp add: mutex_inv_def)
qed

lemma notify_inv:
  assumes inv: "mutex_inv s" and pc: "pc s f = Critical" and cs: "cond_wake_head s = xs @ ys"
  shows "mutex_inv (s\<lparr>wake_head := (wake_head s)(t := xs @ wake_head s t), cond_wake_head := ys\<rparr>)"
proof -
  have "count_inv (lock_state s) (pc s)" using inv by (simp add: mutex_inv_def)
  then have own: "g = f" if "holding (pc s g)" for g
    using pc that unfolding count_inv_def by (metis holding.simps(1))
  have "pc s g = Cond_Asleep" if "waiting (pc s g)" for g
    using own [of g] that pc by (cases "pc s g") auto
  then have "lists_inv (fiber_wake_head s) (fiber_wake_tail s) ys
      ((wake_head s)(t := xs @ wake_head s t)) (pc s)"
    using inv cs by (intro lists_notify) (simp_all add: mutex_inv_def)
  then show ?thesis using inv by (simp add: mutex_inv_def)
qed

lemma notify_all_inv: "mutex_inv s \<Longrightarrow> pc s f = Critical \<Longrightarrow> mutex_inv (notify_all t s)"
  using notify_inv [of s f "cond_wake_head s" "[]" t] by (simp add: notify_all_def)

lemma notify_one_inv: "mutex_inv s \<Longrightarrow> pc s f = Critical \<Longrightarrow> mutex_inv (notify_one t s)"
  using notify_inv [of s f "[hd (cond_wake_head s)]" "tl (cond_wake_head s)" t]
  by (cases "cond_wake_head s") (simp_all add: notify_one_def)

lemma run_woken_inv:
  assumes inv: "mutex_inv s" and w: "wake_head s t = f # fs"
  shows "mutex_inv (run_woken t f s)"
proof -
  have "woken_inv (wake_head s) (pc s)" and c: "count_inv (lock_state s) (pc s)"
    using inv by (simp_all add: mutex_inv_def lists_inv_def)
  then have "pc s f = Asleep \<or> pc s f = Cond_Asleep" using wokenD(1) w by (metis list.set_intros(1))
  then have "count_inv (lock_state s) ((pc s)(f := Try_Lock))" using count_keep [OF c] by auto
  then show ?thesis
    using inv w by (simp add: mutex_inv_def run_woken_def lists_run)
qed

lemma mutex_step_inv: "mutex_step s s' \<Longrightarrow> mutex_inv s \<Longrightarrow> mutex_inv s'"
proof (induction rule: mutex_step.induct)
  case (call_lock s f)
  have "count_inv (lock_state s) ((pc s)(f := Try_Lock))"
    using call_lock by (intro count_keep) (simp_all add: mutex_inv_def)
  then show ?case
    using mutex_inv_move [of s f Try_Lock "lock_state s"] call_lock by (simp add: on_stack_def)
next
  case (spin s f)
  have "count_inv (lock_state s - 1) ((pc s)(f := Try_Lock))"
    using spin by (intro count_drop) (simp_all add: mutex_inv_def)
  then show ?case
    using mutex_inv_move [of s f Try_Lock "lock_state s - 1"] spin by (simp add: on_stack_def spin_back_def)
next
  case (call_unlock s f)
  have "count_inv (lock_state s) ((pc s)(f := Cas_Release False))"
    using call_unlock by (intro count_keep) (simp_all add: mutex_inv_def)
  then show ?case
    using mutex_inv_move [of s f "Cas_Release False" "lock_state s"] call_unlock by (simp add: on_stack_def)
next
  case (release s f b s')
  have "count_inv 2 ((pc s)(f := Wake b))"
    using release by (intro count_release) (simp_all add: mutex_inv_def cas_Some_iff)
  then show ?case
    using mutex_inv_move [of s f "Wake b" 2] release by (simp add: on_stack_def cas_Some_iff)
next
  case (free s f b s')
  have c: "count_inv 0 ((pc s)(f := if b then Cond_Asleep else Outside))"
    using free by (intro count_free) (simp_all add: mutex_inv_def cas_Some_iff)
  show ?case
  proof (cases b)
    case True
    then show ?thesis
      using free c by (simp add: mutex_inv_def cas_Some_iff lists_cond_asleep)
  next
    case False
    then show ?thesis
      using mutex_inv_move [of s f Outside 0] free c by (simp add: on_stack_def cas_Some_iff)
  qed
next
  case (spin_lock s f s')
  have "count_inv 2 ((pc s)(f := Spin_Held))"
    using count_acquire [of "pc s" Spin_Held f] spin_lock by (simp add: mutex_inv_def cas_Some_iff)
  then show ?case
    using mutex_inv_move [of s f Spin_Held 2] spin_lock by (simp add: on_stack_def cas_Some_iff)
next
  case (spin_unlock s f s')
  have "count_inv 0 ((pc s)(f := Outside))"
    using spin_unlock by (intro count_free) (simp_all add: mutex_inv_def cas_Some_iff)
  then show ?case
    using mutex_inv_move [of s f Outside 0] spin_unlock by (simp add: on_stack_def cas_Some_iff)
qed (auto intro: lock_turn_inv sleep_till_woken_inv mutex_suspend_inv cond_wait_inv unlock_wake_inv
    notify_all_inv notify_one_inv run_woken_inv)

lemma new_mutex_inv: "new_mutex s \<Longrightarrow> mutex_inv s"
  by (simp add: new_mutex_def mutex_inv_def count_inv_def total_def lists_inv_def list_invs)

section \<open>The specification of a lock\<close>

text \<open>
  A lock has at most one owner.  Fibers block while it is owned; the owner wakes them all before it
  gives up the lock, and moves waiting fibers to the woken ones with a notification.
\<close>

record 'f lock_view =
  owners :: "'f set"
  blocked :: "'f set"
  cond_waiters :: "'f set"
  woken :: "'f set"

inductive lock_spec :: "'f lock_view \<Rightarrow> 'f lock_view \<Rightarrow> bool" where
  acquire: "owners a = {} \<Longrightarrow> blocked a = {} \<Longrightarrow> lock_spec a (a\<lparr>owners := {f}\<rparr>)"
| block: "owners a = {h} \<Longrightarrow> f \<noteq> h \<Longrightarrow> lock_spec a (a\<lparr>blocked := insert f (blocked a)\<rparr>)"
| wait: "owners a = {f} \<Longrightarrow> lock_spec a (a\<lparr>cond_waiters := insert f (cond_waiters a)\<rparr>)"
| wake_blocked: "owners a = {f} \<Longrightarrow> lock_spec a (a\<lparr>blocked := {}, woken := woken a \<union> blocked a\<rparr>)"
| release: "owners a = {f} \<Longrightarrow> blocked a = {} \<Longrightarrow> lock_spec a (a\<lparr>owners := {}\<rparr>)"
| notify: "owners a = {f} \<Longrightarrow> f \<notin> W \<Longrightarrow> W \<subseteq> cond_waiters a \<Longrightarrow>
    lock_spec a (a\<lparr>cond_waiters := cond_waiters a - W, woken := woken a \<union> W\<rparr>)"
| resume: "f \<in> woken a \<Longrightarrow> lock_spec a (a\<lparr>woken := woken a - {f}\<rparr>)"

definition lock_view_of :: "('f, 't) mutex_sys \<Rightarrow> 'f lock_view" where
  "lock_view_of s =
     \<lparr> owners = {f. holding (pc s f)}, blocked = set (fiber_wake_head s),
       cond_waiters = set (cond_wake_head s), woken = (\<Union>t. set (wake_head s t)) \<rparr>"

lemma owner_unique:
  assumes "mutex_inv s" "holding (pc s f)"
  shows "{g. holding (pc s g)} = {f}"
  using assms unfolding mutex_inv_def count_inv_def by blast

lemma no_owner:
  assumes "mutex_inv s" "lock_state s = 0"
  shows "\<not> holding (pc s f)"
proof -
  have "weight (pc s f) = 0" using assms by (intro count_zero) (simp add: mutex_inv_def)
  then show ?thesis using holding_weight by fastforce
qed

lemma blocked_owner:
  assumes "mutex_inv s" "holding (pc s f)" "\<not> will_wake (pc s f)"
  shows "fiber_wake_head s = []"
proof (rule ccontr)
  assume "fiber_wake_head s \<noteq> []"
  then obtain h where "will_wake (pc s h)"
    using assms(1) by (auto simp: mutex_inv_def lists_inv_def sleepers_inv_def)
  then have "holding (pc s h)" by (rule will_wake_holding)
  then have "h = f" using owner_unique [OF assms(1,2)] by blast
  then show False using \<open>will_wake (pc s h)\<close> assms(3) by simp
qed

lemma unowned_blocked:
  assumes "mutex_inv s" "lock_state s = 0"
  shows "fiber_wake_head s = []"
proof (rule ccontr)
  assume "fiber_wake_head s \<noteq> []"
  then obtain h where "will_wake (pc s h)"
    using assms(1) by (auto simp: mutex_inv_def lists_inv_def sleepers_inv_def)
  then have "holding (pc s h)" by (rule will_wake_holding)
  then show False using no_owner [OF assms] by simp
qed

lemma step_spec_lock_turn:
  assumes "mutex_inv s" "pc s f = Try_Lock"
  shows "lock_view_of (lock_turn f s) = lock_view_of s \<or> lock_spec (lock_view_of s) (lock_view_of (lock_turn f s))"
proof (cases "lock_state s = 0")
  case True
  have "lock_view_of (lock_turn f s) = (lock_view_of s)\<lparr>owners := {f}\<rparr>"
    using True no_owner [OF assms(1) True] by (auto simp: lock_view_of_def lock_turn_def)
  moreover have "owners (lock_view_of s) = {}" "blocked (lock_view_of s) = {}"
    using no_owner [OF assms(1) True] unowned_blocked [OF assms(1) True] by (simp_all add: lock_view_of_def)
  ultimately show ?thesis using lock_spec.acquire by metis
next
  case False
  then have "lock_view_of (lock_turn f s) = lock_view_of s"
    using assms(2) by (auto simp: lock_view_of_def lock_turn_def Let_def)
  then show ?thesis by simp
qed

lemma view_goes:
  assumes "holding x = holding (pc s f)"
  shows "lock_view_of (goes f x s) = lock_view_of s"
proof -
  have "holding (((pc s)(f := x)) g) = holding (pc s g)" for g using assms by simp
  then show ?thesis by (simp add: lock_view_of_def del: fun_upd_apply)
qed

lemma view_state [simp]: "lock_view_of (s\<lparr>lock_state := n\<rparr>) = lock_view_of s"
  by (simp add: lock_view_of_def)

lemma union_woken:
  "(\<Union>u. set ((w(t := xs @ w t)) u)) = (\<Union>u. set (w u)) \<union> set xs"
  by (auto split: if_splits)

lemma step_spec_notify:
  assumes "mutex_inv s" "pc s f = Critical" "cond_wake_head s = xs @ ys"
  shows "lock_spec (lock_view_of s)
    (lock_view_of (s\<lparr>wake_head := (wake_head s)(t := xs @ wake_head s t), cond_wake_head := ys\<rparr>))"
proof -
  have wt: "waiters_inv (xs @ ys) (pc s)" using assms(1,3) by (simp add: mutex_inv_def lists_inv_def)
  have f: "f \<notin> set xs" using not_waiter [OF wt, of f] assms(2) by simp
  have d: "set ys = set (xs @ ys) - set xs" using wt by (auto simp: waiters_inv_def)
  have "lock_view_of (s\<lparr>wake_head := (wake_head s)(t := xs @ wake_head s t), cond_wake_head := ys\<rparr>) =
      (lock_view_of s)\<lparr>cond_waiters := cond_waiters (lock_view_of s) - set xs,
        woken := woken (lock_view_of s) \<union> set xs\<rparr>"
    using assms(3) d by (simp add: lock_view_of_def union_woken del: fun_upd_apply set_append)
  moreover have "owners (lock_view_of s) = {f}"
    using owner_unique [OF assms(1), of f] assms(2) by (simp add: lock_view_of_def)
  moreover have "set xs \<subseteq> cond_waiters (lock_view_of s)" using assms(3) by (simp add: lock_view_of_def)
  ultimately show ?thesis using lock_spec.notify f by metis
qed

lemma step_spec_release:
  assumes "mutex_inv s" "holding (pc s f)" "\<not> will_wake (pc s f)" "\<not> holding x"
  shows "lock_spec (lock_view_of s) (lock_view_of (goes f x (s\<lparr>lock_state := n\<rparr>)))"
proof -
  have o: "{g. holding (pc s g)} = {f}" by (rule owner_unique [OF assms(1,2)])
  then have "\<not> holding (((pc s)(f := x)) g)" for g using assms(4) by (cases "g = f") auto
  then have "lock_view_of (goes f x (s\<lparr>lock_state := n\<rparr>)) = (lock_view_of s)\<lparr>owners := {}\<rparr>"
    by (simp add: lock_view_of_def del: fun_upd_apply)
  moreover have "owners (lock_view_of s) = {f}" "blocked (lock_view_of s) = {}"
    using o blocked_owner [OF assms(1-3)] by (simp_all add: lock_view_of_def)
  ultimately show ?thesis using lock_spec.release by metis
qed

lemma step_spec_enqueue:
  assumes inv: "mutex_inv s" and pc: "pc s f = Enqueue"
  shows "lock_spec (lock_view_of s) (lock_view_of (sleep_till_woken f s))"
proof -
  obtain h where h: "holding (pc s h)"
    using inv pc unfolding mutex_inv_def count_inv_def by (metis weight.simps(1) zero_neq_one)
  then have "owners (lock_view_of s) = {h}" "f \<noteq> h"
    using owner_unique [OF inv h] pc by (auto simp: lock_view_of_def)
  moreover have "lock_view_of (sleep_till_woken f s) =
      (lock_view_of s)\<lparr>blocked := insert f (blocked (lock_view_of s))\<rparr>"
    using pc by (auto simp: lock_view_of_def sleep_till_woken_def Let_def)
  ultimately show ?thesis using lock_spec.block by metis
qed

lemma step_spec_wait:
  assumes inv: "mutex_inv s" and pc: "pc s f = Critical"
  shows "lock_spec (lock_view_of s) (lock_view_of (cond_wait f s))"
proof -
  have "owners (lock_view_of s) = {f}" using owner_unique [OF inv, of f] pc by (simp add: lock_view_of_def)
  moreover have "lock_view_of (cond_wait f s) =
      (lock_view_of s)\<lparr>cond_waiters := insert f (cond_waiters (lock_view_of s))\<rparr>"
    using pc by (auto simp: lock_view_of_def cond_wait_def)
  ultimately show ?thesis using lock_spec.wait by metis
qed

lemma step_spec_wake:
  assumes inv: "mutex_inv s" and pc: "pc s f = Wake b" and w: "unlock_wake t s = Some s'"
  shows "lock_spec (lock_view_of s) (lock_view_of (goes f (Cas_Free b) s'))"
proof -
  have "owners (lock_view_of s) = {f}" using owner_unique [OF inv, of f] pc by (simp add: lock_view_of_def)
  moreover have s': "s' = s\<lparr>wake_head := (wake_head s)(t := fiber_wake_head s @ wake_head s t),
      fiber_wake_head := [], fiber_wake_tail := None\<rparr>"
    using w wake_sleepers_chain [of s "pc s" t] inv by (simp add: mutex_inv_def lists_inv_def)
  have "holding (((pc s)(f := Cas_Free b)) g) = holding (pc s g)" for g using pc by simp
  then have "lock_view_of (goes f (Cas_Free b) s') = (lock_view_of s)\<lparr>blocked := {},
      woken := woken (lock_view_of s) \<union> blocked (lock_view_of s)\<rparr>"
    by (simp add: s' lock_view_of_def union_woken del: fun_upd_apply)
  ultimately show ?thesis using lock_spec.wake_blocked by metis
qed

lemma step_spec_run:
  assumes inv: "mutex_inv s" and w: "wake_head s t = f # fs"
  shows "lock_spec (lock_view_of s) (lock_view_of (run_woken t f s))"
proof -
  have wk: "woken_inv (wake_head s) (pc s)" using inv by (simp add: mutex_inv_def lists_inv_def)
  have "\<not> holding (pc s f)" using wokenD(1) [OF wk, of f t] w by auto
  then have h: "holding (((pc s)(f := Try_Lock)) g) = holding (pc s g)" for g by simp
  have "f \<notin> set fs" using wokenD(2) [OF wk, of t] w by simp
  moreover have "f \<notin> set (wake_head s u)" if "u \<noteq> t" for u using wokenD(3) [OF wk that] w by auto
  ultimately have "set (((wake_head s)(t := fs)) u) = set (wake_head s u) - {f}" for u
    using w by (cases "u = t") auto
  then have "(\<Union>u. set (((wake_head s)(t := fs)) u)) = (\<Union>u. set (wake_head s u)) - {f}"
    by (simp del: fun_upd_apply)
  then have "lock_view_of (run_woken t f s) = (lock_view_of s)\<lparr>woken := woken (lock_view_of s) - {f}\<rparr>"
    using h w by (simp add: lock_view_of_def run_woken_def del: fun_upd_apply)
  moreover have "f \<in> set (wake_head s t)" using w by simp
  then have "f \<in> woken (lock_view_of s)" by (auto simp: lock_view_of_def)
  ultimately show ?thesis using lock_spec.resume by metis
qed

lemma step_simulated:
  "mutex_step s s' \<Longrightarrow> mutex_inv s \<Longrightarrow>
     lock_view_of s' = lock_view_of s \<or> lock_spec (lock_view_of s) (lock_view_of s')"
proof (induction rule: mutex_step.induct)
  case (try_lock s f)
  then show ?case by (intro step_spec_lock_turn)
next
  case (notify_all s f t)
  then show ?case
    using step_spec_notify [of s f "cond_wake_head s" "[]" t] by (simp add: notify_all_def)
next
  case (notify_one s f t)
  then show ?case
    using step_spec_notify [of s f "[hd (cond_wake_head s)]" "tl (cond_wake_head s)" t]
    by (cases "cond_wake_head s") (simp_all add: notify_one_def)
next
  case (spin_lock s f s')
  have s: "lock_state s = 0" "s' = s\<lparr>lock_state := 2\<rparr>" using spin_lock by (simp_all add: cas_Some_iff)
  have "\<not> holding (pc s g)" for g using spin_lock(3) s(1) by (rule no_owner)
  then have "lock_view_of (goes f Spin_Held s') = (lock_view_of s)\<lparr>owners := {f}\<rparr>"
      "owners (lock_view_of s) = {}" "blocked (lock_view_of s) = {}"
    using unowned_blocked [OF spin_lock(3) s(1)] by (auto simp: lock_view_of_def s(2))
  then show ?case using lock_spec.acquire by metis
next
  case (free s f b s')
  then show ?case
    using step_spec_release [of s f "if b then Cond_Asleep else Outside" 0] by (simp add: cas_Some_iff)
next
  case (spin_unlock s f s')
  then show ?case using step_spec_release [of s f Outside 0] by (simp add: cas_Some_iff)
qed (auto simp: view_goes cas_Some_iff spin_back_def mutex_suspend_def
    intro: step_spec_lock_turn step_spec_enqueue step_spec_wait step_spec_wake step_spec_run)

interpretation fiber_mutex: forward_simulation new_mutex mutex_step mutex_inv lock_spec lock_view_of
  by unfold_locales (rule new_mutex_inv, assumption, rule mutex_step_inv, assumption+,
    rule step_simulated, assumption+)

section \<open>Progress\<close>

text \<open>
  The fibers that stand in the way of the owner's compare-and-exchange are on their way back:
  after finitely many steps of theirs the counter is one.
\<close>

lemma mutex_steps_inv: "mutex_step\<^sup>*\<^sup>* s s' \<Longrightarrow> mutex_inv s \<Longrightarrow> mutex_inv s'"
  by (rule fiber_mutex.steps_inv)

lemma in_the_way:
  assumes "mutex_inv s" "pc s f = Cas_Release b" "lock_state s \<noteq> 1"
  obtains g where "g \<noteq> f" "pc s g \<in> {Enqueue, Suspend, Spin}"
proof -
  have c: "count_inv (lock_state s) (pc s)" using assms(1) by (simp add: mutex_inv_def)
  then have fin: "finite {g. weight (pc s g) \<noteq> 0}" "lock_state s = total (pc s)" by (simp_all add: count_inv_def)
  have "\<exists>g. g \<noteq> f \<and> weight (pc s g) \<noteq> 0"
  proof (rule ccontr)
    assume "\<not> (\<exists>g. g \<noteq> f \<and> weight (pc s g) \<noteq> 0)"
    then have "{g. weight (pc s g) \<noteq> 0 \<and> g \<noteq> f} = {}" by blast
    then show False using total_other [OF fin(1), of f] fin(2) assms(2,3) by (simp only: sum.empty) simp
  qed
  then obtain g where g: "g \<noteq> f" "weight (pc s g) \<noteq> 0" by blast
  have "\<not> holding (pc s g)" using owner_unique [OF assms(1), of f] assms(2) g(1) by auto
  then have "pc s g \<in> {Enqueue, Suspend, Spin}" using g(2) by (cases "pc s g") auto
  with g(1) show ?thesis by (rule that)
qed

lemma step_back:
  assumes "mutex_inv s" "pc s g \<in> {Enqueue, Suspend, Spin}"
  obtains s' where "mutex_step\<^sup>*\<^sup>* s s'" "lock_state s' = lock_state s - 1"
    "\<And>f. f \<noteq> g \<Longrightarrow> pc s' f = pc s f"
proof -
  consider "pc s g = Spin" | "pc s g = Suspend" | "pc s g = Enqueue" using assms(2) by blast
  then show ?thesis
  proof cases
    case 1
    from mutex_step.spin [of s g, OF this] show ?thesis
      by (intro that [of "spin_back g s"]) (auto simp: spin_back_def)
  next
    case 2
    from mutex_step.suspend [of s g, OF this] show ?thesis
      by (intro that [of "mutex_suspend g s"]) (auto simp: mutex_suspend_def)
  next
    case 3
    let ?s = "sleep_till_woken g s"
    have "mutex_step s ?s" using 3 by (rule mutex_step.enqueue)
    moreover have "pc ?s g = Suspend" by (simp add: sleep_till_woken_def Let_def)
    then have "mutex_step ?s (mutex_suspend g ?s)" by (rule mutex_step.suspend)
    ultimately have "mutex_step\<^sup>*\<^sup>* s (mutex_suspend g ?s)" by (meson converse_rtranclp_into_rtranclp r_into_rtranclp)
    then show ?thesis
      by (rule that) (auto simp: mutex_suspend_def sleep_till_woken_def Let_def)
  qed
qed

lemma drain:
  assumes "mutex_inv s" "pc s f = Cas_Release b"
  shows "\<exists>s'. mutex_step\<^sup>*\<^sup>* s s' \<and> lock_state s' = 1 \<and> pc s' f = Cas_Release b \<and>
    (\<forall>g. pc s g = Asleep \<longrightarrow> pc s' g = Asleep)"
  using assms
proof (induction "nat (lock_state s)" arbitrary: s rule: less_induct)
  case less
  show ?case
  proof (cases "lock_state s = 1")
    case True
    then show ?thesis using less.prems by blast
  next
    case False
    obtain g where g: "g \<noteq> f" "pc s g \<in> {Enqueue, Suspend, Spin}"
      using in_the_way [OF less.prems False] .
    obtain s1 where s1: "mutex_step\<^sup>*\<^sup>* s s1" "lock_state s1 = lock_state s - 1"
        "\<And>f. f \<noteq> g \<Longrightarrow> pc s1 f = pc s f"
      using step_back [OF less.prems(1) g(2)] by blast
    have inv1: "mutex_inv s1" using s1(1) less.prems(1) by (rule mutex_steps_inv)
    have "1 \<le> lock_state s"
      using less.prems total_ge [of "pc s" f] by (auto simp: mutex_inv_def count_inv_def)
    then have "nat (lock_state s1) < nat (lock_state s)" using s1(2) by simp
    moreover have "pc s1 f = Cas_Release b" using s1(3) g(1) less.prems(2) by auto
    ultimately obtain s' where "mutex_step\<^sup>*\<^sup>* s1 s'" "lock_state s' = 1" "pc s' f = Cas_Release b"
        "\<forall>h. pc s1 h = Asleep \<longrightarrow> pc s' h = Asleep"
      using less.hyps inv1 by blast
    moreover have "pc s1 h = Asleep" if "pc s h = Asleep" for h
    proof -
      have "h \<noteq> g" using that g(2) by auto
      then show ?thesis using s1(3) that by simp
    qed
    ultimately show ?thesis using s1(1) by (meson rtranclp_trans)
  qed
qed

lemma woken_after_wake:
  assumes inv: "mutex_inv s" and f: "pc s f = Wake b" and g: "pc s g = Asleep"
  shows "\<exists>s'. mutex_step s s' \<and> pc s' g = Asleep \<and> (\<exists>t. g \<in> set (wake_head s' t))"
proof -
  let ?s1 = "\<lambda>t. s\<lparr>wake_head := (wake_head s)(t := fiber_wake_head s @ wake_head s t),
      fiber_wake_head := [], fiber_wake_tail := None\<rparr>"
  have "unlock_wake t s = Some (?s1 t)" for t
    using wake_sleepers_chain [of s "pc s" t] inv by (simp add: mutex_inv_def lists_inv_def)
  then have st: "mutex_step s (goes f (Cas_Free b) (?s1 t))" for t by (rule mutex_step.wake [OF f])
  have "g \<in> set (fiber_wake_head s) \<or> (\<exists>u. g \<in> set (wake_head s u))"
    using inv g by (auto simp: mutex_inv_def lists_inv_def place_inv_def)
  moreover have "g \<in> set (wake_head (?s1 t) t)" if "g \<in> set (fiber_wake_head s)" for t using that by simp
  moreover have "g \<in> set (wake_head (?s1 t) t)" if "g \<in> set (wake_head s t)" for t using that by simp
  ultimately obtain t where "g \<in> set (wake_head (?s1 t) t)" by blast
  then show ?thesis using st [of t] g f by (intro exI [of _ "goes f (Cas_Free b) (?s1 t)"]) auto
qed

lemma woken_after_release:
  assumes inv: "mutex_inv s" and f: "pc s f = Cas_Release b" and g: "pc s g = Asleep"
  shows "\<exists>s'. mutex_step\<^sup>*\<^sup>* s s' \<and> pc s' g = Asleep \<and> (\<exists>t. g \<in> set (wake_head s' t))"
proof -
  obtain s1 where s1: "mutex_step\<^sup>*\<^sup>* s s1" "lock_state s1 = 1" "pc s1 f = Cas_Release b" "pc s1 g = Asleep"
    using drain [OF inv f] g by blast
  let ?s2 = "goes f (Wake b) (s1\<lparr>lock_state := 2\<rparr>)"
  have st: "mutex_step s1 ?s2" using s1(2,3) by (intro mutex_step.release) (simp_all add: cas_def)
  have "g \<noteq> f" using s1(3,4) by auto
  have "mutex_inv ?s2" using st mutex_steps_inv [OF s1(1) inv] by (rule mutex_step_inv)
  then obtain s' where "mutex_step ?s2 s'" "pc s' g = Asleep" "\<exists>t. g \<in> set (wake_head s' t)"
    using woken_after_wake [of ?s2 f b g] s1(4) \<open>g \<noteq> f\<close> by auto
  then show ?thesis using s1(1) st by (meson rtranclp.rtrancl_into_rtrancl)
qed

section \<open>Properties\<close>

text \<open>The places in which a fiber, or its parent on its behalf, handles the list of the mutex.\<close>

fun handles_list :: "fiber_pc \<Rightarrow> bool" where
  "handles_list Enqueue \<longleftrightarrow> True"
| "handles_list Suspend \<longleftrightarrow> True"
| "handles_list (Wake b) \<longleftrightarrow> True"
| "handles_list (Cas_Free b) \<longleftrightarrow> True"
| "handles_list p \<longleftrightarrow> False"

lemma handles_list_cases: "handles_list p \<longleftrightarrow> queuing p \<or> holding p \<and> weight p = 2 \<and> p \<noteq> Spin_Held"
  by (cases p) auto

text \<open>
  C7: in every state that fibers reach by locking, unlocking, waiting and notifying in any
  interleaving of their atomic steps, at most one fiber owns the mutex, at most one handles its
  list, and \<open>state_\<close> is zero exactly when nobody owns it.
\<close>

theorem mutex_exclusive:
  assumes "new_mutex s\<^sub>0" "mutex_step\<^sup>*\<^sup>* s\<^sub>0 s"
  shows "(holding (pc s f) \<and> holding (pc s g) \<longrightarrow> f = g) \<and>
    (handles_list (pc s f) \<and> handles_list (pc s g) \<longrightarrow> f = g) \<and>
    (lock_state s = 0 \<longleftrightarrow> (\<forall>h. \<not> holding (pc s h)))"
proof (intro conjI)
  have inv: "mutex_inv s" using fiber_mutex.reachable_inv [OF assms(2,1)] .
  then have c: "count_inv (lock_state s) (pc s)" by (simp add: mutex_inv_def)
  show "holding (pc s f) \<and> holding (pc s g) \<longrightarrow> f = g" using c unfolding count_inv_def by blast
  have "False" if "queuing (pc s h)" "holding (pc s h')" "weight (pc s h') = 2" for h h'
  proof -
    have "weight (pc s h') = 1" using c that(1,2) unfolding count_inv_def by blast
    then show False using that(3) by simp
  qed
  then show "handles_list (pc s f) \<and> handles_list (pc s g) \<longrightarrow> f = g"
    using c unfolding handles_list_cases count_inv_def by blast
  show "lock_state s = 0 \<longleftrightarrow> (\<forall>h. \<not> holding (pc s h))"
    using no_owner [OF inv] count_owner [OF c] by blast
qed

text \<open>Two fibers: the first one owns the mutex, the second one has gone to sleep.\<close>

definition mutex0 :: "(nat, unit) mutex_sys" where
  "mutex0 = \<lparr> lock_state = 0, fiber_wake_head = [], fiber_wake_tail = None, cond_wake_head = [],
     wake_head = (\<lambda>_. []), pc = (\<lambda>_. Outside) \<rparr>"

definition mutex1 :: "(nat, unit) mutex_sys" where
  "mutex1 = mutex_suspend 3 (sleep_till_woken 3 (lock_turn 3 (goes 3 Try_Lock
     (lock_turn 2 (goes 2 Try_Lock mutex0)))))"

lemmas mutex_ops = mutex_suspend_def sleep_till_woken_def lock_turn_def goes_def Let_def

lemma new_mutex0: "new_mutex mutex0"
  by (simp add: new_mutex_def mutex0_def)

lemma mutex1_reachable: "mutex_step\<^sup>*\<^sup>* mutex0 mutex1"
  unfolding mutex1_def
  by (rule rtranclp.rtrancl_into_rtrancl [rotated], rule mutex_step.suspend, simp add: mutex0_def mutex_ops,
      rule rtranclp.rtrancl_into_rtrancl [rotated], rule mutex_step.enqueue, simp add: mutex0_def mutex_ops,
      rule rtranclp.rtrancl_into_rtrancl [rotated], rule mutex_step.try_lock, simp add: mutex0_def mutex_ops,
      rule rtranclp.rtrancl_into_rtrancl [rotated], rule mutex_step.call_lock, simp add: mutex0_def mutex_ops,
      rule rtranclp.rtrancl_into_rtrancl [rotated], rule mutex_step.try_lock, simp add: mutex0_def mutex_ops,
      rule r_into_rtranclp, rule mutex_step.call_lock, simp add: mutex0_def mutex_ops)

lemma mutex1_facts:
  "pc mutex1 2 = Critical" "pc mutex1 3 = Asleep" "fiber_wake_head mutex1 = [3]"
  "wake_head mutex1 t = []" "lock_state mutex1 = 1" "cond_wake_head mutex1 = []"
  "holding (pc mutex1 f) \<longleftrightarrow> f = 2"
  by (simp_all add: mutex1_def mutex0_def mutex_ops)

theorem mutex_exclusive_witness:
  "pc mutex1 2 = Critical \<and> \<not> holding (pc mutex1 3) \<and> lock_state mutex1 \<noteq> 0"
proof -
  have "holding (pc mutex1 2)" "(2 :: nat) \<noteq> 3" by (simp_all add: mutex1_facts(1))
  then show ?thesis
    using mutex_exclusive [OF new_mutex0 mutex1_reachable, of 2 3] mutex1_facts(1) by blast
qed

lemma sleeper_owner:
  assumes "sleepers_inv fs tp p" "g \<in> set fs"
  shows "\<exists>h b. p h \<in> {Critical, Cas_Release b, Wake b}"
proof -
  have "fs \<noteq> []" using assms(2) by auto
  then obtain h where "will_wake (p h)" using assms(1) unfolding sleepers_inv_def by blast
  then have "\<exists>b. p h \<in> {Critical, Cas_Release b, Wake b}" by (cases "p h") auto
  then show ?thesis by blast
qed

text \<open>
  C8: no wakeup is lost.  In every reachable state a fiber that sleeps for the mutex is on the wake
  list of a thread, or it is on the list of the mutex and there is an owner that has still to wake
  that list before it gives up the mutex; a fiber that waits for the condition is on the list of
  the condition from before the mutex is released until a notification moves it to the wake
  list of a thread; and no fiber is on two lists or twice on one.
\<close>

theorem no_lost_wakeup:
  assumes "new_mutex s\<^sub>0" "mutex_step\<^sup>*\<^sup>* s\<^sub>0 s"
  shows "(pc s g = Asleep \<longrightarrow> (\<exists>t. g \<in> set (wake_head s t)) \<or>
      g \<in> set (fiber_wake_head s) \<and> (\<exists>h b. pc s h \<in> {Critical, Cas_Release b, Wake b})) \<and>
    (waiting (pc s g) \<longrightarrow> (\<exists>t. g \<in> set (wake_head s t)) \<or> g \<in> set (cond_wake_head s)) \<and>
    distinct (fiber_wake_head s @ cond_wake_head s @ wake_head s t) \<and>
    (t \<noteq> u \<longrightarrow> set (wake_head s t) \<inter> set (wake_head s u) = {})"
proof -
  have "mutex_inv s" using fiber_mutex.reachable_inv [OF assms(2,1)] .
  then have inv: "sleepers_inv (fiber_wake_head s) (fiber_wake_tail s) (pc s)"
      "waiters_inv (cond_wake_head s) (pc s)" "woken_inv (wake_head s) (pc s)"
      "place_inv (fiber_wake_head s) (cond_wake_head s) (wake_head s) (pc s)"
    by (simp_all add: mutex_inv_def lists_inv_def)
  note own = sleeper_owner [OF inv(1), of g]
  have "set (fiber_wake_head s) \<inter> set (cond_wake_head s) = {}"
  proof -
    have "\<not> waiting (pc s h)" if "h \<in> set (fiber_wake_head s)" for h
      using inv(1) that unfolding sleepers_inv_def by fastforce
    then show ?thesis using not_waiter [OF inv(2)] by blast
  qed
  then have "distinct (fiber_wake_head s @ cond_wake_head s @ wake_head s t)"
    using inv wokenD(2) [OF inv(3), of t] by (auto simp: sleepers_inv_def waiters_inv_def place_inv_def)
  then show ?thesis
    using inv own wokenD(3) [OF inv(3), of t u] unfolding place_inv_def waiters_inv_def by blast
qed

theorem no_lost_wakeup_witness:
  "pc mutex1 3 = Asleep \<and> 3 \<in> set (fiber_wake_head mutex1) \<and>
   (\<exists>h b. pc mutex1 h \<in> {Critical, Cas_Release b, Wake b})"
  using no_lost_wakeup [OF new_mutex0 mutex1_reachable, of 3] mutex1_facts(2-4) by simp

text \<open>
  C9: the mutex and the condition refine the specification of a lock: every run of the fibers from a
  new mutex is, step by step, a run of the specification, in which only an unowned lock is acquired,
  a fiber blocks only while another one owns the lock, and the owner wakes all blocked fibers before
  it releases the lock.
\<close>

theorem mutex_refines_lock:
  assumes "new_mutex s\<^sub>0" "mutex_step\<^sup>*\<^sup>* s\<^sub>0 s"
  shows "lock_view_of s\<^sub>0 = \<lparr> owners = {}, blocked = {}, cond_waiters = {}, woken = {} \<rparr> \<and>
    lock_spec\<^sup>*\<^sup>* (lock_view_of s\<^sub>0) (lock_view_of s)"
  using fiber_mutex.run_simulated [OF assms(2,1)] assms(1) by (simp add: lock_view_of_def new_mutex_def)

theorem mutex_refines_lock_witness:
  "lock_spec\<^sup>*\<^sup>* (lock_view_of mutex0) \<lparr> owners = {2}, blocked = {3}, cond_waiters = {}, woken = {} \<rparr>"
proof -
  have "lock_view_of mutex1 = \<lparr> owners = {2}, blocked = {3}, cond_waiters = {}, woken = {} \<rparr>"
    by (simp add: lock_view_of_def mutex1_facts)
  then show ?thesis using mutex_refines_lock [OF new_mutex0 mutex1_reachable] by metis
qed

text \<open>
  C10: a sleeping fiber can always be woken: from every reachable state in which it sleeps there is a
  run after which it is on the wake list of a thread.
\<close>

theorem sleeper_can_be_woken:
  assumes "new_mutex s\<^sub>0" "mutex_step\<^sup>*\<^sup>* s\<^sub>0 s" "pc s g = Asleep"
  shows "\<exists>s'. mutex_step\<^sup>*\<^sup>* s s' \<and> pc s' g = Asleep \<and> (\<exists>t. g \<in> set (wake_head s' t))"
proof -
  have inv: "mutex_inv s" using fiber_mutex.reachable_inv [OF assms(2,1)] .
  then have sl: "sleepers_inv (fiber_wake_head s) (fiber_wake_tail s) (pc s)"
      "g \<in> set (fiber_wake_head s) \<or> (\<exists>t. g \<in> set (wake_head s t))"
    using assms(3) by (auto simp: mutex_inv_def lists_inv_def place_inv_def)
  consider "\<exists>t. g \<in> set (wake_head s t)" | h b where "pc s h \<in> {Critical, Cas_Release b, Wake b}"
    using sl(2) sleeper_owner [OF sl(1), of g] by blast
  then show ?thesis
  proof cases
    case 1
    then show ?thesis using assms(3) by blast
  next
    case 2
    then consider "pc s h = Critical" | "pc s h = Cas_Release b" | "pc s h = Wake b" by blast
    then show ?thesis
    proof cases
      case 1
      let ?s = "goes h (Cas_Release False) s"
      have st: "mutex_step s ?s" using 1 by (rule mutex_step.call_unlock)
      have "pc ?s g = Asleep" using 1 assms(3) by auto
      then obtain s' where "mutex_step\<^sup>*\<^sup>* ?s s'" "pc s' g = Asleep" "\<exists>t. g \<in> set (wake_head s' t)"
        using woken_after_release [OF mutex_step_inv [OF st inv], of h False g] by auto
      then show ?thesis using st by (meson converse_rtranclp_into_rtranclp)
    next
      case 2
      then show ?thesis using woken_after_release [OF inv] assms(3) by blast
    next
      case 3
      then show ?thesis using woken_after_wake [OF inv] assms(3) by blast
    qed
  qed
qed

theorem sleeper_can_be_woken_witness:
  "\<exists>s'. mutex_step\<^sup>*\<^sup>* mutex1 s' \<and> pc s' 3 = Asleep \<and> 3 \<in> set (wake_head s' ())"
  using sleeper_can_be_woken [OF new_mutex0 mutex1_reachable mutex1_facts(2)] by simp

end
