(* ===== verification/Fiber_Pipe.thy ===== *)
theory Fiber_Pipe
  imports Prelude Time_Utils
begin

text \<open>
  The pipes of fibers, \<open>fiber_pipe\<close> in \<open>src/cpp/fiber.cpp\<close>: the loops of \<open>read\<close> and \<open>write\<close> around the
  system calls, the doubly linked list of all pipes, and the sweep that times out the pipes whose
  fiber has waited for too long.
\<close>

section \<open>Reading and writing\<close>

text \<open>
  One turn of a loop: the result of the system call, whether the remote end has hung up by then,
  and, where the fiber goes to sleep, whether it is woken by the timeout.
\<close>

datatype sys_result = Sys_Bytes "byte list" | Sys_Count nat | Sys_Errno int

record io_turn =
  t_result :: sys_result
  t_hangup :: bool
  t_timeout :: bool

definition EAGAIN :: int where "EAGAIN = 11"

text \<open>How a call ends: it returns, throws one of the two exceptions, or still sleeps.\<close>

datatype 'a io_outcome = Io_Done 'a | Io_Error | Io_Timeout | Io_Asleep

fun pipe_read :: "nat \<Rightarrow> io_turn list \<Rightarrow> byte list io_outcome" where
  "pipe_read count [] = Io_Asleep"
| "pipe_read count (t # ts) =
     (case t_result t of
        Sys_Errno e \<Rightarrow>
          if t_hangup t then Io_Error
          else if e = EAGAIN then (if t_timeout t then Io_Timeout else pipe_read count ts)
          else Io_Error
      | Sys_Bytes bs \<Rightarrow> if length bs = 0 \<and> count \<noteq> 0 then Io_Error else Io_Done bs
      | Sys_Count n \<Rightarrow> Io_Error)"

text \<open>The result is the outcome and the bytes that the kernel has accepted.\<close>

fun pipe_write :: "byte list \<Rightarrow> nat \<Rightarrow> io_turn list \<Rightarrow> unit io_outcome \<times> byte list" where
  "pipe_write buf written [] =
     (if written < length buf then (Io_Asleep, take written buf) else (Io_Done (), take written buf))"
| "pipe_write buf written (t # ts) =
     (if written < length buf then
        if t_hangup t then (Io_Error, take written buf)
        else (case t_result t of
            Sys_Errno e \<Rightarrow>
              if e = EAGAIN then
                (if t_timeout t then (Io_Timeout, take written buf) else pipe_write buf written ts)
              else (Io_Error, take written buf)
          | Sys_Count n \<Rightarrow>
              if n = 0 \<and> length buf \<noteq> 0 then (Io_Error, take written buf)
              else pipe_write buf (written + n) ts
          | Sys_Bytes bs \<Rightarrow> (Io_Error, take written buf))
      else (Io_Done (), take written buf))"

text \<open>What the system calls may return: at most as many bytes as were asked for.\<close>

definition read_turn :: "nat \<Rightarrow> io_turn \<Rightarrow> bool" where
  "read_turn count t \<longleftrightarrow> (case t_result t of Sys_Bytes bs \<Rightarrow> length bs \<le> count | Sys_Count n \<Rightarrow> False | Sys_Errno e \<Rightarrow> True)"

section \<open>The list of pipes\<close>

text \<open>The links of all pipes, and the static \<open>first_\<close>.\<close>

record 'p pipe_links =
  nxt :: "'p \<Rightarrow> 'p option"
  prv :: "'p \<Rightarrow> 'p option"
  first_pipe :: "'p option"

text \<open>The end of the constructor, and the removal in the destructor and in the sweep.\<close>

definition link_pipe :: "'p \<Rightarrow> 'p pipe_links \<Rightarrow> 'p pipe_links" where
  "link_pipe p h =
     (let h = h\<lparr>nxt := (nxt h)(p := first_pipe h)\<rparr>;
          h = (case nxt h p of None \<Rightarrow> h | Some q \<Rightarrow> h\<lparr>prv := (prv h)(q := Some p)\<rparr>);
          h = h\<lparr>prv := (prv h)(p := None)\<rparr>
      in h\<lparr>first_pipe := Some p\<rparr>)"

definition unlink_pipe :: "'p \<Rightarrow> 'p pipe_links \<Rightarrow> 'p pipe_links" where
  "unlink_pipe p h =
     (let h = (case nxt h p of None \<Rightarrow> h | Some q \<Rightarrow> h\<lparr>prv := (prv h)(q := prv h p)\<rparr>)
      in case prv h p of
           None \<Rightarrow> h\<lparr>first_pipe := nxt h p\<rparr>
         | Some q \<Rightarrow> h\<lparr>nxt := (nxt h)(q := nxt h p)\<rparr>)"

section \<open>Sleeping and the sweep\<close>

record 'f pipe_state =
  io_fiber :: "'f option"
  max_io_block_time :: int
  io_timeout :: timespec
  attached :: bool
  remote_hangup :: bool
  hibernating :: bool

definition forever :: timespec where
  "forever = Timespec 9223372036854775807 (1000000000 - 1)"

definition new_pipe :: "'f pipe_state" where
  "new_pipe = \<lparr> io_fiber = None, max_io_block_time = 0, io_timeout = forever, attached = False,
     remote_hangup = False, hibernating = False \<rparr>"

text \<open>\<open>sleep_until_data_available\<close> and \<open>sleep_until_write_possible\<close> before and after the switch.  The
  fiber's \<open>timeout_pipe_\<close> is part of the state of the world.\<close>

record ('p, 'f) pipe_world =
  links :: "'p pipe_links"
  pipes :: "'p \<Rightarrow> 'f pipe_state"
  timeout_pipe :: "'f \<Rightarrow> 'p option"

definition sleep_begin :: "timespec \<Rightarrow> 'f \<Rightarrow> 'p \<Rightarrow> ('p, 'f) pipe_world \<Rightarrow> ('p, 'f) pipe_world" where
  "sleep_begin now cf p w =
     (let s = (pipes w p)\<lparr>io_fiber := Some cf\<rparr>;
          s = (if 0 < max_io_block_time s
               then s\<lparr>io_timeout := timespec_plus_seconds now (max_io_block_time s)\<rparr> else s)
      in w\<lparr>pipes := (pipes w)(p := s), timeout_pipe := (timeout_pipe w)(cf := Some p)\<rparr>)"

definition sleep_end :: "'f \<Rightarrow> 'p \<Rightarrow> ('p, 'f) pipe_world \<Rightarrow> ('p, 'f) pipe_world" where
  "sleep_end cf p w =
     w\<lparr>pipes := (pipes w)(p := (pipes w p)\<lparr>io_fiber := None, io_timeout := forever\<rparr>),
       timeout_pipe := (timeout_pipe w)(cf := None)\<rparr>"

text \<open>The parent fiber attaches the pipe to epoll: the operation that it uses.\<close>

datatype epoll_op = Epoll_Add | Epoll_Mod

definition attach_pipe :: "'p \<Rightarrow> ('p, 'f) pipe_world \<Rightarrow> epoll_op \<times> ('p, 'f) pipe_world" where
  "attach_pipe p w =
     (if \<not> attached (pipes w p)
      then (Epoll_Add, w\<lparr>pipes := (pipes w)(p := (pipes w p)\<lparr>attached := True\<rparr>)\<rparr>)
      else (Epoll_Mod, w))"

definition expired :: "timespec \<Rightarrow> bool \<Rightarrow> 'f pipe_state \<Rightarrow> bool" where
  "expired ct or_hibernating s \<longleftrightarrow> io_timeout s < ct \<or> or_hibernating \<and> hibernating s"

text \<open>The first pass over the list detaches the expired pipes.\<close>

partial_function (option) detach_loop ::
  "timespec \<Rightarrow> bool \<Rightarrow> 'p option \<Rightarrow> ('p, 'f) pipe_world \<Rightarrow> ('p, 'f) pipe_world option"
where
  "detach_loop ct orh pipe w =
     (case pipe of
        None \<Rightarrow> Some w
      | Some p \<Rightarrow>
          let w = (if expired ct orh (pipes w p)
                   then w\<lparr>pipes := (pipes w)(p := (pipes w p)\<lparr>attached := False\<rparr>)\<rparr> else w)
          in detach_loop ct orh (nxt (links w) p) w)"

text \<open>The second pass moves the pipes to time out to a list of their own, linked by \<open>next_\<close>.\<close>

definition times_out :: "timespec \<Rightarrow> bool \<Rightarrow> ('p, 'f) pipe_world \<Rightarrow> 'p \<Rightarrow> bool" where
  "times_out ct orh w p \<longleftrightarrow> expired ct orh (pipes w p) \<and> \<not> attached (pipes w p) \<and>
     (case io_fiber (pipes w p) of None \<Rightarrow> False | Some f \<Rightarrow> timeout_pipe w f = Some p)"

partial_function (option) collect_loop ::
  "('p \<Rightarrow> bool) \<Rightarrow> 'p option \<Rightarrow> 'p option \<Rightarrow> 'p pipe_links \<Rightarrow> ('p option \<times> 'p pipe_links) option"
where
  "collect_loop sel pipe timed_out h =
     (case pipe of
        None \<Rightarrow> Some (timed_out, h)
      | Some p \<Rightarrow>
          let next = nxt h p
          in if sel p then
               (let h = unlink_pipe p h; h = h\<lparr>nxt := (nxt h)(p := timed_out)\<rparr>
                in collect_loop sel next (Some p) h)
             else collect_loop sel next timed_out h)"

text \<open>The last loop makes each of them point to itself and wakes its fiber: the result is the
  list of the pipes in the order in which their fibers are woken.\<close>

partial_function (option) wake_loop ::
  "'p option \<Rightarrow> 'p pipe_links \<Rightarrow> 'p list \<Rightarrow> ('p list \<times> 'p pipe_links) option"
where
  "wake_loop pipe h acc =
     (case pipe of
        None \<Rightarrow> Some (acc, h)
      | Some p \<Rightarrow>
          let next = nxt h p;
              h = h\<lparr>nxt := (nxt h)(p := Some p), prv := (prv h)(p := Some p)\<rparr>
          in wake_loop next h (acc @ [p]))"

definition sweep_pipes ::
  "timespec \<Rightarrow> bool \<Rightarrow> ('p, 'f) pipe_world \<Rightarrow> ('p list \<times> ('p, 'f) pipe_world) option"
where
  "sweep_pipes ct orh w = do {
     (timed_out, h) \<leftarrow> collect_loop (times_out ct orh w) (first_pipe (links w)) None (links w);
     (woken, h) \<leftarrow> wake_loop timed_out h [];
     Some (woken, w\<lparr>links := h\<rparr>) }"

text \<open>When the next sweep is scheduled, if there is one.\<close>

definition next_sweep :: "timespec \<Rightarrow> nat \<Rightarrow> timespec option" where
  "next_sweep now num_net_pipes = (if 0 < num_net_pipes then Some (timespec_plus_seconds now 2) else None)"

section \<open>Linked lists\<close>

text \<open>
  \<open>segment h p xs q\<close>: the pipes \<open>xs\<close> are linked in this order, after \<open>p\<close> and before \<open>q\<close>.
\<close>

definition head_or :: "'p list \<Rightarrow> 'p option \<Rightarrow> 'p option" where
  "head_or xs q = (case xs of [] \<Rightarrow> q | x # _ \<Rightarrow> Some x)"

definition last_or :: "'p option \<Rightarrow> 'p list \<Rightarrow> 'p option" where
  "last_or p xs = (if xs = [] then p else Some (last xs))"

lemma head_or_simps [simp]: "head_or [] q = q" "head_or (x # xs) q = Some x"
  by (simp_all add: head_or_def)

lemma last_or_simps [simp]: "last_or p [] = p" "last_or p (x # xs) = last_or (Some x) xs"
  by (simp_all add: last_or_def)

lemma head_or_append: "head_or (xs @ ys) q = head_or xs (head_or ys q)"
  by (cases xs) simp_all

fun segment :: "'p pipe_links \<Rightarrow> 'p option \<Rightarrow> 'p list \<Rightarrow> 'p option \<Rightarrow> bool" where
  "segment h p [] q \<longleftrightarrow> True"
| "segment h p (x # xs) q \<longleftrightarrow> prv h x = p \<and> nxt h x = head_or xs q \<and> segment h (Some x) xs q"

definition pipe_list :: "'p pipe_links \<Rightarrow> 'p list \<Rightarrow> bool" where
  "pipe_list h xs \<longleftrightarrow> distinct xs \<and> first_pipe h = head_or xs None \<and> segment h None xs None"

lemma segment_cong:
  "(\<And>x. x \<in> set xs \<Longrightarrow> nxt h' x = nxt h x \<and> prv h' x = prv h x) \<Longrightarrow>
     segment h' p xs q = segment h p xs q"
  by (induction xs arbitrary: p) auto

lemma segment_append:
  "segment h p (xs @ ys) q \<longleftrightarrow> segment h p xs (head_or ys q) \<and> segment h (last_or p xs) ys q"
  by (induction xs arbitrary: p) (auto simp: head_or_append)

lemma segment_front:
  assumes "segment h p xs q" "distinct xs"
  shows "segment (h\<lparr>prv := (prv h)(hd xs := p')\<rparr>) p' xs q"
proof (cases xs)
  case (Cons y ys)
  have "segment (h\<lparr>prv := (prv h)(y := p')\<rparr>) (Some y) ys q = segment h (Some y) ys q"
    using assms(2) Cons by (intro segment_cong) auto
  then show ?thesis using assms(1) Cons by simp
qed simp

lemma segment_back:
  assumes "segment h p xs q" "distinct xs"
  shows "segment (h\<lparr>nxt := (nxt h)(last xs := q')\<rparr>) p xs q'"
  using assms
proof (induction xs arbitrary: p)
  case (Cons y ys)
  then show ?case by (cases ys) auto
qed simp

lemma link_pipe_list:
  assumes "pipe_list h xs" "p \<notin> set xs"
  shows "pipe_list (link_pipe p h) (p # xs)"
proof (cases xs)
  case Nil
  then show ?thesis using assms by (simp add: pipe_list_def link_pipe_def)
next
  case (Cons y ys)
  have seg: "segment h None xs None" "distinct xs" "first_pipe h = Some y"
    using assms(1) Cons by (auto simp: pipe_list_def)
  have "segment (h\<lparr>prv := (prv h)(y := Some p)\<rparr>) (Some p) xs None"
    using segment_front [OF seg(1,2)] Cons by simp
  moreover have "segment (link_pipe p h) (Some p) xs None =
      segment (h\<lparr>prv := (prv h)(y := Some p)\<rparr>) (Some p) xs None"
    using assms(2) Cons seg(3) by (intro segment_cong) (auto simp: link_pipe_def)
  moreover have "prv (link_pipe p h) p = None" "nxt (link_pipe p h) p = Some y"
      "first_pipe (link_pipe p h) = Some p"
    using seg(3) by (auto simp: link_pipe_def)
  ultimately show ?thesis using assms Cons by (simp add: pipe_list_def)
qed

lemma unlink_pipe_list:
  assumes "pipe_list h (xs @ p # ys)"
  shows "pipe_list (unlink_pipe p h) (xs @ ys)"
    and "\<And>q. q \<notin> set (xs @ p # ys) \<Longrightarrow> nxt (unlink_pipe p h) q = nxt h q"
    and "nxt (unlink_pipe p h) p = nxt h p"
proof -
  have d: "distinct (xs @ p # ys)" and seg: "segment h None xs (Some p)" "segment h (Some p) ys None"
    and p: "prv h p = last_or None xs" "nxt h p = head_or ys None"
    and f: "first_pipe h = head_or xs (Some p)"
    using assms by (auto simp: pipe_list_def segment_append head_or_append)
  let ?h = "unlink_pipe p h"
  have nx: "nxt ?h = (if xs = [] then nxt h else (nxt h)(last xs := head_or ys None))"
    using p d by (auto simp: unlink_pipe_def last_or_def Let_def split: option.split)
  have pv: "prv ?h = (if ys = [] then prv h else (prv h)(hd ys := last_or None xs))"
    using p d by (cases ys) (auto simp: unlink_pipe_def last_or_def Let_def split: option.split)
  have fs: "first_pipe ?h = head_or (xs @ ys) None"
    using p f d by (cases xs; cases ys)
      (auto simp: unlink_pipe_def last_or_def Let_def split: option.split)
  have lx: "xs \<noteq> [] \<Longrightarrow> last xs \<in> set xs" and hy: "ys \<noteq> [] \<Longrightarrow> hd ys \<in> set ys" by simp_all
  moreover have "set xs \<inter> set ys = {}" using d by auto
  ultimately have ly: "xs \<noteq> [] \<Longrightarrow> last xs \<notin> set ys" and hx: "ys \<noteq> [] \<Longrightarrow> hd ys \<notin> set xs"
    by blast+
  have "segment ?h None xs (head_or ys None)"
  proof (cases "xs = []")
    case False
    have "segment ?h None xs (head_or ys None) =
        segment (h\<lparr>nxt := (nxt h)(last xs := head_or ys None)\<rparr>) None xs (head_or ys None)"
      using d False hx by (intro segment_cong) (auto simp: nx pv)
    then show ?thesis using segment_back [OF seg(1)] d by simp
  qed simp
  moreover have "segment ?h (last_or None xs) ys None"
  proof (cases "ys = []")
    case False
    have "segment ?h (last_or None xs) ys None =
        segment (h\<lparr>prv := (prv h)(hd ys := last_or None xs)\<rparr>) (last_or None xs) ys None"
      using d False ly by (intro segment_cong) (auto simp: nx pv)
    then show ?thesis using segment_front [OF seg(2)] d by simp
  qed simp
  ultimately show "pipe_list ?h (xs @ ys)"
    using d fs by (simp add: pipe_list_def segment_append)
  show "nxt ?h q = nxt h q" if "q \<notin> set (xs @ p # ys)" for q using that lx by (auto simp: nx)
  show "nxt ?h p = nxt h p" using d lx by (auto simp: nx)
qed

section \<open>The loops of the sweep\<close>

text \<open>A chain of \<open>next_\<close> pointers.\<close>

fun chain :: "'p pipe_links \<Rightarrow> 'p list \<Rightarrow> bool" where
  "chain h [] \<longleftrightarrow> True"
| "chain h (x # xs) \<longleftrightarrow> nxt h x = head_or xs None \<and> chain h xs"

lemma chain_cong: "(\<And>x. x \<in> set xs \<Longrightarrow> nxt h' x = nxt h x) \<Longrightarrow> chain h' xs = chain h xs"
  by (induction xs) auto

lemma pipe_list_cong:
  "(\<And>x. x \<in> set xs \<Longrightarrow> nxt h' x = nxt h x \<and> prv h' x = prv h x) \<Longrightarrow> first_pipe h' = first_pipe h \<Longrightarrow>
     pipe_list h' xs = pipe_list h xs"
  using segment_cong [of xs h' h None None] by (simp add: pipe_list_def)

lemma collect_loop_spec:
  assumes "pipe_list h (ys @ zs)" "chain h acc" "distinct (ys @ zs @ acc)"
  shows "\<exists>h'. collect_loop sel (head_or zs None) (head_or acc None) h =
      Some (head_or (rev (filter sel zs) @ acc) None, h') \<and>
    pipe_list h' (ys @ filter (\<lambda>p. \<not> sel p) zs) \<and> chain h' (rev (filter sel zs) @ acc)"
  using assms
proof (induction zs arbitrary: ys acc h)
  case Nil
  then show ?case by (simp add: collect_loop.simps)
next
  case (Cons z zs)
  have nz: "nxt h z = head_or zs None" using Cons.prems(1) by (simp add: pipe_list_def segment_append)
  show ?case
  proof (cases "sel z")
    case True
    let ?h = "(unlink_pipe z h)\<lparr>nxt := (nxt (unlink_pipe z h))(z := head_or acc None)\<rparr>"
    note un = unlink_pipe_list [OF Cons.prems(1)]
    have "pipe_list ?h (ys @ zs) = pipe_list (unlink_pipe z h) (ys @ zs)"
      using Cons.prems(3) by (intro pipe_list_cong) auto
    then have pl: "pipe_list ?h (ys @ zs)" using un(1) by simp
    have "chain ?h acc = chain h acc"
      using Cons.prems(3) un(2) by (intro chain_cong) auto
    then have ch: "chain ?h (z # acc)" using Cons.prems(2) by simp
    have "distinct (ys @ zs @ z # acc)" using Cons.prems(3) by auto
    from Cons.IH [OF pl ch this] show ?thesis
      using True nz by (simp add: collect_loop.simps [of sel "Some z"] Let_def)
  next
    case False
    have "pipe_list h ((ys @ [z]) @ zs)" "distinct ((ys @ [z]) @ zs @ acc)"
      using Cons.prems by simp_all
    from Cons.IH [OF this(1) Cons.prems(2) this(2)] show ?thesis
      using False nz by (simp add: collect_loop.simps [of sel "Some z"])
  qed
qed

lemma wake_loop_spec:
  "chain h xs \<Longrightarrow> distinct xs \<Longrightarrow>
     \<exists>h'. wake_loop (head_or xs None) h acc = Some (acc @ xs, h') \<and> first_pipe h' = first_pipe h \<and>
       (\<forall>x \<in> set xs. nxt h' x = Some x \<and> prv h' x = Some x) \<and>
       (\<forall>x. x \<notin> set xs \<longrightarrow> nxt h' x = nxt h x \<and> prv h' x = prv h x)"
proof (induction xs arbitrary: h acc)
  case Nil
  then show ?case by (simp add: wake_loop.simps)
next
  case (Cons x xs)
  let ?h = "h\<lparr>nxt := (nxt h)(x := Some x), prv := (prv h)(x := Some x)\<rparr>"
  have "chain ?h xs = chain h xs" using Cons.prems(2) by (intro chain_cong) auto
  then obtain h' where h': "wake_loop (head_or xs None) ?h (acc @ [x]) = Some ((acc @ [x]) @ xs, h')"
      "first_pipe h' = first_pipe ?h" "\<forall>x \<in> set xs. nxt h' x = Some x \<and> prv h' x = Some x"
      "\<forall>y. y \<notin> set xs \<longrightarrow> nxt h' y = nxt ?h y \<and> prv h' y = prv ?h y"
    using Cons.IH [of ?h "acc @ [x]"] Cons.prems by auto
  moreover have "wake_loop (head_or (x # xs) None) h acc = wake_loop (head_or xs None) ?h (acc @ [x])"
    using Cons.prems(1) by (simp add: wake_loop.simps [of "Some x"])
  ultimately show ?case using Cons.prems(2) by auto
qed

lemma unlink_self: "nxt h p = Some p \<Longrightarrow> prv h p = Some p \<Longrightarrow> unlink_pipe p h = h"
  by (simp add: unlink_pipe_def fun_upd_idem)

lemma detach_loop_spec:
  assumes "segment (links w) p xs None" "distinct xs"
  shows "detach_loop ct orh (head_or xs None) w = Some (w\<lparr>pipes := \<lambda>p.
    if p \<in> set xs \<and> expired ct orh (pipes w p) then (pipes w p)\<lparr>attached := False\<rparr> else pipes w p\<rparr>)"
  using assms
proof (induction xs arbitrary: w p)
  case Nil
  then show ?case by (simp add: detach_loop.simps)
next
  case (Cons x xs)
  let ?w = "if expired ct orh (pipes w x)
    then w\<lparr>pipes := (pipes w)(x := (pipes w x)\<lparr>attached := False\<rparr>)\<rparr> else w"
  have "detach_loop ct orh (head_or (x # xs) None) w = detach_loop ct orh (head_or xs None) ?w"
    using Cons.prems(1) by (simp add: detach_loop.simps [of ct orh "Some x"] Let_def)
  moreover have "segment (links ?w) (Some x) xs None" using Cons.prems(1) by simp
  note Cons.IH [OF this]
  ultimately show ?case using Cons.prems(2) by (auto simp: fun_eq_iff intro!: pipe_world.equality)
qed

section \<open>Properties\<close>

text \<open>
  the doubly linked list of pipes.  Linking a new pipe puts it in front, unlinking one of
  the list takes just that one out, and unlinking a pipe that points to itself changes nothing.
\<close>

theorem pipe_links_are_list:
  "(pipe_list h xs \<and> p \<notin> set xs \<longrightarrow> pipe_list (link_pipe p h) (p # xs)) \<and>
   (pipe_list h xs \<and> p \<in> set xs \<longrightarrow> pipe_list (unlink_pipe p h) (remove1 p xs)) \<and>
   (nxt h p = Some p \<and> prv h p = Some p \<longrightarrow> unlink_pipe p h = h)"
proof (intro conjI impI)
  show "pipe_list (link_pipe p h) (p # xs)" if "pipe_list h xs \<and> p \<notin> set xs"
    using that by (simp add: link_pipe_list)
  show "unlink_pipe p h = h" if "nxt h p = Some p \<and> prv h p = Some p" using that by (simp add: unlink_self)
  assume a: "pipe_list h xs \<and> p \<in> set xs"
  then obtain ys zs where xs: "xs = ys @ p # zs" "p \<notin> set ys" by (meson split_list_first)
  then show "pipe_list (unlink_pipe p h) (remove1 p xs)"
    using unlink_pipe_list(1) [of h ys p zs] a by (simp add: remove1_append)
qed

definition one_pipe :: "nat pipe_links" where
  "one_pipe = link_pipe 4 (link_pipe 7 \<lparr> nxt = (\<lambda>_. None), prv = (\<lambda>_. None), first_pipe = None \<rparr>)"

lemma one_pipe_list: "pipe_list one_pipe [4, 7]"
  by (simp add: one_pipe_def pipe_list_def link_pipe_def)

theorem pipe_links_are_list_witness: "pipe_list (unlink_pipe 7 one_pipe) [4]"
  using pipe_links_are_list [of one_pipe "[4, 7]" 7] one_pipe_list by simp

text \<open>
  the sweep ends, wakes the pipes that time out, the last one of the list first, and leaves the
  other pipes on the list in their order.  The pipes that it wakes point to themselves, so that
  their destructors leave the list as it is.
\<close>

theorem sweep_pipes_exact:
  assumes "pipe_list (links w) xs"
  shows "\<exists>w'. sweep_pipes ct orh w = Some (rev (filter (times_out ct orh w) xs), w') \<and>
    pipe_list (links w') (filter (\<lambda>p. \<not> times_out ct orh w p) xs) \<and>
    pipes w' = pipes w \<and> timeout_pipe w' = timeout_pipe w \<and>
    (\<forall>p \<in> set (filter (times_out ct orh w) xs). unlink_pipe p (links w') = links w')"
proof -
  let ?sel = "times_out ct orh w"
  have d: "distinct xs" "first_pipe (links w) = head_or xs None" using assms by (simp_all add: pipe_list_def)
  obtain h1 where h1: "collect_loop ?sel (head_or xs None) None (links w) =
        Some (head_or (rev (filter ?sel xs)) None, h1)"
      "pipe_list h1 (filter (\<lambda>p. \<not> ?sel p) xs)" "chain h1 (rev (filter ?sel xs))"
    using collect_loop_spec [of "links w" "[]" xs "[]" ?sel] assms d(1) by auto
  obtain h2 where h2: "wake_loop (head_or (rev (filter ?sel xs)) None) h1 [] = Some (rev (filter ?sel xs), h2)"
      "first_pipe h2 = first_pipe h1"
      "\<forall>x \<in> set (filter ?sel xs). nxt h2 x = Some x \<and> prv h2 x = Some x"
      "\<forall>x. x \<notin> set (filter ?sel xs) \<longrightarrow> nxt h2 x = nxt h1 x \<and> prv h2 x = prv h1 x"
    using wake_loop_spec [OF h1(3), of "[]"] d(1) by auto
  have "pipe_list h2 (filter (\<lambda>p. \<not> ?sel p) xs) = pipe_list h1 (filter (\<lambda>p. \<not> ?sel p) xs)"
    using h2(2,4) by (intro pipe_list_cong) auto
  then have "pipe_list h2 (filter (\<lambda>p. \<not> ?sel p) xs)" using h1(2) by simp
  moreover have "sweep_pipes ct orh w = Some (rev (filter ?sel xs), w\<lparr>links := h2\<rparr>)"
    using h1(1) h2(1) d(2) by (simp add: sweep_pipes_def)
  ultimately show ?thesis using h2(3) by (intro exI [of _ "w\<lparr>links := h2\<rparr>"]) (simp add: unlink_self)
qed

definition one_world :: "(nat, nat) pipe_world" where
  "one_world = \<lparr> links = one_pipe,
     pipes = (\<lambda>p. if p = 4 then new_pipe\<lparr>io_fiber := Some 1, io_timeout := Timespec 5 0\<rparr> else new_pipe),
     timeout_pipe = (\<lambda>f. if f = 1 then Some 4 else None) \<rparr>"

lemma one_world_list: "pipe_list (links one_world) [4, 7]"
  using one_pipe_list by (simp add: one_world_def)

theorem sweep_pipes_exact_witness:
  "\<exists>w'. sweep_pipes (Timespec 6 0) False one_world = Some ([4], w') \<and> pipe_list (links w') [7]"
proof -
  have "filter (times_out (Timespec 6 0) False one_world) [4, 7] = [4]"
      "filter (\<lambda>p. \<not> times_out (Timespec 6 0) False one_world p) [4, 7] = [7]"
    by (simp_all add: times_out_def expired_def one_world_def new_pipe_def forever_def timespec_order)
  then show ?thesis using sweep_pipes_exact [OF one_world_list, of "Timespec 6 0" False] by auto
qed

text \<open>
  a pipe is timed out by the sweep only if a fiber sleeps on it and its block time is over: after
  the first pass, the pipes that are woken are those whose deadline has passed and on which a
  fiber that waits for this pipe sleeps.
\<close>

theorem sweep_after_detach:
  assumes "pipe_list (links w) xs"
  shows "\<exists>w' w''. detach_loop ct False (first_pipe (links w)) w = Some w' \<and>
    sweep_pipes ct False w' = Some (rev (filter (\<lambda>p. io_timeout (pipes w p) < ct \<and>
      (\<exists>f. io_fiber (pipes w p) = Some f \<and> timeout_pipe w f = Some p)) xs), w'') \<and>
    (\<forall>p. p \<in> set xs \<and> \<not> io_timeout (pipes w p) < ct \<longrightarrow> pipes w' p = pipes w p)"
proof -
  let ?w = "w\<lparr>pipes := \<lambda>p. if p \<in> set xs \<and> expired ct False (pipes w p)
    then (pipes w p)\<lparr>attached := False\<rparr> else pipes w p\<rparr>"
  have d: "segment (links w) None xs None" "distinct xs" "first_pipe (links w) = head_or xs None"
    using assms by (simp_all add: pipe_list_def)
  have "pipe_list (links ?w) xs" using assms by simp
  then obtain w'' where w'': "sweep_pipes ct False ?w = Some (rev (filter (times_out ct False ?w) xs), w'')"
    using sweep_pipes_exact by blast
  have "filter (times_out ct False ?w) xs = filter (\<lambda>p. io_timeout (pipes w p) < ct \<and>
      (\<exists>f. io_fiber (pipes w p) = Some f \<and> timeout_pipe w f = Some p)) xs"
    by (rule filter_cong) (auto simp: times_out_def expired_def split: option.split)
  then have "sweep_pipes ct False ?w = Some (rev (filter (\<lambda>p. io_timeout (pipes w p) < ct \<and>
      (\<exists>f. io_fiber (pipes w p) = Some f \<and> timeout_pipe w f = Some p)) xs), w'')"
    using w'' by simp
  moreover have "detach_loop ct False (first_pipe (links w)) w = Some ?w"
    using detach_loop_spec [OF d(1,2)] d(3) by simp
  moreover have "\<forall>p. p \<in> set xs \<and> \<not> io_timeout (pipes w p) < ct \<longrightarrow> pipes ?w p = pipes w p"
    by (simp add: expired_def)
  ultimately show ?thesis by blast
qed

theorem sweep_after_detach_witness:
  "\<exists>w' w''. detach_loop (Timespec 6 0) False (Some 4) one_world = Some w' \<and>
     sweep_pipes (Timespec 6 0) False w' = Some ([4], w'')"
proof -
  have "filter (\<lambda>p. io_timeout (pipes one_world p) < Timespec 6 0 \<and>
      (\<exists>f. io_fiber (pipes one_world p) = Some f \<and> timeout_pipe one_world f = Some p)) [4, 7] = [4]"
    by (simp add: one_world_def new_pipe_def forever_def timespec_order)
  moreover have "first_pipe (links one_world) = Some 4" using one_world_list by (simp add: pipe_list_def)
  ultimately show ?thesis using sweep_after_detach [OF one_world_list, of "Timespec 6 0"] by auto
qed

text \<open>
  C30: \<open>write\<close> hands the buffer to the kernel in order and without gaps: what the kernel has accepted is
  always a prefix of the buffer, and the call returns exactly when that is all of it; an error and
  a timeout are reported only while bytes are left.
\<close>

theorem pipe_write_prefix:
  assumes "pipe_write buf 0 ts = (r, accepted)"
  shows "(\<exists>rest. buf = accepted @ rest) \<and> (r = Io_Done () \<longleftrightarrow> accepted = buf)"
proof -
  have "pipe_write buf n ts = (r, accepted) \<Longrightarrow>
      accepted = take (length accepted) buf \<and> (r = Io_Done () \<longleftrightarrow> accepted = buf)" for n
    by (induction buf n ts rule: pipe_write.induct)
      (auto split: if_splits sys_result.splits simp: take_all_iff)
  then show ?thesis using assms by (metis append_take_drop_id)
qed

theorem pipe_write_prefix_witness:
  "snd (pipe_write [1, 2, 3, 4, 5] 0
     [\<lparr> t_result = Sys_Count 2, t_hangup = False, t_timeout = False \<rparr>,
      \<lparr> t_result = Sys_Errno EAGAIN, t_hangup = False, t_timeout = True \<rparr>]) = [1, 2]"
  using pipe_write_prefix [of "[1, 2, 3, 4, 5]"
     "[\<lparr> t_result = Sys_Count 2, t_hangup = False, t_timeout = False \<rparr>,
      \<lparr> t_result = Sys_Errno EAGAIN, t_hangup = False, t_timeout = True \<rparr>]" Io_Timeout "[1, 2]"]
  by (simp add: numeral_eq_Suc)

text \<open>
  C24: \<open>read\<close> returns what one system call returned, never an empty result for a non-empty request, and
  never more than the request; a hang-up of the remote end is an error, but not before the data
  that is there has been returned.
\<close>

theorem pipe_read_result:
  assumes "\<forall>t \<in> set ts. read_turn count t"
  shows "(pipe_read count ts = Io_Done bs \<longrightarrow> length bs \<le> count \<and> (bs = [] \<longrightarrow> count = 0) \<and>
      (\<exists>xs t ys. ts = xs @ t # ys \<and> t_result t = Sys_Bytes bs \<and>
         (\<forall>x \<in> set xs. t_result x = Sys_Errno EAGAIN \<and> \<not> t_hangup x \<and> \<not> t_timeout x))) \<and>
    (pipe_read count ts = Io_Asleep \<longrightarrow>
       (\<forall>x \<in> set ts. t_result x = Sys_Errno EAGAIN \<and> \<not> t_hangup x \<and> \<not> t_timeout x))"
  using assms
proof (induction ts)
  case Nil
  then show ?case by simp
next
  case (Cons t ts)
  show ?case
  proof (cases "t_result t = Sys_Errno EAGAIN \<and> \<not> t_hangup t \<and> \<not> t_timeout t")
    case True
    then have r: "pipe_read count (t # ts) = pipe_read count ts" by simp
    show ?thesis
      unfolding r
    proof (intro conjI impI)
      assume "pipe_read count ts = Io_Done bs"
      then have IH: "length bs \<le> count" "bs = [] \<longrightarrow> count = 0"
          "\<exists>xs t ys. ts = xs @ t # ys \<and> t_result t = Sys_Bytes bs \<and>
             (\<forall>x \<in> set xs. t_result x = Sys_Errno EAGAIN \<and> \<not> t_hangup x \<and> \<not> t_timeout x)"
        using Cons by simp_all
      then obtain xs u ys where u: "ts = xs @ u # ys" "t_result u = Sys_Bytes bs"
          "\<forall>x \<in> set xs. t_result x = Sys_Errno EAGAIN \<and> \<not> t_hangup x \<and> \<not> t_timeout x"
        by blast
      then have "t # ts = (t # xs) @ u # ys"
          "\<forall>x \<in> set (t # xs). t_result x = Sys_Errno EAGAIN \<and> \<not> t_hangup x \<and> \<not> t_timeout x"
        using True by simp_all
      with u(2) show "\<exists>xs u ys. t # ts = xs @ u # ys \<and> t_result u = Sys_Bytes bs \<and>
          (\<forall>x \<in> set xs. t_result x = Sys_Errno EAGAIN \<and> \<not> t_hangup x \<and> \<not> t_timeout x)"
        by blast
      show "length bs \<le> count" "bs = [] \<Longrightarrow> count = 0" using IH(1,2) by simp_all
    next
      assume "pipe_read count ts = Io_Asleep"
      then show "\<forall>x \<in> set (t # ts). t_result x = Sys_Errno EAGAIN \<and> \<not> t_hangup x \<and> \<not> t_timeout x"
        using Cons True by simp
    qed
  next
    case False
    then have "pipe_read count (t # ts) = Io_Done bs \<longrightarrow> t_result t = Sys_Bytes bs \<and> (bs = [] \<longrightarrow> count = 0)"
        "pipe_read count (t # ts) \<noteq> Io_Asleep"
      by (auto split: sys_result.splits)
    moreover have "length bs \<le> count" if "t_result t = Sys_Bytes bs"
      using Cons.prems that by (simp add: read_turn_def)
    ultimately show ?thesis by (metis append_Nil empty_iff list.set(1))
  qed
qed

theorem pipe_read_result_witness:
  "pipe_read 4 [\<lparr> t_result = Sys_Bytes [7], t_hangup = True, t_timeout = False \<rparr>] = Io_Done [7] \<and>
   length [7 :: byte] \<le> 4"
  using pipe_read_result [of "[\<lparr> t_result = Sys_Bytes [7], t_hangup = True, t_timeout = False \<rparr>]" 4 "[7]"]
  by (simp add: read_turn_def)

end
