(* ===== verification/Webrtc.thy ===== *)
theory Webrtc
  imports Stun_Reply Dtls Big_Id Text
begin

text \<open>
  The WebRTC endpoint, \<open>src/cpp/webrtc_dispatch.cpp\<close>: the answer to an SDP offer, which registers the
  credentials of the peer under its user name, and the demultiplexing of datagrams between
  STUN and DTLS.  JSON, protobuf, the random identifiers and the resource store are parameters.
\<close>

section \<open>Fingerprints\<close>

definition append_nibble :: "byte \<Rightarrow> byte \<Rightarrow> byte list" where
  "append_nibble nib a = (if nib < 10 then [chr CHR ''0'' + nib] else [a + (nib - 10)])"

definition append_sdp_byte :: "byte \<Rightarrow> bool \<Rightarrow> byte list" where
  "append_sdp_byte b include_separator =
     append_nibble (drop_bit 4 b) (chr CHR ''A'') @ append_nibble (b AND 0x0f) (chr CHR ''A'') @
     (if include_separator then [chr CHR '':''] else [])"

definition get_nibble :: "byte \<Rightarrow> bool \<times> byte" where
  "get_nibble c =
     (if chr CHR ''A'' \<le> c \<and> c \<le> chr CHR ''F'' then (True, c - chr CHR ''A'' + 10)
      else if chr CHR ''0'' \<le> c \<and> c \<le> chr CHR ''9'' then (True, c - chr CHR ''0'')
      else (False, chr CHR ''a''))"

text \<open>The loop over \<open>[ptr, end)\<close> of the memory \<open>mem\<close>; \<open>{}\<close> is the empty string.\<close>

function digest_loop :: "byte list \<Rightarrow> nat \<Rightarrow> nat \<Rightarrow> byte list \<Rightarrow> byte list option" where
  "digest_loop mem ptr end_ptr oss =
     (if int ptr < int end_ptr - 2 then do {
        bad \<leftarrow> (if int ptr < int end_ptr - 3 then do { c \<leftarrow> rd mem (ptr + 2); Some (c \<noteq> chr CHR '':'') }
               else Some False);
        if bad then Some []
        else do {
          c1 \<leftarrow> rd mem ptr;
          c2 \<leftarrow> rd mem (ptr + 1);
          (let n1 = get_nibble c1; n2 = get_nibble c2
           in if \<not> fst n1 \<or> \<not> fst n2 then Some []
              else digest_loop mem (ptr + 3) end_ptr (oss @ [push_bit 4 (snd n1) + snd n2])) } }
      else Some oss)"
  by pat_completeness auto

termination digest_loop
  by (relation "measure (\<lambda>(mem, ptr, end_ptr, oss). end_ptr - ptr)") auto

definition digest_from_fingerprint_str :: "byte list \<Rightarrow> nat \<Rightarrow> nat \<Rightarrow> byte list option" where
  "digest_from_fingerprint_str mem fgp len = digest_loop mem fgp (fgp + len) []"

text \<open>The constructor builds the attribute line of its own certificate.\<close>

fun fingerprint_bytes :: "byte list \<Rightarrow> byte list" where
  "fingerprint_bytes [] = []"
| "fingerprint_bytes (b # bs) = append_sdp_byte b (bs \<noteq> []) @ fingerprint_bytes bs"

definition x509_fingerprint_attribute :: "byte list \<Rightarrow> byte list" where
  "x509_fingerprint_attribute digest =
     bytes_of ''a=fingerprint:sha-256 '' @ fingerprint_bytes digest @ [13, 10]"

section \<open>The answer to an offer\<close>

text \<open>The C library functions on the string \<open>sdp\<close> with its terminating NUL: \<open>strchr\<close>, \<open>memcmp\<close> as a test
  for equality, for which both blocks must have the given size, whatever they hold, and \<open>atoi\<close>.\<close>

fun strchr :: "byte list \<Rightarrow> byte \<Rightarrow> nat option" where
  "strchr [] c = None"
| "strchr (x # xs) c = (if x = c then Some 0 else if x = 0 then None else map_option Suc (strchr xs c))"

definition starts_at :: "byte list \<Rightarrow> byte list \<Rightarrow> nat \<Rightarrow> bool option" where
  "starts_at p mem i = do {
     bs \<leftarrow> rd_range mem i (length p);
     Some (bs = p) }"

definition is_space :: "byte \<Rightarrow> bool" where
  "is_space c \<longleftrightarrow> c = 32 \<or> 9 \<le> c \<and> c \<le> 13"

definition is_digit :: "byte \<Rightarrow> bool" where
  "is_digit c \<longleftrightarrow> chr CHR ''0'' \<le> c \<and> c \<le> chr CHR ''9''"

definition atoi :: "byte list \<Rightarrow> int" where
  "atoi s =
     (let s = dropWhile is_space s;
          sgn = (if s \<noteq> [] \<and> hd s = chr CHR ''-'' then - 1 else 1);
          s = (if s \<noteq> [] \<and> (hd s = chr CHR ''-'' \<or> hd s = chr CHR ''+'') then tl s else s)
      in sgn * foldl (\<lambda>n c. n * 10 + (uint c - 48)) 0 (takeWhile is_digit s))"

text \<open>The local variables of \<open>parse_offer\<close>, and the number of random identifiers drawn so far.\<close>

record offer_state =
  ret_sdp :: "byte list"
  o_remote_ufrag :: "byte list"
  o_remote_pwd :: "byte list"
  o_remote_x509_digest :: "byte list"
  o_remote_sctp_port :: u32
  o_local_ufrag :: "byte list"
  o_local_pwd :: "byte list"
  drawn :: nat

definition init_offer :: offer_state where
  "init_offer = \<lparr> ret_sdp = [], o_remote_ufrag = [], o_remote_pwd = [], o_remote_x509_digest = [],
     o_remote_sctp_port = 0, o_local_ufrag = [], o_local_pwd = [], drawn = 0 \<rparr>"

definition CRLF :: "byte list" where "CRLF = [13, 10]"

definition append_ret :: "byte list \<Rightarrow> offer_state \<Rightarrow> offer_state" where
  "append_ret s st = st\<lparr>ret_sdp := ret_sdp st @ s\<rparr>"

text \<open>An attribute line \<open>[start, end)\<close> of \<open>mem\<close>.  \<open>rand\<close> gives the random identifiers, \<open>fgp\<close> is the
  fingerprint attribute of the server, and its SCTP port is 5000.\<close>

definition offer_attribute ::
  "(nat \<Rightarrow> small_id) \<Rightarrow> byte list \<Rightarrow> byte list \<Rightarrow> nat \<Rightarrow> nat \<Rightarrow> offer_state \<Rightarrow> offer_state option"
where
  "offer_attribute rand fgp mem line_start line_end st = do {
     pwd \<leftarrow> starts_at (bytes_of ''a=ice-pwd:'') mem line_start;
     if pwd then do {
       remote \<leftarrow> rd_range mem (line_start + 10) (line_end - line_start - 10);
       local \<leftarrow> toHexString_small (rand (drawn st));
       Some (append_ret (bytes_of ''a=ice-pwd:'' @ local @ CRLF)
         (st\<lparr>o_remote_pwd := remote, o_local_pwd := local, drawn := drawn st + 1\<rparr>)) }
     else do {
     ufrag \<leftarrow> starts_at (bytes_of ''a=ice-ufrag:'') mem line_start;
     if ufrag then do {
       remote \<leftarrow> rd_range mem (line_start + 12) (line_end - line_start - 12);
       local \<leftarrow> toHexString_small (rand (drawn st));
       Some (append_ret (bytes_of ''a=ice-ufrag:'' @ local @ CRLF)
         (st\<lparr>o_remote_ufrag := remote, o_local_ufrag := local, drawn := drawn st + 1\<rparr>)) }
     else do {
     setup \<leftarrow> starts_at (bytes_of ''a=setup:'') mem line_start;
     if setup then Some (append_ret (bytes_of ''a=setup:passive'' @ CRLF) st)
     else do {
     port \<leftarrow> starts_at (bytes_of ''a=sctp-port:'') mem line_start;
     if port then
       Some (append_ret (bytes_of ''a=sctp-port:5000'' @ CRLF)
         (st\<lparr>o_remote_sctp_port := of_int (atoi (drop (line_start + 12) mem))\<rparr>))
     else do {
     finger \<leftarrow> starts_at (bytes_of ''a=fingerprint:sha-256 '') mem line_start;
     if finger then do {
       digest \<leftarrow> digest_from_fingerprint_str mem (line_start + 22) (line_end - line_start - 22);
       Some (append_ret fgp (st\<lparr>o_remote_x509_digest := digest\<rparr>)) }
     else do {
       line \<leftarrow> rd_range mem line_start (line_end + 2 - line_start);
       Some (append_ret line st) } } } } } }"

datatype offer_error = Not_an_offer | No_sdp | Bad_sdp

function offer_loop ::
  "(nat \<Rightarrow> small_id) \<Rightarrow> byte list \<Rightarrow> byte list \<Rightarrow> nat \<Rightarrow> nat \<Rightarrow> offer_state \<Rightarrow>
     (offer_error + offer_state) option"
where
  "offer_loop rand fgp mem len line_start st =
     (if line_start < len then
        (case strchr (drop line_start mem) 13 of
           None \<Rightarrow> Some (Inl Bad_sdp)
         | Some off \<Rightarrow>
             let line_end = line_start + off
             in if line_end = len - 1 then Some (Inl Bad_sdp)
                else do {
                  c \<leftarrow> rd mem (line_end + 1);
                  if c \<noteq> 10 then Some (Inl Bad_sdp)
                  else do {
                    eq \<leftarrow> (if line_end > line_start + 1
                          then do { c \<leftarrow> rd mem (line_start + 1); Some (c = chr CHR ''='') } else Some False);
                    st \<leftarrow> (if eq then do {
                            c \<leftarrow> rd mem line_start;
                            if c = chr CHR ''a'' then offer_attribute rand fgp mem line_start line_end st
                            else do {
                              line \<leftarrow> rd_range mem line_start (line_end + 2 - line_start);
                              Some (append_ret line st) } }
                          else Some st);
                    offer_loop rand fgp mem len (line_end + 2) st } })
      else Some (Inr st))"
  by pat_completeness auto

termination offer_loop
  by (relation "measure (\<lambda>(rand, fgp, mem, len, line_start, st). len - line_start)") auto

text \<open>The JSON offer, as far as the code looks at it.\<close>

datatype json_value = Json_string "byte list" | Json_other

record offer_result =
  answer_sdp :: "byte list"
  stored_username :: "byte list"
  stored_connection :: connection

definition local_sctp_port_value :: u32 where "local_sctp_port_value = 5000"

definition parse_offer ::
  "(nat \<Rightarrow> small_id) \<Rightarrow> byte list \<Rightarrow> byte list \<Rightarrow> (string \<Rightarrow> json_value option) \<Rightarrow>
     (offer_error + offer_result) option"
where
  "parse_offer rand fgp candidate offer =
     (if offer ''type'' \<noteq> Some (Json_string (bytes_of ''offer'')) then Some (Inl Not_an_offer)
      else case offer ''sdp'' of
        Some (Json_string sdp) \<Rightarrow> do {
          res \<leftarrow> offer_loop rand fgp (sdp @ [0]) (length sdp) 0 init_offer;
          (case res of
             Inl e \<Rightarrow> Some (Inl e)
           | Inr st \<Rightarrow>
               if o_local_pwd st = [] \<or> o_local_ufrag st = [] \<or> ret_sdp st = [] \<or> o_remote_x509_digest st = []
               then Some (Inl Bad_sdp)
               else Some (Inr \<lparr>
                 answer_sdp = ret_sdp st @ bytes_of ''a=candidate:0 1 udp 2122260223 '' @ candidate @
                   bytes_of '' typ host'' @ CRLF,
                 stored_username = o_local_ufrag st @ [chr CHR '':''] @ o_remote_ufrag st,
                 stored_connection =
                   \<lparr> c_remote_ufrag = o_remote_ufrag st, c_remote_pwd = o_remote_pwd st,
                     c_remote_sctp_port = o_remote_sctp_port st,
                     c_remote_x509_digest = o_remote_x509_digest st,
                     c_local_ufrag = o_local_ufrag st, c_local_pwd = o_local_pwd st,
                     c_local_sctp_port = local_sctp_port_value \<rparr> \<rparr>)) }
      | _ \<Rightarrow> Some (Inl No_sdp))"

section \<open>Datagrams\<close>

text \<open>The result of a datagram: the dispatcher afterwards and the replies that are sent, with the
  address that each is sent to.\<close>

definition webrtc_recv_msg ::
  "lookup_fun \<Rightarrow> conn_parser \<Rightarrow> hmac_fun \<Rightarrow> 'ssl ssl_api \<Rightarrow> timespec \<Rightarrow> byte list \<Rightarrow> sockaddr_storage \<Rightarrow>
     'ssl dtls_dispatch \<Rightarrow> ('ssl dtls_dispatch \<times> (byte list \<times> sockaddr_storage) list) option"
where
  "webrtc_recv_msg lookup parse_conn hmac api now msg addr d =
     (if 0 < length msg then do {
        first_byte \<leftarrow> rd msg 0;
        if first_byte \<le> 3 then do {
          res \<leftarrow> parse_stun_msg lookup parse_conn hmac msg;
          (case res of
             Inl e \<Rightarrow> Some (d, [])
           | Inr s \<Rightarrow>
               if known_client s then do {
                 reply \<leftarrow> create_stun_reply hmac s msg addr;
                 Some (register_association api now addr (local_sctp_port s) (remote_sctp_port s) d,
                       [(reply, addr)]) }
               else Some (d, [])) }
        else if 16 \<le> first_byte \<and> first_byte \<le> 19 then Some (d, [])
        else if 20 \<le> first_byte \<and> first_byte \<le> 63 then do {
          d \<leftarrow> dtls_recv_msg api now msg addr d;
          Some (d, []) }
        else Some (d, []) }
      else Some (d, []))"

section \<open>The socket\<close>

text \<open>
  \<open>udp_dispatch\<close>: the address of a received datagram is cleaned before it is used as a key: only
  family, port and address are kept.  The whole \<open>sockaddr_storage\<close> in memory is the family, the
  fields of both families and whatever else is there.
\<close>

datatype addr_family = Family_inet | Family_inet6 | Family_other

record raw_sockaddr =
  ss_family :: addr_family
  sin_port :: "byte list"
  sin_addr :: "byte list"
  sin6_port :: "byte list"
  sin6_addr :: "byte list"
  ss_rest :: "byte list"

definition zero_sockaddr :: raw_sockaddr where
  "zero_sockaddr = \<lparr> ss_family = Family_other, sin_port = [0, 0], sin_addr = [0, 0, 0, 0], sin6_port = [0, 0],
     sin6_addr = replicate 16 0, ss_rest = replicate 100 0 \<rparr>"

definition clean_sockaddr :: "raw_sockaddr \<Rightarrow> raw_sockaddr" where
  "clean_sockaddr addr =
     (case ss_family addr of
        Family_inet \<Rightarrow> zero_sockaddr\<lparr>ss_family := Family_inet, sin_addr := sin_addr addr, sin_port := sin_port addr\<rparr>
      | Family_inet6 \<Rightarrow> zero_sockaddr\<lparr>ss_family := Family_inet6, sin6_addr := sin6_addr addr, sin6_port := sin6_port addr\<rparr>
      | Family_other \<Rightarrow> zero_sockaddr)"

text \<open>One call of \<open>io_avail\<close>: the results of \<open>recvfrom\<close>, \<open>None\<close> for \<open>-1\<close>, up to the first of these; a
  datagram that fills the buffer is dropped, every other one is handed to \<open>recv_msg\<close>.\<close>

definition udp_buffer_size :: nat where "udp_buffer_size = 65536"

fun io_avail :: "(byte list \<times> raw_sockaddr) option list \<Rightarrow> (byte list \<times> raw_sockaddr) list" where
  "io_avail [] = []"
| "io_avail (None # rs) = []"
| "io_avail (Some (msg, host) # rs) =
     (if length msg = udp_buffer_size then io_avail rs else (msg, clean_sockaddr host) # io_avail rs)"

declare digest_loop.simps [simp del] offer_loop.simps [simp del]

section \<open>Specification of the answer\<close>

text \<open>The lines of the offer: each ends with CR LF, and none contains CR or NUL.\<close>

function sdp_lines :: "byte list \<Rightarrow> byte list list option" where
  "sdp_lines s =
     (if s = [] then Some []
      else let l = takeWhile (\<lambda>c. c \<noteq> 13) s; rest = dropWhile (\<lambda>c. c \<noteq> 13) s
           in if 0 \<in> set l \<or> take 2 rest \<noteq> CRLF then None
              else map_option (Cons l) (sdp_lines (drop 2 rest)))"
  by pat_completeness auto

termination sdp_lines
proof (relation "measure length")
  fix s l rest :: "byte list"
  assume "s \<noteq> []" "l = takeWhile (\<lambda>c. c \<noteq> 13) s" "rest = dropWhile (\<lambda>c. c \<noteq> 13) s"
  then show "(drop 2 rest, s) \<in> measure length"
    using length_dropWhile_le [of "\<lambda>c. c \<noteq> 13" s] by (cases s) simp_all
qed simp

declare sdp_lines.simps [simp del]

definition starts :: "string \<Rightarrow> byte list \<Rightarrow> bool" where
  "starts p l \<longleftrightarrow> take (length p) l = bytes_of p"

text \<open>How many bytes the comparisons at a line read: they go on until one of them succeeds, and the
  longest is the last.  The text from the line on, with its NUL, may be shorter.\<close>

definition compared :: "byte list \<Rightarrow> nat" where
  "compared l =
     (if \<not> (1 < length l \<and> l ! 0 = chr CHR ''a'' \<and> l ! 1 = chr CHR ''='') then 0
      else if starts ''a=ice-pwd:'' l then 10
      else if starts ''a=ice-ufrag:'' l \<or> starts ''a=setup:'' l \<or> starts ''a=sctp-port:'' l then 12
      else 22)"

function overreads :: "byte list \<Rightarrow> bool" where
  "overreads s =
     (if s = [] then False
      else let l = takeWhile (\<lambda>c. c \<noteq> 13) s; rest = dropWhile (\<lambda>c. c \<noteq> 13) s
           in if 0 \<in> set l \<or> take 2 rest \<noteq> CRLF then False
              else length s + 1 < compared l \<or> overreads (drop 2 rest))"
  by pat_completeness auto

termination overreads
proof (relation "measure length")
  fix s l rest :: "byte list"
  assume "s \<noteq> []" "l = takeWhile (\<lambda>c. c \<noteq> 13) s" "rest = dropWhile (\<lambda>c. c \<noteq> 13) s"
  then show "(drop 2 rest, s) \<in> measure length"
    using length_dropWhile_le [of "\<lambda>c. c \<noteq> 13" s] by (cases s) simp_all
qed simp

declare overreads.simps [simp del]

text \<open>The digest of a fingerprint text: the bytes of all its groups but the last.\<close>

fun digest_spec :: "byte list \<Rightarrow> byte list option" where
  "digest_spec (a # b # c # d # rest) =
     (if c = chr CHR '':'' \<and> fst (get_nibble a) \<and> fst (get_nibble b)
      then map_option (Cons (push_bit 4 (snd (get_nibble a)) + snd (get_nibble b))) (digest_spec (d # rest))
      else None)"
| "digest_spec [a, b, c] =
     (if fst (get_nibble a) \<and> fst (get_nibble b)
      then Some [push_bit 4 (snd (get_nibble a)) + snd (get_nibble b)] else None)"
| "digest_spec _ = Some []"

definition digest_of_text :: "byte list \<Rightarrow> byte list" where
  "digest_of_text s = (case digest_spec s of None \<Rightarrow> [] | Some d \<Rightarrow> d)"

text \<open>What a line does, \<open>later\<close> being the text after it.\<close>

definition answer_line ::
  "(nat \<Rightarrow> small_id) \<Rightarrow> byte list \<Rightarrow> byte list \<Rightarrow> byte list \<Rightarrow> offer_state \<Rightarrow> offer_state"
where
  "answer_line rand fgp l later st =
     (let fresh = hex_text (m_buf20 (rand (drawn st)))
      in if \<not> (1 < length l \<and> l ! 1 = chr CHR ''='') then st
         else if starts ''a=ice-pwd:'' l then
           append_ret (bytes_of ''a=ice-pwd:'' @ fresh @ CRLF)
             (st\<lparr>o_remote_pwd := drop 10 l, o_local_pwd := fresh, drawn := drawn st + 1\<rparr>)
         else if starts ''a=ice-ufrag:'' l then
           append_ret (bytes_of ''a=ice-ufrag:'' @ fresh @ CRLF)
             (st\<lparr>o_remote_ufrag := drop 12 l, o_local_ufrag := fresh, drawn := drawn st + 1\<rparr>)
         else if starts ''a=setup:'' l then append_ret (bytes_of ''a=setup:passive'' @ CRLF) st
         else if starts ''a=sctp-port:'' l then
           append_ret (bytes_of ''a=sctp-port:5000'' @ CRLF)
             (st\<lparr>o_remote_sctp_port := of_int (atoi (drop 12 l @ CRLF @ later))\<rparr>)
         else if starts ''a=fingerprint:sha-256 '' l then
           append_ret fgp (st\<lparr>o_remote_x509_digest := digest_of_text (drop 22 l)\<rparr>)
         else append_ret (l @ CRLF) st)"

fun answer_lines ::
  "(nat \<Rightarrow> small_id) \<Rightarrow> byte list \<Rightarrow> byte list list \<Rightarrow> offer_state \<Rightarrow> offer_state"
where
  "answer_lines rand fgp [] st = st"
| "answer_lines rand fgp (l # ls) st =
     answer_lines rand fgp ls (answer_line rand fgp l (concat (map (\<lambda>l. l @ CRLF) ls) @ [0]) st)"

lemma strchr_line: "13 \<notin> set l \<Longrightarrow> 0 \<notin> set l \<Longrightarrow> strchr (l @ 13 # r) 13 = Some (length l)"
  by (induction l) auto

lemma strchr_nul: "13 \<notin> set l \<Longrightarrow> strchr (l @ 0 # r) 13 = None"
  by (induction l) auto

lemma take_before:
  assumes "c \<notin> set p"
  shows "take (length p) (l @ c # r) = p \<longleftrightarrow> take (length p) l = p"
proof (cases "length p \<le> length l")
  case False
  then obtain k where k: "length p - length l = Suc k" by (cases "length p - length l") auto
  then have "take (length p) (l @ c # r) \<noteq> p" using assms False by (metis in_set_conv_decomp take_Suc_Cons take_all take_append nle_le)
  moreover have "take (length p) l \<noteq> p" using False by (metis length_take min.cobounded1 min.commute)
  ultimately show ?thesis by simp
qed simp

lemma starts_at_line:
  assumes "13 \<notin> set p"
  shows "starts_at p (pre @ l @ 13 # r) (length pre) =
    (if length p \<le> length l + 1 + length r then Some (take (length p) l = p) else None)"
  using take_before [OF assms, of l r]
  by (auto simp: starts_at_def rd_range_def)

lemma digest_loop_end: "e \<le> ptr + 2 \<Longrightarrow> digest_loop m ptr e oss = Some oss"
  by (subst digest_loop.simps) simp

lemma digest_loop_eq:
  "digest_loop (pre @ s @ post) (length pre) (length pre + length s) oss =
     Some (case digest_spec s of None \<Rightarrow> [] | Some d \<Rightarrow> oss @ d)"
proof (induction s arbitrary: pre oss rule: digest_spec.induct)
  case (1 a b c d rest)
  let ?n = "push_bit 4 (snd (get_nibble a)) + snd (get_nibble b)"
  have rds: "rd (pre @ a # b # c # d # rest @ post) (length pre) = Some a"
    "rd (pre @ a # b # c # d # rest @ post) (Suc (length pre)) = Some b"
    "rd (pre @ a # b # c # d # rest @ post) (Suc (Suc (length pre))) = Some c"
    by (simp_all add: mem_simps)
  let ?m = "pre @ a # b # c # d # rest @ post"
  let ?e = "length pre + length (a # b # c # d # rest)"
  show ?case
  proof (cases "c = chr CHR '':'' \<and> fst (get_nibble a) \<and> fst (get_nibble b)")
    case True
    then have "digest_loop ((pre @ [a, b, c]) @ (d # rest) @ post) (length (pre @ [a, b, c]))
        (length (pre @ [a, b, c]) + length (d # rest)) (oss @ [?n]) =
        Some (case digest_spec (d # rest) of None \<Rightarrow> [] | Some e \<Rightarrow> (oss @ [?n]) @ e)"
      by (intro 1) simp_all
    moreover have "digest_loop ?m (length pre) ?e oss = digest_loop ?m (length pre + 3) ?e (oss @ [?n])"
      using True rds by (subst digest_loop.simps) (simp add: numeral_eq_Suc)
    ultimately show ?thesis using True by (simp add: numeral_eq_Suc split: option.split)
  next
    case False
    have "digest_loop ?m (length pre) ?e oss = Some []"
      using False rds by (subst digest_loop.simps) auto
    then show ?thesis using False by auto
  qed
next
  case (2 a b c)
  have rds: "rd (pre @ a # b # c # post) (length pre) = Some a"
    "rd (pre @ a # b # c # post) (Suc (length pre)) = Some b"
    by (simp_all add: mem_simps)
  show ?case
    using rds by (subst digest_loop.simps) (auto simp: digest_loop_end)
qed (simp_all add: digest_loop.simps)

lemma digest_from_fingerprint_str_eq:
  "digest_from_fingerprint_str (pre @ s @ post) (length pre) (length s) = Some (digest_of_text s)"
  using digest_loop_eq [of pre s post "[]"]
  by (simp add: digest_from_fingerprint_str_def digest_of_text_def split: option.splits)

lemma toHexString_small_eq: "toHexString_small i = Some (hex_text (m_buf20 i))"
  using small.to_hex_text by simp

lemma rd_range_mid: "rd_range (pre @ l @ post) (length pre + k) (length l - k) = Some (drop k l)"
  if "k \<le> length l"
proof -
  have "rd_range (pre @ l @ post) (length pre + k) (length l - k) = rd_range (l @ post) k (length l - k)"
    by (simp add: mem_simps)
  then show ?thesis using that by (simp add: rd_range_def)
qed

lemma starts_length: "starts p l \<Longrightarrow> length p \<le> length l"
  unfolding starts_def by (metis length_bytes_of length_take min.cobounded1)

lemma starts_at_starts:
  assumes "13 \<notin> set (bytes_of p)"
  shows "starts_at (bytes_of p) (pre @ l @ 13 # r) (length pre) =
    (if length p \<le> length l + 1 + length r then Some (starts p l) else None)"
  using starts_at_line [OF assms] by (simp add: starts_def)

lemma offer_attribute_eq:
  assumes "1 < length l" "l ! 0 = chr CHR ''a''" "l ! 1 = chr CHR ''=''"
  shows "offer_attribute rand fgp (pre @ l @ CRLF @ later) (length pre) (length pre + length l) st =
    (if length l + 2 + length later < compared l then None else Some (answer_line rand fgp l later st))"
proof -
  let ?m = "pre @ l @ 13 # 10 # later"
  have nocr: "13 \<notin> set (bytes_of ''a=ice-pwd:'')" "13 \<notin> set (bytes_of ''a=ice-ufrag:'')"
    "13 \<notin> set (bytes_of ''a=setup:'')" "13 \<notin> set (bytes_of ''a=sctp-port:'')"
    "13 \<notin> set (bytes_of ''a=fingerprint:sha-256 '')"
    by (simp_all add: bytes_of_def)
  define n where "n = length l + 2 + length later"
  have n: "length l + 1 + length (10 # later) = n" "length l + 2 \<le> n" by (simp_all add: n_def)
  note st = nocr [THEN starts_at_starts, of pre l "10 # later", unfolded n]
  have k8: "starts ''a=setup:'' l \<Longrightarrow> 8 \<le> length l" using starts_length by fastforce
  have k: "starts ''a=ice-pwd:'' l \<Longrightarrow> 10 \<le> length l" "starts ''a=ice-ufrag:'' l \<Longrightarrow> 12 \<le> length l"
    "starts ''a=sctp-port:'' l \<Longrightarrow> 12 \<le> length l" "starts ''a=fingerprint:sha-256 '' l \<Longrightarrow> 22 \<le> length l"
    using starts_length by fastforce+
  have r: "rd_range ?m (length pre + 10) (length l - 10) = Some (drop 10 l)" if "10 \<le> length l"
    using rd_range_mid [OF that] by simp
  have r': "rd_range ?m (length pre + 12) (length l - 12) = Some (drop 12 l)" if "12 \<le> length l"
    using rd_range_mid [OF that] by simp
  have dg: "digest_from_fingerprint_str ?m (length pre + 22) (length l - 22) =
      Some (digest_of_text (drop 22 l))" if "22 \<le> length l"
    using digest_from_fingerprint_str_eq [of "pre @ take 22 l" "drop 22 l" "13 # 10 # later"] that
    by (simp add: append_assoc [symmetric] del: append_assoc) (simp add: min_absorb2)
  have line: "rd_range ?m (length pre) (length l + 2) = Some (l @ CRLF)"
    by (simp add: rd_range_def CRLF_def)
  have port: "drop (length pre + 12) ?m = drop 12 l @ 13 # 10 # later" if "12 \<le> length l"
    using that by simp
  have a_line: "1 < length l \<and> l ! 0 = chr CHR ''a'' \<and> l ! 1 = chr CHR ''=''" using assms by blast
  have few: "compared l = (if starts ''a=ice-pwd:'' l then 10
      else if starts ''a=ice-ufrag:'' l \<or> starts ''a=setup:'' l \<or> starts ''a=sctp-port:'' l then 12 else 22)"
    using a_line unfolding compared_def by presburger
  have eq: "Suc 0 < length l" "l ! Suc 0 = 61" using assms by simp_all
  note eqs = offer_attribute_def answer_line_def Let_def CRLF_def toHexString_small_eq eq st few n_def [symmetric]
  consider "starts ''a=ice-pwd:'' l" | "\<not> starts ''a=ice-pwd:'' l" "starts ''a=ice-ufrag:'' l"
    | "\<not> starts ''a=ice-pwd:'' l" "\<not> starts ''a=ice-ufrag:'' l" "starts ''a=setup:'' l"
    | "\<not> starts ''a=ice-pwd:'' l" "\<not> starts ''a=ice-ufrag:'' l" "\<not> starts ''a=setup:'' l"
      "starts ''a=sctp-port:'' l"
    | "\<not> starts ''a=ice-pwd:'' l" "\<not> starts ''a=ice-ufrag:'' l" "\<not> starts ''a=setup:'' l"
      "\<not> starts ''a=sctp-port:'' l" "starts ''a=fingerprint:sha-256 '' l"
    | "\<not> starts ''a=ice-pwd:'' l" "\<not> starts ''a=ice-ufrag:'' l" "\<not> starts ''a=setup:'' l"
      "\<not> starts ''a=sctp-port:'' l" "\<not> starts ''a=fingerprint:sha-256 '' l"
    by blast
  then show ?thesis
  proof cases
    case 1
    then show ?thesis using k(1) r n(2) by (simp add: eqs del: bytes_of_Cons)
  next
    case 2
    then show ?thesis using k(2) r' n(2) by (simp add: eqs del: bytes_of_Cons)
  next
    case 3
    then show ?thesis
      using k8 n(2) n_def by (cases "n < 12") (simp_all add: eqs del: bytes_of_Cons)
  next
    case 4
    then show ?thesis using k(3) n(2) by (simp add: eqs del: bytes_of_Cons)
  next
    case 5
    then show ?thesis using k(4) dg n(2) by (simp add: eqs del: bytes_of_Cons)
  next
    case 6
    consider "n < 10" | "10 \<le> n" "n < 12" | "12 \<le> n" "n < 22" | "22 \<le> n" by linarith
    then show ?thesis using 6 line n_def by cases (simp_all add: eqs del: bytes_of_Cons)
  qed
qed

lemma sdp_lines_concat: "sdp_lines s = Some ls \<Longrightarrow> s = concat (map (\<lambda>l. l @ CRLF) ls)"
proof (induction s arbitrary: ls rule: sdp_lines.induct)
  case (1 s)
  show ?case
  proof (cases "s = []")
    case True
    then show ?thesis using 1(2) by (simp add: sdp_lines.simps)
  next
    case False
    define l where "l = takeWhile (\<lambda>c. c \<noteq> 13) s"
    define rest where "rest = dropWhile (\<lambda>c. c \<noteq> 13) s"
    have ok: "\<not> (0 \<in> set l \<or> take 2 rest \<noteq> CRLF)"
      using 1(2) False by (auto simp: sdp_lines.simps [of s] l_def rest_def Let_def split: if_splits)
    then obtain ms where ms: "sdp_lines (drop 2 rest) = Some ms" "ls = l # ms"
      using 1(2) False by (auto simp: sdp_lines.simps [of s] l_def rest_def Let_def)
    then have "drop 2 rest = concat (map (\<lambda>l. l @ CRLF) ms)" using 1(1) [OF False l_def rest_def ok] by simp
    moreover have "s = l @ rest" by (simp add: l_def rest_def)
    moreover have "rest = CRLF @ drop 2 rest" using ok append_take_drop_id [of 2 rest] by simp
    ultimately show ?thesis using ms(2) by simp
  qed
qed

lemma starts_Cons: "starts (c # p) l \<longleftrightarrow> l \<noteq> [] \<and> l ! 0 = chr c \<and> starts p (tl l)"
  by (cases l) (auto simp: starts_def)

lemma answer_line_other:
  assumes "1 < length l" "l ! 1 = chr CHR ''=''" "l ! 0 \<noteq> chr CHR ''a''"
  shows "answer_line rand fgp l later st = append_ret (l @ CRLF) st"
  using assms by (simp add: answer_line_def starts_Cons Let_def)

text \<open>One turn of the loop, at the line \<open>l\<close>.\<close>

lemma offer_turn:
  assumes "13 \<notin> set l" "0 \<notin> set l"
  shows "offer_loop rand fgp (pre @ l @ CRLF @ r @ [0]) (length pre + (length l + (2 + length r))) (length pre) st =
    (if length l + 3 + length r < compared l then None
     else offer_loop rand fgp (pre @ l @ CRLF @ r @ [0]) (length pre + (length l + (2 + length r)))
      (length pre + length l + 2) (answer_line rand fgp l (r @ [0]) st))"
proof -
  let ?m = "pre @ l @ CRLF @ r @ [0]"
  have chr: "strchr (l @ CRLF @ r @ [0]) 13 = Some (length l)"
    using strchr_line [OF assms, of "10 # r @ [0]"] by (simp add: CRLF_def)
  have nl: "rd ?m (Suc (length pre + length l)) = Some 10"
    using rd_append [of "pre @ l @ [13]" "10 # r @ [0]" 0] by (simp add: CRLF_def mem_simps)
  have at: "rd ?m (Suc (length pre)) = Some (l ! 1)" if "1 < length l"
    using that by (cases l; cases "tl l") (auto simp: mem_simps)
  have at0: "rd ?m (length pre) = Some (l ! 0)" if "1 < length l"
    using that by (cases l) (simp_all add: mem_simps)
  have line: "rd_range ?m (length pre) (length l + 2) = Some (l @ CRLF)"
    by (simp add: rd_range_def CRLF_def)
  have body: "(if 1 < length l \<and> l ! 1 = chr CHR ''='' then
        if l ! 0 = chr CHR ''a'' then offer_attribute rand fgp ?m (length pre) (length pre + length l) st
        else Some (append_ret (l @ CRLF) st)
      else Some st) =
      (if length l + 3 + length r < compared l then None else Some (answer_line rand fgp l (r @ [0]) st))"
  proof (cases "1 < length l \<and> l ! 1 = chr CHR ''=''")
    case True
    show ?thesis
    proof (cases "l ! 0 = chr CHR ''a''")
      case a: True
      have len: "length l + 2 + length (r @ [0]) = length l + 3 + length r" by simp
      show ?thesis
        unfolding if_P [OF True] if_P [OF a]
        using offer_attribute_eq [of l rand fgp pre "r @ [0]" st] True a unfolding len by blast
    next
      case False
      then have "compared l = 0" unfolding compared_def by presburger
      then show ?thesis
        using answer_line_other [of l rand fgp "r @ [0]" st] True False by simp
    qed
  next
    case False
    then have "answer_line rand fgp l (r @ [0]) st = st" unfolding answer_line_def Let_def by (rule if_P)
    moreover have "compared l = 0" using False unfolding compared_def by presburger
    ultimately show ?thesis unfolding if_not_P [OF False] by simp
  qed
  let ?stop = "length pre + (length l + (2 + length r))"
  let ?go = "\<lambda>st. offer_loop rand fgp ?m ?stop (length pre + length l + 2) st"
  let ?turn = "if 1 < length l \<and> l ! 1 = chr CHR ''=''
      then if l ! 0 = chr CHR ''a'' then offer_attribute rand fgp ?m (length pre) (length pre + length l) st
        else Some (append_ret (l @ CRLF) st)
      else Some st"
  have "offer_loop rand fgp ?m ?stop (length pre) st = Option.bind ?turn ?go"
  proof (cases "1 < length l \<and> l ! 1 = chr CHR ''=''")
    case True
    then show ?thesis
      using chr nl at at0 line by (cases "l ! 0 = chr CHR ''a''"; subst offer_loop.simps) (simp_all add: Let_def)
  next
    case False
    then show ?thesis using chr nl at line by (subst offer_loop.simps) auto
  qed
  then show ?thesis unfolding body by simp
qed

lemma offer_loop_eq:
  "offer_loop rand fgp (pre @ s @ [0]) (length pre + length s) (length pre) st =
     (if overreads s then None
      else Some (case sdp_lines s of None \<Rightarrow> Inl Bad_sdp | Some ls \<Rightarrow> Inr (answer_lines rand fgp ls st)))"
proof (induction s arbitrary: pre st rule: sdp_lines.induct)
  case (1 s)
  show ?case
  proof (cases "s = []")
    case True
    then show ?thesis by (simp add: sdp_lines.simps offer_loop.simps overreads.simps)
  next
    case False
    define l where "l = takeWhile (\<lambda>c. c \<noteq> 13) s"
    define rest where "rest = dropWhile (\<lambda>c. c \<noteq> 13) s"
    have s: "s = l @ rest" and cr: "13 \<notin> set l" by (auto simp: l_def rest_def dest: set_takeWhileD)
    have lines: "sdp_lines s = (if 0 \<in> set l \<or> take 2 rest \<noteq> CRLF then None
        else map_option (Cons l) (sdp_lines (drop 2 rest)))"
      using False by (simp add: sdp_lines.simps [of s] l_def rest_def Let_def)
    have over: "overreads s \<longleftrightarrow> \<not> (0 \<in> set l \<or> take 2 rest \<noteq> CRLF) \<and>
        (length s + 1 < compared l \<or> overreads (drop 2 rest))"
      using False by (simp add: overreads.simps [of s] l_def rest_def Let_def)
    have pos: "length pre < length pre + length s" using False by simp
    consider "0 \<in> set l" | "0 \<notin> set l" "rest = []" | "0 \<notin> set l" "rest = [13]"
      | c r where "0 \<notin> set l" "rest = 13 # c # r" "c \<noteq> 10"
      | r where "0 \<notin> set l" "rest = CRLF @ r"
    proof -
      have "rest \<noteq> [] \<Longrightarrow> hd rest = 13" using hd_dropWhile [of "\<lambda>c. c \<noteq> 13" s] by (auto simp: rest_def)
      then show ?thesis
        using that by (cases rest; cases "tl rest") (auto simp: CRLF_def)
    qed
    then show ?thesis
    proof cases
      case 1
      then obtain a b where "l = a @ 0 # b" by (meson split_list)
      then have "strchr (s @ [0]) 13 = None" using strchr_nul [of a "b @ rest @ [0]"] cr s by simp
      then show ?thesis using 1 pos lines over by (subst offer_loop.simps) simp
    next
      case 2
      then have "strchr (s @ [0]) 13 = None" using strchr_nul [of l "[]"] cr s by simp
      then show ?thesis using 2 pos lines over by (subst offer_loop.simps) (simp add: CRLF_def)
    next
      case 3
      then have "strchr (s @ [0]) 13 = Some (length l)" using strchr_line [of l "[0]"] cr s by simp
      then show ?thesis using 3 pos lines over s by (subst offer_loop.simps) (simp add: CRLF_def)
    next
      case 4
      then have "strchr (s @ [0]) 13 = Some (length l)" using strchr_line [of l "c # r @ [0]"] cr s by simp
      moreover have "rd (pre @ s @ [0]) (Suc (length pre + length l)) = Some c"
        using rd_append [of "pre @ l @ [13]" "c # r @ [0]" 0] 4 s by (simp add: mem_simps)
      ultimately show ?thesis using 4 pos lines over s by (subst offer_loop.simps) (simp add: CRLF_def)
    next
      case 5
      have m: "pre @ s @ [0] = pre @ l @ CRLF @ r @ [0]" "length s = length l + (2 + length r)"
        using s 5 by (simp_all add: CRLF_def)
      have ok: "\<not> (0 \<in> set l \<or> take 2 rest \<noteq> CRLF)" and r: "drop 2 rest = r" using 5 by (simp_all add: CRLF_def)
      have rest: "offer_loop rand fgp ((pre @ l @ CRLF) @ r @ [0]) (length (pre @ l @ CRLF) + length r)
          (length (pre @ l @ CRLF)) (answer_line rand fgp l (r @ [0]) st) =
        (if overreads r then None else Some (case sdp_lines r of None \<Rightarrow> Inl Bad_sdp
          | Some ls \<Rightarrow> Inr (answer_lines rand fgp ls (answer_line rand fgp l (r @ [0]) st))))"
        using "1.IH" [OF False l_def rest_def ok] unfolding r by blast
      have "length s + 1 = length l + 3 + length r" using m(2) by simp
      then have over: "overreads s \<longleftrightarrow> length l + 3 + length r < compared l \<or> overreads r"
        using over ok unfolding r by metis
      have turn: "offer_loop rand fgp (pre @ s @ [0]) (length pre + length s) (length pre) st =
        (if overreads s then None else Some (case sdp_lines r of None \<Rightarrow> Inl Bad_sdp
          | Some ls \<Rightarrow> Inr (answer_lines rand fgp ls (answer_line rand fgp l (r @ [0]) st))))"
        using offer_turn [OF cr 5(1), of rand fgp pre r st] rest unfolding m over by (simp add: CRLF_def add.assoc)
      have "sdp_lines s = map_option (Cons l) (sdp_lines r)" using lines ok unfolding r by metis
      then show ?thesis
        using turn sdp_lines_concat [of r] by (auto split: option.splits)
    qed
  qed
qed

section \<open>Specifications\<close>

definition offer_spec ::
  "(nat \<Rightarrow> small_id) \<Rightarrow> byte list \<Rightarrow> byte list \<Rightarrow> byte list \<Rightarrow> offer_error + offer_result"
where
  "offer_spec rand fgp candidate sdp =
     (case sdp_lines sdp of
        None \<Rightarrow> Inl Bad_sdp
      | Some ls \<Rightarrow>
          let st = answer_lines rand fgp ls init_offer
          in if o_local_pwd st = [] \<or> o_local_ufrag st = [] \<or> ret_sdp st = [] \<or> o_remote_x509_digest st = []
             then Inl Bad_sdp
             else Inr \<lparr> answer_sdp = ret_sdp st @ bytes_of ''a=candidate:0 1 udp 2122260223 '' @ candidate @
                     bytes_of '' typ host'' @ CRLF,
                   stored_username = o_local_ufrag st @ [chr CHR '':''] @ o_remote_ufrag st,
                   stored_connection =
                     \<lparr> c_remote_ufrag = o_remote_ufrag st, c_remote_pwd = o_remote_pwd st,
                       c_remote_sctp_port = o_remote_sctp_port st,
                       c_remote_x509_digest = o_remote_x509_digest st,
                       c_local_ufrag = o_local_ufrag st, c_local_pwd = o_local_pwd st,
                       c_local_sctp_port = 5000 \<rparr> \<rparr>)"

lemma parse_offer_eq:
  "parse_offer rand fgp candidate offer =
     (if offer ''type'' \<noteq> Some (Json_string (bytes_of ''offer'')) then Some (Inl Not_an_offer)
      else case offer ''sdp'' of
        Some (Json_string sdp) \<Rightarrow> if overreads sdp then None else Some (offer_spec rand fgp candidate sdp)
      | _ \<Rightarrow> Some (Inl No_sdp))"
proof -
  have loop: "offer_loop rand fgp (sdp @ [0]) (length sdp) 0 init_offer =
      (if overreads sdp then None else Some (case sdp_lines sdp of None \<Rightarrow> Inl Bad_sdp
        | Some ls \<Rightarrow> Inr (answer_lines rand fgp ls init_offer)))" for sdp
    using offer_loop_eq [of rand fgp "[]" sdp init_offer] by simp
  show ?thesis
    unfolding parse_offer_def loop
    by (auto simp: offer_spec_def local_sctp_port_value_def Let_def split: option.split json_value.split)
qed

text \<open>The credentials in a state were drawn, at different places of the random sequence.\<close>

definition drawn_text :: "(nat \<Rightarrow> small_id) \<Rightarrow> nat option \<Rightarrow> byte list" where
  "drawn_text rand k = (case k of None \<Rightarrow> [] | Some i \<Rightarrow> hex_text (m_buf20 (rand i)))"

definition credentials_drawn :: "(nat \<Rightarrow> small_id) \<Rightarrow> offer_state \<Rightarrow> bool" where
  "credentials_drawn rand st \<longleftrightarrow>
     (\<exists>p u. o_local_pwd st = drawn_text rand p \<and> o_local_ufrag st = drawn_text rand u \<and>
        (\<forall>i. p = Some i \<longrightarrow> i < drawn st) \<and> (\<forall>i. u = Some i \<longrightarrow> i < drawn st) \<and> (p = None \<or> p \<noteq> u))"

lemma append_ret_simps [simp]:
  "o_local_pwd (append_ret x st) = o_local_pwd st" "o_local_ufrag (append_ret x st) = o_local_ufrag st"
  "drawn (append_ret x st) = drawn st" "o_remote_pwd (append_ret x st) = o_remote_pwd st"
  "o_remote_ufrag (append_ret x st) = o_remote_ufrag st" "ret_sdp (append_ret x st) = ret_sdp st @ x"
  "o_remote_x509_digest (append_ret x st) = o_remote_x509_digest st"
  by (simp_all add: append_ret_def)

lemma credentials_pwd:
  assumes "credentials_drawn rand st"
  shows "credentials_drawn rand
     (append_ret x (st\<lparr>o_remote_pwd := y, o_local_pwd := hex_text (m_buf20 (rand (drawn st))), drawn := drawn st + 1\<rparr>))"
proof -
  obtain u where "o_local_ufrag st = drawn_text rand u" "\<forall>i. u = Some i \<longrightarrow> i < drawn st"
    using assms by (auto simp: credentials_drawn_def)
  then show ?thesis
    unfolding credentials_drawn_def
    by (intro exI [of _ "Some (drawn st)"] exI [of _ u]) (auto simp: drawn_text_def)
qed

lemma credentials_ufrag:
  assumes "credentials_drawn rand st"
  shows "credentials_drawn rand
     (append_ret x (st\<lparr>o_remote_ufrag := y, o_local_ufrag := hex_text (m_buf20 (rand (drawn st))), drawn := drawn st + 1\<rparr>))"
proof -
  obtain p where "o_local_pwd st = drawn_text rand p" "\<forall>i. p = Some i \<longrightarrow> i < drawn st"
    using assms by (auto simp: credentials_drawn_def)
  then show ?thesis
    unfolding credentials_drawn_def
    by (intro exI [of _ p] exI [of _ "Some (drawn st)"]) (auto simp: drawn_text_def)
qed

lemma credentials_line:
  assumes "credentials_drawn rand st"
  shows "credentials_drawn rand (answer_line rand fgp l later st)"
proof -
  have other: "credentials_drawn rand (append_ret x st)" "credentials_drawn rand (append_ret x (st\<lparr>o_remote_sctp_port := y\<rparr>))"
    "credentials_drawn rand (append_ret x (st\<lparr>o_remote_x509_digest := z\<rparr>))" for x y z
    using assms by (simp_all add: credentials_drawn_def)
  show ?thesis
    unfolding answer_line_def Let_def
    using assms other credentials_pwd [OF assms] credentials_ufrag [OF assms] by presburger
qed

lemma credentials_lines:
  "credentials_drawn rand st \<Longrightarrow> credentials_drawn rand (answer_lines rand fgp ls st)"
  by (induction ls arbitrary: st) (auto intro: credentials_line)

lemma nibble_char:
  assumes "n < (16 :: byte)"
  shows "\<exists>c. append_nibble n (chr CHR ''A'') = [c] \<and> get_nibble c = (True, n)"
proof -
  have "\<forall>k \<in> set [0..<16]. append_nibble (of_nat k) (chr CHR ''A'') =
      [hd (append_nibble (of_nat k) (chr CHR ''A''))] \<and>
      get_nibble (hd (append_nibble (of_nat k) (chr CHR ''A''))) = (True, of_nat k)"
    by (simp add: upt_rec append_nibble_def get_nibble_def)
  then show ?thesis using byte_lt_16_cases [OF assms] by auto
qed

lemma digest_spec_fingerprint: "digest_spec (fingerprint_bytes d) = Some (butlast d)"
proof (induction d rule: induct_list012)
  case (2 b)
  then show ?case
    using nibble_char [of "drop_bit 4 b"] nibble_char [of "b AND 15"] by (auto simp: append_sdp_byte_def)
next
  case (3 b b' bs)
  obtain h l where hl: "append_nibble (drop_bit 4 b) (chr CHR ''A'') = [h]" "get_nibble h = (True, drop_bit 4 b)"
      "append_nibble (b AND 15) (chr CHR ''A'') = [l]" "get_nibble l = (True, b AND 15)"
    using nibble_char [of "drop_bit 4 b"] nibble_char [of "b AND 15"] by auto
  obtain x y where "fingerprint_bytes (b' # bs) = x # y"
    using nibble_char [of "drop_bit 4 b'"] by (auto simp: append_sdp_byte_def)
  moreover have "fingerprint_bytes (b # b' # bs) = h # l # chr CHR '':'' # fingerprint_bytes (b' # bs)"
    using hl by (simp add: append_sdp_byte_def)
  ultimately show ?case
    using 3(2) hl nibble_join [of b] by simp
qed simp

section \<open>Runs of the endpoint\<close>

text \<open>
  The endpoint receives datagrams and sweeps its associations: the datagrams received and the
  replies sent so far, each with its address.
\<close>

inductive webrtc_run ::
  "lookup_fun \<Rightarrow> conn_parser \<Rightarrow> hmac_fun \<Rightarrow> 'ssl ssl_api \<Rightarrow> (byte list \<times> sockaddr_storage) list \<Rightarrow>
     (byte list \<times> sockaddr_storage) list \<Rightarrow> 'ssl dtls_dispatch \<Rightarrow> bool"
  for lookup parse_conn hmac api
where
  webrtc_start: "webrtc_run lookup parse_conn hmac api [] [] new_dtls"
| webrtc_datagram: "webrtc_run lookup parse_conn hmac api hist sent d \<Longrightarrow>
    webrtc_recv_msg lookup parse_conn hmac api now msg addr d = Some (d', out) \<Longrightarrow>
    webrtc_run lookup parse_conn hmac api (hist @ [(msg, addr)]) (sent @ out) d'"
| webrtc_sweep: "webrtc_run lookup parse_conn hmac api hist sent d \<Longrightarrow> sweep_task d = Some t \<Longrightarrow> t \<le> now \<Longrightarrow>
    webrtc_run lookup parse_conn hmac api hist sent (run_sweep now d)"

definition known_peer ::
  "lookup_fun \<Rightarrow> conn_parser \<Rightarrow> hmac_fun \<Rightarrow> (byte list \<times> sockaddr_storage) list \<Rightarrow> sockaddr_storage \<Rightarrow> bool"
where
  "known_peer lookup parse_conn hmac hist addr \<longleftrightarrow>
     (\<exists>msg m. (msg, addr) \<in> set hist \<and>
        parse_stun_msg lookup parse_conn hmac msg = Some (Inr m) \<and> known_client m)"

lemma known_peer_more:
  "known_peer lookup parse_conn hmac hist addr \<Longrightarrow> known_peer lookup parse_conn hmac (hist @ new) addr"
  by (auto simp: known_peer_def)

lemma webrtc_recv_cases:
  assumes "webrtc_recv_msg lookup parse_conn hmac api now msg addr d = Some (d', out)"
  obtains (ignored) "d' = d" "out = []"
  | (stun) m reply where "parse_stun_msg lookup parse_conn hmac msg = Some (Inr m)" "known_client m"
      "d' = register_association api now addr (local_sctp_port m) (remote_sctp_port m) d"
      "create_stun_reply hmac m msg addr = Some reply" "out = [(reply, addr)]"
  | (dtls) "dtls_recv_msg api now msg addr d = Some d'" "out = []"
proof (cases msg)
  case Nil
  then show ?thesis using assms ignored by (simp add: webrtc_recv_msg_def)
next
  case (Cons b bs)
  then have first: "0 < length msg" "rd msg 0 = Some b" by (simp_all add: rd_def)
  consider "b \<le> 3" | "\<not> b \<le> 3" "20 \<le> b \<and> b \<le> 63" | "\<not> b \<le> 3" "\<not> (20 \<le> b \<and> b \<le> 63)" by blast
  then show ?thesis
  proof cases
    case 1
    then obtain res where res: "parse_stun_msg lookup parse_conn hmac msg = Some res"
      using assms first by (auto simp: webrtc_recv_msg_def bind_Some_iff)
    then show ?thesis
      using assms first 1 ignored stun
      by (cases res) (auto simp: webrtc_recv_msg_def bind_Some_iff split: if_splits)
  next
    case 2
    then have "\<not> (16 \<le> b \<and> b \<le> 19)" by (auto simp: word_le_nat_alt)
    then show ?thesis
      using assms first 2 dtls by (auto simp: webrtc_recv_msg_def bind_Some_iff)
  next
    case 3
    then show ?thesis using assms first ignored by (simp add: webrtc_recv_msg_def split: if_splits)
  qed
qed

lemma keys_register:
  "fst ` set (sctp_associations (register_association api now addr lp rp d)) =
     insert addr (fst ` set (sctp_associations d))"
  by (force simp: register_association_def sweep_inactive_def Let_def dest!: map_of_SomeD split: option.split)

lemma keys_recv:
  assumes "dtls_recv_msg api now msg addr d = Some d'"
  shows "fst ` set (sctp_associations d') = fst ` set (sctp_associations d)"
proof -
  have "map fst (sctp_associations d') = map fst (sctp_associations d)"
    using assms by (auto simp: dtls_recv_msg_def bind_Some_iff case_prod_beta split: option.splits)
  then show ?thesis by (metis set_map)
qed

lemma keys_sweep: "fst ` set (sctp_associations (run_sweep now d)) \<subseteq> fst ` set (sctp_associations d)"
  by (auto simp: run_sweep_def sweep_inactive_def Let_def)

lemma webrtc_run_inv:
  "webrtc_run lookup parse_conn hmac api hist sent d \<Longrightarrow>
     dtls_inv d \<and>
     (\<forall>addr \<in> fst ` set (sctp_associations d). known_peer lookup parse_conn hmac hist addr) \<and>
     (\<forall>addr \<in> snd ` set sent. known_peer lookup parse_conn hmac hist addr)"
proof (induction rule: webrtc_run.induct)
  case webrtc_start
  then show ?case by (simp add: new_dtls_def dtls_inv_def)
next
  case (webrtc_datagram hist sent d now msg addr d' out)
  from webrtc_datagram.hyps(2) show ?case
  proof (cases rule: webrtc_recv_cases)
    case ignored
    then show ?thesis using webrtc_datagram.IH by (auto intro: known_peer_more)
  next
    case (stun m reply)
    have "known_peer lookup parse_conn hmac (hist @ [(msg, addr)]) addr"
      using stun(1,2) by (auto simp: known_peer_def)
    moreover have "dtls_inv d'" using webrtc_datagram.IH stun(3) by (simp add: register_inv)
    ultimately show ?thesis
      using webrtc_datagram.IH keys_register [of api now addr "local_sctp_port m" "remote_sctp_port m" d] stun(3,5)
      by (auto intro: known_peer_more)
  next
    case dtls
    have "dtls_inv d'" using webrtc_datagram.IH dtls(1) by (blast intro: recv_inv)
    then show ?thesis
      using webrtc_datagram.IH keys_recv [OF dtls(1)] dtls(2) by (auto intro: known_peer_more)
  qed
next
  case (webrtc_sweep hist sent d t now)
  then have "known_peer lookup parse_conn hmac hist addr"
    if "addr \<in> fst ` set (sctp_associations (run_sweep now d))" for addr
    using that keys_sweep [of now d] by blast
  then show ?case using webrtc_sweep.IH by (simp add: sweep_inv)
qed

section \<open>From the offer to the association\<close>

lemma accepted_offer:
  assumes "parse_offer rand fgp candidate offer = Some (Inr r)"
  shows "\<exists>i j. i \<noteq> j \<and> c_local_pwd (stored_connection r) = hex_text (m_buf20 (rand i)) \<and>
    c_local_ufrag (stored_connection r) = hex_text (m_buf20 (rand j)) \<and>
    stored_username r =
      c_local_ufrag (stored_connection r) @ [chr CHR '':''] @ c_remote_ufrag (stored_connection r) \<and>
    c_remote_x509_digest (stored_connection r) \<noteq> [] \<and> c_local_sctp_port (stored_connection r) = 5000"
proof -
  obtain sdp where "offer_spec rand fgp candidate sdp = Inr r"
    using assms by (auto simp: parse_offer_eq split: if_splits option.splits json_value.splits)
  then obtain ls where ls: "\<And>st. st = answer_lines rand fgp ls init_offer \<Longrightarrow>
      o_local_pwd st \<noteq> [] \<and> o_local_ufrag st \<noteq> [] \<and> o_remote_x509_digest st \<noteq> [] \<and>
      stored_username r = o_local_ufrag st @ [chr CHR '':''] @ o_remote_ufrag st \<and>
      c_local_pwd (stored_connection r) = o_local_pwd st \<and> c_local_ufrag (stored_connection r) = o_local_ufrag st \<and>
      c_remote_ufrag (stored_connection r) = o_remote_ufrag st \<and> c_local_sctp_port (stored_connection r) = 5000 \<and>
      c_remote_x509_digest (stored_connection r) = o_remote_x509_digest st"
    by (auto simp: offer_spec_def Let_def split: option.splits if_splits)
  define st where "st = answer_lines rand fgp ls init_offer"
  have "credentials_drawn rand init_offer"
    unfolding credentials_drawn_def
    by (intro exI [of _ None]) (simp add: init_offer_def drawn_text_def)
  then have "credentials_drawn rand st" unfolding st_def by (rule credentials_lines)
  then obtain i j where "o_local_pwd st = drawn_text rand i" "o_local_ufrag st = drawn_text rand j" "i = None \<or> i \<noteq> j"
    by (auto simp: credentials_drawn_def)
  then show ?thesis
    using ls [OF st_def] by (cases i; cases j) (auto simp: drawn_text_def)
qed

lemma hex_digit_not_colon: "n < 16 \<Longrightarrow> hex_digit n \<noteq> 0x3a"
proof -
  assume "n < 16"
  moreover have "\<forall>k \<in> set [0..<16]. hex_digit (of_nat k) \<noteq> 0x3a" by (simp add: upt_rec hex_digit_def)
  ultimately show ?thesis using byte_lt_16_cases [of n] by auto
qed

lemma accepted_username:
  assumes "parse_offer rand fgp candidate offer = Some (Inr r)"
  shows "\<exists>h u. stored_username r = h # u \<and> h \<noteq> 0x3a \<and> 0x3a \<in> set u"
proof -
  obtain j where u: "stored_username r = hex_text (m_buf20 (rand j)) @ [chr CHR '':''] @
      c_remote_ufrag (stored_connection r)"
    using accepted_offer [OF assms] by metis
  have "length (m_buf20 (rand j)) = 20" using m_buf20 [of "rand j"] by simp
  then obtain b bs where "m_buf20 (rand j) = b # bs" by (cases "m_buf20 (rand j)") auto
  then show ?thesis using u hex_digit_not_colon [of "drop_bit 4 b"] by simp
qed

lemma binding_first_byte:
  assumes "20 \<le> length msg" "type_at msg 0 = binding"
  shows "rd msg 0 = Some 0"
proof -
  have "take 2 msg = enc_be 2 (dec_be (take 2 msg) :: u16)" using assms(1) by (simp add: enc_dec_be)
  also have "\<dots> = [0, 1]" using assms(2) by (simp add: type_at_def binding_def enc_be_def upt_rec)
  finally show ?thesis using assms(1) by (cases msg) (auto simp: rd_def)
qed

text \<open>The attributes that a connectivity check carries beside the user name and its integrity: any that the
  parser knows or that may be ignored, USE-CANDIDATE, ICE-CONTROLLING and FINGERPRINT as the
  parser wants them.\<close>

definition ice_attribute :: "byte list \<Rightarrow> attr \<Rightarrow> bool" where
  "ice_attribute msg = (\<lambda>(t, p, l). (t AND 0x8000 \<noteq> 0 \<or> t \<in> set known_required_attribs) \<and>
     t \<noteq> USERNAME \<and> t \<noteq> MESSAGE_INTEGRITY \<and> (t = USE_CANDIDATE \<longrightarrow> l = 0) \<and> (t = ICE_CONTROLLING \<longrightarrow> l = 8) \<and>
     (t = FINGERPRINT \<longrightarrow> l = 4 \<and> crc32_xor (take p msg) = Some (dec_be (val_at msg p l))))"

lemma ice_attribute_checked:
  assumes "ice_attribute msg a"
  shows "attr_error lookup parse_conn hmac msg st a = None"
  using assms by (cases a) (auto simp: ice_attribute_def attr_error_def)

lemma ice_attributes_checked:
  assumes "\<forall>a \<in> set as. ice_attribute msg a"
  shows "check_all lookup parse_conn hmac msg (as @ bs) st =
    check_all lookup parse_conn hmac msg bs (foldl (attr_state lookup parse_conn msg) st as)"
  using assms by (induction as arbitrary: st) (simp_all add: ice_attribute_checked)

lemma ice_attributes_state:
  assumes "\<forall>a \<in> set as. ice_attribute msg a"
  shows "p_known_client (foldl (attr_state lookup parse_conn msg) st as) = p_known_client st"
    "p_user_name (foldl (attr_state lookup parse_conn msg) st as) = p_user_name st"
    "p_conn (foldl (attr_state lookup parse_conn msg) st as) = p_conn st"
  using assms by (induction as arbitrary: st) (auto simp: attr_state_fields ice_attribute_def)

lemma registered_request_parsed:
  assumes user: "lookup u = Some data" "parse_conn data = Some c" "u = h # t" "h \<noteq> 0x3a" "0x3a \<in> set t"
    and hdr: "header_error msg = None" "type_at msg 0 = binding"
    and attrs: "attributes msg 20 = (xs @ (USERNAME, p, l) # ys @ (MESSAGE_INTEGRITY, q, 20) # zs, None)"
      "\<forall>a \<in> set (xs @ ys @ zs). ice_attribute msg a"
    and vals: "val_at msg p l = u" "val_at msg q 20 = hmac (c_local_pwd c) (patch_length (q + 4) (take q msg))"
  shows "\<exists>m. parse_stun_msg lookup parse_conn hmac msg = Some (Inr m) \<and> known_client m \<and>
    method_class m = request_class \<and> stun_method m = binding \<and>
    local_sctp_port m = ucast (c_local_sctp_port c) \<and> remote_sctp_port m = ucast (c_remote_sctp_port c)"
proof -
  let ?fold = "foldl (attr_state lookup parse_conn msg)"
  define s1 where "s1 = attr_state lookup parse_conn msg (?fold init_parse_state xs) (USERNAME, p, l)"
  define s2 where "s2 = attr_state lookup parse_conn msg (?fold s1 ys) (MESSAGE_INTEGRITY, q, 20)"
  have ice: "\<forall>a \<in> set xs. ice_attribute msg a" "\<forall>a \<in> set ys. ice_attribute msg a" "\<forall>a \<in> set zs. ice_attribute msg a"
    using attrs(2) by auto
  have conn: "connection_of lookup parse_conn u = Some c" using user by (simp add: connection_of_def)
  have s1: "p_known_client s1" "p_user_name s1 = u" "p_conn s1 = c"
    using vals(1) conn by (simp_all add: s1_def attr_state_fields)
  have s2: "p_known_client s2" "p_conn s2 = c"
    using s1 ice(2) by (simp_all add: s2_def attr_state_fields ice_attributes_state attribute_types)
  have "attr_error lookup parse_conn hmac msg st (USERNAME, p, l) = None" for st
    using user conn vals(1) by (simp add: attr_error_def attribute_types known_required_attribs_def)
  moreover have "attr_error lookup parse_conn hmac msg (?fold s1 ys) (MESSAGE_INTEGRITY, q, 20) = None"
    using s1 ice(2) vals(2) user(3)
    by (simp add: attr_error_def ice_attributes_state attribute_types known_required_attribs_def)
  ultimately have "check_all lookup parse_conn hmac msg (fst (attributes msg 20)) init_parse_state = Inr (?fold s2 zs)"
    using ice_attributes_checked [OF ice(3), of lookup parse_conn hmac "[]"]
    by (simp add: attrs(1) ice_attributes_checked [OF ice(1)] ice_attributes_checked [OF ice(2)] s1_def s2_def)
  then show ?thesis
    using hdr s2 ice(3)
    by (simp add: parse_stun_msg_eq parse_spec_def attrs(1) result_msg_def ice_attributes_state
        method_class_mask_def binding_def request_class_def)
qed

lemma client_registered:
  assumes offer: "parse_offer rand fgp candidate offer = Some (Inr r)"
    and stored: "lookup (stored_username r) = Some data" "parse_conn data = Some (stored_connection r)"
    and msg: "header_error msg = None" "type_at msg 0 = binding"
      "attributes msg 20 = (xs @ (USERNAME, p, l) # ys @ (MESSAGE_INTEGRITY, q, 20) # zs, None)"
      "\<forall>a \<in> set (xs @ ys @ zs). ice_attribute msg a"
      "val_at msg p l = stored_username r"
      "val_at msg q 20 = hmac (c_local_pwd (stored_connection r)) (patch_length (q + 4) (take q msg))"
    and addr: "wf_sockaddr addr" and hm: "\<And>k d. length (hmac k d) = 20"
  shows "\<exists>reply. webrtc_recv_msg lookup parse_conn hmac api now msg addr d =
    Some (register_association api now addr 5000 (ucast (c_remote_sctp_port (stored_connection r))) d,
      [(reply, addr)])"
proof -
  obtain h u where user: "stored_username r = h # u" "h \<noteq> 0x3a" "0x3a \<in> set u"
      and port: "c_local_sctp_port (stored_connection r) = 5000"
    using accepted_offer [OF offer] accepted_username [OF offer] by blast
  obtain m where m: "parse_stun_msg lookup parse_conn hmac msg = Some (Inr m)" "known_client m"
      "method_class m = request_class" "stun_method m = binding" "local_sctp_port m = 5000"
      "remote_sctp_port m = ucast (c_remote_sctp_port (stored_connection r))"
    using registered_request_parsed [where lookup = lookup and parse_conn = parse_conn and hmac = hmac,
        OF stored user msg] port by auto
  have len: "20 \<le> length msg" using msg(1) by (simp add: header_error_def split: if_splits)
  obtain reply where "create_stun_reply hmac m msg addr = Some reply"
    using create_stun_reply_eq [OF m(3,4) len addr, of hmac] hm by blast
  moreover have "msg \<noteq> []" using len by auto
  ultimately show ?thesis
    using m binding_first_byte [OF len msg(2)] by (simp add: webrtc_recv_msg_def)
qed

section \<open>Properties\<close>

text \<open>
  C13: the answer to an offer.  The parser always ends.  It leaves the memory of the text exactly when a
  line that starts with a= has, to the end of the text and its NUL, fewer bytes than the comparisons
  with the known attributes read (up to 22); otherwise it is the specification over the list of
  lines: each line is answered on its own, the credentials of the server are fresh random
  identifiers, and an offer without complete lines, password, fragment or fingerprint is rejected.
\<close>

theorem parse_offer_is_spec:
  "parse_offer rand fgp candidate offer =
     (if offer ''type'' \<noteq> Some (Json_string (bytes_of ''offer'')) then Some (Inl Not_an_offer)
      else case offer ''sdp'' of
        Some (Json_string sdp) \<Rightarrow> if overreads sdp then None else Some (offer_spec rand fgp candidate sdp)
      | _ \<Rightarrow> Some (Inl No_sdp))"
  by (rule parse_offer_eq)

text \<open>A short last line is enough: 15 bytes with the NUL, of which the comparisons read 22.\<close>

lemma short_last_line:
  "parse_offer rand fgp candidate
     [''type'' \<mapsto> Json_string (bytes_of ''offer''), ''sdp'' \<mapsto> Json_string (bytes_of ''a=mid:data'' @ CRLF)] = None"
proof -
  have "compared (bytes_of ''a=mid:data'') = 22" by (simp add: compared_def starts_def)
  then have "overreads (bytes_of ''a=mid:data'' @ CRLF)" by (simp add: overreads.simps CRLF_def)
  then show ?thesis by (simp add: parse_offer_eq)
qed

text \<open>
  reading the fingerprint that the server itself writes gives all bytes of the digest but the
  last one, whatever follows the text in memory.
\<close>

theorem fingerprint_loses_last_byte:
  "digest_from_fingerprint_str (pre @ fingerprint_bytes d @ post) (length pre) (length (fingerprint_bytes d)) =
     Some (butlast d)"
  by (simp add: digest_from_fingerprint_str_eq digest_of_text_def digest_spec_fingerprint)

text \<open>
  over any run of the endpoint, a peer address has an association, or has been sent a reply, only
  after a datagram from that address was accepted as a STUN message with the user name of
  a stored connection; and no datagram reaches SCTP before the DTLS handshake.
\<close>

theorem webrtc_peers_known:
  assumes "webrtc_run lookup parse_conn hmac api hist sent d"
  shows "(\<forall>addr \<in> fst ` set (sctp_associations d) \<union> snd ` set sent.
      \<exists>msg m. (msg, addr) \<in> set hist \<and> parse_stun_msg lookup parse_conn hmac msg = Some (Inr m) \<and>
        known_client m) \<and>
    (\<forall>(addr, a) \<in> set (sctp_associations d). \<not> accepted a \<longrightarrow> (\<exists>lp rp. sctp a = new_sctp lp rp))"
  using webrtc_run_inv [OF assms]
  by (auto simp: known_peer_def dtls_inv_def association_inv_def untouched_def)

text \<open>
  receiving a datagram always ends without an access outside a buffer, if OpenSSL's records come
  out of received input and HMAC-SHA1 gives twenty bytes.
\<close>

theorem webrtc_recv_ends:
  assumes "reads_consume api pending" "wf_sockaddr addr" "\<And>k d. length (hmac k d) = 20"
  shows "\<exists>d' out. webrtc_recv_msg lookup parse_conn hmac api now msg addr d = Some (d', out) \<and> length out \<le> 1"
proof -
  have dtls: "\<exists>d'. dtls_recv_msg api now msg addr d = Some d'"
  proof (cases "map_of (sctp_associations d) addr")
    case (Some conn)
    have "association_recv_msg api now msg conn \<noteq> None"
      using read_loop_ends [OF assms(1)] by (simp add: association_recv_msg_def Let_def split: prod.split)
    then show ?thesis using Some by (auto simp: dtls_recv_msg_def)
  qed (simp add: dtls_recv_msg_def)
  have reply: "\<exists>r. create_stun_reply hmac m msg addr = Some r"
    if "parse_spec lookup parse_conn hmac msg = Inr m" for m
  proof (cases "method_class m = request_class \<and> stun_method m = binding")
    case True
    have "20 \<le> length msg" using that by (auto simp: parse_spec_def header_error_def split: if_splits)
    then show ?thesis using create_stun_reply_eq [of m msg addr hmac] True assms(2,3) by blast
  qed (auto simp: create_stun_reply_def)
  show ?thesis
    using dtls reply
    by (cases msg) (auto simp: webrtc_recv_msg_def parse_stun_msg_eq rd_def split: sum.splits)
qed

text \<open>
  C20: the credentials of the server in an answer are the hexadecimal texts of two random identifiers
  drawn one after the other, so never the same draw twice; the peer is registered under
  \<open>local:remote\<close>, as its STUN user name will be.
\<close>

theorem offer_credentials:
  assumes "parse_offer rand fgp candidate offer = Some (Inr r)"
  shows "\<exists>i j. i \<noteq> j \<and> c_local_pwd (stored_connection r) = hex_text (m_buf20 (rand i)) \<and>
    c_local_ufrag (stored_connection r) = hex_text (m_buf20 (rand j)) \<and>
    stored_username r =
      c_local_ufrag (stored_connection r) @ [chr CHR '':''] @ c_remote_ufrag (stored_connection r) \<and>
    c_remote_x509_digest (stored_connection r) \<noteq> [] \<and> c_local_sctp_port (stored_connection r) = 5000"
  by (rule accepted_offer [OF assms])

text \<open>
  C12: a peer that got an answer can connect: its binding request, with the stored user name and, behind it,
  an HMAC under the password of the answer, before, between and behind them any other attributes of a
  connectivity check (PRIORITY, ICE-CONTROLLING or ICE-CONTROLLED, USE-CANDIDATE, FINGERPRINT and all that may be
  ignored), registers an association for its address with the ports of the two descriptions, and
  is answered by one datagram.
\<close>

theorem offered_client_registered:
  assumes offer: "parse_offer rand fgp candidate offer = Some (Inr r)"
    and stored: "lookup (stored_username r) = Some data" "parse_conn data = Some (stored_connection r)"
    and msg: "header_error msg = None" "type_at msg 0 = binding"
      "attributes msg 20 = (xs @ (USERNAME, p, l) # ys @ (MESSAGE_INTEGRITY, q, 20) # zs, None)"
      "\<forall>a \<in> set (xs @ ys @ zs). ice_attribute msg a"
      "val_at msg p l = stored_username r"
      "val_at msg q 20 = hmac (c_local_pwd (stored_connection r)) (patch_length (q + 4) (take q msg))"
    and addr: "wf_sockaddr addr" and hm: "\<And>k d. length (hmac k d) = 20"
  shows "\<exists>reply. webrtc_recv_msg lookup parse_conn hmac api now msg addr d =
    Some (register_association api now addr 5000 (ucast (c_remote_sctp_port (stored_connection r))) d,
      [(reply, addr)])"
  using client_registered [where lookup = lookup and parse_conn = parse_conn and hmac = hmac, OF assms] .

section \<open>A run of the endpoint\<close>

definition sample_sdp :: "byte list" where
  "sample_sdp = bytes_of ''a=ice-pwd:p'' @ CRLF @ bytes_of ''a=ice-ufrag:b'' @ CRLF @
     bytes_of ''a=fingerprint:sha-256 AB:CD'' @ CRLF"

definition sample_offer :: "string \<Rightarrow> json_value option" where
  "sample_offer = [''type'' \<mapsto> Json_string (bytes_of ''offer''), ''sdp'' \<mapsto> Json_string sample_sdp]"

definition zero_ids :: "nat \<Rightarrow> small_id" where
  "zero_ids = (\<lambda>_. Small_Id (replicate 20 0))"

lemma zero_id_text: "hex_text (m_buf20 (zero_ids i)) = replicate 40 48"
proof -
  have "hex_digit 0 = 48" by (simp add: hex_digit_def)
  then have "hex_text (replicate n 0) = replicate (2 * n) 48" for n by (induction n) simp_all
  then show ?thesis by (simp add: zero_ids_def Small_Id_inverse)
qed

lemma sample_sdp_safe: "\<not> overreads sample_sdp"
  by (simp add: sample_sdp_def CRLF_def overreads.simps compared_def starts_def)

lemma sample_sdp_lines:
  "sdp_lines sample_sdp =
     Some [bytes_of ''a=ice-pwd:p'', bytes_of ''a=ice-ufrag:b'', bytes_of ''a=fingerprint:sha-256 AB:CD'']"
  by (simp add: sample_sdp_def CRLF_def sdp_lines.simps)

definition sample_connection :: connection where
  "sample_connection =
     \<lparr> c_remote_ufrag = [98], c_remote_pwd = [112], c_remote_sctp_port = 0, c_remote_x509_digest = [0xab],
       c_local_ufrag = replicate 40 48, c_local_pwd = replicate 40 48, c_local_sctp_port = 5000 \<rparr>"

lemma sample_offer_accepted:
  "\<exists>r. parse_offer zero_ids [] [] sample_offer = Some (Inr r) \<and> stored_connection r = sample_connection \<and>
     stored_username r = replicate 40 48 @ [58, 98]"
  by (simp add: parse_offer_eq sample_sdp_safe sample_offer_def offer_spec_def sample_sdp_lines answer_line_def zero_id_text
      Let_def starts_def digest_of_text_def get_nibble_def append_ret_def init_offer_def sample_connection_def
      push_bit_eq_mult)

lemma offer_credentials_witness:
  "\<exists>r. parse_offer zero_ids [] [] sample_offer = Some (Inr r) \<and>
     (\<exists>i j. i \<noteq> j \<and> c_local_pwd (stored_connection r) = hex_text (m_buf20 (zero_ids i)) \<and>
        c_local_ufrag (stored_connection r) = hex_text (m_buf20 (zero_ids j)))"
  using sample_offer_accepted offer_credentials [of zero_ids "[]" "[]" sample_offer] by blast

definition offered_head :: "byte list" where
  "offered_head =
     [0, 1, 0, 112, 0x21, 0x12, 0xa4, 0x42] @ replicate 12 0 @
     [0, 6, 0, 42] @ replicate 40 48 @ [58, 98, 0, 0] @ [0xc0, 0x57, 0, 4, 0, 0, 0, 10] @
     [0x80, 0x2a, 0, 8, 1, 2, 3, 4, 5, 6, 7, 8] @ [0, 0x25, 0, 0] @ [0, 0x24, 0, 4, 0x6e, 0, 0x1e, 0xff] @
     [0, 8, 0, 20] @ replicate 20 7"

definition offered_crc :: "byte list" where
  "offered_crc = enc_be 4 (the (crc32_xor offered_head))"

definition offered_request :: "byte list" where
  "offered_request = offered_head @ [0x80, 0x28, 0, 4] @ offered_crc"

lemma offered_crc_length: "length offered_crc = 4"
  by (simp add: offered_crc_def)

lemma offered_types:
  "length offered_request = 132" "type_at offered_request 0 = 1" "type_at offered_request 2 = 112"
  "type_at offered_request 20 = USERNAME" "type_at offered_request 22 = 42"
  "type_at offered_request 68 = 0xc057" "type_at offered_request 70 = 4"
  "type_at offered_request 76 = ICE_CONTROLLING" "type_at offered_request 78 = 8"
  "type_at offered_request 88 = USE_CANDIDATE" "type_at offered_request 90 = 0"
  "type_at offered_request 92 = PRIORITY" "type_at offered_request 94 = 4"
  "type_at offered_request 100 = MESSAGE_INTEGRITY" "type_at offered_request 102 = 20"
  "type_at offered_request 124 = FINGERPRINT" "type_at offered_request 126 = 4"
  by (simp_all add: type_at_def offered_request_def offered_head_def offered_crc_length dec_be_def attribute_types)

lemma offered_attributes:
  "attributes offered_request 20 = ([] @ (USERNAME, 20, 42) #
     [(0xc057, 68, 4), (ICE_CONTROLLING, 76, 8), (USE_CANDIDATE, 88, 0), (PRIORITY, 92, 4)] @
     (MESSAGE_INTEGRITY, 100, 20) # [(FINGERPRINT, 124, 4)], None)"
  by (simp add: attributes.simps [of offered_request 20] attributes.simps [of offered_request 68]
    attributes.simps [of offered_request 76] attributes.simps [of offered_request 88]
    attributes.simps [of offered_request 92] attributes.simps [of offered_request 100]
    attributes.simps [of offered_request 124] attributes.simps [of offered_request 132]
    offered_types len_at_def round4_def)

lemma offered_values:
  "val_at offered_request 20 42 = replicate 40 48 @ [58, 98]" "val_at offered_request 100 20 = replicate 20 7"
  "val_at offered_request 124 4 = offered_crc" "take 124 offered_request = offered_head"
  by (simp_all add: val_at_def offered_request_def offered_head_def offered_crc_length)

lemma offered_ice:
  "\<forall>a \<in> set ([] @ [(0xc057, 68, 4), (ICE_CONTROLLING, 76, 8), (USE_CANDIDATE, 88, 0), (PRIORITY, 92, 4)] @
     [(FINGERPRINT, 124, 4)]). ice_attribute offered_request a"
proof -
  have "crc32_xor (take 124 offered_request) = Some (dec_be (val_at offered_request 124 4))"
    by (simp add: offered_values offered_crc_def dec_enc_be crc32_xor_eq)
  then show ?thesis
    by (simp add: ice_attribute_def attribute_types known_required_attribs_def)
qed

lemma offered_header: "header_error offered_request = None"
  by (simp add: header_error_def offered_types)
    (simp add: offered_request_def offered_head_def raw_magic_cookie_def method_class_mask_def binding_def)

lemmas offered_facts = offered_header offered_attributes offered_ice offered_values(1,2)

lemma registered_offer:
  "\<exists>reply. webrtc_recv_msg (\<lambda>u. Some u) (\<lambda>d. Some sample_connection) (\<lambda>k d. replicate 20 7) plain_api
     (Timespec 10 0) offered_request sample_address new_dtls =
   Some (register_association plain_api (Timespec 10 0) sample_address 5000 0 new_dtls, [(reply, sample_address)])"
proof -
  obtain r where "parse_offer zero_ids [] [] sample_offer = Some (Inr r)"
      "stored_connection r = sample_connection" "stored_username r = replicate 40 48 @ [58, 98]"
    using sample_offer_accepted by blast
  then show ?thesis
    using client_registered [of zero_ids "[]" "[]" sample_offer r "\<lambda>u. Some u" "stored_username r" "\<lambda>d. Some sample_connection"
        offered_request "[]" 20 42 "[(0xc057, 68, 4), (ICE_CONTROLLING, 76, 8), (USE_CANDIDATE, 88, 0), (PRIORITY, 92, 4)]"
        100 "[(FINGERPRINT, 124, 4)]" "\<lambda>k d. replicate 20 7" sample_address plain_api "Timespec 10 0" new_dtls]
      offered_facts
    by (simp add: offered_types binding_def sample_facts sample_connection_def)
qed

lemma offered_client_registered_witness:
  "\<exists>reply. webrtc_recv_msg (\<lambda>u. Some u) (\<lambda>d. Some sample_connection) (\<lambda>k d. replicate 20 7) plain_api
     (Timespec 10 0) offered_request sample_address new_dtls =
   Some (register_association plain_api (Timespec 10 0) sample_address 5000 0 new_dtls, [(reply, sample_address)])"
proof -
  obtain r where "parse_offer zero_ids [] [] sample_offer = Some (Inr r)"
      "stored_connection r = sample_connection" "stored_username r = replicate 40 48 @ [58, 98]"
    using sample_offer_accepted by blast
  then show ?thesis
    using offered_client_registered [of zero_ids "[]" "[]" sample_offer r "\<lambda>u. Some u" "stored_username r" "\<lambda>d. Some sample_connection"
        offered_request "[]" 20 42 "[(0xc057, 68, 4), (ICE_CONTROLLING, 76, 8), (USE_CANDIDATE, 88, 0), (PRIORITY, 92, 4)]"
        100 "[(FINGERPRINT, 124, 4)]" "\<lambda>k d. replicate 20 7" sample_address plain_api "Timespec 10 0" new_dtls]
      offered_facts
    by (simp add: offered_types binding_def sample_facts sample_connection_def)
qed

lemma webrtc_recv_ends_witness:
  "\<exists>d' out. webrtc_recv_msg (\<lambda>u. Some u) (\<lambda>d. Some sample_connection) (\<lambda>k d. replicate 20 7) plain_api
     (Timespec 10 0) offered_request sample_address new_dtls = Some (d', out) \<and> length out \<le> 1"
  using webrtc_recv_ends [OF plain_api_consumes sample_facts(4)] by simp

lemma webrtc_peers_known_witness:
  "\<exists>hist sent d. webrtc_run (\<lambda>u. Some u) (\<lambda>d. Some sample_connection) (\<lambda>k d. replicate 20 7) plain_api hist sent d \<and>
     sample_address \<in> snd ` set sent \<and>
     (\<exists>msg m. (msg, sample_address) \<in> set hist \<and>
        parse_stun_msg (\<lambda>u. Some u) (\<lambda>d. Some sample_connection) (\<lambda>k d. replicate 20 7) msg = Some (Inr m))"
proof -
  obtain reply where "webrtc_recv_msg (\<lambda>u. Some u) (\<lambda>d. Some sample_connection) (\<lambda>k d. replicate 20 7) plain_api
      (Timespec 10 0) offered_request sample_address new_dtls =
    Some (register_association plain_api (Timespec 10 0) sample_address 5000 0 new_dtls, [(reply, sample_address)])"
    using registered_offer by blast
  from webrtc_datagram [OF webrtc_start this]
  have run: "webrtc_run (\<lambda>u. Some u) (\<lambda>d. Some sample_connection) (\<lambda>k d. replicate 20 7) plain_api
      [(offered_request, sample_address)] [(reply, sample_address)]
      (register_association plain_api (Timespec 10 0) sample_address 5000 0 new_dtls)" by simp
  show ?thesis using run webrtc_peers_known [OF run] by fastforce
qed

end
