(* ===== verification/Http_Request.thy ===== *)
theory Http_Request
  imports Prelude Text
begin

text \<open>
  Requests and responses of the HTTP server, \<open>src/cpp/http_server.h\<close>, \<open>src/cpp/http_server.cpp\<close> and
  \<open>src/cpp/string_len.h\<close>: the multimap of headers, the pointer loops that look up a query
  field or a cookie and that remove a query field, and the text of a response.
\<close>

section \<open>Text\<close>

text \<open>\<open>memchr\<close> on the characters of a range, and \<open>strchr\<close> and \<open>strchrnul\<close> on memory that holds a
  terminating NUL: \<open>None\<close> is the null pointer.\<close>

definition str_memchr :: "char \<Rightarrow> string \<Rightarrow> nat option" where
  "str_memchr c s = (if c \<in> set s then Some (length (takeWhile (\<lambda>x. x \<noteq> c) s)) else None)"

definition c_text :: "string \<Rightarrow> string" where
  "c_text mem = takeWhile (\<lambda>x. x \<noteq> NUL) mem"

definition str_strchr :: "char \<Rightarrow> string \<Rightarrow> nat option" where
  "str_strchr c mem = str_memchr c (c_text mem)"

definition str_strchrnul :: "char \<Rightarrow> string \<Rightarrow> nat" where
  "str_strchrnul c mem = (case str_strchr c mem of Some i \<Rightarrow> i | None \<Rightarrow> length (c_text mem))"

text \<open>\<open>string_len::operator<\<close>: \<open>memcmp\<close> on the common length, then the lengths.\<close>

fun str_memcmp :: "string \<Rightarrow> string \<Rightarrow> int" where
  "str_memcmp (a # as) (b # bs) = (if a = b then str_memcmp as bs else if a < b then - 1 else 1)"
| "str_memcmp _ _ = 0"

definition string_len_lt :: "string \<Rightarrow> string \<Rightarrow> bool" where
  "string_len_lt a b =
     (let l = (if length a < length b then length a else length b);
          ret = str_memcmp (take l a) (take l b)
      in if ret \<noteq> 0 then ret < 0 else length a < length b)"

lemma string_len_lt_Nil: "string_len_lt [] b \<longleftrightarrow> b \<noteq> []" "\<not> string_len_lt a []"
  by (auto simp: string_len_lt_def)

lemma string_len_lt_Cons:
  "string_len_lt (a # as) (b # bs) \<longleftrightarrow> a < b \<or> a = b \<and> string_len_lt as bs"
  by (auto simp: string_len_lt_def Let_def)

lemma string_len_lt_iff: "string_len_lt a b \<longleftrightarrow> a < b"
proof (induction a arbitrary: b)
  case Nil
  then show ?case by (cases b) (simp_all add: string_len_lt_Nil)
next
  case (Cons x a)
  then show ?case by (cases b) (auto simp: string_len_lt_Nil string_len_lt_Cons)
qed

section \<open>Headers\<close>

text \<open>A \<open>std::multimap\<close> as the list of its entries in order.  A new entry goes behind those with
  an equivalent key, and \<open>find\<close> returns the first of these.\<close>

type_synonym headers = "(string \<times> string) list"

definition headers_insert :: "string \<Rightarrow> string \<Rightarrow> headers \<Rightarrow> headers" where
  "headers_insert f v hs =
     takeWhile (\<lambda>(g, _). \<not> string_len_lt f g) hs @ (f, v) # dropWhile (\<lambda>(g, _). \<not> string_len_lt f g) hs"

fun headers_find :: "headers \<Rightarrow> string \<Rightarrow> string option" where
  "headers_find [] f = None"
| "headers_find ((g, v) # hs) f =
     (if string_len_lt g f then headers_find hs f else if string_len_lt f g then None else Some v)"

definition get_header :: "headers \<Rightarrow> string \<Rightarrow> string" where
  "get_header hs field = (case headers_find hs field of Some v \<Rightarrow> v | None \<Rightarrow> '''')"

definition contains_header :: "headers \<Rightarrow> string \<Rightarrow> bool" where
  "contains_header hs field = (headers_find hs field \<noteq> None)"

section \<open>Requests\<close>

datatype url_field = UF_SCHEMA | UF_HOST | UF_PORT | UF_PATH | UF_QUERY | UF_FRAGMENT | UF_USERINFO

text \<open>\<open>p_url\<close> gives the offset and length of each field that is set.\<close>

record http_request =
  p_url :: "url_field \<Rightarrow> (nat \<times> nat) option"
  url_str :: string
  has_content_length :: bool
  content_length :: int
  headers :: headers
  http_method :: nat

definition init_request :: "http_request \<Rightarrow> http_request" where
  "init_request r = r\<lparr>headers := [], p_url := (\<lambda>_. None), url_str := ''''\<rparr>"

text \<open>\<open>std::string::substr\<close> throws for an offset behind the end and cuts the length.\<close>

definition substr :: "string \<Rightarrow> nat \<Rightarrow> nat \<Rightarrow> string option" where
  "substr s off n = (if off \<le> length s then Some (take n (drop off s)) else None)"

definition get_url_field :: "http_request \<Rightarrow> url_field \<Rightarrow> string option" where
  "get_url_field r f = (case p_url r f of Some (off, len) \<Rightarrow> substr (url_str r) off len | None \<Rightarrow> Some '''')"

definition get_url_field_s :: "http_request \<Rightarrow> url_field \<Rightarrow> string option" where
  "get_url_field_s r f =
     (case p_url r f of Some (off, len) \<Rightarrow> rd_range (url_str r @ [NUL]) off len | None \<Rightarrow> Some '''')"

text \<open>The test \<open>!memcmp(qs, field, len) && P(qs[len])\<close>.\<close>

definition field_at :: "string \<Rightarrow> string \<Rightarrow> nat \<Rightarrow> (char \<Rightarrow> bool) \<Rightarrow> bool option" where
  "field_at mem field qs P = do {
     name \<leftarrow> rd_range mem qs (length field);
     if name = field then do { c \<leftarrow> rd mem (qs + length field); Some (P c) } else Some False }"

text \<open>The loop of \<open>get_query_val_s\<close> on the characters \<open>[qs, qse)\<close> of the query.\<close>

function query_loop :: "string \<Rightarrow> string \<Rightarrow> nat \<Rightarrow> string option option" where
  "query_loop q field qs =
     (if qs + length field + 1 < length q then do {
        hit \<leftarrow> field_at q field qs (\<lambda>c. c = CHR ''='');
        if hit then
          (let vs = qs + length field + 1;
               ampr = (case str_memchr CHR ''&'' (drop vs q) of Some i \<Rightarrow> vs + i | None \<Rightarrow> length q)
           in do { v \<leftarrow> rd_range q vs (ampr - vs); Some (Some v) })
        else
          (let ampr = (case str_memchr CHR ''&'' (drop qs q) of Some i \<Rightarrow> qs + i | None \<Rightarrow> length q)
           in query_loop q field (ampr + 1)) }
      else Some None)"
  by pat_completeness auto

termination query_loop
  by (relation "measure (\<lambda>(q, field, qs). length q - qs)") (auto split: option.splits)

datatype query_error = Missing_query_field

definition get_query_val_s :: "string \<Rightarrow> string \<Rightarrow> string \<Rightarrow> bool \<Rightarrow> (query_error + string) option" where
  "get_query_val_s query field dflt required = do {
     r \<leftarrow> query_loop query field 0;
     Some (case r of Some v \<Rightarrow> Inr v | None \<Rightarrow> if required then Inl Missing_query_field else Inr dflt) }"

definition get_query_val :: "http_request \<Rightarrow> string \<Rightarrow> string \<Rightarrow> bool \<Rightarrow> (query_error + string) option" where
  "get_query_val r field dflt required = do {
     query \<leftarrow> get_url_field_s r UF_QUERY;
     get_query_val_s query field dflt required }"

text \<open>\<open>remove_query_field\<close> on the memory \<open>uri\<close> with its NUL.\<close>

function remove_loop :: "string \<Rightarrow> string \<Rightarrow> nat \<Rightarrow> string option" where
  "remove_loop uri field qs =
     (let mem = uri @ [NUL]; len = length field in
      if qs + len + 1 < length uri then do {
        hit \<leftarrow> field_at mem field qs (\<lambda>c. c = CHR ''='' \<or> c = CHR ''&'');
        if hit then do {
          stripped \<leftarrow> rd_range mem 0 qs;
          Some (case str_strchr CHR ''&'' (drop (qs + len) mem) of
                  Some i \<Rightarrow> stripped @ c_text (drop (qs + len + i + 1) mem)
                | None \<Rightarrow> take (length stripped - 1) stripped) }
        else remove_loop uri field (qs + str_strchrnul CHR ''&'' (drop qs mem) + 1) }
      else Some uri)"
  by pat_completeness auto

termination remove_loop
  by (relation "measure (\<lambda>(uri, field, qs). length uri - qs)") auto

definition remove_query_field :: "string \<Rightarrow> string \<Rightarrow> string option" where
  "remove_query_field uri field =
     (case str_strchr CHR ''?'' (uri @ [NUL]) of
        None \<Rightarrow> Some uri
      | Some i \<Rightarrow> remove_loop uri field (i + 1))"

text \<open>\<open>get_cookie_val\<close>: scanning from \<open>ptr\<close> while the characters satisfy \<open>P\<close>, then the loop over the
  cookies.\<close>

function scan :: "(char \<Rightarrow> bool) \<Rightarrow> string \<Rightarrow> nat \<Rightarrow> nat option" where
  "scan P cs e =
     (if e < length cs then do {
        c \<leftarrow> rd cs e;
        if P c then scan P cs (e + 1) else Some e }
      else Some e)"
  by pat_completeness auto

termination scan
  by (relation "measure (\<lambda>(P, cs, e). length cs - e)") auto

text \<open>The end of the loop body: where the next cookie starts when this one ends at \<open>e\<close>.\<close>

definition next_cookie :: "string \<Rightarrow> nat \<Rightarrow> nat option" where
  "next_cookie cs e =
     (if e < length cs then do {
        let ptr = e + 1;
        c \<leftarrow> rd cs (ptr - 1);
        ptr \<leftarrow> (if c = CHR ''='' then do {
                  p \<leftarrow> scan (\<lambda>c. c \<noteq> CHR '';'') cs ptr;
                  Some (if p < length cs then p + 1 else p) }
               else Some ptr);
        scan (\<lambda>c. c = CHR '' '') cs ptr }
      else Some e)"

declare query_loop.simps [simp del] remove_loop.simps [simp del] scan.simps [simp del]

lemma scan_eq: "e \<le> length cs \<Longrightarrow> scan P cs e = Some (e + length (takeWhile P (drop e cs)))"
proof (induction P cs e rule: scan.induct)
  case (1 P cs e)
  show ?case
  proof (cases "e < length cs")
    case True
    then show ?thesis
      using 1 by (simp add: scan.simps [of P cs e] rd_in drop_eq_Cons)
  next
    case False
    then show ?thesis by (simp add: scan.simps [of P cs e])
  qed
qed

lemma scan_bounds:
  assumes "scan P cs e = Some e'" "e \<le> length cs"
  shows "e \<le> e'" "e' \<le> length cs"
  using assms length_takeWhile_le [of P "drop e cs"] by (auto simp: scan_eq)

lemma next_cookie_gt:
  assumes "next_cookie cs e = Some e'" "e < length cs"
  shows "e < e'"
proof -
  obtain p where p: "e + 1 \<le> p" "p \<le> length cs" "scan (\<lambda>c. c = CHR '' '') cs p = Some e'"
  proof -
    obtain c where c: "rd cs e = Some c" using assms(2) by (simp add: rd_in)
    show thesis
    proof (cases "c = CHR ''=''")
      case True
      then obtain q where "scan (\<lambda>c. c \<noteq> CHR '';'') cs (e + 1) = Some q"
          "scan (\<lambda>c. c = CHR '' '') cs (if q < length cs then q + 1 else q) = Some e'"
        using assms c by (auto simp: next_cookie_def bind_Some_iff)
      moreover from this(1) have "e + 1 \<le> q" "q \<le> length cs" using scan_bounds assms(2) by fastforce+
      ultimately show thesis using that [of "if q < length cs then q + 1 else q"] by (simp split: if_splits)
    next
      case False
      then have "scan (\<lambda>c. c = CHR '' '') cs (e + 1) = Some e'" using assms c by (simp add: next_cookie_def)
      then show thesis using that [of "e + 1"] assms(2) by simp
    qed
  qed
  then show ?thesis using scan_bounds(1) [OF p(3,2)] by simp
qed

function cookie_loop :: "string \<Rightarrow> string \<Rightarrow> nat \<Rightarrow> string option" where
  "cookie_loop name cs ptr =
     (if ptr < length cs then do {
        e \<leftarrow> scan (\<lambda>c. c \<noteq> CHR ''='' \<and> c \<noteq> CHR '';'') cs ptr;
        hit \<leftarrow> (if e - ptr = length name then do { n \<leftarrow> rd_range cs ptr (length name); Some (n = name) } else Some False);
        if hit then
          (if e < length cs - 1 then do {
             c \<leftarrow> rd cs e;
             if c = CHR ''='' then do {
               e' \<leftarrow> scan (\<lambda>c. c \<noteq> CHR '';'') cs (e + 1);
               rd_range cs (e + 1) (e' - (e + 1)) }
             else Some '''' }
           else Some '''')
        else do {
          ptr' \<leftarrow> next_cookie cs e;
          cookie_loop name cs ptr' } }
      else Some '''')"
  by pat_completeness auto

termination cookie_loop
proof (relation "measure (\<lambda>(name, cs, ptr). length cs - ptr)")
  fix name cs :: string and ptr e hit ptr'
  assume a: "ptr < length cs" "scan (\<lambda>c. c \<noteq> CHR ''='' \<and> c \<noteq> CHR '';'') cs ptr = Some e" "next_cookie cs e = Some ptr'"
  then have e: "ptr \<le> e" "e \<le> length cs" using scan_bounds [OF a(2)] by simp_all
  have "ptr < ptr'"
  proof (cases "e < length cs")
    case True
    then show ?thesis using next_cookie_gt [OF a(3)] e by simp
  next
    case False
    then show ?thesis using a(1,3) e by (simp add: next_cookie_def)
  qed
  then show "((name, cs, ptr'), name, cs, ptr) \<in> measure (\<lambda>(name, cs, ptr). length cs - ptr)"
    using a(1) by simp
qed simp

declare cookie_loop.simps [simp del]

definition get_cookie_val :: "http_request \<Rightarrow> string \<Rightarrow> string option" where
  "get_cookie_val r name = cookie_loop name (get_header (headers r) ''cookie'') 0"

section \<open>Specification\<close>

text \<open>The pieces of a string between the occurrences of a separator; there is always one.\<close>

function split_on :: "'a \<Rightarrow> 'a list \<Rightarrow> 'a list list" where
  "split_on c s =
     takeWhile (\<lambda>x. x \<noteq> c) s #
       (case dropWhile (\<lambda>x. x \<noteq> c) s of [] \<Rightarrow> [] | _ # r \<Rightarrow> split_on c r)"
  by pat_completeness auto

lemma dropWhile_rest: "dropWhile P s = x # r \<Longrightarrow> length r < length s"
  using length_dropWhile_le [of P s] by simp

termination split_on
  by (relation "measure (\<lambda>(c, s). length s)") (auto dest: dropWhile_rest)

declare split_on.simps [simp del]

lemma while_all: "c \<notin> set s \<Longrightarrow> takeWhile (\<lambda>x. x \<noteq> c) s = s" "c \<notin> set s \<Longrightarrow> dropWhile (\<lambda>x. x \<noteq> c) s = []"
  by (induction s) auto

lemma while_until:
  "c \<notin> set p \<Longrightarrow> takeWhile (\<lambda>x. x \<noteq> c) (p @ c # r) = p"
  "c \<notin> set p \<Longrightarrow> dropWhile (\<lambda>x. x \<noteq> c) (p @ c # r) = c # r"
  by (induction p) auto

lemma split_on_last: "c \<notin> set s \<Longrightarrow> split_on c s = [s]"
  by (subst split_on.simps) (simp add: while_all)

lemma split_on_more: "c \<notin> set p \<Longrightarrow> split_on c (p @ c # r) = p # split_on c r"
  by (subst split_on.simps) (simp add: while_until)

lemma split_on_ne [simp]: "split_on c s \<noteq> []"
  by (subst split_on.simps) simp

lemma split_on_cases:
  obtains (last) "c \<notin> set s" | (more) p r where "s = p @ c # r" "c \<notin> set p"
  using split_list_first [of c s] by blast

text \<open>The value of a query field: that of the first piece \<open>field=value\<close>, but a last piece with an empty
  value is not seen.\<close>

fun query_spec :: "string list \<Rightarrow> string \<Rightarrow> string option" where
  "query_spec [] field = None"
| "query_spec (p # ps) field =
     (if take (length field + 1) p = field @ ''='' \<and> (ps \<noteq> [] \<or> p \<noteq> field @ ''='')
      then Some (drop (length field + 1) p) else query_spec ps field)"

lemma str_memchr_last: "c \<notin> set s \<Longrightarrow> str_memchr c s = None"
  by (simp add: str_memchr_def)

lemma str_memchr_more: "c \<notin> set p \<Longrightarrow> str_memchr c (p @ c # r) = Some (length p)"
  by (simp add: str_memchr_def while_until)

text \<open>A field without the separator matches at the start of a text exactly when it matches its first
  piece.\<close>

lemma field_in_piece:
  assumes "c \<notin> set f" "c \<noteq> d"
  shows "take (length f + 1) (p @ c # r) = f @ [d] \<longleftrightarrow> take (length f + 1) p = f @ [d]"
proof (cases "length f < length p")
  case False
  show ?thesis
  proof
    assume a: "take (length f + 1) (p @ c # r) = f @ [d]"
    obtain k where "Suc (length f) - length p = Suc k" using False by (metis Suc_diff_le not_less)
    then have "c \<in> set (take (length f + 1) (p @ c # r))" by simp
    then show "take (length f + 1) p = f @ [d]" using a assms by (metis Un_iff empty_iff insert_iff list.set set_append)
  next
    assume "take (length f + 1) p = f @ [d]"
    then have "length f + 1 \<le> length p" by (metis length_append_singleton length_take min.absorb_iff2 min.commute Suc_eq_plus1)
    then show "take (length f + 1) (p @ c # r) = f @ [d]" using False by simp
  qed
qed simp

lemma field_at_eq:
  assumes "qs + length field < length mem"
  shows "field_at mem field qs P = Some (take (length field) (drop qs mem) = field \<and> P (mem ! (qs + length field)))"
  using assms by (simp add: field_at_def rd_range_in rd_in)

lemma take_field_iff:
  assumes "length field < length s"
  shows "take (length field) s = field \<and> s ! length field = d \<longleftrightarrow> take (length field + 1) s = field @ [d]"
  using assms by (simp add: take_Suc_conv_app_nth)

lemma query_loop_end: "length q \<le> qs + length field + 1 \<Longrightarrow> query_loop q field qs = Some None"
  by (simp add: query_loop.simps)

lemma query_spec_short:
  assumes "length s \<le> length field + 1"
  shows "query_spec (split_on c s) field = None"
  using assms
proof (induction "length s" arbitrary: s rule: less_induct)
  case less
  show ?case
  proof (cases rule: split_on_cases [of c s])
    case last
    then show ?thesis using less.prems by (auto simp: split_on_last)
  next
    case (more p r)
    then have "length p < length field + 1" "length r < length s" using less.prems by simp_all
    moreover from this have "take (length field + 1) p \<noteq> field @ ''=''"
      by (metis length_append_singleton less_irrefl Suc_eq_plus1 length_take min_less_iff_conj)
    ultimately show ?thesis using less.hyps [of r] less.prems more by (simp add: split_on_more)
  qed
qed

lemma query_loop_eq:
  assumes "CHR ''&'' \<notin> set field"
  shows "query_loop (pre @ s) field (length pre) = Some (query_spec (split_on CHR ''&'' s) field)"
proof (induction "length s" arbitrary: pre s rule: less_induct)
  case less
  let ?q = "pre @ s" and ?n = "length field"
  show ?case
  proof (cases "length s \<le> ?n + 1")
    case True
    then show ?thesis by (simp add: query_loop_end query_spec_short)
  next
    case False
    have hit: "field_at ?q field (length pre) (\<lambda>c. c = CHR ''='') = Some (take (?n + 1) s = field @ ''='')"
      using field_at_eq [of "length pre" field ?q] take_field_iff [of field s "CHR ''=''"] False by simp
    show ?thesis
    proof (cases rule: split_on_cases [of "CHR ''&''" s])
      case last
      then have nohit: "CHR ''&'' \<notin> set (drop (?n + 1) s)" by (auto dest: in_set_dropD)
      show ?thesis
        using False hit last nohit
        by (subst query_loop.simps)
          (auto simp: split_on_last str_memchr_last query_loop_end rd_range_def Let_def)
    next
      case (more p r)
      have "query_loop ((pre @ p @ ''&'') @ r) field (length (pre @ p @ ''&'')) =
          Some (query_spec (split_on CHR ''&'' r) field)"
        using less.hyps [of r "pre @ p @ ''&''"] more by simp
      then have rec: "query_loop ?q field (length pre + length p + 1) = Some (query_spec (split_on CHR ''&'' r) field)"
        using more by (simp add: add.assoc)
      have iff: "take (?n + 1) s = field @ ''='' \<longleftrightarrow> take (?n + 1) p = field @ ''=''"
        using field_in_piece [OF assms, of "CHR ''=''" p r] more by simp
      show ?thesis
      proof (cases "take (?n + 1) p = field @ ''=''")
        case True
        then have len: "?n + 1 \<le> length p"
          by (metis Suc_eq_plus1 length_append_singleton length_take min.absorb_iff2 min.commute)
        have "CHR ''&'' \<notin> set (drop (?n + 1) p)" using more by (auto dest: in_set_dropD)
        then have "str_memchr CHR ''&'' (drop (?n + 1) s) = Some (length p - (?n + 1))"
          using more len str_memchr_more [of "CHR ''&''" "drop (?n + 1) p" r] by simp
        then show ?thesis
          using False hit iff True len more
          by (subst query_loop.simps) (simp add: split_on_more rd_range_def Let_def)
      next
        case no: False
        then show ?thesis
          using False hit iff more rec str_memchr_more [OF more(2), of r]
          by (subst query_loop.simps) (simp add: split_on_more Let_def add.assoc)
      qed
    qed
  qed
qed

text \<open>The pieces that are left when a field is removed: the first piece \<open>field=value\<close>, or \<open>field\<close> alone in
  front of other text, is dropped.\<close>

fun remove_spec :: "string list \<Rightarrow> string \<Rightarrow> string list option" where
  "remove_spec [] field = None"
| "remove_spec (p # ps) field =
     (if p = field \<and> ps \<noteq> [] \<and> ps \<noteq> [''''] \<or>
         take (length field + 1) p = field @ ''='' \<and> (ps \<noteq> [] \<or> p \<noteq> field @ ''='')
      then Some ps else map_option (Cons p) (remove_spec ps field))"

fun join_with :: "'a \<Rightarrow> 'a list list \<Rightarrow> 'a list" where
  "join_with c [] = []"
| "join_with c [p] = p"
| "join_with c (p # ps) = p @ c # join_with c ps"

lemma join_with_Cons: "ps \<noteq> [] \<Longrightarrow> join_with c (p # ps) = p @ c # join_with c ps"
  by (cases ps) simp_all

lemma join_split: "join_with c (split_on c s) = s"
proof (induction "length s" arbitrary: s rule: less_induct)
  case less
  then show ?case
    by (cases rule: split_on_cases [of c s]) (simp_all add: split_on_last split_on_more join_with_Cons)
qed

lemma split_on_empty_iff: "split_on c s = [''''] \<longleftrightarrow> s = []"
  by (cases rule: split_on_cases [of c s]) (auto simp: split_on_last split_on_more)

lemma remove_spec_short:
  assumes "length s \<le> length field + 1"
  shows "remove_spec (split_on c s) field = None"
  using assms
proof (induction "length s" arbitrary: s rule: less_induct)
  case less
  show ?case
  proof (cases rule: split_on_cases [of c s])
    case last
    then show ?thesis using less.prems by (auto simp: split_on_last)
  next
    case (more p r)
    then have "length p < length field + 1" "length r < length s" using less.prems by simp_all
    moreover from this have "take (length field + 1) p \<noteq> field @ ''=''"
      by (metis length_append_singleton less_irrefl Suc_eq_plus1 length_take min_less_iff_conj)
    moreover have "p = field \<Longrightarrow> split_on c r = ['''']" using less.prems more by (simp add: split_on_empty_iff)
    ultimately show ?thesis using less.hyps [of r] less.prems more by (auto simp: split_on_more)
  qed
qed

lemma c_text_all: "NUL \<notin> set s \<Longrightarrow> c_text (s @ [NUL]) = s"
  by (simp add: c_text_def while_until)

lemma remove_hit:
  assumes "CHR ''&'' \<notin> set field" "CHR ''&'' \<notin> set p" "s = p @ CHR ''&'' # r" "length field + 1 < length s"
  shows "take (length field) s = field \<and> (s ! length field = CHR ''='' \<or> s ! length field = CHR ''&'') \<longleftrightarrow>
    p = field \<and> r \<noteq> [] \<or> take (length field + 1) p = field @ ''=''"
proof -
  have "take (length field) s = field \<and> s ! length field = CHR ''='' \<longleftrightarrow> take (length field + 1) p = field @ ''=''"
    using take_field_iff [of field s] field_in_piece [OF assms(1), of "CHR ''=''" p r] assms(3,4) by simp
  moreover have "take (length field) s = field \<and> s ! length field = CHR ''&'' \<longleftrightarrow> p = field"
  proof
    assume a: "take (length field) s = field \<and> s ! length field = CHR ''&''"
    then have "s = field @ CHR ''&'' # drop (length field + 1) s"
      using assms(4) by (metis Cons_nth_drop_Suc Suc_eq_plus1 add_lessD1 append_take_drop_id)
    then have "takeWhile (\<lambda>x. x \<noteq> CHR ''&'') s = field" using while_until(1) [OF assms(1)] by metis
    then show "p = field" using assms(2,3) by (simp add: while_until)
  qed (use assms in simp)
  moreover have "p = field \<Longrightarrow> r \<noteq> []" using assms(3,4) by auto
  ultimately show ?thesis by blast
qed

definition removed_text :: "string \<Rightarrow> string list \<Rightarrow> string" where
  "removed_text pre ps = (if ps = [] then butlast pre else pre @ join_with CHR ''&'' ps)"

lemma removed_text_Cons: "removed_text (pre @ p @ ''&'') ps = removed_text pre (p # ps)"
  by (simp add: removed_text_def butlast_append join_with_Cons)

lemma remove_loop_eq:
  assumes "CHR ''&'' \<notin> set field" "NUL \<notin> set (pre @ s)"
  shows "remove_loop (pre @ s) field (length pre) =
    Some (case remove_spec (split_on CHR ''&'' s) field of None \<Rightarrow> pre @ s | Some ps \<Rightarrow> removed_text pre ps)"
  using assms(2)
proof (induction "length s" arbitrary: pre s rule: less_induct)
  case less
  let ?q = "pre @ s" and ?n = "length field"
  show ?case
  proof (cases "length s \<le> ?n + 1")
    case True
    then show ?thesis by (simp add: remove_loop.simps remove_spec_short)
  next
    case False
    have hit: "field_at (?q @ [NUL]) field (length pre) (\<lambda>c. c = CHR ''='' \<or> c = CHR ''&'') =
        Some (take ?n s = field \<and> (s ! ?n = CHR ''='' \<or> s ! ?n = CHR ''&''))"
      using field_at_eq [of "length pre" field "?q @ [NUL]"] False by (simp add: nth_append)
    have nul: "NUL \<notin> set (drop k s)" for k using less.prems by (auto dest: in_set_dropD)
    show ?thesis
    proof (cases rule: split_on_cases [of "CHR ''&''" s])
      case last
      then have noamp: "CHR ''&'' \<notin> set (drop k s)" for k by (auto dest: in_set_dropD)
      have chr: "str_strchr CHR ''&'' (drop k s @ [NUL]) = None" for k
        using noamp by (simp add: str_strchr_def c_text_all [OF nul] str_memchr_last)
      have hit': "take ?n s = field \<and> (s ! ?n = CHR ''='' \<or> s ! ?n = CHR ''&'') \<longleftrightarrow> take (?n + 1) s = field @ ''=''"
        using take_field_iff [of field s "CHR ''=''"] last False by (metis Suc_eq_plus1 Suc_lessD not_le nth_mem)
      show ?thesis
        using False hit [unfolded hit'] last chr [of ?n] chr [of 0] nul [of 0]
        by (subst remove_loop.simps)
          (auto simp: split_on_last rd_range_def Let_def removed_text_def butlast_conv_take str_strchrnul_def
            c_text_all remove_loop.simps)
    next
      case (more p r)
      have nulr: "NUL \<notin> set r" using less.prems more by simp
      note iff = remove_hit [OF assms(1) more(2,1)]
      have spec: "remove_spec (split_on CHR ''&'' s) field =
        (if p = field \<and> r \<noteq> [] \<or> take (?n + 1) p = field @ ''='' then Some (split_on CHR ''&'' r)
         else map_option (Cons p) (remove_spec (split_on CHR ''&'' r) field))"
        using more by (simp add: split_on_more split_on_empty_iff)
      show ?thesis
      proof (cases "p = field \<and> r \<noteq> [] \<or> take (?n + 1) p = field @ ''=''")
        case True
        then have len: "?n \<le> length p"
          by (metis Suc_eq_plus1 Suc_leD length_append_singleton length_take min.absorb_iff2 min.commute order_refl)
        have "CHR ''&'' \<notin> set (drop ?n p)" using more by (auto dest: in_set_dropD)
        then have "str_memchr CHR ''&'' (drop ?n s) = Some (length p - ?n)"
          using more len str_memchr_more [of "CHR ''&''" "drop ?n p" r] by simp
        then have chr: "str_strchr CHR ''&'' (drop ?n s @ [NUL]) = Some (length p - ?n)"
          using nul by (simp add: str_strchr_def c_text_all)
        have "remove_loop ?q field (length pre) = Some (pre @ r)"
          using False hit iff True chr more len c_text_all [OF nulr]
          by (subst remove_loop.simps) (simp add: rd_range_def Let_def)
        then show ?thesis using spec True by (simp add: removed_text_def join_split)
      next
        case no: False
        have chr: "str_strchrnul CHR ''&'' (s @ [NUL]) = length p"
        proof -
          have "c_text (s @ [NUL]) = s" using nul [of 0] by (simp add: c_text_all)
          then show ?thesis
            using str_memchr_more [OF more(2), of r] more(1) by (simp only: str_strchrnul_def str_strchr_def option.case)
        qed
        have "remove_loop ((pre @ p @ ''&'') @ r) field (length (pre @ p @ ''&'')) =
          Some (case remove_spec (split_on CHR ''&'' r) field of
             None \<Rightarrow> (pre @ p @ ''&'') @ r | Some ps \<Rightarrow> removed_text (pre @ p @ ''&'') ps)"
          using less.hyps [of r "pre @ p @ ''&''"] less.prems more by simp
        moreover have "remove_loop ?q field (length pre) = remove_loop ?q field (length pre + length p + 1)"
        proof -
          have "field_at (?q @ [NUL]) field (length pre) (\<lambda>c. c = CHR ''='' \<or> c = CHR ''&'') = Some False"
            using False hit iff no by simp
          then show ?thesis using False chr by (subst remove_loop.simps) (simp add: Let_def)
        qed
        moreover have "remove_spec (split_on CHR ''&'' s) field = map_option (Cons p) (remove_spec (split_on CHR ''&'' r) field)"
          unfolding spec by (rule if_not_P [OF no])
        ultimately show ?thesis
          using more(1) by (simp add: add.assoc removed_text_Cons split: option.split)
      qed
    qed
  qed
qed

fun cookie_spec :: "string \<Rightarrow> string list \<Rightarrow> string" where
  "cookie_spec name [] = ''''"
| "cookie_spec name (p # ps) =
     (if takeWhile (\<lambda>c. c \<noteq> CHR ''='') p = name then drop 1 (dropWhile (\<lambda>c. c \<noteq> CHR ''='') p)
      else cookie_spec name ps)"

definition strip :: "string \<Rightarrow> string" where
  "strip s = dropWhile (\<lambda>c. c = CHR '' '') s"

definition cookies_of :: "string \<Rightarrow> string list" where
  "cookies_of cs = hd (split_on CHR '';'' cs) # map strip (tl (split_on CHR '';'' cs))"

lemma cookies_of_last: "CHR '';'' \<notin> set s \<Longrightarrow> cookies_of s = [s]"
  by (simp add: cookies_of_def split_on_last)

lemma cookies_of_strip: "cookies_of (strip s) = map strip (split_on CHR '';'' s)"
proof (induction s)
  case Nil
  then show ?case by (simp add: cookies_of_last strip_def split_on_last)
next
  case (Cons c s)
  show ?case
  proof (cases "c = CHR '' ''")
    case True
    have "split_on CHR '';'' (c # s) = (c # hd (split_on CHR '';'' s)) # tl (split_on CHR '';'' s)"
      using True by (subst (1 2 3) split_on.simps) simp
    then have "map strip (split_on CHR '';'' (c # s)) = map strip (split_on CHR '';'' s)"
      using True by (cases "split_on CHR '';'' s") (simp_all add: strip_def)
    moreover have "strip (c # s) = strip s" using True by (simp add: strip_def)
    ultimately show ?thesis using Cons True by simp
  next
    case False
    have "hd (split_on CHR '';'' (c # s)) = takeWhile (\<lambda>x. x \<noteq> CHR '';'') (c # s)"
      by (subst split_on.simps) simp
    then have "strip (c # s) = c # s" "strip (hd (split_on CHR '';'' (c # s))) = hd (split_on CHR '';'' (c # s))"
      using False by (simp_all add: strip_def)
    then show ?thesis
      by (cases "split_on CHR '';'' (c # s)") (simp_all add: cookies_of_def)
  qed
qed

lemma cookies_of_more: "CHR '';'' \<notin> set p \<Longrightarrow> cookies_of (p @ CHR '';'' # r) = p # cookies_of (strip r)"
  unfolding cookies_of_strip by (simp add: cookies_of_def split_on_more)

lemma next_cookie_eq:
  assumes "CHR '';'' \<notin> set p" "e = length pre + length (takeWhile (\<lambda>c. c \<noteq> CHR ''='') p)"
  shows "next_cookie (pre @ p @ CHR '';'' # r) e =
    Some (length pre + length p + 1 + length (takeWhile (\<lambda>c. c = CHR '' '') r))"
proof -
  let ?cs = "pre @ p @ CHR '';'' # r"
  have sp: "scan (\<lambda>c. c = CHR '' '') ?cs (length pre + length p + 1) =
      Some (length pre + length p + 1 + length (takeWhile (\<lambda>c. c = CHR '' '') r))"
    by (simp add: scan_eq)
  show ?thesis
  proof (cases "CHR ''='' \<in> set p")
    case True
    then obtain a b where p: "p = a @ CHR ''='' # b" "CHR ''='' \<notin> set a" by (metis split_list_first)
    then have e: "e = length pre + length a" using assms(2) by (simp add: while_until)
    have "rd ?cs e = Some CHR ''=''" by (simp add: p e rd_def nth_append)
    moreover have "scan (\<lambda>c. c \<noteq> CHR '';'') ?cs (e + 1) = Some (length pre + length p)"
      using assms(1) by (simp add: p e scan_eq while_until)
    ultimately show ?thesis using sp e p by (simp add: next_cookie_def Let_def)
  next
    case False
    then have e: "e = length pre + length p" using assms(2) by (simp add: while_all)
    have "rd ?cs e = Some CHR '';''" by (simp add: e rd_def nth_append)
    then show ?thesis using sp e by (simp add: next_cookie_def Let_def)
  qed
qed

lemma scan_name:
  assumes "CHR '';'' \<notin> set p" "r = [] \<or> hd r = CHR '';''"
  shows "scan (\<lambda>c. c \<noteq> CHR ''='' \<and> c \<noteq> CHR '';'') (pre @ p @ r) (length pre) =
    Some (length pre + length (takeWhile (\<lambda>c. c \<noteq> CHR ''='') p))"
proof -
  have "takeWhile (\<lambda>c. c \<noteq> CHR ''='' \<and> c \<noteq> CHR '';'') (p @ r) = takeWhile (\<lambda>c. c \<noteq> CHR ''='') p"
    using assms by (induction p) (cases r, auto)
  then show ?thesis by (simp add: scan_eq)
qed

text \<open>One turn of the loop, at the cookie \<open>p\<close>.\<close>

lemma cookie_turn:
  fixes pre p r name :: string
  defines "cs \<equiv> pre @ p @ r" and "e \<equiv> length pre + length (takeWhile (\<lambda>c. c \<noteq> CHR ''='') p)"
  assumes "CHR '';'' \<notin> set p" "r = [] \<or> hd r = CHR '';''" "p @ r \<noteq> []"
  shows "cookie_loop name cs (length pre) =
    (if takeWhile (\<lambda>c. c \<noteq> CHR ''='') p = name then Some (drop 1 (dropWhile (\<lambda>c. c \<noteq> CHR ''='') p))
     else do { ptr' \<leftarrow> next_cookie cs e; cookie_loop name cs ptr' })"
proof -
  let ?n = "takeWhile (\<lambda>c. c \<noteq> CHR ''='') p"
  have scan: "scan (\<lambda>c. c \<noteq> CHR ''='' \<and> c \<noteq> CHR '';'') cs (length pre) = Some e"
    using assms(3,4) by (simp add: cs_def e_def scan_name)
  have pos: "length pre < length cs" using assms(5) by (cases p; cases r) (simp_all add: cs_def)
  have "rd_range cs (length pre) (length ?n) = Some ?n"
    using length_takeWhile_le [of "\<lambda>c. c \<noteq> CHR ''=''" p] by (simp add: cs_def rd_range_def flip: takeWhile_eq_take)
  then have hit: "(if e - length pre = length name
      then do { n \<leftarrow> rd_range cs (length pre) (length name); Some (n = name) } else Some False) = Some (?n = name)"
    by (auto simp: e_def)
  have found: "(if e < length cs - 1 then do {
        c \<leftarrow> rd cs e;
        if c = CHR ''='' then do {
          e' \<leftarrow> scan (\<lambda>c. c \<noteq> CHR '';'') cs (e + 1);
          rd_range cs (e + 1) (e' - (e + 1)) }
        else Some '''' }
      else Some '''') = Some (drop 1 (dropWhile (\<lambda>c. c \<noteq> CHR ''='') p))"
  proof (cases "CHR ''='' \<in> set p")
    case True
    then obtain a b where ab: "p = a @ CHR ''='' # b" "CHR ''='' \<notin> set a" by (metis split_list_first)
    have e: "e = length pre + length a" by (simp add: e_def ab while_until)
    have "takeWhile (\<lambda>c. c \<noteq> CHR '';'') (b @ r) = b"
      using assms(3,4) ab by (cases r) (auto simp: while_all while_until)
    then have "scan (\<lambda>c. c \<noteq> CHR '';'') cs (e + 1) = Some (e + 1 + length b)"
      by (simp add: e cs_def ab scan_eq)
    moreover have "rd cs e = Some CHR ''=''" by (simp add: e cs_def ab rd_def nth_append)
    moreover have "rd_range cs (e + 1) (length b) = Some b" by (simp add: e cs_def ab rd_range_def)
    moreover have "\<not> e < length cs - 1 \<Longrightarrow> b = []" by (simp add: e cs_def ab)
    ultimately show ?thesis using ab by (auto simp: while_until)
  next
    case False
    then have e: "e = length pre + length p" by (simp add: e_def while_all)
    have "rd cs e = Some CHR '';''" if "e < length cs - 1"
      using assms(4) that by (cases r) (simp_all add: e cs_def rd_def nth_append)
    then show ?thesis using False by (simp add: while_all)
  qed
  show ?thesis
    using pos scan hit found by (subst cookie_loop.simps) simp
qed

lemma next_cookie_last:
  assumes "CHR '';'' \<notin> set p" "e = length pre + length (takeWhile (\<lambda>c. c \<noteq> CHR ''='') p)"
  shows "next_cookie (pre @ p) e = Some (length (pre @ p))"
proof (cases "CHR ''='' \<in> set p")
  case True
  then obtain a b where ab: "p = a @ CHR ''='' # b" "CHR ''='' \<notin> set a" by (metis split_list_first)
  then have e: "e = length pre + length a" using assms(2) by (simp add: while_until)
  have "rd (pre @ p) e = Some CHR ''=''" by (simp add: e ab rd_def nth_append)
  moreover have "scan (\<lambda>c. c \<noteq> CHR '';'') (pre @ p) (e + 1) = Some (length (pre @ p))"
    using assms(1) by (simp add: e ab scan_eq while_all)
  ultimately show ?thesis by (simp add: e ab next_cookie_def Let_def scan_eq)
next
  case False
  then show ?thesis using assms(2) by (simp add: while_all next_cookie_def)
qed

lemma cookie_loop_eq: "cookie_loop name (pre @ s) (length pre) = Some (cookie_spec name (cookies_of s))"
proof (induction "length s" arbitrary: pre s rule: less_induct)
  case less
  show ?case
  proof (cases "s = []")
    case True
    then show ?thesis by (auto simp: cookie_loop.simps cookies_of_last)
  next
    case False
    show ?thesis
    proof (cases rule: split_on_cases [of "CHR '';''" s])
      case last
      have "cookie_loop name (pre @ s) (length (pre @ s)) = Some ''''" by (simp add: cookie_loop.simps)
      then show ?thesis
        using cookie_turn [of s "[]" name pre] next_cookie_last [OF last refl, of pre] last False
        by (simp add: cookies_of_last)
    next
      case (more p r)
      let ?pre = "pre @ p @ CHR '';'' # takeWhile (\<lambda>c. c = CHR '' '') r"
      have s: "?pre @ strip r = pre @ s" by (simp add: more(1) strip_def)
      have "length (strip r) < length s" using length_dropWhile_le [of _ r] by (simp add: strip_def more(1) less_Suc_eq_le trans_le_add2)
      then have "cookie_loop name (pre @ s) (length ?pre) = Some (cookie_spec name (cookies_of (strip r)))"
        using less [of "strip r" ?pre] unfolding s by blast
      moreover have "next_cookie (pre @ s) (length pre + length (takeWhile (\<lambda>c. c \<noteq> CHR ''='') p)) = Some (length ?pre)"
        using next_cookie_eq [OF more(2) refl, of pre r] more(1) by simp
      ultimately show ?thesis
        using cookie_turn [OF more(2), of "CHR '';'' # r" name pre] more
        by (simp add: cookies_of_more)
    qed
  qed
qed

section \<open>The multimap of headers\<close>

definition sorted_headers :: "headers \<Rightarrow> bool" where
  "sorted_headers hs \<longleftrightarrow> sorted (map fst hs)"

lemma headers_insert_split:
  "headers_insert f v hs = filter (\<lambda>(g, _). g \<le> f) hs @ (f, v) # filter (\<lambda>(g, _). f < g) hs"
  if "sorted_headers hs"
proof -
  have "takeWhile (\<lambda>(g, _). \<not> f < g) hs = filter (\<lambda>(g, _). g \<le> f) hs \<and>
      dropWhile (\<lambda>(g, _). \<not> f < g) hs = filter (\<lambda>(g, _). f < g) hs"
    using that
  proof (induction hs)
    case (Cons h hs)
    show ?case
    proof (cases "f < fst h")
      case True
      then have "f < g" if "(g, v) \<in> set hs" for g v
        using Cons.prems that by (force simp: sorted_headers_def)
      then have "filter (\<lambda>(g, _). g \<le> f) hs = []" "filter (\<lambda>(g, _). f < g) hs = hs"
        by (fastforce simp: filter_empty_conv filter_id_conv)+
      then show ?thesis using True by (cases h) auto
    next
      case False
      then show ?thesis using Cons by (cases h) (auto simp: sorted_headers_def)
    qed
  qed simp
  then show ?thesis by (simp add: headers_insert_def string_len_lt_iff)
qed

lemma headers_insert_sorted:
  assumes "sorted_headers hs"
  shows "sorted_headers (headers_insert f v hs)"
  using assms unfolding headers_insert_split [OF assms]
  by (auto simp: sorted_headers_def sorted_append split: prod.splits)
    (induction hs; force)+

lemma headers_find_eq: "sorted_headers hs \<Longrightarrow> headers_find hs f = map_of hs f"
proof (induction hs f rule: headers_find.induct)
  case (2 g v hs f)
  have "map_of hs f = None" if "f < g"
    using 2(2) that by (force simp: sorted_headers_def map_of_eq_None_iff)
  then show ?case using 2 by (auto simp: string_len_lt_iff sorted_headers_def)
qed simp

lemma map_of_filter_key: "map_of (filter (\<lambda>(g, _). P g) hs) f = (if P f then map_of hs f else None)"
  by (induction hs) auto

lemma headers_find_insert:
  assumes "sorted_headers hs"
  shows "headers_find (headers_insert f v hs) g =
    (if g = f then (case headers_find hs f of None \<Rightarrow> Some v | Some w \<Rightarrow> Some w) else headers_find hs g)"
proof -
  have "map_of (headers_insert f v hs) g =
      (if g = f then (case map_of hs f of None \<Rightarrow> Some v | Some w \<Rightarrow> Some w) else map_of hs g)"
    unfolding headers_insert_split [OF assms]
    by (auto simp: map_add_def map_of_filter_key split: option.splits)
  then show ?thesis
    by (simp add: headers_find_eq headers_insert_sorted assms)
qed

section \<open>Properties\<close>

text \<open>
  C6: looking up a query field is total, stays inside the query, and gives the value of the first of its
  pieces between ampersands that is \<open>field=value\<close>; otherwise the default, or the error if
  the field is required.  A field with an empty value at the very end is taken as absent.
\<close>

theorem query_value:
  assumes "CHR ''&'' \<notin> set field"
  shows "get_query_val_s query field dflt required =
    Some (case query_spec (split_on CHR ''&'' query) field of
        Some v \<Rightarrow> Inr v
      | None \<Rightarrow> if required then Inl Missing_query_field else Inr dflt)"
  using query_loop_eq [OF assms, of "[]" query] by (simp add: get_query_val_s_def)

lemma query_value_witness:
  "get_query_val_s ''a=1&id=42&id=7&b='' ''id'' '''' True = Some (Inr ''42'') \<and>
   get_query_val_s ''a=1&id=42&id=7&b='' ''b'' ''none'' False = Some (Inr ''none'')"
  using query_value [of "''id''" "''a=1&id=42&id=7&b=''" "''''" True]
    query_value [of "''b''" "''a=1&id=42&id=7&b=''" "''none''" False]
  by (simp add: split_on.simps)

text \<open>
  removing a query field stays inside the URI and drops exactly the first piece of its query that holds
  the field, with one separator; the path and the other pieces stay as they are.
\<close>

theorem query_field_removed:
  assumes "CHR ''?'' \<notin> set path" "CHR ''&'' \<notin> set field" "NUL \<notin> set (path @ query)"
  shows "remove_query_field (path @ ''?'' @ query) field =
    Some (case remove_spec (split_on CHR ''&'' query) field of
        None \<Rightarrow> path @ ''?'' @ query
      | Some [] \<Rightarrow> path
      | Some ps \<Rightarrow> path @ ''?'' @ join_with CHR ''&'' ps)"
proof -
  have "c_text ((path @ ''?'' @ query) @ [NUL]) = path @ ''?'' @ query"
    using assms(3) by (intro c_text_all) auto
  then have "str_strchr CHR ''?'' ((path @ ''?'' @ query) @ [NUL]) = Some (length path)"
    using str_memchr_more [OF assms(1), of query] by (simp add: str_strchr_def)
  then show ?thesis
    using remove_loop_eq [OF assms(2), of "path @ ''?''" query] assms(3)
    by (auto simp: remove_query_field_def removed_text_def butlast_append split: option.split list.split)
qed

lemma query_field_removed_witness:
  "remove_query_field ''/p?a=1&id=42&b=2'' ''id'' = Some ''/p?a=1&b=2'' \<and>
   remove_query_field ''/p?id=42'' ''id'' = Some ''/p''"
  using query_field_removed [of "''/p''" "''id''" "''a=1&id=42&b=2''"]
    query_field_removed [of "''/p''" "''id''" "''id=42''"]
  by (simp add: split_on.simps)

text \<open>
  looking up a cookie is total, stays inside the header, and gives the text behind the first
  equals sign of the first cookie with this name; cookies are separated by semicolons and
  spaces.
\<close>

theorem cookie_value:
  "get_cookie_val r name = Some (cookie_spec name (cookies_of (get_header (headers r) ''cookie'')))"
  using cookie_loop_eq [of name "[]"] by (simp add: get_cookie_val_def)

end
