(* ===== verification/Http_Server.thy ===== *)
theory Http_Server
  imports Http_Request Systems
begin

text \<open>
  The connection loop of the HTTP server, \<open>src/cpp/http_server.cpp\<close>: the callbacks that collect the
  headers from the parser, the loop that reads, parses and hands requests to their
  handler, and the text of a response.  The parser (\<open>http_parser.h\<close>, a submodule) and the handlers
  are parameters.
\<close>

section \<open>The callbacks of the parser\<close>

definition to_lower :: "char \<Rightarrow> char" where
  "to_lower c = (if CHR ''A'' \<le> c \<and> c \<le> CHR ''Z'' then char_of ((of_char c :: nat) + 32) else c)"

datatype header_state = K_value | K_field

text \<open>The struct \<open>pc\<close>: pointers into the buffer are indices, the null pointer is \<open>None\<close>.\<close>

record pc_state =
  pc_request :: http_request
  message_complete :: bool
  header_state :: header_state
  last_field_start :: "nat option"
  last_field_len :: nat
  last_value_start :: "nat option"
  last_value_len :: nat

definition init_pc :: "pc_state \<Rightarrow> pc_state" where
  "init_pc c = c\<lparr>message_complete := False, header_state := K_field, last_field_len := 0, last_value_len := 0,
     last_field_start := None, last_value_start := None, pc_request := init_request (pc_request c)\<rparr>"

text \<open>A range from a pointer that may be null.\<close>

definition ptr_range :: "'a list \<Rightarrow> nat option \<Rightarrow> nat \<Rightarrow> 'a list option" where
  "ptr_range buf p n = (case p of None \<Rightarrow> if n = 0 then Some [] else None | Some i \<Rightarrow> rd_range buf i n)"

definition lower_range :: "string \<Rightarrow> nat option \<Rightarrow> nat \<Rightarrow> string option" where
  "lower_range buf p n =
     (case p of
        None \<Rightarrow> if n = 0 then Some buf else None
      | Some i \<Rightarrow> do { xs \<leftarrow> rd_range buf i n; wr_range buf i (map to_lower xs) })"

text \<open>The code that both \<open>on_header_field\<close> and \<open>on_headers_complete\<close> run on a complete pair.  The
  entries of the multimap point into the buffer; they are kept with the text they point to, since the
  buffer behind them does not change before the next \<open>init\<close>.\<close>

definition insert_pair :: "string \<times> pc_state \<Rightarrow> (string \<times> pc_state) option" where
  "insert_pair = (\<lambda>(buf, c). do {
     buf \<leftarrow> lower_range buf (last_field_start c) (last_field_len c);
     fld \<leftarrow> ptr_range buf (last_field_start c) (last_field_len c);
     val \<leftarrow> ptr_range buf (last_value_start c) (last_value_len c);
     Some (buf, c\<lparr>pc_request := (pc_request c)\<lparr>headers := headers_insert fld val (headers (pc_request c))\<rparr>\<rparr>) })"

definition on_url :: "(string \<Rightarrow> url_field \<Rightarrow> (nat \<times> nat) option) \<Rightarrow> nat \<Rightarrow> nat \<Rightarrow> string \<times> pc_state \<Rightarrow>
    (string \<times> pc_state) option" where
  "on_url parse_url at len = (\<lambda>(buf, c). do {
     s \<leftarrow> rd_range buf at len;
     (let url = url_str (pc_request c) @ s
      in Some (buf, c\<lparr>pc_request := (pc_request c)\<lparr>url_str := url, p_url := parse_url url\<rparr>\<rparr>)) })"

definition on_header_field :: "nat \<Rightarrow> nat \<Rightarrow> string \<times> pc_state \<Rightarrow> (string \<times> pc_state) option" where
  "on_header_field at len bc = do {
     (buf, c) \<leftarrow>
       (if header_state (snd bc) = K_value then do {
          (buf, c) \<leftarrow> insert_pair bc;
          Some (buf, c\<lparr>last_field_start := Some at, last_field_len := 0, header_state := K_field\<rparr>) }
        else if last_field_start (snd bc) = None then
          Some (fst bc, (snd bc)\<lparr>last_field_start := Some at\<rparr>)
        else Some bc);
     Some (buf, c\<lparr>last_field_len := last_field_len c + len\<rparr>) }"

definition on_header_value :: "nat \<Rightarrow> nat \<Rightarrow> string \<times> pc_state \<Rightarrow> (string \<times> pc_state) option" where
  "on_header_value at len = (\<lambda>(buf, c).
     (let c = (if header_state c = K_field
               then c\<lparr>last_value_start := Some at, last_value_len := 0, header_state := K_value\<rparr> else c)
      in Some (buf, c\<lparr>last_value_len := last_value_len c + len\<rparr>)))"

definition on_headers_complete ::
  "nat \<Rightarrow> bool \<Rightarrow> int \<Rightarrow> string \<times> pc_state \<Rightarrow> (string \<times> pc_state) option"
where
  "on_headers_complete meth has_length len = (\<lambda>(buf, c).
     do {
       (buf, c) \<leftarrow>
         (let c = c\<lparr>pc_request := (pc_request c)\<lparr>http_method := meth\<rparr>\<rparr>
          in if header_state c = K_value then insert_pair (buf, c) else Some (buf, c));
       Some (buf, c\<lparr>pc_request := (pc_request c)\<lparr>has_content_length := has_length, content_length := len\<rparr>\<rparr>) })"

definition on_message_complete :: "string \<times> pc_state \<Rightarrow> (string \<times> pc_state) option" where
  "on_message_complete = (\<lambda>(buf, c). Some (buf, c\<lparr>message_complete := True\<rparr>))"

text \<open>The calls that the parser makes, with pointers relative to the data it was given.\<close>

datatype http_event =
    Ev_url nat nat
  | Ev_header_field nat nat
  | Ev_header_value nat nat
  | Ev_headers_complete nat bool int
  | Ev_message_complete

fun callback ::
  "(string \<Rightarrow> url_field \<Rightarrow> (nat \<times> nat) option) \<Rightarrow> nat \<Rightarrow> http_event \<Rightarrow> string \<times> pc_state \<Rightarrow>
     (string \<times> pc_state) option"
where
  "callback parse_url base (Ev_url at len) = on_url parse_url (base + at) len"
| "callback parse_url base (Ev_header_field at len) = on_header_field (base + at) len"
| "callback parse_url base (Ev_header_value at len) = on_header_value (base + at) len"
| "callback parse_url base (Ev_headers_complete m h n) = on_headers_complete m h n"
| "callback parse_url base Ev_message_complete = on_message_complete"

fun callbacks ::
  "(string \<Rightarrow> url_field \<Rightarrow> (nat \<times> nat) option) \<Rightarrow> nat \<Rightarrow> http_event list \<Rightarrow> string \<times> pc_state \<Rightarrow>
     (string \<times> pc_state) option"
where
  "callbacks parse_url base [] bc = Some bc"
| "callbacks parse_url base (ev # evs) bc = do {
     bc \<leftarrow> callback parse_url base ev bc;
     callbacks parse_url base evs bc }"

section \<open>The connection\<close>

record 'p parser_api =
  parser_init :: 'p
  parser_execute :: "'p \<Rightarrow> string \<Rightarrow> nat \<times> http_event list \<times> 'p"
  parser_upgrade :: "'p \<Rightarrow> bool"
  should_keep_alive :: "'p \<Rightarrow> bool"
  parse_url :: "string \<Rightarrow> url_field \<Rightarrow> (nat \<times> nat) option"

text \<open>What the loop does next: read or parse, run a handler, of an upgrade or not, or nothing since
  the connection is closed.\<close>

datatype serve_mode = Parsing | Handling bool | Closed

record 'p serve_state =
  buf :: string
  bsp :: nat
  bep :: nat
  parser :: 'p
  pcallback :: pc_state
  mode :: serve_mode

definition buffer_size :: nat where "buffer_size = 8192"

definition new_pc :: pc_state where
  "new_pc = \<lparr> pc_request = \<lparr> p_url = (\<lambda>_. None), url_str = '''', has_content_length = False, content_length = 0,
       headers = [], http_method = 0 \<rparr>, message_complete = False, header_state = K_field,
     last_field_start = None, last_field_len = 0, last_value_start = None, last_value_len = 0 \<rparr>"

definition new_connection :: "'p parser_api \<Rightarrow> 'p serve_state" where
  "new_connection api = \<lparr> buf = replicate buffer_size NUL, bsp = 0, bep = 0, parser = parser_init api,
     pcallback = new_pc, mode = Parsing \<rparr>"

text \<open>\<open>http_pipe->read(&buf[bep], buf.size() - bep)\<close>, which gave \<open>data\<close>.\<close>

definition read_more :: "string \<Rightarrow> 'p serve_state \<Rightarrow> 'p serve_state option" where
  "read_more data s = do {
     b \<leftarrow> wr_range (buf s) (bep s) data;
     Some (s\<lparr>buf := b, bep := bep s + length data\<rparr>) }"

text \<open>The rest of the loop body up to the call of a handler.  \<open>find_upgrade\<close> tells whether there is a
  handler for the value of the upgrade header.\<close>

definition parse_more :: "'p parser_api \<Rightarrow> (string \<Rightarrow> bool) \<Rightarrow> 'p serve_state \<Rightarrow> 'p serve_state option" where
  "parse_more api find_upgrade s = do {
     data \<leftarrow> rd_range (buf s) (bsp s) (bep s - bsp s);
     (case parser_execute api (parser s) data of (n, evs, p) \<Rightarrow> do {
        (b, c) \<leftarrow> callbacks (parse_url api) (bsp s) evs (buf s, pcallback s);
        (let s = s\<lparr>bsp := bsp s + n, buf := b, pcallback := c, parser := p\<rparr>
         in if message_complete c then
              (if parser_upgrade api p then
                 (if find_upgrade (get_header (headers (pc_request c)) ''upgrade'')
                  then Some (s\<lparr>mode := Handling True\<rparr>) else Some (s\<lparr>mode := Closed\<rparr>))
               else Some (s\<lparr>mode := Handling False\<rparr>))
            else if bsp s \<noteq> bep s then Some (s\<lparr>mode := Closed\<rparr>)
            else if bsp s = length (buf s) then Some (s\<lparr>mode := Closed\<rparr>)
            else Some s) }) }"

text \<open>\<open>pipe_t::read\<close> in a handler: from the buffer while it holds unparsed data, \<open>Inr\<close> when the pipe
  has to be read.\<close>

definition body_read :: "nat \<Rightarrow> 'p serve_state \<Rightarrow> (string \<times> 'p serve_state + nat) option" where
  "body_read len s =
     (if bsp s \<noteq> bep s then
        (let len = (if len > bep s - bsp s then bep s - bsp s else len)
         in do {
           d \<leftarrow> rd_range (buf s) (bsp s) len;
           Some (Inl (d, s\<lparr>bsp := bsp s + len\<rparr>)) })
      else Some (Inr len))"

text \<open>After the handler: the next request, or the end of the connection.\<close>

definition after_handler :: "'p parser_api \<Rightarrow> 'p serve_state \<Rightarrow> 'p serve_state option" where
  "after_handler api s =
     (if should_keep_alive api (parser s) then do {
        rest \<leftarrow> rd_range (buf s) (bsp s) (bep s - bsp s);
        b \<leftarrow> wr_range (buf s) 0 rest;
        Some (s\<lparr>parser := parser_init api, buf := b, bep := bep s - bsp s, bsp := 0,
                pcallback := init_pc (pcallback s), mode := Parsing\<rparr>) }
      else Some (s\<lparr>mode := Closed\<rparr>))"

text \<open>
  A connection runs in steps, each with the bytes that it takes from the socket and the bytes that
  the parser or a handler gets.
\<close>

inductive serve_step ::
  "'p parser_api \<Rightarrow> (string \<Rightarrow> bool) \<Rightarrow> 'p serve_state \<Rightarrow> string \<Rightarrow> string \<Rightarrow> 'p serve_state \<Rightarrow> bool"
  for api find_upgrade
where
  read: "mode s = Parsing \<Longrightarrow> bsp s = bep s \<Longrightarrow> 1 \<le> length data \<Longrightarrow> length data \<le> length (buf s) - bep s \<Longrightarrow>
    read_more data s = Some s' \<Longrightarrow> serve_step api find_upgrade s data [] s'"
| parse: "mode s = Parsing \<Longrightarrow> bsp s \<noteq> bep s \<Longrightarrow> parse_more api find_upgrade s = Some s' \<Longrightarrow>
    serve_step api find_upgrade s [] (take (bsp s' - bsp s) (drop (bsp s) (buf s))) s'"
| body_buffered: "mode s = Handling u \<Longrightarrow> body_read len s = Some (Inl (d, s')) \<Longrightarrow>
    serve_step api find_upgrade s [] d s'"
| body_piped: "mode s = Handling u \<Longrightarrow> body_read len s = Some (Inr n) \<Longrightarrow> length data \<le> n \<Longrightarrow>
    serve_step api find_upgrade s data data s"
| handled: "mode s = Handling False \<Longrightarrow> after_handler api s = Some s' \<Longrightarrow> serve_step api find_upgrade s [] [] s'"
| upgraded: "mode s = Handling True \<Longrightarrow> serve_step api find_upgrade s [] [] (s\<lparr>mode := Closed\<rparr>)"

text \<open>The history of a connection: all bytes received, all bytes given to the parser or a handler, and
  the state.\<close>

type_synonym 'p serve_history = "string \<times> string \<times> 'p serve_state"

definition serve_start :: "'p parser_api \<Rightarrow> 'p serve_history \<Rightarrow> bool" where
  "serve_start api t \<longleftrightarrow> t = ([], [], new_connection api)"

inductive serve_trans ::
  "'p parser_api \<Rightarrow> (string \<Rightarrow> bool) \<Rightarrow> 'p serve_history \<Rightarrow> 'p serve_history \<Rightarrow> bool"
  for api find_upgrade
where
  "serve_step api find_upgrade s inp outp s' \<Longrightarrow>
     serve_trans api find_upgrade (received, consumed, s) (received @ inp, consumed @ outp, s')"

section \<open>The callbacks stay inside the parsed text\<close>

text \<open>What the code relies on: the parser consumes at most what it is given, and points into what it
  consumes, from left to right.\<close>

fun event_range :: "http_event \<Rightarrow> (nat \<times> nat) option" where
  "event_range (Ev_url at len) = Some (at, len)"
| "event_range (Ev_header_field at len) = Some (at, len)"
| "event_range (Ev_header_value at len) = Some (at, len)"
| "event_range _ = None"

fun events_in :: "nat \<Rightarrow> http_event list \<Rightarrow> nat \<Rightarrow> bool" where
  "events_in lo [] hi \<longleftrightarrow> lo \<le> hi"
| "events_in lo (ev # evs) hi \<longleftrightarrow>
     (case event_range ev of
        None \<Rightarrow> events_in lo evs hi
      | Some (at, len) \<Rightarrow> lo \<le> at \<and> events_in (at + len) evs hi)"

definition parser_ok :: "'p parser_api \<Rightarrow> bool" where
  "parser_ok api \<longleftrightarrow> (\<forall>p data n evs p'. parser_execute api p data = (n, evs, p') \<longrightarrow>
     n \<le> length data \<and> events_in 0 evs n)"

text \<open>The pointers of the callbacks lie before \<open>pos\<close>.\<close>

definition pc_inv :: "nat \<Rightarrow> pc_state \<Rightarrow> bool" where
  "pc_inv pos c \<longleftrightarrow>
     (case last_field_start c of None \<Rightarrow> last_field_len c = 0 | Some i \<Rightarrow> i + last_field_len c \<le> pos) \<and>
     (case last_value_start c of None \<Rightarrow> last_value_len c = 0 | Some i \<Rightarrow> i + last_value_len c \<le> pos) \<and>
     (header_state c = K_value \<longrightarrow> last_value_start c \<noteq> None)"

lemma pc_inv_mono: "pc_inv pos c \<Longrightarrow> pos \<le> pos' \<Longrightarrow> pc_inv pos' c"
  by (auto simp: pc_inv_def split: option.splits)

lemma pc_inv_request [simp]: "pc_inv pos (c\<lparr>pc_request := r\<rparr>) \<longleftrightarrow> pc_inv pos c"
  by (simp add: pc_inv_def split: option.split)

lemma pc_inv_init: "pc_inv pos (init_pc c)"
  by (simp add: pc_inv_def init_pc_def)

lemma events_in_le: "events_in lo evs hi \<Longrightarrow> lo \<le> hi"
  by (induction evs arbitrary: lo) (fastforce split: option.splits)+

lemma insert_pair_ok:
  assumes "pc_inv pos c" "pos \<le> length b"
  shows "\<exists>b' r. insert_pair (b, c) = Some (b', c\<lparr>pc_request := r\<rparr>) \<and> length b' = length b \<and> drop pos b' = drop pos b"
proof -
  obtain b' where b': "lower_range b (last_field_start c) (last_field_len c) = Some b'" "length b' = length b"
      "drop pos b' = drop pos b"
  proof (cases "last_field_start c")
    case None
    then show ?thesis using that [of b] assms by (simp add: lower_range_def pc_inv_def)
  next
    case (Some i)
    let ?xs = "map to_lower (take (last_field_len c) (drop i b))"
    have "i + last_field_len c \<le> pos" using assms(1) Some by (simp add: pc_inv_def)
    then show ?thesis
      using that [of "take i b @ ?xs @ drop (i + last_field_len c) b"] Some assms(2)
      by (simp add: lower_range_def rd_range_def wr_range_def)
  qed
  moreover have "ptr_range b' (last_field_start c) (last_field_len c) \<noteq> None"
      "ptr_range b' (last_value_start c) (last_value_len c) \<noteq> None"
    using assms b'(2) by (auto simp: ptr_range_def pc_inv_def rd_range_def split: option.splits)
  ultimately show ?thesis by (auto simp: insert_pair_def)
qed

lemma callback_ok:
  assumes "pc_inv pos c" "pos' \<le> length b"
    "case event_range ev of None \<Rightarrow> pos' = pos | Some (at, len) \<Rightarrow> pos \<le> base + at \<and> pos' = base + at + len"
  shows "\<exists>b' c'. callback pu base ev (b, c) = Some (b', c') \<and> pc_inv pos' c' \<and> length b' = length b \<and>
    drop pos' b' = drop pos' b"
proof -
  have pos: "pos \<le> pos'" using assms(3) by (auto split: option.splits)
  then obtain b' r where ins: "insert_pair (b, c) = Some (b', c\<lparr>pc_request := r\<rparr>)" "length b' = length b"
      "drop pos b' = drop pos b"
    using insert_pair_ok [OF assms(1), of b] assms(2) by auto
  have d: "drop pos' b' = drop pos' b" using arg_cong [OF ins(3), of "drop (pos' - pos)"] pos by simp
  have inv: "pc_inv pos' c" using pc_inv_mono [OF assms(1) pos] .
  show ?thesis
  proof (cases ev)
    case (Ev_url at len)
    then show ?thesis using assms(2,3) inv by (auto simp: on_url_def rd_range_def Let_def)
  next
    case (Ev_header_field at len)
    then show ?thesis
      using assms ins d by (auto simp: on_header_field_def pc_inv_def split: option.splits)
  next
    case (Ev_header_value at len)
    then show ?thesis
      using assms
      by (cases "header_state c") (auto simp: on_header_value_def pc_inv_def Let_def split: option.splits)
  next
    case (Ev_headers_complete m h n)
    let ?c = "c\<lparr>pc_request := (pc_request c)\<lparr>http_method := m\<rparr>\<rparr>"
    have "pc_inv pos ?c" using assms(1) by simp
    then obtain b1 r1 where "insert_pair (b, ?c) = Some (b1, ?c\<lparr>pc_request := r1\<rparr>)" "length b1 = length b"
        "drop pos b1 = drop pos b"
      using insert_pair_ok [of pos ?c b] assms(2) pos by auto
    then show ?thesis
      using Ev_headers_complete inv assms(3) by (auto simp: on_headers_complete_def Let_def)
  next
    case Ev_message_complete
    then show ?thesis using inv by (auto simp: on_message_complete_def pc_inv_def split: option.splits)
  qed
qed

lemma callbacks_ok:
  assumes "events_in lo evs hi" "base + hi \<le> length b" "pc_inv (base + lo) c"
  shows "\<exists>b' c'. callbacks pu base evs (b, c) = Some (b', c') \<and> pc_inv (base + hi) c' \<and> length b' = length b \<and>
    drop (base + hi) b' = drop (base + hi) b"
  using assms
proof (induction evs arbitrary: lo b c)
  case Nil
  then show ?case by (auto intro: pc_inv_mono)
next
  case (Cons ev evs)
  define lo' where "lo' = (case event_range ev of None \<Rightarrow> lo | Some (at, len) \<Rightarrow> at + len)"
  have evs: "events_in lo' evs hi" using Cons.prems(1) by (auto simp: lo'_def split: option.splits)
  then have le: "lo' \<le> hi" by (rule events_in_le)
  have "case event_range ev of None \<Rightarrow> base + lo' = base + lo
      | Some (at, len) \<Rightarrow> base + lo \<le> base + at \<and> base + lo' = base + at + len"
    using Cons.prems(1) by (auto simp: lo'_def split: option.splits)
  then obtain b1 c1 where 1: "callback pu base ev (b, c) = Some (b1, c1)" "pc_inv (base + lo') c1"
      "length b1 = length b" "drop (base + lo') b1 = drop (base + lo') b"
    using callback_ok [of "base + lo" c "base + lo'" b base ev pu] le Cons.prems(2,3) by auto
  moreover obtain b2 c2 where "callbacks pu base evs (b1, c1) = Some (b2, c2)" "pc_inv (base + hi) c2"
      "length b2 = length b1" "drop (base + hi) b2 = drop (base + hi) b1"
    using Cons.IH [OF evs, of b1 c1] Cons.prems(2) 1 by auto
  moreover have "drop (base + hi) b1 = drop (base + hi) b"
    using arg_cong [OF 1(4), of "drop (hi - lo')"] le by (simp add: add.commute)
  ultimately show ?case by auto
qed

section \<open>No byte is lost\<close>

definition unparsed :: "'p serve_state \<Rightarrow> string" where
  "unparsed s = take (bep s - bsp s) (drop (bsp s) (buf s))"

definition serve_inv :: "'p serve_history \<Rightarrow> bool" where
  "serve_inv = (\<lambda>(received, consumed, s).
     received = consumed @ unparsed s \<and> length (buf s) = buffer_size \<and>
     bsp s \<le> bep s \<and> bep s \<le> buffer_size \<and> pc_inv (bsp s) (pcallback s) \<and>
     (mode s = Parsing \<and> bsp s = bep s \<longrightarrow> bep s < buffer_size))"

lemma parse_more_ok:
  assumes "parser_ok api" "length (buf s) = buffer_size" "bsp s \<le> bep s" "bep s \<le> buffer_size"
    "pc_inv (bsp s) (pcallback s)"
  shows "\<exists>s'. parse_more api find_upgrade s = Some s' \<and> bsp s \<le> bsp s' \<and> bsp s' \<le> bep s \<and> bep s' = bep s \<and>
    length (buf s') = buffer_size \<and> drop (bsp s') (buf s') = drop (bsp s') (buf s) \<and>
    pc_inv (bsp s') (pcallback s') \<and> (mode s' = Parsing \<longrightarrow> mode s = Parsing \<and> bsp s' = bep s \<and> bep s \<noteq> buffer_size)"
proof -
  obtain n evs p where ex: "parser_execute api (parser s) (unparsed s) = (n, evs, p)" by (metis prod.exhaust)
  then have n': "n \<le> length (unparsed s) \<and> events_in 0 evs n"
    using assms(1) unfolding parser_ok_def by blast
  then have n: "n \<le> bep s - bsp s" "events_in 0 evs n" using assms by (simp_all add: unparsed_def)
  then obtain b c where cb: "callbacks (parse_url api) (bsp s) evs (buf s, pcallback s) = Some (b, c)"
      "pc_inv (bsp s + n) c" "length b = buffer_size" "drop (bsp s + n) b = drop (bsp s + n) (buf s)"
    using callbacks_ok [OF n(2), of "bsp s" "buf s" "pcallback s" "parse_url api"] assms n(1) by force
  have data: "rd_range (buf s) (bsp s) (bep s - bsp s) = Some (unparsed s)"
    using assms by (simp add: rd_range_def unparsed_def)
  show ?thesis
    using cb n assms unfolding parse_more_def data Option.bind.bind_lunit ex prod.case
    by (auto simp: Let_def)
qed

lemma unparsed_step:
  assumes "i \<le> j" "j \<le> k" "k \<le> length b" "drop j b' = drop j b"
  shows "take (k - i) (drop i b) = take (j - i) (drop i b) @ take (k - j) (drop j b')"
proof -
  have "take (k - i) (drop i b) = take ((j - i) + (k - j)) (drop i b)" using assms by simp
  also have "\<dots> = take (j - i) (drop i b) @ take (k - j) (drop (j - i) (drop i b))" by (rule take_add)
  also have "drop (j - i) (drop i b) = drop j b'" using assms by simp
  finally show ?thesis .
qed

lemma serve_step_inv:
  assumes "parser_ok api" "serve_inv (received, consumed, s)" "serve_step api find_upgrade s inp outp s'"
  shows "serve_inv (received @ inp, consumed @ outp, s')"
  using assms(3)
proof cases
  case (read)
  then show ?thesis using assms(2)
    by (auto simp: serve_inv_def read_more_def wr_range_def unparsed_def split: if_splits)
next
  case parse
  have inv: "received = consumed @ unparsed s" "length (buf s) = buffer_size" "bsp s \<le> bep s" "bep s \<le> buffer_size"
      "pc_inv (bsp s) (pcallback s)"
    using assms(2) by (simp_all add: serve_inv_def)
  have s': "bsp s \<le> bsp s'" "bsp s' \<le> bep s" "bep s' = bep s" "length (buf s') = buffer_size"
      "drop (bsp s') (buf s') = drop (bsp s') (buf s)" "pc_inv (bsp s') (pcallback s')"
      "mode s' = Parsing \<longrightarrow> bep s \<noteq> buffer_size"
    using parse_more_ok [OF assms(1) inv(2-5), of find_upgrade] parse(5) by auto
  have "unparsed s = outp @ unparsed s'"
    using unparsed_step [OF s'(1,2), of "buf s" "buf s'"] s' inv parse by (simp add: unparsed_def)
  then show ?thesis using inv s' parse by (auto simp: serve_inv_def)
next
  case (body_buffered u len)
  define n where "n = (if len > bep s - bsp s then bep s - bsp s else len)"
  have n: "n \<le> bep s - bsp s" "outp = take n (drop (bsp s) (buf s))" "s' = s\<lparr>bsp := bsp s + n\<rparr>"
    using body_buffered by (auto simp: n_def body_read_def rd_range_def bind_Some_iff Let_def split: if_splits)
  then show ?thesis
    using assms(2) body_buffered unparsed_step [of "bsp s" "bsp s + n" "bep s" "buf s" "buf s"]
    by (auto simp: serve_inv_def unparsed_def intro: pc_inv_mono)
next
  case (body_piped u len n)
  then have "bsp s = bep s"
    by (auto simp: body_read_def bind_Some_iff Let_def split: if_splits)
  then show ?thesis using assms(2) body_piped by (simp add: serve_inv_def unparsed_def)
next
  case handled
  then show ?thesis using assms(2)
    by (auto simp: serve_inv_def after_handler_def rd_range_def wr_range_def bind_Some_iff unparsed_def
        pc_inv_init min_def buffer_size_def split: if_splits)
next
  case upgraded
  then show ?thesis using assms(2) by (simp add: serve_inv_def unparsed_def)
qed

lemma serve_start_inv: "serve_start api t \<Longrightarrow> serve_inv t"
  by (auto simp: serve_start_def serve_inv_def new_connection_def new_pc_def pc_inv_def unparsed_def
      buffer_size_def)

interpretation serve: transition_invariant "serve_start api" "serve_trans api find_upgrade"
  "\<lambda>t. parser_ok api \<longrightarrow> serve_inv t"
  for api :: "'p parser_api" and find_upgrade
proof
  show "serve_start api t \<Longrightarrow> parser_ok api \<longrightarrow> serve_inv t" for t
    by (simp add: serve_start_inv)
  show "parser_ok api \<longrightarrow> serve_inv t \<Longrightarrow> serve_trans api find_upgrade t t' \<Longrightarrow> parser_ok api \<longrightarrow> serve_inv t'" for t t'
    by (auto elim!: serve_trans.cases intro: serve_step_inv)
qed

section \<open>The headers of a request\<close>

text \<open>A header in the buffer: the start of the field and of the value, and the lengths of the pieces in
  which the parser reports each of them.\<close>

type_synonym header_line = "nat \<times> nat list \<times> nat \<times> nat list"

fun chunk_events :: "(nat \<Rightarrow> nat \<Rightarrow> http_event) \<Rightarrow> nat \<Rightarrow> nat list \<Rightarrow> http_event list" where
  "chunk_events ev a [] = []"
| "chunk_events ev a (n # ns) = ev a n # chunk_events ev (a + n) ns"

fun line_events :: "header_line \<Rightarrow> http_event list" where
  "line_events (a, ns, b, ms) = chunk_events Ev_header_field a ns @ chunk_events Ev_header_value b ms"

fun lines_in :: "nat \<Rightarrow> header_line list \<Rightarrow> nat \<Rightarrow> bool" where
  "lines_in lo [] hi \<longleftrightarrow> lo \<le> hi"
| "lines_in lo ((a, ns, b, ms) # ls) hi \<longleftrightarrow>
     lo \<le> a \<and> ns \<noteq> [] \<and> a + sum_list ns \<le> b \<and> ms \<noteq> [] \<and> lines_in (b + sum_list ms) ls hi"

fun line_pair :: "string \<Rightarrow> header_line \<Rightarrow> string \<times> string" where
  "line_pair mem (a, ns, b, ms) = (map to_lower (take (sum_list ns) (drop a mem)), take (sum_list ms) (drop b mem))"

definition insert_line :: "string \<Rightarrow> header_line \<Rightarrow> headers \<Rightarrow> headers" where
  "insert_line mem l hs = (case line_pair mem l of (f, v) \<Rightarrow> headers_insert f v hs)"

lemma lines_in_le: "lines_in lo ls hi \<Longrightarrow> lo \<le> hi"
  by (induction lo ls hi rule: lines_in.induct) auto

text \<open>The state between two headers: \<open>pend\<close> is complete but not yet inserted.\<close>

fun collected :: "header_line option \<Rightarrow> headers \<Rightarrow> pc_state \<Rightarrow> bool" where
  "collected None hs c \<longleftrightarrow> header_state c = K_field \<and> last_field_start c = None \<and> last_field_len c = 0 \<and>
     headers (pc_request c) = hs"
| "collected (Some (a, ns, b, ms)) hs c \<longleftrightarrow> header_state c = K_value \<and> last_field_start c = Some a \<and>
     last_field_len c = sum_list ns \<and> last_value_start c = Some b \<and> last_value_len c = sum_list ms \<and>
     headers (pc_request c) = hs"

lemma insert_pair_line:
  assumes "collected (Some (a, ns, b, ms)) hs c" "a + sum_list ns \<le> b" "b + sum_list ms \<le> pos"
    "pos \<le> length mem" "drop a mem' = drop a mem" "length mem' = length mem"
  shows "\<exists>mem''. insert_pair (mem', c) = Some (mem'', c\<lparr>pc_request :=
      (pc_request c)\<lparr>headers := insert_line mem (a, ns, b, ms) hs\<rparr>\<rparr>) \<and>
    length mem'' = length mem \<and> drop pos mem'' = drop pos mem"
proof -
  define n m where "n = sum_list ns" "m = sum_list ms"
  have le: "a + n \<le> b" "b + m \<le> pos" using assms(2,3) by (simp_all add: n_m_def)
  let ?xs = "map to_lower (take n (drop a mem))"
  define mem'' where "mem'' = take a mem' @ ?xs @ drop (a + n) mem"
  have tail: "drop k mem' = drop k mem" if "a \<le> k" for k
    using arg_cong [OF assms(5), of "drop (k - a)"] that by simp
  have "lower_range mem' (last_field_start c) (last_field_len c) = Some mem''"
    using assms le by (simp add: lower_range_def rd_range_def wr_range_def mem''_def tail flip: n_m_def)
  moreover have "ptr_range mem'' (Some a) n = Some ?xs"
    using assms le by (simp add: ptr_range_def rd_range_def mem''_def min_absorb2)
  moreover have "drop k mem'' = drop k mem" if "a + n \<le> k" for k
    using assms(4,6) le that by (simp add: mem''_def min_absorb2)
  moreover have "length mem'' = length mem" using assms le by (simp add: mem''_def min_absorb2)
  moreover from calculation have "ptr_range mem'' (Some b) m = Some (take m (drop b mem))"
    using assms le by (simp add: ptr_range_def rd_range_def)
  ultimately show ?thesis
    using assms(1) le by (auto simp: insert_pair_def insert_line_def simp flip: n_m_def)
qed

lemma field_chunks:
  assumes "header_state c = K_field" "last_field_start c = Some a"
  shows "callbacks pu 0 (chunk_events Ev_header_field k ns) (mem, c) =
    Some (mem, c\<lparr>last_field_len := last_field_len c + sum_list ns\<rparr>)"
  using assms
  by (induction ns arbitrary: k c) (simp_all add: on_header_field_def add.assoc)

lemma value_chunks:
  assumes "header_state c = K_value"
  shows "callbacks pu 0 (chunk_events Ev_header_value k ms) (mem, c) =
    Some (mem, c\<lparr>last_value_len := last_value_len c + sum_list ms\<rparr>)"
  using assms
  by (induction ms arbitrary: k c) (simp_all add: on_header_value_def add.assoc)

lemma callbacks_append:
  "callbacks pu base (evs @ evs') bc = Option.bind (callbacks pu base evs bc) (callbacks pu base evs')"
proof (induction evs arbitrary: bc)
  case (Cons ev evs)
  then show ?case by (cases "callback pu base ev bc") simp_all
qed simp

fun pend_end :: "header_line option \<Rightarrow> nat" where
  "pend_end None = 0"
| "pend_end (Some (a, ns, b, ms)) = b + sum_list ms"

fun pend_ok :: "header_line option \<Rightarrow> bool" where
  "pend_ok None \<longleftrightarrow> True"
| "pend_ok (Some (a, ns, b, ms)) \<longleftrightarrow> a + sum_list ns \<le> b"

fun pend_start :: "header_line option \<Rightarrow> nat" where
  "pend_start None = 0"
| "pend_start (Some (a, ns, b, ms)) = a"

definition insert_pend :: "string \<Rightarrow> header_line option \<Rightarrow> headers \<Rightarrow> headers" where
  "insert_pend mem pend hs = (case pend of None \<Rightarrow> hs | Some l \<Rightarrow> insert_line mem l hs)"

text \<open>The callbacks of one header.\<close>

lemma line_collected:
  assumes "collected pend hs c" "pend_ok pend" "pend_end pend \<le> a" "a \<le> length mem" "ns \<noteq> []" "ms \<noteq> []"
    "drop (pend_start pend) mem' = drop (pend_start pend) mem" "length mem' = length mem"
  shows "\<exists>mem'' c'. callbacks pu 0 (line_events (a, ns, b, ms)) (mem', c) = Some (mem'', c') \<and>
    collected (Some (a, ns, b, ms)) (insert_pend mem pend hs) c' \<and> length mem'' = length mem \<and>
    drop a mem'' = drop a mem"
proof -
  obtain n ns' m ms' where split: "ns = n # ns'" "ms = m # ms'" using assms(5,6) by (cases ns; cases ms) auto
  obtain t c1 where first: "on_header_field a n (mem', c) = Some (t, c1)" "header_state c1 = K_field"
      "last_field_start c1 = Some a" "last_field_len c1 = n"
      "headers (pc_request c1) = insert_pend mem pend hs" "length t = length mem" "drop a t = drop a mem"
  proof (cases pend)
    case None
    then show ?thesis
      using that assms(1,7,8) by (auto simp: on_header_field_def insert_pend_def)
  next
    case (Some l)
    obtain a' ns'' b' ms'' where l: "l = (a', ns'', b', ms'')" by (metis prod.exhaust)
    obtain t where "insert_pair (mem', c) = Some (t, c\<lparr>pc_request :=
        (pc_request c)\<lparr>headers := insert_line mem l hs\<rparr>\<rparr>)" "length t = length mem" "drop a t = drop a mem"
      using insert_pair_line [of a' ns'' b' ms'' hs c a mem mem'] assms Some l by auto
    then show ?thesis
      using that assms(1) Some l by (auto simp: on_header_field_def insert_pend_def)
  qed
  show ?thesis
    using first field_chunks [of c1 a pu "a + n" ns' t]
    by (auto simp: split callbacks_append on_header_value_def value_chunks)
qed

text \<open>The callbacks of the headers from \<open>lo\<close> to \<open>hi\<close>, and the insertion of the last one.\<close>

lemma lines_collected:
  assumes "collected pend hs c" "pend_ok pend" "pend_end pend \<le> lo" "lines_in lo ls hi" "hi \<le> length mem"
    "drop (pend_start pend) mem' = drop (pend_start pend) mem" "length mem' = length mem"
  shows "\<exists>mem'' c' pend' hs'. callbacks pu 0 (concat (map line_events ls)) (mem', c) = Some (mem'', c') \<and>
    collected pend' hs' c' \<and> pend_ok pend' \<and> pend_end pend' \<le> hi \<and> length mem'' = length mem \<and>
    drop (pend_start pend') mem'' = drop (pend_start pend') mem \<and>
    insert_pend mem pend' hs' = foldl (\<lambda>hs l. insert_line mem l hs) (insert_pend mem pend hs) ls"
  using assms
proof (induction ls arbitrary: pend hs c lo mem')
  case Nil
  then have "pend_end pend \<le> hi" by simp
  then show ?case using Nil by (intro exI [of _ pend] exI [of _ hs] exI [of _ mem'] exI [of _ c]) simp
next
  case (Cons l ls)
  obtain a ns b ms where l: "l = (a, ns, b, ms)" by (metis prod.exhaust)
  have in_l: "lo \<le> a" "ns \<noteq> []" "a + sum_list ns \<le> b" "ms \<noteq> []" "lines_in (b + sum_list ms) ls hi"
    using Cons.prems(4) l by simp_all
  then have "b + sum_list ms \<le> hi" by (simp add: lines_in_le)
  then have "a \<le> length mem" using in_l Cons.prems(5) by linarith
  then obtain t c1 where 1: "callbacks pu 0 (line_events l) (mem', c) = Some (t, c1)"
      "collected (Some l) (insert_pend mem pend hs) c1" "length t = length mem" "drop a t = drop a mem"
    using line_collected [of pend hs c a mem ns ms mem' pu b] Cons.prems in_l l by auto
  have "callbacks pu 0 (concat (map line_events (l # ls))) (mem', c) =
      callbacks pu 0 (concat (map line_events ls)) (t, c1)"
    using 1(1) by (simp add: callbacks_append del: line_events.simps)
  moreover have "foldl (\<lambda>hs l. insert_line mem l hs) (insert_pend mem pend hs) (l # ls) =
      foldl (\<lambda>hs l. insert_line mem l hs) (insert_pend mem (Some l) (insert_pend mem pend hs)) ls"
    by (simp add: insert_pend_def)
  ultimately show ?case
    using Cons.IH [of "Some l" "insert_pend mem pend hs" c1 "b + sum_list ms" t] Cons.prems(5) in_l l 1
    by simp
qed

lemma headers_complete:
  assumes "collected pend hs c" "pend_ok pend" "pend_end pend \<le> length mem"
    "drop (pend_start pend) mem' = drop (pend_start pend) mem" "length mem' = length mem"
  shows "\<exists>mem'' c'. on_headers_complete m h n (mem', c) = Some (mem'', c') \<and>
    headers (pc_request c') = insert_pend mem pend hs"
proof (cases pend)
  case None
  then show ?thesis using assms(1) by (simp add: on_headers_complete_def insert_pend_def)
next
  case (Some l)
  obtain a ns b ms where l: "l = (a, ns, b, ms)" by (metis prod.exhaust)
  let ?c = "c\<lparr>pc_request := (pc_request c)\<lparr>http_method := m\<rparr>\<rparr>"
  have "collected (Some l) hs ?c" using assms(1) Some l by simp
  then obtain t where "insert_pair (mem', ?c) = Some (t, ?c\<lparr>pc_request :=
      (pc_request ?c)\<lparr>headers := insert_line mem l hs\<rparr>\<rparr>)"
    using insert_pair_line [of a ns b ms hs ?c "length mem" mem mem'] assms Some l by auto
  then show ?thesis using assms(1) Some l by (simp add: on_headers_complete_def insert_pend_def)
qed

lemma insert_lines_find:
  assumes "sorted_headers hs"
  shows "sorted_headers (foldl (\<lambda>hs l. insert_line mem l hs) hs ls) \<and>
    headers_find (foldl (\<lambda>hs l. insert_line mem l hs) hs ls) name =
      (case headers_find hs name of Some v \<Rightarrow> Some v | None \<Rightarrow> map_of (map (line_pair mem) ls) name)"
  using assms
proof (induction ls arbitrary: hs)
  case (Cons l ls)
  obtain f v where fv: "line_pair mem l = (f, v)" by (metis prod.exhaust)
  have "sorted_headers (insert_line mem l hs)"
    using Cons.prems fv by (simp add: insert_line_def headers_insert_sorted)
  then show ?case
    using Cons fv headers_find_insert [OF Cons.prems, of f v name]
    by (auto simp: insert_line_def split: option.split)
qed (auto split: option.split)

section \<open>Responses\<close>

text \<open>\<open>std::to_string\<close> of an integer.\<close>

function dec_digits :: "nat \<Rightarrow> string" where
  "dec_digits n = (if n < 10 then [char_of (48 + n)] else dec_digits (n div 10) @ [char_of (48 + n mod 10)])"
  by pat_completeness auto

termination dec_digits
  by (relation "measure id") auto

declare dec_digits.simps [simp del]

definition dec_string :: "int \<Rightarrow> string" where
  "dec_string k = (if k < 0 then ''-'' @ dec_digits (nat (- k)) else dec_digits (nat k))"

record browser_cookie =
  ck_name :: string
  ck_value :: string
  ck_max_age :: int
  ck_path :: string
  ck_domain :: string
  ck_secure :: bool
  ck_http_only :: bool
  ck_same_site :: string
  ck_delete_it :: bool

text \<open>\<open>headers_\<close> is a \<open>std::map\<close>: its entries in order.\<close>

record http_response =
  status_code :: string
  rsp_headers :: headers
  rsp_cookies :: "browser_cookie list"
  rsp_body :: string

definition new_response :: "string \<Rightarrow> http_response" where
  "new_response code = \<lparr> status_code = code, rsp_headers = [], rsp_cookies = [], rsp_body = '''' \<rparr>"

fun map_set :: "string \<Rightarrow> string \<Rightarrow> headers \<Rightarrow> headers" where
  "map_set f v [] = [(f, v)]"
| "map_set f v ((g, w) # hs) =
     (if f < g then (f, v) # (g, w) # hs else if f = g then (f, v) # hs else (g, w) # map_set f v hs)"

definition add_header :: "string \<Rightarrow> string \<Rightarrow> http_response \<Rightarrow> http_response" where
  "add_header f v r = r\<lparr>rsp_headers := map_set f v (rsp_headers r)\<rparr>"

definition add_cookie :: "browser_cookie \<Rightarrow> http_response \<Rightarrow> http_response" where
  "add_cookie ck r = r\<lparr>rsp_cookies := rsp_cookies r @ [ck]\<rparr>"

definition EOL :: string where "EOL = [CHR 0x0D, CHR 0x0A]"

definition cookie_line :: "browser_cookie \<Rightarrow> string" where
  "cookie_line ck =
     ''Set-Cookie: '' @ ck_name ck @ ''='' @
     (if \<not> ck_delete_it ck then ck_value ck else '''') @
     (if ck_path ck \<noteq> '''' then ''; Path='' @ ck_path ck else '''') @
     (if ck_domain ck \<noteq> '''' then ''; Domain='' @ ck_domain ck else '''') @
     (if ck_delete_it ck then ''; Max-Age=0''
      else if ck_max_age ck > 0 then ''; Max-Age='' @ dec_string (ck_max_age ck)
      else if ck_max_age ck < 0 then ''; expires=Thu, 01 Jan 1970 00:00:00 GMT'' else '''') @
     (if ck_same_site ck \<noteq> '''' then ''; SameSite='' @ ck_same_site ck else '''') @
     (if ck_secure ck \<or> ck_same_site ck = ''None'' then ''; Secure'' else '''') @
     (if ck_http_only ck then ''; HttpOnly'' else '''')"

definition respond_text :: "http_response \<Rightarrow> string" where
  "respond_text r =
     ''HTTP/1.1 '' @ status_code r @ EOL @
     concat (map (\<lambda>(f, v). f @ '': '' @ v @ EOL) (rsp_headers r)) @
     concat (map (\<lambda>ck. cookie_line ck @ EOL) (rsp_cookies r)) @
     (if length (rsp_body r) > 0 then ''content-length: '' @ dec_string (int (length (rsp_body r))) @ EOL else '''') @
     EOL @
     (if length (rsp_body r) > 0 then rsp_body r else '''')"

text \<open>What a client reads: lines up to CR LF, up to an empty one, and then the body.\<close>

function read_head :: "string \<Rightarrow> (string list \<times> string) option" where
  "read_head s =
     (let l = takeWhile (\<lambda>c. c \<noteq> CHR 0x0D) s; rest = dropWhile (\<lambda>c. c \<noteq> CHR 0x0D) s
      in if take 2 rest \<noteq> EOL then None
         else if l = '''' then Some ([], drop 2 rest)
         else map_option (\<lambda>(ls, b). (l # ls, b)) (read_head (drop 2 rest)))"
  by pat_completeness auto

termination read_head
proof (relation "measure length")
  fix s l rest :: string
  assume a: "l = takeWhile (\<lambda>c. c \<noteq> CHR 0x0D) s" "rest = dropWhile (\<lambda>c. c \<noteq> CHR 0x0D) s" "\<not> take 2 rest \<noteq> EOL"
  have "rest \<noteq> []" using a(3) by (auto simp: EOL_def)
  moreover have "length rest \<le> length s" using a(2) by (simp add: length_dropWhile_le)
  ultimately show "(drop 2 rest, s) \<in> measure length" by (cases rest) auto
qed simp

declare read_head.simps [simp del]

lemma read_head_line:
  "CHR 0x0D \<notin> set l \<Longrightarrow> l \<noteq> '''' \<Longrightarrow> read_head (l @ EOL @ s) = map_option (\<lambda>(ls, b). (l # ls, b)) (read_head s)"
  using while_until [of "CHR 0x0D" l "CHR 0x0A # s"] by (subst read_head.simps) (simp add: EOL_def)

lemma read_head_end: "read_head (EOL @ s) = Some ([], s)"
  by (subst read_head.simps) (simp add: EOL_def)

lemma read_head_lines:
  assumes "\<forall>l \<in> set ls. CHR 0x0D \<notin> set l \<and> l \<noteq> ''''"
  shows "read_head (concat (map (\<lambda>l. l @ EOL) ls) @ EOL @ body) = Some (ls, body)"
  using assms by (induction ls) (simp_all add: read_head_end read_head_line)

definition response_lines :: "http_response \<Rightarrow> string list" where
  "response_lines r =
     (''HTTP/1.1 '' @ status_code r) # map (\<lambda>(f, v). f @ '': '' @ v) (rsp_headers r) @
     map cookie_line (rsp_cookies r) @
     (if rsp_body r = '''' then [] else [''content-length: '' @ dec_digits (length (rsp_body r))])"

definition plain :: "string \<Rightarrow> bool" where "plain s \<longleftrightarrow> CHR 0x0D \<notin> set s"

lemma respond_text_lines:
  "respond_text r = concat (map (\<lambda>l. l @ EOL) (response_lines r)) @ EOL @ rsp_body r"
proof -
  have "concat (map (\<lambda>(f, v). f @ '': '' @ v @ EOL) hs) = concat (map (\<lambda>l. l @ EOL) (map (\<lambda>(f, v). f @ '': '' @ v) hs))" for hs
    by (induction hs) auto
  then show ?thesis by (auto simp: respond_text_def response_lines_def dec_string_def comp_def)
qed

lemma dec_digit: "k < 10 \<Longrightarrow> char_of (48 + k) \<noteq> CHR 0x0D" for k :: nat
proof
  assume "k < 10" "char_of (48 + k) = CHR 0x0D"
  then have "of_char (char_of (48 + k) :: char) = (13 :: nat)" by simp
  then show False using \<open>k < 10\<close> by (simp only: of_char_of) simp
qed

lemma plain_digits: "plain (dec_digits n)"
proof (induction n rule: dec_digits.induct)
  case (1 n)
  then show ?case using dec_digit [of n] dec_digit [of "n mod 10"] by (subst dec_digits.simps) (auto simp: plain_def)
qed

lemma plain_cookie_line:
  assumes "plain (ck_name ck)" "plain (ck_value ck)" "plain (ck_path ck)" "plain (ck_domain ck)"
    "plain (ck_same_site ck)"
  shows "plain (cookie_line ck)"
  using assms plain_digits unfolding cookie_line_def dec_string_def by (auto simp: plain_def)

section \<open>A reader of responses\<close>

text \<open>A number, a field and a cookie as a client takes them from the text: nothing here refers to the way
  in which the text is written.\<close>

definition read_number :: "string \<Rightarrow> nat option" where
  "read_number s =
     (if s \<noteq> '''' \<and> (\<forall>c \<in> set s. 48 \<le> (of_char c :: nat) \<and> of_char c \<le> (57 :: nat))
      then Some (foldl (\<lambda>n c. n * 10 + (of_char c - 48)) 0 s) else None)"

definition cut_at :: "char \<Rightarrow> string \<Rightarrow> string \<times> string" where
  "cut_at c s = (takeWhile (\<lambda>x. x \<noteq> c) s, drop 1 (dropWhile (\<lambda>x. x \<noteq> c) s))"

definition no_spaces :: "string \<Rightarrow> string" where
  "no_spaces s = dropWhile (\<lambda>c. c = CHR '' '') s"

definition read_field :: "string \<Rightarrow> string \<times> string" where
  "read_field l = (let (f, v) = cut_at CHR '':'' l in (f, no_spaces v))"

record cookie_read =
  cr_name :: string
  cr_value :: string
  cr_path :: "string option"
  cr_domain :: "string option"
  cr_max_age :: "nat option"
  cr_expires :: "string option"
  cr_same_site :: "string option"
  cr_secure :: bool
  cr_http_only :: bool

definition read_cookie :: "string \<Rightarrow> cookie_read" where
  "read_cookie s =
     (let pieces = split_on CHR '';'' s;
          attribute = map_of (map (\<lambda>a. cut_at CHR ''='' (no_spaces a)) (tl pieces))
      in \<lparr> cr_name = fst (cut_at CHR ''='' (hd pieces)), cr_value = snd (cut_at CHR ''='' (hd pieces)),
           cr_path = attribute ''Path'', cr_domain = attribute ''Domain'',
           cr_max_age = Option.bind (attribute ''Max-Age'') read_number, cr_expires = attribute ''expires'',
           cr_same_site = attribute ''SameSite'', cr_secure = (attribute ''Secure'' \<noteq> None),
           cr_http_only = (attribute ''HttpOnly'' \<noteq> None) \<rparr>)"

definition read_message :: "string \<Rightarrow> (string \<times> (string \<times> string) list \<times> string) option" where
  "read_message s =
     (case read_head s of
        Some (l # ls, body) \<Rightarrow>
          if take 9 l = ''HTTP/1.1 '' then Some (drop 9 l, map read_field ls, body) else None
      | _ \<Rightarrow> None)"

text \<open>What a cookie says, by its fields, \<open>http_server.h\<close> 227-235.\<close>

definition not_empty :: "string \<Rightarrow> string option" where
  "not_empty s = (if s = '''' then None else Some s)"

definition cookie_means :: "browser_cookie \<Rightarrow> cookie_read" where
  "cookie_means ck =
     \<lparr> cr_name = ck_name ck, cr_value = ck_value ck, cr_path = not_empty (ck_path ck),
       cr_domain = not_empty (ck_domain ck),
       cr_max_age = (if ck_max_age ck > 0 then Some (nat (ck_max_age ck)) else None),
       cr_expires = (if ck_max_age ck < 0 then Some ''Thu, 01 Jan 1970 00:00:00 GMT'' else None),
       cr_same_site = not_empty (ck_same_site ck),
       cr_secure = (ck_secure ck \<or> ck_same_site ck = ''None''), cr_http_only = ck_http_only ck \<rparr>"

text \<open>Texts that cannot be mistaken for the punctuation around them.\<close>

definition cookie_text :: "string \<Rightarrow> bool" where
  "cookie_text s \<longleftrightarrow> plain s \<and> CHR '';'' \<notin> set s"

definition plain_response :: "http_response \<Rightarrow> bool" where
  "plain_response r \<longleftrightarrow> plain (status_code r) \<and>
     (\<forall>(f, v) \<in> set (rsp_headers r). plain f \<and> plain v \<and> CHR '':'' \<notin> set f \<and> (v = '''' \<or> hd v \<noteq> CHR '' '')) \<and>
     (\<forall>ck \<in> set (rsp_cookies r). cookie_text (ck_name ck) \<and> CHR ''='' \<notin> set (ck_name ck) \<and>
        (ck_name ck = '''' \<or> hd (ck_name ck) \<noteq> CHR '' '') \<and> cookie_text (ck_value ck) \<and>
        cookie_text (ck_path ck) \<and> cookie_text (ck_domain ck) \<and> cookie_text (ck_same_site ck) \<and>
        \<not> ck_delete_it ck)"

lemma read_digits: "read_number (dec_digits n) = Some n"
proof -
  have code: "of_char (char_of (48 + k) :: char) = 48 + k" if "k < 10" for k :: nat
    using that by (simp only: of_char_of) simp
  have "dec_digits n \<noteq> '''' \<and> (\<forall>c \<in> set (dec_digits n). 48 \<le> (of_char c :: nat) \<and> of_char c \<le> (57 :: nat)) \<and>
      foldl (\<lambda>n c. n * 10 + (of_char c - 48)) 0 (dec_digits n) = n"
  proof (induction n rule: dec_digits.induct)
    case (1 n)
    then show ?case
      using code [of n] code [of "n mod 10"] by (subst (1 2 3) dec_digits.simps) auto
  qed
  then show ?thesis by (simp add: read_number_def)
qed

lemma digit_chars: "c \<in> set (dec_digits n) \<Longrightarrow> 48 \<le> (of_char c :: nat) \<and> of_char c \<le> (57 :: nat)"
  using read_digits [of n] by (auto simp: read_number_def split: if_splits)

lemma cut_at_sep: "c \<notin> set a \<Longrightarrow> cut_at c (a @ c # b) = (a, b)"
  by (simp add: cut_at_def while_until)

lemma cut_at_none: "c \<notin> set a \<Longrightarrow> cut_at c a = (a, '''')"
  by (simp add: cut_at_def while_all)

lemma no_spaces_text: "a = '''' \<or> hd a \<noteq> CHR '' '' \<Longrightarrow> no_spaces (CHR '' '' # a) = a"
  by (cases a) (auto simp: no_spaces_def)

lemma split_on_pieces:
  assumes "c \<notin> set p" "\<forall>q \<in> set qs. c \<notin> set q"
  shows "split_on c (p @ concat (map (\<lambda>q. c # q) qs)) = p # qs"
  using assms
proof (induction qs arbitrary: p)
  case Nil
  then show ?case by (simp add: split_on_last)
next
  case (Cons q qs)
  then show ?case using split_on_more [of c p] by simp
qed

definition attributes_of :: "browser_cookie \<Rightarrow> (string \<times> string) list" where
  "attributes_of ck =
     (if ck_path ck \<noteq> '''' then [(''Path'', ck_path ck)] else []) @
     (if ck_domain ck \<noteq> '''' then [(''Domain'', ck_domain ck)] else []) @
     (if ck_max_age ck > 0 then [(''Max-Age'', dec_digits (nat (ck_max_age ck)))]
      else if ck_max_age ck < 0 then [(''expires'', ''Thu, 01 Jan 1970 00:00:00 GMT'')] else []) @
     (if ck_same_site ck \<noteq> '''' then [(''SameSite'', ck_same_site ck)] else [])"

definition flags_of :: "browser_cookie \<Rightarrow> string list" where
  "flags_of ck = (if ck_secure ck \<or> ck_same_site ck = ''None'' then [''Secure''] else []) @
     (if ck_http_only ck then [''HttpOnly''] else [])"

lemma cookie_line_pieces:
  assumes "\<not> ck_delete_it ck"
  shows "cookie_line ck = ''Set-Cookie: '' @ (ck_name ck @ CHR ''='' # ck_value ck) @
    concat (map (\<lambda>q. CHR '';'' # q) (map (\<lambda>(a, v). CHR '' '' # a @ CHR ''='' # v) (attributes_of ck) @
      map (\<lambda>a. CHR '' '' # a) (flags_of ck)))"
  using assms by (simp add: cookie_line_def attributes_of_def flags_of_def dec_string_def)

lemma map_of_if:
  "map_of ((if c then [(a, v)] else []) @ xs) k = (if c \<and> k = a then Some v else map_of xs k)"
  "map_of (if c then [(a, v)] else []) k = (if c \<and> k = a then Some v else None)"
  "map_of ((if c then [(a, v)] else if d then [(b, w)] else []) @ xs) k =
     (if c \<and> k = a then Some v else if \<not> c \<and> d \<and> k = b then Some w else map_of xs k)"
  by auto

definition said :: "browser_cookie \<Rightarrow> string \<Rightarrow> string option" where
  "said ck = map_of (attributes_of ck @ map (\<lambda>a. (a, '''')) (flags_of ck))"

lemma said_attribute:
  "said ck ''Path'' = not_empty (ck_path ck)" "said ck ''Domain'' = not_empty (ck_domain ck)"
  "said ck ''SameSite'' = not_empty (ck_same_site ck)"
  "said ck ''Max-Age'' = (if ck_max_age ck > 0 then Some (dec_digits (nat (ck_max_age ck))) else None)"
  "said ck ''expires'' = (if ck_max_age ck < 0 then Some ''Thu, 01 Jan 1970 00:00:00 GMT'' else None)"
  "said ck ''Secure'' \<noteq> None \<longleftrightarrow> ck_secure ck \<or> ck_same_site ck = ''None''"
  "said ck ''HttpOnly'' \<noteq> None \<longleftrightarrow> ck_http_only ck"
proof -
  have flags: "map (\<lambda>a. (a, '''' :: string)) (flags_of ck) =
      (if ck_secure ck \<or> ck_same_site ck = ''None'' then [(''Secure'', '''')] else []) @
      (if ck_http_only ck then [(''HttpOnly'', '''')] else [])"
    by (simp add: flags_of_def)
  note said = said_def [of ck] attributes_of_def [of ck] flags append_assoc map_of_if not_empty_def
  show "said ck ''Path'' = not_empty (ck_path ck)" "said ck ''Domain'' = not_empty (ck_domain ck)"
    "said ck ''SameSite'' = not_empty (ck_same_site ck)"
    "said ck ''Max-Age'' = (if ck_max_age ck > 0 then Some (dec_digits (nat (ck_max_age ck))) else None)"
    "said ck ''expires'' = (if ck_max_age ck < 0 then Some ''Thu, 01 Jan 1970 00:00:00 GMT'' else None)"
    "said ck ''Secure'' \<noteq> None \<longleftrightarrow> ck_secure ck \<or> ck_same_site ck = ''None''"
    "said ck ''HttpOnly'' \<noteq> None \<longleftrightarrow> ck_http_only ck"
    unfolding said by (simp_all only: map_of_if list.inject char.inject simp_thms list.distinct if_False if_True) simp_all
qed

lemma read_cookie_line:
  assumes "\<not> ck_delete_it ck" "cookie_text (ck_name ck)" "CHR ''='' \<notin> set (ck_name ck)"
    "cookie_text (ck_value ck)" "cookie_text (ck_path ck)" "cookie_text (ck_domain ck)" "cookie_text (ck_same_site ck)"
  shows "\<exists>v. cookie_line ck = ''Set-Cookie: '' @ v \<and> read_cookie v = cookie_means ck"
proof -
  let ?as = "map (\<lambda>(a, v). CHR '' '' # a @ CHR ''='' # v) (attributes_of ck)"
  let ?fs = "map (\<lambda>a. CHR '' '' # a) (flags_of ck)"
  let ?v = "(ck_name ck @ CHR ''='' # ck_value ck) @ concat (map (\<lambda>q. CHR '';'' # q) (?as @ ?fs))"
  have "CHR '';'' \<notin> set (dec_digits n)" for n using digit_chars [of "CHR '';''" n] by auto
  then have "\<forall>q \<in> set (?as @ ?fs). CHR '';'' \<notin> set q"
    using assms by (auto simp: attributes_of_def flags_of_def cookie_text_def split: if_splits)
  then have pieces: "split_on CHR '';'' ?v = (ck_name ck @ CHR ''='' # ck_value ck) # (?as @ ?fs)"
    using assms by (intro split_on_pieces) (simp_all add: cookie_text_def)
  have cut: "map (\<lambda>a. cut_at CHR ''='' (no_spaces a)) (?as @ ?fs) = attributes_of ck @ map (\<lambda>a. (a, '''')) (flags_of ck)"
    by (auto simp: attributes_of_def flags_of_def no_spaces_def cut_at_def)
  have "read_cookie ?v = cookie_means ck"
    unfolding read_cookie_def pieces list.sel cut Let_def cut_at_sep [OF assms(3)] fst_conv snd_conv said_def [symmetric]
    unfolding said_attribute by (simp add: cookie_means_def read_digits)
  then show ?thesis using cookie_line_pieces [OF assms(1)] by blast
qed

section \<open>Properties\<close>

text \<open>
  C2: over any run of a connection no byte is lost, repeated or reordered: what was received is what the
  parser and the handlers were given, in this order, followed by the unparsed rest of the buffer; the
  buffer is never left, the socket is never asked for zero bytes, and no step of the parser
  or its callbacks leaves the buffer.
\<close>

theorem serve_conserves:
  assumes "parser_ok api" "serve_start api t" "(serve_trans api find_upgrade)\<^sup>*\<^sup>* t (received, consumed, s)"
  shows "received = consumed @ take (bep s - bsp s) (drop (bsp s) (buf s)) \<and> bsp s \<le> bep s \<and>
    bep s \<le> buffer_size \<and> length (buf s) = buffer_size \<and>
    (mode s = Parsing \<longrightarrow> (if bsp s = bep s then bep s < buffer_size else parse_more api find_upgrade s \<noteq> None))"
proof -
  have inv: "serve_inv (received, consumed, s)" using serve.reachable_inv [OF assms(3,2)] assms(1) by blast
  then have "parse_more api find_upgrade s \<noteq> None"
    using parse_more_ok [OF assms(1), of s find_upgrade] by (auto simp: serve_inv_def)
  then show ?thesis using inv by (simp add: serve_inv_def unparsed_def)
qed

text \<open>
  C3: however the parser cuts the headers into pieces, the request has exactly the headers of the message:
  a name, in lower case, finds the value of the first header with this name, ignoring case.
\<close>

theorem request_headers:
  assumes "lines_in 0 ls (length mem)"
  shows "\<exists>mem' c. callbacks pu 0 (concat (map line_events ls) @ [Ev_headers_complete m has_length len]) (mem, init_pc c0) =
      Some (mem', c) \<and>
    (\<forall>name. headers_find (headers (pc_request c)) name = map_of (map (line_pair mem) ls) name)"
proof -
  have "collected None [] (init_pc c0)" by (simp add: init_pc_def init_request_def)
  from lines_collected [OF this _ _ assms, of mem mem pu]
  obtain mem' c pend hs where c: "callbacks pu 0 (concat (map line_events ls)) (mem, init_pc c0) = Some (mem', c)"
      "collected pend hs c" "pend_ok pend" "pend_end pend \<le> length mem" "length mem' = length mem"
      "drop (pend_start pend) mem' = drop (pend_start pend) mem"
      "insert_pend mem pend hs = foldl (\<lambda>hs l. insert_line mem l hs) [] ls"
    by (auto simp: insert_pend_def)
  then obtain mem'' c'' where "on_headers_complete m has_length len (mem', c) = Some (mem'', c'')"
      "headers (pc_request c'') = foldl (\<lambda>hs l. insert_line mem l hs) [] ls"
    using headers_complete [OF c(2,3,4,6,5)] by metis
  then show ?thesis
    using c(1) insert_lines_find [of "[]" mem ls] by (auto simp: callbacks_append sorted_headers_def)
qed

text \<open>
  C4: a response is read back as exactly one message.  If its texts have no carriage return, and those of
  its cookies no semicolon, then a client reads its status, its headers in order, one Set-Cookie field
  for each cookie, from which it gets back the name, the value and exactly the attributes that are set
  (a negative age as a date in the past, Secure also for SameSite=None), the length of the body if
  there is one, and then the body, whatever that holds.  Cookies to be deleted are left out:
  \<open>deleted_cookie_read\<close> shows that they are not written as documented.
\<close>

theorem response_read_back:
  assumes "plain_response r"
  shows "\<exists>cookies size. read_message (respond_text r) = Some (status_code r, rsp_headers r @ cookies @ size, rsp_body r) \<and>
    map (\<lambda>(f, v). (f, read_cookie v)) cookies = map (\<lambda>ck. (''Set-Cookie'', cookie_means ck)) (rsp_cookies r) \<and>
    map (\<lambda>(f, v). (f, read_number v)) size =
      (if rsp_body r = '''' then [] else [(''content-length'', Some (length (rsp_body r)))])"
proof -
  have fields: "map read_field (map (\<lambda>(f, v). f @ '': '' @ v) hs) = hs"
    if "\<forall>(f, v) \<in> set hs. CHR '':'' \<notin> set f \<and> (v = '''' \<or> hd v \<noteq> CHR '' '')" for hs
    using that by (induction hs) (auto simp: read_field_def cut_at_sep no_spaces_text)
  have cookie: "\<exists>v. cookie_line ck = ''Set-Cookie: '' @ v \<and> (v = '''' \<or> hd v \<noteq> CHR '' '') \<and> read_cookie v = cookie_means ck"
    if "ck \<in> set (rsp_cookies r)" for ck
  proof -
    have "\<exists>v. cookie_line ck = ''Set-Cookie: '' @ v \<and> read_cookie v = cookie_means ck"
      using that assms by (intro read_cookie_line) (simp_all add: plain_response_def)
    then obtain v where v: "cookie_line ck = ''Set-Cookie: '' @ v" "read_cookie v = cookie_means ck" by blast
    obtain u where "cookie_line ck = ''Set-Cookie: '' @ ck_name ck @ CHR ''='' # u"
      by (simp add: cookie_line_def)
    then have "v = ck_name ck @ CHR ''='' # u" using v(1) by simp
    moreover have "ck_name ck = '''' \<or> hd (ck_name ck) \<noteq> CHR '' ''" using that assms by (simp add: plain_response_def)
    ultimately have "v = '''' \<or> hd v \<noteq> CHR '' ''" by (cases "ck_name ck") auto
    then show ?thesis using v by blast
  qed
  have "\<exists>vs. map cookie_line cks = map (\<lambda>v. ''Set-Cookie: '' @ v) vs \<and> (\<forall>v \<in> set vs. v = '''' \<or> hd v \<noteq> CHR '' '') \<and>
      map read_cookie vs = map cookie_means cks" if "set cks \<subseteq> set (rsp_cookies r)" for cks
    using that
  proof (induction cks)
    case (Cons ck cks)
    then obtain v vs where "cookie_line ck = ''Set-Cookie: '' @ v" "v = '''' \<or> hd v \<noteq> CHR '' ''"
        "read_cookie v = cookie_means ck" "map cookie_line cks = map (\<lambda>v. ''Set-Cookie: '' @ v) vs"
        "\<forall>v \<in> set vs. v = '''' \<or> hd v \<noteq> CHR '' ''" "map read_cookie vs = map cookie_means cks"
      using cookie [of ck] by auto
    then show ?case by (intro exI [of _ "v # vs"]) simp
  qed simp
  then obtain vs where vs: "map cookie_line (rsp_cookies r) = map (\<lambda>v. ''Set-Cookie: '' @ v) vs"
      "\<forall>v \<in> set vs. v = '''' \<or> hd v \<noteq> CHR '' ''" "map read_cookie vs = map cookie_means (rsp_cookies r)"
    by blast
  have "plain (cookie_line ck) \<and> cookie_line ck \<noteq> ''''" if "ck \<in> set (rsp_cookies r)" for ck
    using that assms plain_cookie_line [of ck] by (simp add: plain_response_def cookie_text_def cookie_line_def)
  moreover have "plain (f @ '': '' @ v)" if "(f, v) \<in> set (rsp_headers r)" for f v
    using that assms by (auto simp: plain_response_def plain_def)
  moreover have "plain (''HTTP/1.1 '' @ status_code r)" "plain (''content-length: '' @ dec_digits n)" for n
    using assms plain_digits [of n] by (simp_all add: plain_response_def plain_def)
  ultimately have "\<forall>l \<in> set (response_lines r). plain l \<and> l \<noteq> ''''"
    unfolding response_lines_def by auto
  then have "\<forall>l \<in> set (response_lines r). CHR 0x0D \<notin> set l \<and> l \<noteq> ''''" by (simp add: plain_def)
  then have head: "read_head (respond_text r) = Some (response_lines r, rsp_body r)"
    unfolding respond_text_lines by (rule read_head_lines)
  define size where "size = (if rsp_body r = '''' then [] else [(''content-length'', dec_digits (length (rsp_body r)))])"
  have "read_field (''Set-Cookie: '' @ v) = (''Set-Cookie'', v)" if "v = '''' \<or> hd v \<noteq> CHR '' ''" for v
    using no_spaces_text [OF that] by (simp add: read_field_def cut_at_def)
  then have cookies: "map read_field (map cookie_line (rsp_cookies r)) = map (\<lambda>v. (''Set-Cookie'', v)) vs"
    unfolding vs(1) using vs(2) by simp
  have "dec_digits n = '''' \<or> hd (dec_digits n) \<noteq> CHR '' ''" for n
    using digit_chars [of "hd (dec_digits n)" n] by (cases "dec_digits n") auto
  then have "map read_field (if rsp_body r = '''' then [] else [''content-length: '' @ dec_digits (length (rsp_body r))]) = size"
    by (simp add: read_field_def cut_at_def size_def no_spaces_text)
  moreover have hdrs: "map read_field (map (\<lambda>(f, v). f @ '': '' @ v) (rsp_headers r)) = rsp_headers r"
    using assms by (intro fields) (auto simp: plain_response_def)
  ultimately have "map read_field (tl (response_lines r)) = rsp_headers r @ map (\<lambda>v. (''Set-Cookie'', v)) vs @ size"
    using hdrs by (simp only: response_lines_def list.sel map_append cookies)
  then have "read_message (respond_text r) =
      Some (status_code r, rsp_headers r @ map (\<lambda>v. (''Set-Cookie'', v)) vs @ size, rsp_body r)"
    unfolding read_message_def head by (simp add: response_lines_def)
  moreover have "map (\<lambda>(f, v). (f, read_cookie v)) (map (\<lambda>v. (''Set-Cookie'', v)) vs) =
      map (\<lambda>ck. (''Set-Cookie'', ck)) (map read_cookie vs)" by simp
  ultimately show ?thesis
    using vs(3) by (intro exI [of _ "map (\<lambda>v. (''Set-Cookie'', v)) vs"] exI [of _ size])
      (simp add: size_def read_digits)
qed

text \<open>A cookie to be deleted: documented as the value deleted with a date in the past, written as an empty
  value with the age 0 (and a name without value is a cookie all the same).\<close>

definition deleting_cookie :: browser_cookie where
  "deleting_cookie = \<lparr> ck_name = ''n'', ck_value = '''', ck_max_age = 0, ck_path = '''', ck_domain = '''',
     ck_secure = False, ck_http_only = False, ck_same_site = '''', ck_delete_it = True \<rparr>"

lemma deleted_cookie_read:
  "cookie_line deleting_cookie = ''Set-Cookie: n=; Max-Age=0''"
  "cr_value (read_cookie ''n=; Max-Age=0'') = ''''" "cr_max_age (read_cookie ''n=; Max-Age=0'') = Some 0"
  "cr_expires (read_cookie ''n=; Max-Age=0'') = None"
proof -
  show "cookie_line deleting_cookie = ''Set-Cookie: n=; Max-Age=0''" by (simp add: cookie_line_def deleting_cookie_def)
  have "split_on CHR '';'' ''n=; Max-Age=0'' = [''n='', '' Max-Age=0'']"
    using split_on_pieces [of "CHR '';''" "''n=''" "['' Max-Age=0'']"] by simp
  then show "cr_value (read_cookie ''n=; Max-Age=0'') = ''''" "cr_max_age (read_cookie ''n=; Max-Age=0'') = Some 0"
    "cr_expires (read_cookie ''n=; Max-Age=0'') = None"
    by (simp_all add: read_cookie_def cut_at_def no_spaces_def read_number_def)
qed

text \<open>A parser that takes a message to be complete at once.\<close>

definition eager_parser :: "unit parser_api" where
  "eager_parser = \<lparr> parser_init = (), parser_execute = (\<lambda>p data. (length data, [Ev_message_complete], ())),
     parser_upgrade = (\<lambda>_. False), should_keep_alive = (\<lambda>_. True), parse_url = (\<lambda>_ _. None) \<rparr>"

lemma eager_parser_ok: "parser_ok eager_parser"
  by (simp add: parser_ok_def eager_parser_def)

lemma serve_conserves_witness:
  "\<exists>s. (serve_trans eager_parser (\<lambda>_. False))\<^sup>*\<^sup>* ([], [], new_connection eager_parser) (''hi'', ''hi'', s) \<and>
     mode s = Handling False \<and> ''hi'' = ''hi'' @ take (bep s - bsp s) (drop (bsp s) (buf s))"
proof -
  let ?s0 = "new_connection eager_parser"
  define s1 where "s1 = ?s0\<lparr>buf := ''hi'' @ replicate 8190 NUL, bep := 2\<rparr>"
  define s2 where "s2 = s1\<lparr>bsp := 2, pcallback := new_pc\<lparr>message_complete := True\<rparr>, mode := Handling False\<rparr>"
  have s0: "mode ?s0 = Parsing" "bsp ?s0 = 0" "bep ?s0 = 0" "length (buf ?s0) = 8192" "pcallback ?s0 = new_pc"
      "buf ?s0 = replicate 8192 NUL"
    by (simp_all add: new_connection_def buffer_size_def)
  have "read_more ''hi'' ?s0 = Some s1"
    by (simp add: read_more_def wr_range_def s0 s1_def)
  then have "serve_step eager_parser (\<lambda>_. False) ?s0 ''hi'' [] s1" by (intro serve_step.read) (simp_all add: s0)
  from serve_trans.intros [OF this, of "[]" "[]"]
  have 1: "serve_trans eager_parser (\<lambda>_. False) ([], [], ?s0) (''hi'', [], s1)" by simp
  have s1: "mode s1 = Parsing" "bsp s1 = 0" "bep s1 = 2" "pcallback s1 = new_pc" "buf s1 = ''hi'' @ replicate 8190 NUL"
    by (simp_all add: s1_def s0)
  have "parse_more eager_parser (\<lambda>_. False) s1 = Some s2"
    by (simp add: parse_more_def rd_range_def s1 eager_parser_def on_message_complete_def s2_def Let_def)
  then have "serve_step eager_parser (\<lambda>_. False) s1 [] (take (bsp s2 - bsp s1) (drop (bsp s1) (buf s1))) s2"
    by (intro serve_step.parse) (simp_all add: s1)
  then have "serve_step eager_parser (\<lambda>_. False) s1 [] ''hi'' s2" by (simp add: s1 s2_def numeral_2_eq_2)
  from serve_trans.intros [OF this, of "''hi''" "[]"]
  have 2: "serve_trans eager_parser (\<lambda>_. False) (''hi'', [], s1) (''hi'', ''hi'', s2)" by simp
  have run: "(serve_trans eager_parser (\<lambda>_. False))\<^sup>*\<^sup>* ([], [], ?s0) (''hi'', ''hi'', s2)"
    using 1 2 by (auto intro: converse_rtranclp_into_rtranclp)
  moreover have "mode s2 = Handling False" by (simp add: s2_def)
  ultimately show ?thesis
    using serve_conserves [OF eager_parser_ok _ run] by (auto simp: serve_start_def)
qed

lemma request_headers_witness:
  "\<exists>mem' c. callbacks (\<lambda>_ _. None) 0 ([Ev_header_field 0 1, Ev_header_field 1 1, Ev_header_value 4 1,
      Ev_header_field 6 2, Ev_header_value 10 1] @ [Ev_headers_complete 1 False 0]) (''Ab: 1,aB: 2'', init_pc new_pc) =
      Some (mem', c) \<and>
    headers_find (headers (pc_request c)) ''ab'' = Some ''1''"
  using request_headers [of "[(0, [1, 1], 4, [1]), (6, [2], 10, [1])]" "''Ab: 1,aB: 2''" "\<lambda>_ _. None" 1 False 0 new_pc]
  by (simp add: to_lower_def char_of_def bit_Suc_0_iff) (elim exE conjE, intro exI conjI, assumption, simp)

definition session_cookie :: browser_cookie where
  "session_cookie = \<lparr> ck_name = ''id'', ck_value = ''a=b'', ck_max_age = 60, ck_path = ''/'', ck_domain = '''',
     ck_secure = False, ck_http_only = True, ck_same_site = ''None'', ck_delete_it = False \<rparr>"

lemma response_read_back_witness:
  "\<exists>cookies size. read_message (respond_text (add_cookie session_cookie
      (add_header ''x'' ''y'' (new_response ''200 OK'')\<lparr>rsp_body := ''hello''\<rparr>))) =
      Some (''200 OK'', [(''x'', ''y'')] @ cookies @ size, ''hello'') \<and>
    map (\<lambda>(f, v). (f, read_cookie v)) cookies = [(''Set-Cookie'', \<lparr> cr_name = ''id'', cr_value = ''a=b'',
      cr_path = Some ''/'', cr_domain = None, cr_max_age = Some 60, cr_expires = None, cr_same_site = Some ''None'',
      cr_secure = True, cr_http_only = True \<rparr>)] \<and>
    map (\<lambda>(f, v). (f, read_number v)) size = [(''content-length'', Some (length ''hello''))]"
  using response_read_back [of "add_cookie session_cookie (add_header ''x'' ''y'' (new_response ''200 OK'')\<lparr>rsp_body := ''hello''\<rparr>)"]
  by (simp add: plain_response_def cookie_text_def plain_def add_header_def add_cookie_def new_response_def
      session_cookie_def cookie_means_def not_empty_def)

end
