(* ===== verification/Dispatcher.thy ===== *)
theory Dispatcher
  imports Http_Server Percent
begin

text \<open>
  The request dispatcher, \<open>src/cpp/request_dispatcher.cpp\<close>, \<open>request_dispatcher_priv.h\<close> and
  \<open>request_dispatcher.h\<close>, and the error replies of \<open>src/cpp/http_error.h\<close>: path specifications, the
  extraction of path variables, query fields and headers, CORS preflights, and how an error
  of a handler becomes a response.  PCRE, the JSON parser, the table of status texts and the
  handlers are parameters.
\<close>

section \<open>Errors\<close>

definition status_text :: "(int \<Rightarrow> string option) \<Rightarrow> int \<Rightarrow> string option" where
  "status_text http_status_map = http_status_map(503 \<mapsto> ''Slow Down'')"

definition get_description :: "(int \<Rightarrow> string option) \<Rightarrow> int \<Rightarrow> string" where
  "get_description http_status_map code =
     (case status_text http_status_map code of Some s \<Rightarrow> s | None \<Rightarrow> '''')"

record request_error =
  err_code :: string
  err_reason :: string
  err_content_type :: string

definition mk_request_error :: "(int \<Rightarrow> string option) \<Rightarrow> int \<Rightarrow> string \<Rightarrow> string \<Rightarrow> request_error" where
  "mk_request_error http_status_map c reason content_type =
     \<lparr> err_code = (let desc = get_description http_status_map c
                  in dec_string c @ (if desc \<noteq> '''' then '' '' @ desc else '''')),
       err_reason = reason, err_content_type = content_type \<rparr>"

text \<open>What a handler may throw: a \<open>request_error\<close>, an exception of the JSON library, a
  \<open>std::exception\<close> or anything else.\<close>

datatype thrown = Request_thrown request_error | Json_thrown string | Std_thrown string | Other_thrown

definition throw_request_error :: "(int \<Rightarrow> string option) \<Rightarrow> int \<Rightarrow> string \<Rightarrow> thrown" where
  "throw_request_error sm code msg = Request_thrown (mk_request_error sm code (msg @ [CHR 0x0A]) ''text/plain'')"

definition throw_request_js_error :: "(int \<Rightarrow> string option) \<Rightarrow> int \<Rightarrow> string \<Rightarrow> thrown" where
  "throw_request_js_error sm code js = Request_thrown (mk_request_error sm code js ''application/json'')"

definition k_enable_cors_get :: nat where "k_enable_cors_get = 1"
definition k_enable_cors_head :: nat where "k_enable_cors_head = 2"
definition k_enable_cors_post :: nat where "k_enable_cors_post = 4"
definition k_enable_cors_put :: nat where "k_enable_cors_put = 8"
definition k_enable_cors_delete :: nat where "k_enable_cors_delete = 16"
definition k_enable_cors_all :: nat where "k_enable_cors_all = 31"

lemmas cors_flags = k_enable_cors_get_def k_enable_cors_head_def k_enable_cors_post_def k_enable_cors_put_def
  k_enable_cors_delete_def

text \<open>The chain of comparisons with the methods that \<open>reply_back_error\<close> and \<open>dispatch\<close> share.\<close>

definition cors_allows :: "nat \<Rightarrow> string \<Rightarrow> bool" where
  "cors_allows cors meth =
     (if meth = ''GET'' then cors AND k_enable_cors_get \<noteq> 0
      else if meth = ''HEAD'' then cors AND k_enable_cors_head \<noteq> 0
      else if meth = ''POST'' then cors AND k_enable_cors_post \<noteq> 0
      else if meth = ''PUT'' then cors AND k_enable_cors_put \<noteq> 0
      else if meth = ''DELETE'' then cors AND k_enable_cors_put \<noteq> 0
      else False)"

definition reply_back_error ::
  "string \<Rightarrow> nat \<Rightarrow> http_request \<Rightarrow> string \<Rightarrow> string \<Rightarrow> string \<Rightarrow> string \<Rightarrow> http_response"
where
  "reply_back_error meth cors request msg response_code content_type allowed_headers =
     (let response = add_header ''content-type'' ''text/plain'' (new_response ''200 OK'');
          chk = (if meth = ''OPTIONS'' then True else cors_allows cors meth);
          response =
            (if cors \<noteq> 0 \<and> chk then
               (let response = (if contains_header (headers request) ''origin''
                      then add_header ''access-control-allow-origin'' (get_header (headers request) ''origin'') response
                      else response);
                    response = add_header ''access-control-allow-methods'' meth response;
                    response = add_header ''access-control-allow-credentials'' ''true'' response;
                    response = add_header ''access-control-max-age'' ''600'' response
                in if allowed_headers \<noteq> '''' then add_header ''access-control-allow-headers'' allowed_headers response
                   else response)
             else response);
          response = response\<lparr>status_code := response_code\<rparr>;
          response = add_header ''content-type'' content_type response
      in response\<lparr>rsp_body := rsp_body response @ msg @ [CHR 0x0A]\<rparr>)"

text \<open>\<open>request_wrap\<close>: the responses that \<open>f\<close> wrote, and the reply to what it threw.\<close>

definition request_wrap ::
  "string \<Rightarrow> nat \<Rightarrow> string \<Rightarrow> http_request \<Rightarrow> http_response list \<times> thrown option \<Rightarrow> http_response list"
where
  "request_wrap meth cors allow_headers_error request = (\<lambda>(written, e).
     let reply = (\<lambda>msg code ctype. [reply_back_error meth cors request (c_text msg) (c_text code) (c_text ctype)
                    allow_headers_error])
     in written @
       (case e of
          None \<Rightarrow> []
        | Some (Request_thrown e) \<Rightarrow> reply (err_reason e) (err_code e) (err_content_type e)
        | Some (Json_thrown what) \<Rightarrow> reply what ''400'' ''text/plain''
        | Some (Std_thrown what) \<Rightarrow> reply what ''500'' ''text/plain''
        | Some Other_thrown \<Rightarrow> reply '''' ''500'' ''text/plain''))"

section \<open>Path specifications\<close>

text \<open>PCRE: \<open>FullMatch\<close> with the groups of a match, \<open>FindAndConsume\<close> with the first group and the
  rest of the input, and \<open>GlobalReplace\<close>.\<close>

record pcre_api =
  full_match :: "string \<Rightarrow> string \<Rightarrow> string list option"
  find_consume :: "string \<Rightarrow> string \<Rightarrow> (string \<times> string) option"
  global_replace :: "string \<Rightarrow> string \<Rightarrow> string \<Rightarrow> string"

definition re_split_at_q :: string where "re_split_at_q = ''([^?]*)(.*)''"
definition re_split_at_var :: string where "re_split_at_var = ''([^?{]*)(.*)''"
definition re_braces_group :: string where "re_braces_group = ''({[^}]*})''"
definition re_braces :: string where "re_braces = ''{[^}]*}''"
definition re_segment :: string where "re_segment = ''([^/]*)''"
definition re_item :: string where "re_item = ''([^&]+)''"

text \<open>The loops \<open>while (re.FindAndConsume(&input, &val))\<close>; a match is never empty for the patterns
  used, so that the length of the input bounds the turns.\<close>

fun find_all :: "nat \<Rightarrow> pcre_api \<Rightarrow> string \<Rightarrow> string \<Rightarrow> string list" where
  "find_all 0 pcre re input = []"
| "find_all (Suc n) pcre re input =
     (case find_consume pcre re input of
        None \<Rightarrow> []
      | Some (val, rest) \<Rightarrow> val # find_all n pcre re rest)"

record request_helper =
  path_re :: string
  num_path_substitutions :: nat
  non_var :: string
  query_string_items :: "string list"
  header_items :: "string list"

definition mapping_error :: thrown where
  "mapping_error = Std_thrown ''request_mapping failed, invalid path''"

definition request_mapping_helper :: "pcre_api \<Rightarrow> string \<Rightarrow> thrown + request_helper" where
  "request_mapping_helper pcre path_spec =
     (case full_match pcre re_split_at_q path_spec of
        Some [path, query] \<Rightarrow>
          (case (if length query > 0 then full_match pcre re_split_at_q (drop 1 query) else Some [query, '''']) of
             Some [query, hdrs] \<Rightarrow>
               (let hdrs = (if length hdrs > 0 then drop 1 hdrs else hdrs)
                in case full_match pcre re_split_at_var path_spec of
                     Some (nv # _) \<Rightarrow>
                       Inr \<lparr> path_re = global_replace pcre re_braces re_segment path,
                         num_path_substitutions = length (find_all (length path) pcre re_braces_group path),
                         non_var = nv,
                         query_string_items = find_all (length query) pcre re_item query,
                         header_items = find_all (length hdrs) pcre re_item hdrs \<rparr>
                   | _ \<Rightarrow> Inl mapping_error)
           | _ \<Rightarrow> Inl mapping_error)
      | _ \<Rightarrow> Inl mapping_error)"

section \<open>Parameters of a request\<close>

text \<open>\<open>std::string::find\<close> from a position; \<open>None\<close> is \<open>npos\<close>.\<close>

fun str_find :: "string \<Rightarrow> string \<Rightarrow> nat option" where
  "str_find s [] = (if take (length s) ([] :: string) = s then Some 0 else None)"
| "str_find s (c # t) =
     (if take (length s) (c # t) = s then Some 0 else map_option Suc (str_find s t))"

definition str_find_from :: "string \<Rightarrow> string \<Rightarrow> nat \<Rightarrow> nat option" where
  "str_find_from s t pos = (if pos \<le> length t then map_option (\<lambda>i. pos + i) (str_find s (drop pos t)) else None)"

function item_loop :: "string \<Rightarrow> string \<Rightarrow> nat \<Rightarrow> nat option" where
  "item_loop quer it pos =
     (case str_find_from (it @ ''='') quer pos of
        None \<Rightarrow> None
      | Some pos' \<Rightarrow>
          if pos' = 0 \<or> quer ! (pos' - 1) = CHR ''&'' then Some pos'
          else (case str_find_from ''&'' quer (pos' + (length it + 1)) of
                  None \<Rightarrow> None
                | Some pos'' \<Rightarrow> item_loop quer it pos''))"
  by pat_completeness auto

lemma str_find_from_ge: "str_find_from s t pos = Some i \<Longrightarrow> pos \<le> i \<and> pos \<le> length t"
  by (auto simp: str_find_from_def split: if_splits)

termination item_loop
  by (relation "measure (\<lambda>(quer, it, pos). Suc (length quer) - pos)")
    (auto dest!: str_find_from_ge)

declare item_loop.simps [simp del]

definition item_value :: "string \<Rightarrow> string \<Rightarrow> string" where
  "item_value quer it =
     (case item_loop quer it 0 of
        None \<Rightarrow> ''''
      | Some pos \<Rightarrow>
          let v = drop (pos + (length it + 1)) quer
          in (case str_find_from ''&'' v 0 of None \<Rightarrow> v | Some i \<Rightarrow> take i v))"

text \<open>\<open>path_re.FullMatch\<close> with \<open>n\<close> arguments, which needs that many groups.\<close>

definition match_path :: "pcre_api \<Rightarrow> string \<Rightarrow> nat \<Rightarrow> string \<Rightarrow> string list option" where
  "match_path pcre re n path =
     (if n \<le> 8 then
        (case full_match pcre re path of
           Some caps \<Rightarrow> if n \<le> length caps then Some (take n caps @ replicate (8 - n) '''') else None
         | None \<Rightarrow> None)
      else None)"

fun header_values :: "(int \<Rightarrow> string option) \<Rightarrow> http_request \<Rightarrow> string list \<Rightarrow> thrown + string list" where
  "header_values sm request [] = Inr []"
| "header_values sm request (it # its) =
     (if contains_header (headers request) (c_text it) then
        (case header_values sm request its of
           Inl e \<Rightarrow> Inl e
         | Inr vs \<Rightarrow> Inr (get_header (headers request) (c_text it) # vs))
      else Inl (throw_request_error sm 400 (''missing, required header: '' @ it)))"

text \<open>\<open>None\<close> in the result is \<open>first = false\<close>.\<close>

definition extract_params ::
  "pcre_api \<Rightarrow> (int \<Rightarrow> string option) \<Rightarrow> request_helper \<Rightarrow> http_request \<Rightarrow> string \<Rightarrow> string \<Rightarrow> bool \<Rightarrow>
     (thrown + string list option) option"
where
  "extract_params pcre sm h request path query is_options =
     (case match_path pcre (path_re h) (num_path_substitutions h) path of
        None \<Rightarrow> Some (Inr None)
      | Some p \<Rightarrow>
          let vars = takeWhile (\<lambda>v. v \<noteq> '''') p
          in if length vars \<noteq> num_path_substitutions h then Some (Inr None)
             else do {
               quer \<leftarrow> (if query_string_items h \<noteq> [] then percent_decode query else Some (Inr ''''));
               (case quer of
                  Inl e \<Rightarrow> Some (Inl (Std_thrown e))
                | Inr quer \<Rightarrow>
                    let params = vars @ map (item_value quer) (query_string_items h)
                    in if \<not> is_options \<and> header_items h \<noteq> [] then
                         (case header_values sm request (header_items h) of
                            Inl e \<Rightarrow> Some (Inl e)
                          | Inr vs \<Rightarrow> Some (Inr (Some (params @ vs))))
                       else Some (Inr (Some params))) })"

section \<open>Responders\<close>

definition respond_options :: "http_request \<Rightarrow> string list \<Rightarrow> http_response" where
  "respond_options request allowed_headers =
     (let hs = headers request;
          orig = get_header hs ''origin'';
          orig2 = (if length orig > 0 then orig else ''*'');
          response = add_header ''access-control-allow-origin'' orig2 (new_response ''200 OK'');
          response = add_header ''access-control-allow-methods'' (get_header hs ''access-control-request-method'') response;
          response = (if contains_header hs ''access-control-request-headers''
            then add_header ''access-control-allow-headers'' (get_header hs ''access-control-request-headers'') response
            else response);
          response = add_header ''access-control-max-age'' ''600'' response;
          response = (if length allowed_headers > 0
            then add_header ''access-control-allow-headers''
              (hd allowed_headers @ concat (map (\<lambda>h. '', '' @ h) (tl allowed_headers))) response
            else response);
          response = add_header ''access-control-allow-credentials'' ''true'' response;
          response = add_header ''cache-control'' ''max-age=604800'' response
      in response\<lparr>status_code := ''204 No Content''\<rparr>)"

text \<open>The parameters of the dispatcher: PCRE, the status texts, the names of the methods, the JSON
  parser, the printed address of the peer, and what each handler does.\<close>

record ('h, 'j) dispatch_env =
  env_pcre :: pcre_api
  env_status :: "int \<Rightarrow> string option"
  env_method_str :: "nat \<Rightarrow> string"
  env_json :: "string \<Rightarrow> thrown + 'j"
  env_peer :: string
  env_exec :: "'h \<Rightarrow> http_request \<Rightarrow> string list \<Rightarrow> 'j option \<Rightarrow> http_response list \<times> thrown option"

text \<open>The reads of a body: what each call of \<open>read\<close> gives.  \<open>None\<close> is the state of still waiting.\<close>

fun read_body :: "nat \<Rightarrow> (thrown + string) list \<Rightarrow> string \<Rightarrow> (thrown + string) option" where
  "read_body clen reads got =
     (if length got < clen then
        (case reads of
           [] \<Rightarrow> None
         | Inl e # rs \<Rightarrow> Some (Inl e)
         | Inr d # rs \<Rightarrow> read_body clen rs (got @ take (clen - length got) d))
      else Some (Inr got))"

definition body_as_json ::
  "('h, 'j) dispatch_env \<Rightarrow> http_request \<Rightarrow> (thrown + string) list \<Rightarrow> (thrown + 'j) option"
where
  "body_as_json env request reads =
     (if \<not> has_content_length request then
        Some (Inl (throw_request_error (env_status env) 411 ''required Content-Length header is missing''))
      else let clen = content_length request in
        if clen < 2 then
          Some (Inl (throw_request_error (env_status env) 406
            (''Content-Length cannot be less than 2 ('' @ dec_string clen @ '')'')))
        else if clen > 16384 then
          Some (Inl (throw_request_error (env_status env) 413
            (''Content-Length cannot exceed 16384 ('' @ dec_string clen @ '' - '' @ env_peer env @ '')'')))
        else do {
          buff \<leftarrow> read_body (nat clen) reads '''';
          Some (case buff of Inl e \<Rightarrow> Inl e | Inr buff \<Rightarrow> env_json env buff) })"

text \<open>\<open>get_map_responder\<close> and \<open>get_map_responder_body\<close> for a function of \<open>rs_arity\<close> strings.  The result is
  \<open>None\<close> if the function has more arguments than the specification has parameters, which the code
  reads outside the vector, or if it still waits for the body.\<close>

record 'h responder =
  rs_fn :: 'h
  rs_arity :: nat
  rs_wants_body :: bool
  rs_allowed :: "string list"
  rs_helper :: request_helper

type_synonym written = "http_response list \<times> thrown option"

definition run_responder ::
  "('h, 'j) dispatch_env \<Rightarrow> 'h responder \<Rightarrow> http_request \<Rightarrow> (thrown + string) list \<Rightarrow> string \<Rightarrow> string \<Rightarrow>
     bool \<Rightarrow> written option option"
where
  "run_responder env r request reads path query is_options = do {
     params \<leftarrow> extract_params (env_pcre env) (env_status env) (rs_helper r) request path query is_options;
     (case params of
        Inl e \<Rightarrow> Some (Some ([], Some e))
      | Inr None \<Rightarrow> Some None
      | Inr (Some ps) \<Rightarrow>
          if is_options then Some (Some ([respond_options request (rs_allowed r)], None))
          else if length ps < rs_arity r then None
          else if rs_wants_body r then do {
            body \<leftarrow> body_as_json env request reads;
            Some (case body of
                Inl e \<Rightarrow> Some ([], Some e)
              | Inr j \<Rightarrow> Some (env_exec env (rs_fn r) request (take (rs_arity r) ps) (Some j))) }
          else Some (Some (env_exec env (rs_fn r) request (take (rs_arity r) ps) None))) }"

fun try_responders ::
  "('h, 'j) dispatch_env \<Rightarrow> 'h responder list \<Rightarrow> http_request \<Rightarrow> (thrown + string) list \<Rightarrow> string \<Rightarrow> string \<Rightarrow>
     bool \<Rightarrow> written option option"
where
  "try_responders env [] request reads path query is_options = Some None"
| "try_responders env (r # rs) request reads path query is_options = do {
     w \<leftarrow> run_responder env r request reads path query is_options;
     (case w of
        Some w \<Rightarrow> Some (Some w)
      | None \<Rightarrow> try_responders env rs request reads path query is_options) }"

section \<open>The dispatcher\<close>

text \<open>\<open>_map\<close>: for each method a \<open>std::map\<close> from the fixed first part of the path to the responders, as the
  list of its entries in order.\<close>

record 'h dispatcher =
  routes :: "string \<Rightarrow> (string \<times> 'h responder list) list option"
  root_path :: string
  allow_error_headers :: string
  cors_enabled :: nat

fun route_push :: "string \<Rightarrow> 'h responder \<Rightarrow> (string \<times> 'h responder list) list \<Rightarrow> (string \<times> 'h responder list) list"
where
  "route_push k r [] = [(k, [r])]"
| "route_push k r ((g, rs) # es) =
     (if k < g then (k, [r]) # (g, rs) # es else if k = g then (g, rs @ [r]) # es else (g, rs) # route_push k r es)"

definition new_dispatcher :: "string \<Rightarrow> nat \<Rightarrow> string \<Rightarrow> 'h dispatcher" where
  "new_dispatcher root cors allow = \<lparr> routes = Map.empty, root_path = root, allow_error_headers = allow,
     cors_enabled = cors \<rparr>"

definition request_mapping ::
  "pcre_api \<Rightarrow> string \<Rightarrow> string \<Rightarrow> 'h \<Rightarrow> nat \<Rightarrow> bool \<Rightarrow> string list \<Rightarrow> 'h dispatcher \<Rightarrow> thrown + 'h dispatcher"
where
  "request_mapping pcre meth path_spec f arity wants_body allowed_headers d =
     (let full_path_spec = root_path d @ path_spec
      in case full_match pcre re_split_at_var full_path_spec of
           Some [nv, _] \<Rightarrow>
             (case request_mapping_helper pcre full_path_spec of
                Inl e \<Rightarrow> Inl e
              | Inr h \<Rightarrow>
                  let r = \<lparr> rs_fn = f, rs_arity = arity, rs_wants_body = wants_body, rs_allowed = allowed_headers,
                            rs_helper = h \<rparr>;
                      es = (case routes d meth of Some es \<Rightarrow> es | None \<Rightarrow> [])
                  in Inr (d\<lparr>routes := (routes d)(meth \<mapsto> route_push nv r es)\<rparr>))
         | _ \<Rightarrow> Inl (Std_thrown ''path split failed, invalid path''))"

text \<open>The entry before \<open>upper_bound(path)\<close>, \<open>None\<close> if that is the first one.\<close>

definition entry_before :: "string \<Rightarrow> (string \<times> 'a) list \<Rightarrow> 'a option" where
  "entry_before path es =
     (let es = takeWhile (\<lambda>(k, _). \<not> path < k) es in if es = [] then None else Some (snd (last es)))"

definition allow_list :: "nat \<Rightarrow> string" where
  "allow_list cors =
     ''OPTIONS'' @ (if cors AND k_enable_cors_get \<noteq> 0 then '', GET'' else '''') @
     (if cors AND k_enable_cors_head \<noteq> 0 then '', HEAD'' else '''') @
     (if cors AND k_enable_cors_post \<noteq> 0 then '', POST'' else '''') @
     (if cors AND k_enable_cors_put \<noteq> 0 then '', PUT'' else '''') @
     (if cors AND k_enable_cors_delete \<noteq> 0 then '', DELETE'' else '''')"

definition options_response :: "nat \<Rightarrow> http_response" where
  "options_response cors =
     (let response = add_header ''allow'' (allow_list cors) (new_response ''200 OK'');
          response = add_header ''cache-control'' ''max-age=604800'' response;
          response = add_header ''access-control-max-age'' ''600'' response
      in response\<lparr>status_code := ''204 No Content''\<rparr>)"

definition not_found :: "(int \<Rightarrow> string option) \<Rightarrow> string \<Rightarrow> written" where
  "not_found sm path =
     ([], Some (throw_request_error sm 404 (''resource: '' @ [CHR 0x22] @ path @ [CHR 0x22] @ '' not found'')))"

definition not_allowed :: "(int \<Rightarrow> string option) \<Rightarrow> string \<Rightarrow> written" where
  "not_allowed sm meth = ([], Some (throw_request_error sm 405 (''method not allowed: '' @ meth)))"

text \<open>The routing part of the lambda in \<open>dispatch\<close>, after the checks of a preflight.\<close>

definition route_request ::
  "('h, 'j) dispatch_env \<Rightarrow> 'h dispatcher \<Rightarrow> http_request \<Rightarrow> (thrown + string) list \<Rightarrow> string \<Rightarrow> string \<Rightarrow> bool \<Rightarrow>
     written option"
where
  "route_request env d request reads meth path is_options =
     (case routes d meth of
        None \<Rightarrow> Some (not_allowed (env_status env) meth)
      | Some es \<Rightarrow>
          (case get_url_field request UF_QUERY of
             None \<Rightarrow> Some ([], Some (Std_thrown ''basic_string::substr''))
           | Some query \<Rightarrow>
               (case entry_before path es of
                  None \<Rightarrow> Some (not_found (env_status env) path)
                | Some rs \<Rightarrow> do {
                    w \<leftarrow> try_responders env rs request reads path query is_options;
                    Some (case w of Some w \<Rightarrow> w | None \<Rightarrow> not_found (env_status env) path) })))"

definition dispatch_request ::
  "('h, 'j) dispatch_env \<Rightarrow> 'h dispatcher \<Rightarrow> http_request \<Rightarrow> (thrown + string) list \<Rightarrow> written option"
where
  "dispatch_request env d request reads =
     (let sm = env_status env;
          meth = env_method_str env (http_method request);
          is_options = (cors_enabled d \<noteq> 0 \<and> meth = ''OPTIONS'')
      in case get_url_field request UF_PATH of
           None \<Rightarrow> Some ([], Some (Std_thrown ''basic_string::substr''))
         | Some path \<Rightarrow>
             if is_options then
               (if path = ''*'' \<or> path = '''' then Some ([options_response (cors_enabled d)], None)
                else if \<not> contains_header (headers request) ''access-control-request-method'' then
                  Some ([], Some (throw_request_error sm 400
                    ''OPTIONS request missing required access-control-request-method header''))
                else
                  (let meth = get_header (headers request) ''access-control-request-method''
                   in if \<not> cors_allows (cors_enabled d) meth then Some (not_allowed sm meth)
                      else route_request env d request reads meth path True))
             else route_request env d request reads meth path False)"

definition dispatch ::
  "('h, 'j) dispatch_env \<Rightarrow> 'h dispatcher \<Rightarrow> http_request \<Rightarrow> (thrown + string) list \<Rightarrow> http_response list option"
where
  "dispatch env d request reads = do {
     w \<leftarrow> dispatch_request env d request reads;
     Some (request_wrap (env_method_str env (http_method request)) (cors_enabled d) (allow_error_headers d)
       request w) }"

section \<open>Query fields\<close>

fun item_spec :: "string list \<Rightarrow> string \<Rightarrow> string" where
  "item_spec [] it = ''''"
| "item_spec (p # ps) it =
     (if take (length it + 1) p = it @ ''='' then drop (length it + 1) p else item_spec ps it)"

lemma prefix_in_piece:
  assumes "c \<notin> set w"
  shows "take (length w) (p @ c # r) = w \<longleftrightarrow> take (length w) p = w"
proof (cases "length w \<le> length p")
  case False
  then have "length (take (length w) p) \<noteq> length w" by simp
  moreover have "c \<in> set (take (length w) (p @ c # r))"
    using False by (cases "length w - length p") auto
  ultimately show ?thesis using assms by metis
qed simp

lemma str_find_Nil: "w \<noteq> [] \<Longrightarrow> str_find w [] = None"
  by simp

lemma plus_eta [simp]: "(\<lambda>k. Suc (n + k)) = (+) (Suc n)" "(\<lambda>k. Suc (Suc (n + k))) = (+) (Suc (Suc n))"
  "(\<lambda>k. Suc (m + (n + k))) = (+) (Suc (m + n))"
  by auto

lemma str_find_piece:
  assumes "c \<notin> set w" "w \<noteq> []"
  shows "str_find w (p @ c # r) =
    (case str_find w p of Some k \<Rightarrow> Some k | None \<Rightarrow> map_option (\<lambda>k. length p + 1 + k) (str_find w r))"
proof (induction p)
  case Nil
  have "take (length w) (c # r) \<noteq> w" using prefix_in_piece [OF assms(1), of "[]" r] assms(2) by simp
  then show ?case using assms(2) by (cases "str_find w r") simp_all
next
  case (Cons x p)
  show ?case
    using Cons prefix_in_piece [OF assms(1), of "x # p" r] by (auto split: option.split simp: option.map_comp comp_def)
qed

lemma str_find_Some: "str_find w s = Some k \<Longrightarrow> k + length w \<le> length s \<and> take (length w) (drop k s) = w"
proof (induction s arbitrary: k)
  case Nil
  then show ?case by (auto split: if_splits)
next
  case (Cons c s)
  show ?case
  proof (cases "take (length w) (c # s) = w")
    case True
    then have "length w \<le> length (c # s)" by (metis length_take min.absorb_iff2 min.commute)
    then show ?thesis using True Cons.prems by simp
  next
    case False
    then show ?thesis using Cons by (auto split: if_splits)
  qed
qed

lemma str_find_char: "str_find [c] s = str_memchr c s"
  by (induction s) (auto simp: str_memchr_def)

lemma item_loop_here:
  assumes "take (length it + 1) s = it @ ''=''" "pre = [] \<or> last pre = CHR ''&''"
  shows "item_loop (pre @ s) it (length pre) = Some (length pre)"
proof -
  have "str_find (it @ ''='') s = Some 0" using assms(1) by (cases s) auto
  moreover have "pre \<noteq> [] \<Longrightarrow> (pre @ s) ! (length pre - 1) = CHR ''&''"
    using assms(2) by (simp add: nth_append last_conv_nth)
  ultimately show ?thesis by (subst item_loop.simps) (auto simp: str_find_from_def)
qed

text \<open>The loop from the start of a piece of the query.\<close>

fun item_place :: "string list \<Rightarrow> string \<Rightarrow> nat option" where
  "item_place [] it = None"
| "item_place (p # ps) it =
     (if take (length it + 1) p = it @ ''='' then Some 0
      else map_option (\<lambda>k. length p + 1 + k) (item_place ps it))"

lemma item_loop_eq:
  assumes "CHR ''&'' \<notin> set it" "pre = [] \<or> last pre = CHR ''&''"
  shows "item_loop (pre @ s) it (length pre) =
    map_option (\<lambda>k. length pre + k) (item_place (split_on CHR ''&'' s) it)"
  using assms(2)
proof (induction "length s" arbitrary: pre s rule: less_induct)
  case less
  let ?w = "it @ ''=''" and ?q = "pre @ s"
  have w: "CHR ''&'' \<notin> set ?w" "?w \<noteq> []" using assms(1) by simp_all
  show ?case
  proof (cases "take (length it + 1) s = ?w")
    case True
    have "take (length it + 1) (hd (split_on CHR ''&'' s)) = ?w"
    proof (cases rule: split_on_cases [of "CHR ''&''" s])
      case (more p r)
      then show ?thesis using True prefix_in_piece [OF w(1), of p r] by (simp add: split_on_more)
    qed (use True in \<open>simp add: split_on_last\<close>)
    then have "item_place (split_on CHR ''&'' s) it = Some 0"
      by (cases "split_on CHR ''&'' s") simp_all
    then show ?thesis using item_loop_here [OF True less.prems] by simp
  next
    case False
    then have find_pos: "str_find ?w s = Some k \<Longrightarrow> 0 < k" for k
      using str_find_Some [of ?w s k] by (cases k) auto
    show ?thesis
    proof (cases rule: split_on_cases [of "CHR ''&''" s])
      case last
      have "item_loop ?q it (length pre) = None"
      proof (cases "str_find ?w s")
        case None
        then show ?thesis by (simp add: item_loop.simps [of _ _ "length pre"] str_find_from_def)
      next
        case (Some k)
        then have k: "0 < k" "k + length ?w \<le> length s" using find_pos str_find_Some by blast+
        have "s ! (k - 1) \<in> set s" using k by simp
        then have "s ! (k - 1) \<noteq> CHR ''&''" using last by auto
        moreover have "CHR ''&'' \<notin> set (drop (k + length ?w) s)" using last by (auto dest: in_set_dropD)
        ultimately show ?thesis using Some k
          by (subst item_loop.simps)
            (auto simp: str_find_from_def nth_append str_find_char str_memchr_def add.assoc)
      qed
      then show ?thesis using last False by (simp add: split_on_last)
    next
      case (more p r)
      have "take (length it + 1) p \<noteq> ?w" using False prefix_in_piece [OF w(1), of p r] more by simp
      then have place: "item_place (split_on CHR ''&'' s) it =
          map_option (\<lambda>k. length p + 1 + k) (item_place (split_on CHR ''&'' r) it)"
        using more by (cases "item_place (split_on CHR ''&'' r) it") (simp_all add: split_on_more)
      have "item_loop ((pre @ p @ ''&'') @ r) it (length (pre @ p @ ''&'')) =
          map_option (\<lambda>k. length (pre @ p @ ''&'') + k) (item_place (split_on CHR ''&'' r) it)"
        using less.hyps [of r "pre @ p @ ''&''"] more by simp
      then have rec: "item_loop ?q it (length pre + length p + 1) =
          map_option (\<lambda>k. length pre + (length p + 1 + k)) (item_place (split_on CHR ''&'' r) it)"
        using more by (simp add: add.assoc)
      have amp: "item_loop ?q it (length pre + length p) = item_loop ?q it (length pre + length p + 1)"
      proof -
        have "str_find_from ?w ?q (length pre + length p) = str_find_from ?w ?q (length pre + length p + 1)"
          using str_find_piece [OF w, of "[]" r] more
          by (simp add: str_find_from_def option.map_comp comp_def)
        then show ?thesis
          by (simp only: item_loop.simps [of _ _ "length pre + length p"]
            item_loop.simps [of _ _ "length pre + length p + 1"])
      qed
      show ?thesis
      proof (cases "str_find ?w p")
        case None
        have "str_find_from ?w ?q (length pre) = str_find_from ?w ?q (length pre + length p + 1)"
          using str_find_piece [OF w, of p r] None more
          by (simp add: str_find_from_def option.map_comp comp_def add.assoc)
        then have "item_loop ?q it (length pre) = item_loop ?q it (length pre + length p + 1)"
          by (simp only: item_loop.simps [of _ _ "length pre"] item_loop.simps [of _ _ "length pre + length p + 1"])
        then show ?thesis using rec place by (simp add: option.map_comp comp_def)
      next
        case (Some k)
        then have fs: "str_find ?w s = Some k" using str_find_piece [OF w, of p r] more by simp
        have k: "0 < k" "k + length ?w \<le> length p" using find_pos [OF fs] str_find_Some [OF Some] by auto
        have "p ! (k - 1) \<noteq> CHR ''&''" 
        proof -
          have "k - 1 < length p" using k by simp
          then show ?thesis using more(2) nth_mem by metis
        qed
        then have "s ! (k - 1) \<noteq> CHR ''&''" using more(1) k by (simp add: nth_append)
        moreover have "str_memchr CHR ''&'' (drop (k + length ?w) s) = Some (length p - (k + length ?w))"
          using more k str_memchr_more [of "CHR ''&''" "drop (k + length ?w) p" r]
          by (auto dest: in_set_dropD)
        ultimately have "str_find_from ?w ?q (length pre) = Some (length pre + k)"
            "?q ! (length pre + k - 1) \<noteq> CHR ''&''" "length pre + k \<noteq> 0"
            "str_find_from ''&'' ?q (length pre + k + (length it + 1)) = Some (length pre + length p)"
          using fs k more(1) nth_append_length_plus [of pre s "k - 1"]
          by (simp_all add: str_find_from_def str_find_char add.assoc)
        then have "item_loop ?q it (length pre) = item_loop ?q it (length pre + length p)"
          using k(1) by (subst item_loop.simps) simp
        then show ?thesis using amp rec place by (simp add: option.map_comp comp_def)
      qed
    qed
  qed
qed

lemma item_value_eq:
  assumes "CHR ''&'' \<notin> set it"
  shows "item_value quer it = item_spec (split_on CHR ''&'' quer) it"
proof -
  have place: "case item_place (split_on CHR ''&'' s) it of
      None \<Rightarrow> item_spec (split_on CHR ''&'' s) it = ''''
    | Some pos \<Rightarrow> item_spec (split_on CHR ''&'' s) it =
        takeWhile (\<lambda>c. c \<noteq> CHR ''&'') (drop (pos + (length it + 1)) s)" for s
  proof (induction "length s" arbitrary: s rule: less_induct)
    case less
    show ?case
    proof (cases rule: split_on_cases [of "CHR ''&''" s])
      case last
      then have "CHR ''&'' \<notin> set (drop (length it + 1) s)" by (auto dest: in_set_dropD)
      then show ?thesis using last by (simp add: split_on_last while_all)
    next
      case (more p r)
      show ?thesis
      proof (cases "take (length it + 1) p = it @ ''=''")
        case True
        then have "length it + 1 \<le> length p"
          by (metis Suc_eq_plus1 length_append_singleton length_take min.absorb_iff2 min.commute)
        moreover have "CHR ''&'' \<notin> set (drop (length it + 1) p)" using more by (auto dest: in_set_dropD)
        ultimately show ?thesis using True more while_until [of "CHR ''&''" "drop (length it + 1) p" r]
          by (simp add: split_on_more)
      next
        case False
        then show ?thesis using less.hyps [of r] more
          by (cases "item_place (split_on CHR ''&'' r) it") (simp_all add: split_on_more)
      qed
    qed
  qed
  have cut: "(case str_find_from ''&'' v 0 of None \<Rightarrow> v | Some i \<Rightarrow> take i v) = takeWhile (\<lambda>c. c \<noteq> CHR ''&'') v" for v
    by (auto simp: str_find_from_def str_find_char str_memchr_def while_all takeWhile_eq_take [symmetric])
  have "item_loop quer it 0 = item_place (split_on CHR ''&'' quer) it"
    using item_loop_eq [OF assms, of "[]" quer] by (simp add: option.map_ident)
  then show ?thesis
    using place [of quer] by (auto simp: item_value_def Let_def cut split: option.splits)
qed

section \<open>Path templates\<close>

text \<open>
  The paths of specifications: fixed characters and variables in braces.  A variable fills a whole
  segment, as the documentation demands, and the fixed characters have no meaning in a regular
  expression.
\<close>

datatype seg = Lit char | Var string

definition safe_char :: "char \<Rightarrow> bool" where
  "safe_char c \<longleftrightarrow>
     c \<in> set ''abcdefghijklmnopqrstuvwxyzABCDEFGHIJKLMNOPQRSTUVWXYZ0123456789/-_''"

definition name_char :: "char \<Rightarrow> bool" where
  "name_char c \<longleftrightarrow> safe_char c \<and> c \<noteq> CHR ''/''"

fun template_ok :: "seg list \<Rightarrow> bool" where
  "template_ok [] \<longleftrightarrow> True"
| "template_ok (Lit c # t) \<longleftrightarrow> safe_char c \<and> template_ok t"
| "template_ok (Var n # t) \<longleftrightarrow> (\<forall>c \<in> set n. name_char c) \<and> (t = [] \<or> hd t = Lit CHR ''/'') \<and> template_ok t"

fun render :: "seg list \<Rightarrow> string" where
  "render [] = ''''"
| "render (Lit c # t) = c # render t"
| "render (Var n # t) = ''{'' @ n @ ''}'' @ render t"

fun re_of :: "seg list \<Rightarrow> string" where
  "re_of [] = ''''"
| "re_of (Lit c # t) = c # re_of t"
| "re_of (Var n # t) = re_segment @ re_of t"

fun filled :: "seg list \<Rightarrow> string list \<Rightarrow> string" where
  "filled [] vs = ''''"
| "filled (Lit c # t) vs = c # filled t vs"
| "filled (Var n # t) [] = filled t []"
| "filled (Var n # t) (v # vs) = v @ filled t vs"

fun var_count :: "seg list \<Rightarrow> nat" where
  "var_count [] = 0"
| "var_count (Lit c # t) = var_count t"
| "var_count (Var n # t) = Suc (var_count t)"

fun fixed_part :: "seg list \<Rightarrow> string" where
  "fixed_part (Lit c # t) = c # fixed_part t"
| "fixed_part _ = ''''"

text \<open>The replacement of every \<open>{...}\<close>.\<close>

function replace_braces :: "string \<Rightarrow> string \<Rightarrow> string" where
  "replace_braces rep s =
     (let r = dropWhile (\<lambda>c. c \<noteq> CHR ''{'') s
      in if CHR ''}'' \<in> set r
         then takeWhile (\<lambda>c. c \<noteq> CHR ''{'') s @ rep @ replace_braces rep (tl (dropWhile (\<lambda>c. c \<noteq> CHR ''}'') r))
         else s)"
  by pat_completeness auto

termination replace_braces
proof (relation "measure (\<lambda>(rep, s). length s)")
  fix rep s r :: string
  assume "r = dropWhile (\<lambda>c. c \<noteq> CHR ''{'') s" "CHR ''}'' \<in> set r"
  then have "length (dropWhile (\<lambda>c. c \<noteq> CHR ''}'') r) \<le> length s" "dropWhile (\<lambda>c. c \<noteq> CHR ''}'') r \<noteq> []"
    using length_dropWhile_le [of _ r] length_dropWhile_le [of _ s] by (auto intro: le_trans)
  then show "((rep, tl (dropWhile (\<lambda>c. c \<noteq> CHR ''}'') r)), rep, s) \<in> measure (\<lambda>(rep, s). length s)"
    by (cases "dropWhile (\<lambda>c. c \<noteq> CHR ''}'') r") auto
qed simp

declare replace_braces.simps [simp del]

text \<open>What the code relies on, for the patterns it uses.\<close>

definition pcre_docs :: "pcre_api \<Rightarrow> bool" where
  "pcre_docs pcre \<longleftrightarrow>
     (\<forall>s. CHR 0x0A \<notin> set s \<longrightarrow>
        full_match pcre re_split_at_q s = Some [takeWhile (\<lambda>c. c \<noteq> CHR ''?'') s, dropWhile (\<lambda>c. c \<noteq> CHR ''?'') s] \<and>
        full_match pcre re_split_at_var s =
          Some [takeWhile (\<lambda>c. c \<noteq> CHR ''?'' \<and> c \<noteq> CHR ''{'') s, dropWhile (\<lambda>c. c \<noteq> CHR ''?'' \<and> c \<noteq> CHR ''{'') s]) \<and>
     (\<forall>s rep. CHR 0x5C \<notin> set rep \<longrightarrow> global_replace pcre re_braces rep s = replace_braces rep s) \<and>
     (\<forall>s. find_consume pcre re_braces_group s =
        (let r = dropWhile (\<lambda>c. c \<noteq> CHR ''{'') s
         in if CHR ''}'' \<in> set r
            then Some (takeWhile (\<lambda>c. c \<noteq> CHR ''}'') r @ ''}'', tl (dropWhile (\<lambda>c. c \<noteq> CHR ''}'') r)) else None)) \<and>
     (\<forall>s. find_consume pcre re_item s =
        (let r = dropWhile (\<lambda>c. c = CHR ''&'') s
         in if r = '''' then None else Some (takeWhile (\<lambda>c. c \<noteq> CHR ''&'') r, dropWhile (\<lambda>c. c \<noteq> CHR ''&'') r))) \<and>
     (\<forall>t s caps. template_ok t \<longrightarrow>
        (full_match pcre (re_of t) s = Some caps \<longleftrightarrow>
           s = filled t caps \<and> length caps = var_count t \<and> (\<forall>v \<in> set caps. CHR ''/'' \<notin> set v)))"

section \<open>Specifications as templates\<close>

definition item_chars :: "string \<Rightarrow> bool" where
  "item_chars it \<longleftrightarrow> it \<noteq> '''' \<and> CHR ''&'' \<notin> set it \<and> CHR ''?'' \<notin> set it \<and> CHR 0x0A \<notin> set it \<and> NUL \<notin> set it"

definition spec_text :: "seg list \<Rightarrow> string list \<Rightarrow> string list \<Rightarrow> string" where
  "spec_text t qs hs =
     render t @ (if qs = [] \<and> hs = [] then '''' else
       ''?'' @ join_with CHR ''&'' qs @ (if hs = [] then '''' else ''?'' @ join_with CHR ''&'' hs))"

definition spec_chars :: "seg list \<Rightarrow> string list \<Rightarrow> string list \<Rightarrow> bool" where
  "spec_chars t qs hs \<longleftrightarrow> template_ok t \<and> (\<forall>it \<in> set qs \<union> set hs. item_chars it) \<and> CHR 0x0A \<notin> set (spec_text t qs hs)"



lemma safe_char_no:
  "safe_char c \<Longrightarrow> c \<noteq> CHR ''?'' \<and> c \<noteq> CHR ''{'' \<and> c \<noteq> CHR ''}'' \<and> c \<noteq> CHR ''('' \<and> c \<noteq> CHR 0x0A"
  by (auto simp: safe_char_def)

lemma name_no_brace: "\<forall>c \<in> set n. name_char c \<Longrightarrow> CHR ''}'' \<notin> set n \<and> CHR ''{'' \<notin> set n \<and> CHR ''?'' \<notin> set n"
  using safe_char_no by (fastforce simp: name_char_def)

lemma render_no_q: "template_ok t \<Longrightarrow> CHR ''?'' \<notin> set (render t)"
  by (induction t rule: template_ok.induct) (auto simp: safe_char_def dest: name_no_brace)

lemma replace_braces_lit: "c \<noteq> CHR ''{'' \<Longrightarrow> replace_braces rep (c # s) = c # replace_braces rep s"
  by (subst (1 2) replace_braces.simps) (simp add: Let_def)

lemma replace_braces_var:
  "CHR ''}'' \<notin> set n \<Longrightarrow> replace_braces rep (''{'' @ n @ ''}'' @ s) = rep @ replace_braces rep s"
  using while_until(2) [of "CHR ''}''" n s] by (subst replace_braces.simps) (simp add: Let_def)

lemma replace_braces_render: "template_ok t \<Longrightarrow> replace_braces re_segment (render t) = re_of t"
proof (induction t rule: template_ok.induct)
  case 1
  then show ?case by (simp add: replace_braces.simps)
next
  case (2 c t)
  then show ?case using safe_char_no [of c] by (simp add: replace_braces_lit)
next
  case (3 n t)
  then show ?case using name_no_brace [of n] replace_braces_var [of n re_segment "render t"] by simp
qed

lemma var_count_le: "var_count t \<le> length (render t)"
  by (induction t rule: template_ok.induct) auto

lemma find_braces:
  assumes docs: "pcre_docs pcre"
  shows "find_consume pcre re_braces_group s =
     (let r = dropWhile (\<lambda>c. c \<noteq> CHR ''{'') s
      in if CHR ''}'' \<in> set r
         then Some (takeWhile (\<lambda>c. c \<noteq> CHR ''}'') r @ ''}'', tl (dropWhile (\<lambda>c. c \<noteq> CHR ''}'') r)) else None)"
  using docs by (simp add: pcre_docs_def)

lemma find_braces_lit:
  "pcre_docs pcre \<Longrightarrow> c \<noteq> CHR ''{'' \<Longrightarrow>
     find_consume pcre re_braces_group (c # s) = find_consume pcre re_braces_group s"
  by (simp add: find_braces Let_def)

lemma find_all_braces:
  assumes docs: "pcre_docs pcre" and "template_ok t" "var_count t \<le> n"
  shows "length (find_all n pcre re_braces_group (render t)) = var_count t"
  using assms(2-)
proof (induction t arbitrary: n rule: template_ok.induct)
  case 1
  then show ?case by (cases n) (simp_all add: find_braces [OF docs])
next
  case (2 c t)
  then have "find_all n pcre re_braces_group (render (Lit c # t)) = find_all n pcre re_braces_group (render t)"
    using safe_char_no [of c] by (cases n) (simp_all add: find_braces_lit [OF docs])
  then show ?case using 2 by simp
next
  case (3 x t)
  then obtain k where k: "n = Suc k" by (cases n) auto
  have "CHR ''}'' \<notin> set (''{'' @ x)" using 3 name_no_brace [of x] by simp
  then have "find_consume pcre re_braces_group (render (Var x # t)) = Some (''{'' @ x @ ''}'', render t)"
    using while_until [of "CHR ''}''" "''{'' @ x" "render t"] by (simp add: find_braces [OF docs] Let_def)
  then show ?case using 3 k by simp
qed

lemma find_item:
  assumes docs: "pcre_docs pcre"
  shows "find_consume pcre re_item s =
     (let r = dropWhile (\<lambda>c. c = CHR ''&'') s
      in if r = '''' then None else Some (takeWhile (\<lambda>c. c \<noteq> CHR ''&'') r, dropWhile (\<lambda>c. c \<noteq> CHR ''&'') r))"
  using docs by (simp add: pcre_docs_def)

lemma find_all_items_amp:
  "pcre_docs pcre \<Longrightarrow> find_all n pcre re_item (CHR ''&'' # s) = find_all n pcre re_item s"
  by (cases n) (simp_all add: find_item)

lemma find_all_items:
  assumes docs: "pcre_docs pcre" and "\<forall>it \<in> set its. item_chars it" "length its \<le> n"
  shows "find_all n pcre re_item (join_with CHR ''&'' its) = its"
  using assms(2-)
proof (induction its arbitrary: n)
  case Nil
  then show ?case by (cases n) (simp_all add: find_item [OF docs])
next
  case (Cons it its)
  obtain k where k: "n = Suc k" "length its \<le> k" using Cons.prems(2) by (cases n) auto
  obtain c u where it: "it = c # u" "c \<noteq> CHR ''&''" using Cons.prems(1) by (cases it) (auto simp: item_chars_def)
  have it': "CHR ''&'' \<notin> set it" using Cons.prems(1) by (simp add: item_chars_def)
  show ?case
  proof (cases its)
    case Nil
    have "find_consume pcre re_item it = Some (it, '''')"
      using it while_all [OF it'] by (simp add: find_item [OF docs])
    then show ?thesis using Nil k by (cases k) (simp_all add: find_item [OF docs])
  next
    case (Cons jt jts)
    let ?r = "join_with CHR ''&'' its"
    have "find_consume pcre re_item (it @ CHR ''&'' # ?r) = Some (it, CHR ''&'' # ?r)"
      using it while_until [OF it', of ?r] by (simp add: find_item [OF docs])
    then show ?thesis
      using Cons.IH [of k] Cons.prems k Cons by (simp add: join_with_Cons find_all_items_amp [OF docs])
  qed
qed

lemma render_head:
  assumes "template_ok t" "u = '''' \<or> hd u = CHR ''?''"
  shows "takeWhile (\<lambda>c. c \<noteq> CHR ''?'' \<and> c \<noteq> CHR ''{'') (render t @ u) = fixed_part t"
  using assms(1)
proof (induction t rule: template_ok.induct)
  case 1
  then show ?case using assms(2) by (cases u) auto
next
  case (2 c t)
  then show ?case using safe_char_no [of c] by simp
qed simp

lemma join_with_no:
  "\<forall>it \<in> set its. c \<notin> set it \<Longrightarrow> d \<noteq> c \<Longrightarrow> c \<notin> set (join_with d its)"
  by (induction its rule: join_with.induct) auto

lemma length_join: "\<forall>it \<in> set its. it \<noteq> '''' \<Longrightarrow> length its \<le> length (join_with c its)"
proof (induction its rule: join_with.induct)
  case (2 c p)
  then show ?case by (cases p) auto
next
  case (3 c p q ps)
  then show ?case by (cases p) auto
qed simp

lemma join_with_Nil_iff: "\<forall>it \<in> set its. it \<noteq> '''' \<Longrightarrow> join_with c its = '''' \<longleftrightarrow> its = []"
  by (cases "(c, its)" rule: join_with.cases) auto

text \<open>The helper of a specification.\<close>

definition spec_helper :: "seg list \<Rightarrow> string list \<Rightarrow> string list \<Rightarrow> request_helper" where
  "spec_helper t qs hs = \<lparr> path_re = re_of t, num_path_substitutions = var_count t, non_var = fixed_part t,
     query_string_items = qs, header_items = hs \<rparr>"

lemma request_mapping_helper_eq:
  assumes docs: "pcre_docs pcre" and ok: "spec_chars t qs hs"
  shows "request_mapping_helper pcre (spec_text t qs hs) = Inr (spec_helper t qs hs)"
    and "full_match pcre re_split_at_var (spec_text t qs hs) =
      Some [fixed_part t, dropWhile (\<lambda>c. c \<noteq> CHR ''?'' \<and> c \<noteq> CHR ''{'') (spec_text t qs hs)]"
proof -
  let ?spec = "spec_text t qs hs"
  define hrest where "hrest = (if hs = [] then '''' else ''?'' @ join_with CHR ''&'' hs)"
  define rest where "rest = (if qs = [] \<and> hs = [] then '''' else ''?'' @ join_with CHR ''&'' qs @ hrest)"
  have t: "template_ok t" and items: "\<forall>it \<in> set qs. item_chars it" "\<forall>it \<in> set hs. item_chars it"
    using ok by (auto simp: spec_chars_def)
  have spec: "?spec = render t @ rest" by (simp add: spec_text_def rest_def hrest_def)
  have nl: "CHR 0x0A \<notin> set ?spec" using ok by (simp add: spec_chars_def)
  have q: "CHR ''?'' \<notin> set (render t)" using render_no_q [OF t] .
  have sp: "full_match pcre re_split_at_q s = Some [takeWhile (\<lambda>c. c \<noteq> CHR ''?'') s, dropWhile (\<lambda>c. c \<noteq> CHR ''?'') s]"
      "full_match pcre re_split_at_var s =
        Some [takeWhile (\<lambda>c. c \<noteq> CHR ''?'' \<and> c \<noteq> CHR ''{'') s, dropWhile (\<lambda>c. c \<noteq> CHR ''?'' \<and> c \<noteq> CHR ''{'') s]"
    if "CHR 0x0A \<notin> set s" for s
    using docs that by (simp_all add: pcre_docs_def)
  have head: "takeWhile (\<lambda>c. c \<noteq> CHR ''?'' \<and> c \<noteq> CHR ''{'') ?spec = fixed_part t"
    unfolding spec using t by (rule render_head) (simp add: rest_def)
  show var: "full_match pcre re_split_at_var ?spec =
      Some [fixed_part t, dropWhile (\<lambda>c. c \<noteq> CHR ''?'' \<and> c \<noteq> CHR ''{'') ?spec]"
    using sp(2) [OF nl] head by simp
  have split: "full_match pcre re_split_at_q ?spec = Some [render t, rest]"
    using sp(1) [OF nl] while_until [OF q] while_all [OF q] unfolding spec by (simp add: rest_def)
  have qsplit: "(if length rest > 0 then full_match pcre re_split_at_q (drop 1 rest) else Some [rest, '''']) =
      Some [join_with CHR ''&'' qs, hrest]"
  proof (cases "qs = [] \<and> hs = []")
    case True
    then show ?thesis by (simp add: rest_def hrest_def)
  next
    case False
    have "CHR ''?'' \<notin> set (join_with CHR ''&'' qs)" using items by (intro join_with_no) (auto simp: item_chars_def)
    moreover have "CHR 0x0A \<notin> set (drop 1 rest)" using nl by (auto simp: spec dest: in_set_dropD)
    ultimately show ?thesis
      using False sp(1) [of "drop 1 rest"] while_until [of "CHR ''?''" "join_with CHR ''&'' qs"]
        while_all [of "CHR ''?''" "join_with CHR ''&'' qs"]
      by (auto simp: rest_def hrest_def)
  qed
  have re: "global_replace pcre re_braces re_segment (render t) = re_of t"
    using docs replace_braces_render [OF t] by (simp add: pcre_docs_def re_segment_def)
  have fq: "find_all (length (join_with CHR ''&'' qs)) pcre re_item (join_with CHR ''&'' qs) = qs"
    using items by (intro find_all_items [OF docs] length_join) (auto simp: item_chars_def)
  have fh: "find_all (length (join_with CHR ''&'' hs)) pcre re_item (join_with CHR ''&'' hs) = hs"
    using items by (intro find_all_items [OF docs] length_join) (auto simp: item_chars_def)
  have hd: "(if length hrest > 0 then drop 1 hrest else hrest) = join_with CHR ''&'' hs"
    by (simp add: hrest_def)
  show "request_mapping_helper pcre ?spec = Inr (spec_helper t qs hs)"
    unfolding request_mapping_helper_def split option.case list.case qsplit hd var Let_def re fq fh
    by (simp add: spec_helper_def find_all_braces [OF docs t var_count_le])
qed

section \<open>Routing\<close>

definition sorted_routes :: "(string \<times> 'a) list \<Rightarrow> bool" where
  "sorted_routes es \<longleftrightarrow> sorted_wrt (\<lambda>a b. fst a < fst b) es"

lemma takeWhile_upto:
  assumes "\<forall>e \<in> set xs. P e" "P x" "ys = [] \<or> \<not> P (hd ys)"
  shows "takeWhile P (xs @ x # ys) = xs @ [x]"
  using assms by (induction xs) (cases ys, auto)

lemma entry_before_eq:
  assumes "sorted_routes es" "(k, v) \<in> set es" "k \<le> path" "\<forall>e \<in> set es. fst e \<le> path \<longrightarrow> fst e \<le> k"
  shows "entry_before path es = Some v"
proof -
  obtain xs ys where es: "es = xs @ (k, v) # ys" using assms(2) by (meson split_list)
  have "\<not> path < fst e" if "e \<in> set xs" for e
  proof -
    have "fst e < k" using assms(1) that by (auto simp: es sorted_routes_def sorted_wrt_append)
    then show ?thesis using assms(3) by simp
  qed
  moreover have "path < fst (hd ys)" if "ys \<noteq> []"
  proof -
    have y: "hd ys \<in> set ys" using that by simp
    then have "k < fst (hd ys)" using assms(1) by (auto simp: es sorted_routes_def sorted_wrt_append)
    moreover have "fst (hd ys) \<le> path \<longrightarrow> fst (hd ys) \<le> k" using assms(4) y by (simp add: es)
    ultimately show ?thesis by (meson not_le)
  qed
  ultimately have "takeWhile (\<lambda>e. \<not> path < fst e) es = xs @ [(k, v)]"
    unfolding es using assms(3) by (intro takeWhile_upto) auto
  moreover have "(\<lambda>(k, _). \<not> path < k) = (\<lambda>e :: string \<times> 'a. \<not> path < fst e)" by auto
  ultimately show ?thesis by (simp add: entry_before_def)
qed




lemma takeWhile_values:
  assumes "\<forall>v \<in> set vs. v \<noteq> ''''"
  shows "takeWhile (\<lambda>v. v \<noteq> '''') (vs @ replicate n '''') = vs"
  using assms by (induction vs) (auto simp: takeWhile_replicate)

lemma header_values_ok:
  assumes "\<forall>it \<in> set its. contains_header (headers request) it \<and> NUL \<notin> set it"
  shows "header_values sm request its = Inr (map (get_header (headers request)) its)"
  using assms by (induction its) (simp_all add: c_text_def while_all)

lemma extract_params_match:
  assumes docs: "pcre_docs pcre" and ok: "spec_chars t qs hs"
    and vals: "length vals = var_count t" "var_count t \<le> 8" "\<forall>v \<in> set vals. v \<noteq> '''' \<and> CHR ''/'' \<notin> set v"
    and query: "qs \<noteq> [] \<Longrightarrow> percent_decode query = Some (Inr quer)"
    and hdrs: "\<forall>it \<in> set hs. contains_header (headers request) it"
  shows "extract_params pcre sm (spec_helper t qs hs) request (filled t vals) query False =
    Some (Inr (Some (vals @ map (item_spec (split_on CHR ''&'' quer)) qs @ map (get_header (headers request)) hs)))"
proof -
  have t: "template_ok t" using ok by (simp add: spec_chars_def)
  have amp: "\<forall>it \<in> set qs. CHR ''&'' \<notin> set it" and nul: "\<forall>it \<in> set hs. NUL \<notin> set it"
    using ok by (auto simp: spec_chars_def item_chars_def)
  have "full_match pcre (re_of t) (filled t vals) = Some vals"
    using docs t vals unfolding pcre_docs_def by blast
  then have m: "match_path pcre (re_of t) (var_count t) (filled t vals) = Some (vals @ replicate (8 - var_count t) '''')"
    using vals by (simp add: match_path_def)
  have "map (item_value quer) qs = map (item_spec (split_on CHR ''&'' quer)) qs"
    using amp by (simp add: item_value_eq)
  then show ?thesis
    using vals query hdrs nul takeWhile_values [of vals "8 - var_count t"]
    by (auto simp: extract_params_def spec_helper_def m Let_def header_values_ok)
qed

section \<open>Properties\<close>


text \<open>
  C5: every request is answered.  If each handler writes a response or throws, then so does the dispatcher,
  whatever it is asked for; in particular a method without routes, a path before all routes,
  or one that no responder of its entry matches.
\<close>

theorem every_request_answered:
  assumes "\<And>f r ps j. fst (env_exec env f r ps j) \<noteq> [] \<or> snd (env_exec env f r ps j) \<noteq> None"
    and "dispatch env d request reads = Some out"
  shows "out \<noteq> []"
proof -
  define answers where "answers = (\<lambda>w :: written. fst w \<noteq> [] \<or> snd w \<noteq> None)"
  have run: "answers w" if w: "run_responder env r request reads path query is_options = Some (Some w)"
    for r path query is_options w
  proof -
    have exec: "answers (env_exec env f r ps j)" for f r ps j using assms(1) by (simp add: answers_def)
    obtain ps where ps: "extract_params (env_pcre env) (env_status env) (rs_helper r) request path query is_options = Some ps"
      using w by (auto simp: run_responder_def bind_Some_iff)
    show ?thesis
    proof (cases ps)
      case (Inl e)
      then show ?thesis using w ps by (auto simp: run_responder_def answers_def)
    next
      case (Inr o_ps)
      then obtain xs where xs: "ps = Inr (Some xs)" using w ps by (cases o_ps) (auto simp: run_responder_def)
      show ?thesis
      proof (cases "\<not> is_options \<and> rs_wants_body r \<and> rs_arity r \<le> length xs")
        case True
        then obtain body where "body_as_json env request reads = Some body"
          using w ps xs by (auto simp: run_responder_def bind_Some_iff)
        then show ?thesis
          using w ps xs True exec by (cases body) (auto simp: run_responder_def answers_def)
      next
        case False
        then show ?thesis
          using w ps xs exec by (auto simp: run_responder_def answers_def split: if_splits)
      qed
    qed
  qed
  have "answers w" if "try_responders env rs request reads path query is_options = Some (Some w)"
    for rs path query is_options w
    using that by (induction rs) (auto simp: bind_Some_iff split: option.splits intro: run)
  then have route: "answers w" if "route_request env d request reads meth path is_options = Some w"
    for meth path is_options w
    using that by (auto simp: route_request_def bind_Some_iff answers_def not_found_def not_allowed_def
        split: option.splits)
  have request: "answers w" if "dispatch_request env d request reads = Some w" for w
    using that
    by (auto simp: dispatch_request_def Let_def answers_def not_allowed_def split: option.splits if_splits
        dest!: route)
  obtain w where "dispatch_request env d request reads = Some w"
      "out = request_wrap (env_method_str env (http_method request)) (cors_enabled d) (allow_error_headers d) request w"
    using assms(2) by (auto simp: dispatch_def bind_Some_iff)
  then show ?thesis using request
    by (cases w) (auto simp: request_wrap_def answers_def Let_def split: option.splits thrown.splits)
qed

text \<open>
  a longer fixed part hides a shorter one.  If another route's fixed part is not longer than the path in
  the order of strings but behind that of the right route, and none of its responders
  matches, the dispatcher answers that nothing was found, without trying the right route.
\<close>

theorem route_hidden:
  assumes "routes d (env_method_str env (http_method request)) = Some es" "sorted_routes es"
    and "(k, rs) \<in> set es" "k \<le> path" "\<forall>e \<in> set es. fst e \<le> path \<longrightarrow> fst e \<le> k"
    and "get_url_field request UF_PATH = Some path" "get_url_field request UF_QUERY = Some query"
    and "env_method_str env (http_method request) \<noteq> ''OPTIONS''"
    and "\<forall>r \<in> set rs. match_path (env_pcre env) (path_re (rs_helper r)) (num_path_substitutions (rs_helper r)) path = None"
  shows "dispatch_request env d request reads = Some (not_found (env_status env) path)"
proof -
  have "try_responders env rs request reads path query False = Some None"
    using assms(9) by (induction rs) (simp_all add: run_responder_def extract_params_def)
  then show ?thesis
    using assms entry_before_eq [OF assms(2-5)]
    by (simp add: dispatch_request_def route_request_def)
qed

text \<open>The permission for DELETE is that for PUT: a dispatcher with \<open>k_enable_cors_delete\<close> alone refuses it.\<close>

lemma delete_needs_put:
  "cors_allows cors ''DELETE'' \<longleftrightarrow> cors_allows cors ''PUT''"
  "\<not> cors_allows k_enable_cors_delete ''DELETE''"
  by (simp_all add: cors_allows_def cors_flags)

section \<open>A matcher for the patterns\<close>

text \<open>A PCRE that is good enough for the patterns in use: it shows that the assumptions can hold.\<close>

function parse_re :: "string \<Rightarrow> seg list" where
  "parse_re s =
     (if s = '''' then []
      else if take 7 s = re_segment then Var '''' # parse_re (drop 7 s)
      else Lit (hd s) # parse_re (tl s))"
  by pat_completeness auto

termination parse_re
  by (relation "measure length") auto

declare parse_re.simps [simp del]

fun template_match :: "seg list \<Rightarrow> string \<Rightarrow> string list option" where
  "template_match [] s = (if s = '''' then Some [] else None)"
| "template_match (Lit c # t) s = (if s \<noteq> '''' \<and> hd s = c then template_match t (tl s) else None)"
| "template_match (Var n # t) s =
     map_option (Cons (takeWhile (\<lambda>c. c \<noteq> CHR ''/'') s)) (template_match t (dropWhile (\<lambda>c. c \<noteq> CHR ''/'') s))"

fun skeleton :: "seg list \<Rightarrow> seg list" where
  "skeleton [] = []"
| "skeleton (Lit c # t) = Lit c # skeleton t"
| "skeleton (Var n # t) = Var '''' # skeleton t"

lemma parse_re_of: "template_ok t \<Longrightarrow> parse_re (re_of t) = skeleton t"
proof (induction t rule: template_ok.induct)
  case 1
  then show ?case by (simp add: parse_re.simps)
next
  case (2 c t)
  then have "take 7 (c # re_of t) \<noteq> re_segment" using safe_char_no [of c] by (auto simp: re_segment_def)
  then show ?case using 2 by (subst re_of.simps, subst parse_re.simps) simp
next
  case (3 n t)
  have "take 7 (re_segment @ re_of t) = re_segment" "drop 7 (re_segment @ re_of t) = re_of t"
    by (simp_all add: re_segment_def)
  then show ?case using 3 by (subst re_of.simps, subst parse_re.simps) (simp add: re_segment_def)
qed

lemma filled_slash: "t = [] \<or> hd t = Lit CHR ''/'' \<Longrightarrow> filled t vs = '''' \<or> hd (filled t vs) = CHR ''/''"
  by (cases t) auto

lemma slash_cut:
  "CHR ''/'' \<notin> set v \<Longrightarrow> u = '''' \<or> hd u = CHR ''/'' \<Longrightarrow>
     takeWhile (\<lambda>c. c \<noteq> CHR ''/'') (v @ u) = v \<and> dropWhile (\<lambda>c. c \<noteq> CHR ''/'') (v @ u) = u"
  by (induction v) (cases u, auto)

lemma template_match_iff:
  "template_ok t \<Longrightarrow> template_match (skeleton t) s = Some caps \<longleftrightarrow>
     s = filled t caps \<and> length caps = var_count t \<and> (\<forall>v \<in> set caps. CHR ''/'' \<notin> set v)"
proof (induction t arbitrary: s caps rule: template_ok.induct)
  case 1
  then show ?case by auto
next
  case (2 c t)
  then show ?case by (cases s) auto
next
  case (3 n t)
  let ?v = "takeWhile (\<lambda>c. c \<noteq> CHR ''/'') s" and ?u = "dropWhile (\<lambda>c. c \<noteq> CHR ''/'') s"
  have IH: "template_match (skeleton t) ?u = Some cs \<longleftrightarrow>
      ?u = filled t cs \<and> length cs = var_count t \<and> (\<forall>v \<in> set cs. CHR ''/'' \<notin> set v)" for cs
    using 3 by simp
  show ?case
  proof (cases caps)
    case Nil
    then show ?thesis by auto
  next
    case (Cons v cs)
    have sl: "filled t cs = '''' \<or> hd (filled t cs) = CHR ''/''" using 3 by (intro filled_slash) simp
    show ?thesis
    proof
      assume "template_match (skeleton (Var n # t)) s = Some caps"
      then have "v = ?v" "?u = filled t cs \<and> length cs = var_count t \<and> (\<forall>v \<in> set cs. CHR ''/'' \<notin> set v)"
        using Cons IH [of cs] by auto
      moreover have "CHR ''/'' \<notin> set ?v" by (auto dest: set_takeWhileD)
      moreover have "s = ?v @ ?u" by simp
      ultimately show "s = filled (Var n # t) caps \<and> length caps = var_count (Var n # t) \<and>
          (\<forall>v \<in> set caps. CHR ''/'' \<notin> set v)"
        using Cons by auto
    next
      assume a: "s = filled (Var n # t) caps \<and> length caps = var_count (Var n # t) \<and>
          (\<forall>v \<in> set caps. CHR ''/'' \<notin> set v)"
      then have "?v = v" "?u = filled t cs" using Cons slash_cut [OF _ sl, of v] by simp_all
      then show "template_match (skeleton (Var n # t)) s = Some caps" using a Cons IH [of cs] by simp
    qed
  qed
qed

definition small_pcre :: pcre_api where
  "small_pcre = \<lparr>
     full_match = (\<lambda>re s.
       if re = re_split_at_q then Some [takeWhile (\<lambda>c. c \<noteq> CHR ''?'') s, dropWhile (\<lambda>c. c \<noteq> CHR ''?'') s]
       else if re = re_split_at_var then
         Some [takeWhile (\<lambda>c. c \<noteq> CHR ''?'' \<and> c \<noteq> CHR ''{'') s, dropWhile (\<lambda>c. c \<noteq> CHR ''?'' \<and> c \<noteq> CHR ''{'') s]
       else template_match (parse_re re) s),
     find_consume = (\<lambda>re s.
       if re = re_item then
         (let r = dropWhile (\<lambda>c. c = CHR ''&'') s
          in if r = '''' then None else Some (takeWhile (\<lambda>c. c \<noteq> CHR ''&'') r, dropWhile (\<lambda>c. c \<noteq> CHR ''&'') r))
       else
         (let r = dropWhile (\<lambda>c. c \<noteq> CHR ''{'') s
          in if CHR ''}'' \<in> set r
             then Some (takeWhile (\<lambda>c. c \<noteq> CHR ''}'') r @ ''}'', tl (dropWhile (\<lambda>c. c \<noteq> CHR ''}'') r)) else None)),
     global_replace = (\<lambda>re rep s. replace_braces rep s) \<rparr>"

lemma re_of_no_q: "template_ok t \<Longrightarrow> CHR ''?'' \<notin> set (re_of t)"
  by (induction t rule: template_ok.induct) (auto simp: safe_char_def re_segment_def)

lemma small_pcre_docs: "pcre_docs small_pcre"
proof -
  have "CHR ''?'' \<in> set re_split_at_q" "CHR ''?'' \<in> set re_split_at_var" by (simp_all add: re_split_at_q_def re_split_at_var_def)
  then have "re_of t \<noteq> re_split_at_q" "re_of t \<noteq> re_split_at_var" if "template_ok t" for t
    using re_of_no_q [OF that] by metis+
  moreover have "re_split_at_var \<noteq> re_split_at_q" "re_braces_group \<noteq> re_item"
    by (simp_all add: re_split_at_q_def re_split_at_var_def re_braces_group_def re_item_def)
  ultimately show ?thesis
    by (simp add: pcre_docs_def small_pcre_def parse_re_of template_match_iff)
qed

text \<open>A dispatcher with one or two routes, whose handlers answer with their arguments.\<close>

definition echo_env :: "(unit, unit) dispatch_env" where
  "echo_env = \<lparr> env_pcre = small_pcre, env_status = Map.empty, env_method_str = (\<lambda>_. ''GET''),
     env_json = (\<lambda>_. Inr ()), env_peer = '''',
     env_exec = (\<lambda>_ _ ps _. ([(new_response ''200 OK'')\<lparr>rsp_body := concat ps\<rparr>], None)) \<rparr>"

definition api_template :: "seg list" where
  "api_template = [Lit CHR ''/'', Lit CHR ''a'', Lit CHR ''/'', Var ''x'']"

definition api_request :: http_request where
  "api_request = \<lparr> p_url = [UF_PATH \<mapsto> (0, 6), UF_QUERY \<mapsto> (7, 5)], url_str = ''/a/bob?id=42'',
     has_content_length = False, content_length = 0, headers = [], http_method = 1 \<rparr>"





lemma api_fields:
  "get_url_field api_request UF_PATH = Some ''/a/bob''" "get_url_field api_request UF_QUERY = Some ''id=42''"
  by (simp_all add: get_url_field_def api_request_def substr_def numeral_eq_Suc)

lemma api_query: "percent_decode ''id=42'' = Some (Inr ''id=42'')"
  using percent_roundtrip [of "''id''"] by (simp add: percent_decode_def percent_decode_loop.simps strchrnul_def rd_def)


text \<open>The plus sign of a required item is part of the name that is looked up: the function is called
  with an empty value by a request without the item, and by one that has it as well.\<close>

definition plus_routes :: "unit dispatcher" where
  "plus_routes = (new_dispatcher ''/a/'' 0 '''')\<lparr>routes := [''GET'' \<mapsto>
     [(''/a/'', [\<lparr> rs_fn = (), rs_arity = 2, rs_wants_body = False, rs_allowed = [],
         rs_helper = spec_helper api_template [''+id''] [] \<rparr>])]]\<rparr>"

definition bare_request :: http_request where
  "bare_request = \<lparr> p_url = [UF_PATH \<mapsto> (0, 6)], url_str = ''/a/bob'',
     has_content_length = False, content_length = 0, headers = [], http_method = 1 \<rparr>"

lemma plus_chars: "spec_text api_template [''+id''] [] = ''/a/{x}?+id''" "spec_chars api_template [''+id''] []"
  by (simp_all add: api_template_def spec_text_def spec_chars_def item_chars_def safe_char_def name_char_def)

lemma required_item_ignored:
  "request_mapping small_pcre ''GET'' ''{x}?+id'' () 2 False [] (new_dispatcher ''/a/'' 0 '''') = Inr plus_routes"
  "dispatch echo_env plus_routes bare_request [] = Some [(new_response ''200 OK'')\<lparr>rsp_body := ''bob''\<rparr>]"
  "dispatch echo_env plus_routes api_request [] = Some [(new_response ''200 OK'')\<lparr>rsp_body := ''bob''\<rparr>]"
proof -
  show "request_mapping small_pcre ''GET'' ''{x}?+id'' () 2 False [] (new_dispatcher ''/a/'' 0 '''') = Inr plus_routes"
    using request_mapping_helper_eq [OF small_pcre_docs plus_chars(2)] unfolding plus_chars(1)
    by (simp add: request_mapping_def new_dispatcher_def plus_routes_def api_template_def)
  have path: "filled api_template [''bob''] = ''/a/bob''" and count: "var_count api_template = 1"
    by (simp_all add: api_template_def)
  have env: "env_pcre echo_env = small_pcre" "env_method_str echo_env m = ''GET''" for m
    by (simp_all add: echo_env_def)
  have run: "dispatch echo_env plus_routes request [] = Some [(new_response ''200 OK'')\<lparr>rsp_body := ''bob''\<rparr>]"
    if "get_url_field request UF_PATH = Some ''/a/bob''" "get_url_field request UF_QUERY = Some query"
      "percent_decode query = Some (Inr quer)" "item_spec (split_on CHR ''&'' quer) ''+id'' = ''''" for request query quer
    using extract_params_match [OF small_pcre_docs plus_chars(2), of "[''bob'']" query quer request "env_status echo_env"] that
    by (simp add: path count dispatch_def dispatch_request_def route_request_def plus_routes_def new_dispatcher_def
        run_responder_def env entry_before_def Let_def) (simp add: echo_env_def request_wrap_def)
  have "percent_decode '''' = Some (Inr '''')"
    using percent_roundtrip [of "''''"] by (simp add: percent_decode_def percent_decode_loop.simps strchrnul_def rd_def)
  moreover have "split_on CHR ''&'' '''' = [''''] \<or> split_on CHR ''&'' '''' = []" by (simp add: split_on.simps)
  ultimately show "dispatch echo_env plus_routes bare_request [] = Some [(new_response ''200 OK'')\<lparr>rsp_body := ''bob''\<rparr>]"
    by (intro run) (auto simp: get_url_field_def bare_request_def substr_def numeral_eq_Suc)
  have split: "split_on CHR ''&'' ''id=42'' = [''id=42'']" by (subst split_on.simps) simp
  show "dispatch echo_env plus_routes api_request [] = Some [(new_response ''200 OK'')\<lparr>rsp_body := ''bob''\<rparr>]"
    by (rule run [OF api_fields api_query]) (simp add: split)
qed

lemma every_request_answered_witness:
  "\<exists>out. dispatch echo_env (new_dispatcher ''/a/'' 0 '''') api_request [] = Some out \<and> out \<noteq> []"
proof -
  obtain out where out: "dispatch echo_env (new_dispatcher ''/a/'' 0 '''') api_request [] = Some out"
    using api_fields by (simp add: dispatch_def dispatch_request_def route_request_def new_dispatcher_def Let_def)
  have "fst (env_exec echo_env f r ps j) \<noteq> [] \<or> snd (env_exec echo_env f r ps j) \<noteq> None" for f r ps j
    by (simp add: echo_env_def)
  from every_request_answered [OF this out] show ?thesis using out by blast
qed

definition hiding_routes :: "unit dispatcher" where
  "hiding_routes = (new_dispatcher ''/a/'' 0 '''')\<lparr>routes := [''GET'' \<mapsto>
     [(''/a/'', [\<lparr> rs_fn = (), rs_arity = 2, rs_wants_body = False, rs_allowed = [],
         rs_helper = spec_helper api_template [''id''] [] \<rparr>]),
      (''/a/ba'', [\<lparr> rs_fn = (), rs_arity = 0, rs_wants_body = False, rs_allowed = [],
         rs_helper = spec_helper (map Lit ''/a/ba'') [] [] \<rparr>])]]\<rparr>"

lemma no_match: "match_path small_pcre ''/a/ba'' 0 ''/a/bob'' = None"
proof -
  have "template_ok (map Lit ''/a/ba'')" by (simp add: safe_char_def)
  then have "full_match small_pcre (re_of (map Lit ''/a/ba'')) ''/a/bob'' \<noteq> Some caps" for caps
    using small_pcre_docs unfolding pcre_docs_def by (auto simp del: template_ok.simps)
  then have "full_match small_pcre ''/a/ba'' ''/a/bob'' = None" by (cases "full_match small_pcre ''/a/ba'' ''/a/bob''") auto
  then show ?thesis by (simp add: match_path_def)
qed

definition hiding_responder :: "unit responder" where
  "hiding_responder = \<lparr> rs_fn = (), rs_arity = 0, rs_wants_body = False, rs_allowed = [],
     rs_helper = spec_helper (map Lit ''/a/ba'') [] [] \<rparr>"

lemma route_hidden_witness:
  "dispatch_request echo_env hiding_routes api_request [] = Some (not_found Map.empty ''/a/bob'')"
proof -
  let ?es = "the (routes hiding_routes ''GET'')"
  have es: "routes hiding_routes ''GET'' = Some ?es" "sorted_routes ?es" "(''/a/ba'', [hiding_responder]) \<in> set ?es"
      "\<forall>e \<in> set ?es. fst e \<le> ''/a/bob'' \<longrightarrow> fst e \<le> ''/a/ba''" "''/a/ba'' \<le> ''/a/bob''"
    by (simp_all add: hiding_routes_def hiding_responder_def sorted_routes_def less_char_def less_eq_char_def)
  have env: "env_pcre echo_env = small_pcre" "env_method_str echo_env m = ''GET''" "env_status echo_env = Map.empty" for m
    by (simp_all add: echo_env_def)
  have "path_re (rs_helper hiding_responder) = ''/a/ba''" "num_path_substitutions (rs_helper hiding_responder) = 0"
    by (simp_all add: hiding_responder_def spec_helper_def)
  then show ?thesis
    using route_hidden [of hiding_routes echo_env api_request ?es "''/a/ba''" "[hiding_responder]" "''/a/bob''"
        "''id=42''" "[]"] es no_match api_fields
    by (simp add: env)
qed

end
