(* ===== verification/Pause.thy ===== *)
theory Pause
  imports Prelude Systems
begin

text \<open>
  Pausing the io threads: \<open>io_dispatch::while_paused\<close> and \<open>while_paused2\<close> of
  \<open>src/cpp/io_dispatch.h\<close>, and the parts of \<open>io_ctl_handler::io_avail\<close> and
  \<open>io_dispatch::epoll_loop\<close> of \<open>src/cpp/io_dispatch.cpp\<close> that take part in them.  The io threads are the
  numbers below \<open>num_threads\<close>; other threads may call \<open>while_paused\<close> too.  Everything that a
  thread does while it holds \<open>pause_com_mutex_\<close> is one step, and so is each access to an atomic
  variable.  Waiting on a condition variable is a step that is possible once the tested
  condition holds: every notification is sent with the mutex of the test locked.
\<close>

section \<open>States\<close>

text \<open>
  The places of a thread: at the top of the loop; in \<open>epoll_wait\<close> or handling another event;
  about to run the at rest functions; with a pause command read; waiting for the end of the
  pause; and the two places in which a caller waits, the first one with the function it runs:
  \<open>None\<close> for \<open>while_paused\<close>, and the function that \<open>f\<close> returns for \<open>while_paused2\<close>.
\<close>

datatype 'r thread_pc =
    Loop_Top
  | Busy
  | Resting
  | Pause_Read
  | Paused
  | Pausing "'r option"
  | Resuming

record 'r pause_sys =
  num_threads :: nat
  commands :: nat
  armed :: bool
  pause_outer :: "nat option"
  num_paused_threads :: int
  num_pause_done_threads :: int
  thread_countdown :: int
  at_rest_functions :: "'r list"
  countdown :: "nat \<Rightarrow> int"
  place :: "nat \<Rightarrow> 'r thread_pc"

text \<open>What can be observed of a step.\<close>

datatype 'r pause_event =
    Silent
  | Begins nat bool
  | Called nat "'r option"
  | Threw nat
  | Passed nat
  | Ran nat "'r list"

definition at :: "nat \<Rightarrow> 'r thread_pc \<Rightarrow> 'r pause_sys \<Rightarrow> 'r pause_sys" where
  "at t p s = s\<lparr>place := (place s)(t := p)\<rparr>"

definition is_io_thread :: "nat \<Rightarrow> 'r pause_sys \<Rightarrow> bool" where
  "is_io_thread t s \<longleftrightarrow> t < num_threads s"

section \<open>Operations\<close>

text \<open>From the locks to the wait for the others: the callers that fail to lock \<open>pause_outer_mutex_\<close>
  return at once, which is no step.\<close>

definition begin_pause :: "nat \<Rightarrow> 'r option \<Rightarrow> 'r pause_sys \<Rightarrow> 'r pause_sys" where
  "begin_pause c f s =
     (let n = (if is_io_thread c s then 1 else 0)
      in at c (Pausing f) (s\<lparr>pause_outer := Some c, num_paused_threads := int n,
           commands := commands s + (num_threads s - n)\<rparr>))"

text \<open>The rest of \<open>while_paused\<close>, and that of \<open>while_paused2\<close> up to its second wait.\<close>

definition end_pause :: "nat \<Rightarrow> 'r pause_sys \<Rightarrow> 'r pause_sys" where
  "end_pause c s = at c Busy (s\<lparr>num_paused_threads := 0, pause_outer := None\<rparr>)"

definition set_this_thread_countdown :: "nat \<Rightarrow> 'r pause_sys \<Rightarrow> 'r pause_sys" where
  "set_this_thread_countdown t s = s\<lparr>countdown := (countdown s)(t := countdown s t + 1)\<rparr>"

text \<open>\<open>None\<close> where the function throws: it is caught and nothing is added.\<close>

definition add_at_rest_fn :: "'r \<Rightarrow> 'r pause_sys \<Rightarrow> 'r pause_sys" where
  "add_at_rest_fn r s = s\<lparr>at_rest_functions := r # at_rest_functions s\<rparr>"

definition end_pause2 :: "nat \<Rightarrow> 'r option \<Rightarrow> 'r pause_sys \<Rightarrow> 'r pause_sys" where
  "end_pause2 c res s =
     (let s = (case res of Some r \<Rightarrow> add_at_rest_fn r s | None \<Rightarrow> s);
          s = s\<lparr>thread_countdown := thread_countdown s + int (num_threads s)\<rparr>;
          s = set_this_thread_countdown c s
      in at c Resuming (s\<lparr>num_paused_threads := 0, num_pause_done_threads := 1\<rparr>))"

definition end_resume2 :: "nat \<Rightarrow> 'r pause_sys \<Rightarrow> 'r pause_sys" where
  "end_resume2 c s = at c Busy (s\<lparr>pause_outer := None\<rparr>)"

text \<open>A thread reads \<open>k_pause\<close>, counts itself as paused, and goes on after the pause.\<close>

definition read_command :: "nat \<Rightarrow> 'r pause_sys \<Rightarrow> 'r pause_sys" where
  "read_command t s = at t Pause_Read (s\<lparr>commands := commands s - 1, armed := False\<rparr>)"

definition pause_thread :: "nat \<Rightarrow> 'r pause_sys \<Rightarrow> 'r pause_sys" where
  "pause_thread t s = at t Paused (s\<lparr>armed := True, num_paused_threads := num_paused_threads s + 1\<rparr>)"

definition resume_thread :: "nat \<Rightarrow> 'r pause_sys \<Rightarrow> 'r pause_sys" where
  "resume_thread t s =
     at t Loop_Top (set_this_thread_countdown t (s\<lparr>num_pause_done_threads := num_pause_done_threads s + 1\<rparr>))"

text \<open>The top of the loop in \<open>epoll_loop\<close>.\<close>

definition loop_top :: "nat \<Rightarrow> 'r pause_sys \<Rightarrow> 'r pause_sys" where
  "loop_top t s =
     (let cd = countdown s t
      in if cd \<noteq> 0 then
           (let ncd = thread_countdown s - cd;
                s = s\<lparr>thread_countdown := ncd, countdown := (countdown s)(t := 0)\<rparr>
            in if ncd = 0 then at t Resting s else at t Busy s)
         else at t Busy s)"

definition run_at_rest :: "nat \<Rightarrow> 'r pause_sys \<Rightarrow> 'r pause_sys" where
  "run_at_rest t s = at t Busy (s\<lparr>at_rest_functions := []\<rparr>)"

inductive pause_step :: "'r pause_sys \<Rightarrow> 'r pause_event \<Rightarrow> 'r pause_sys \<Rightarrow> bool" where
  begins: "place s c = Busy \<Longrightarrow> pause_outer s = None \<Longrightarrow> is_io_thread c s \<or> f = None \<Longrightarrow>
    pause_step s (Begins c (f \<noteq> None)) (begin_pause c f s)"
| calls: "place s c = Pausing None \<Longrightarrow> num_paused_threads s = int (num_threads s) \<Longrightarrow>
    pause_step s (Called c None) (end_pause c s)"
| calls2: "place s c = Pausing (Some r) \<Longrightarrow> num_paused_threads s = int (num_threads s) \<Longrightarrow>
    pause_step s (Called c (Some r)) (end_pause2 c (Some r) s)"
| throws: "place s c = Pausing (Some r) \<Longrightarrow> num_paused_threads s = int (num_threads s) \<Longrightarrow>
    pause_step s (Threw c) (end_pause2 c None s)"
| resumed: "place s c = Resuming \<Longrightarrow> num_pause_done_threads s = int (num_threads s) \<Longrightarrow>
    pause_step s Silent (end_resume2 c s)"
| reads: "is_io_thread t s \<Longrightarrow> place s t = Busy \<Longrightarrow> armed s \<Longrightarrow> 0 < commands s \<Longrightarrow>
    pause_step s Silent (read_command t s)"
| pauses: "place s t = Pause_Read \<Longrightarrow> pause_step s Silent (pause_thread t s)"
| resumes: "place s t = Paused \<Longrightarrow> num_paused_threads s = 0 \<Longrightarrow> pause_step s Silent (resume_thread t s)"
| passes: "is_io_thread t s \<Longrightarrow> place s t = Loop_Top \<Longrightarrow> pause_step s (Passed t) (loop_top t s)"
| rests: "place s t = Resting \<Longrightarrow> pause_step s (Ran t (at_rest_functions s)) (run_at_rest t s)"
| event_done: "is_io_thread t s \<Longrightarrow> place s t = Busy \<Longrightarrow> pause_step s Silent (at t Loop_Top s)"

text \<open>The threads start at the top of the loop.\<close>

definition pause_init :: "'r pause_sys \<Rightarrow> bool" where
  "pause_init s \<longleftrightarrow> commands s = 0 \<and> armed s \<and> pause_outer s = None \<and> num_paused_threads s = 0 \<and>
     thread_countdown s = 0 \<and> at_rest_functions s = [] \<and> (\<forall>t. countdown s t = 0) \<and>
     (\<forall>t. place s t = (if t < num_threads s then Loop_Top else Busy))"

text \<open>A run with its events.\<close>

inductive pause_run :: "'r pause_sys \<Rightarrow> 'r pause_event list \<Rightarrow> 'r pause_sys \<Rightarrow> bool" where
  pause_start: "pause_run s [] s"
| pause_more: "pause_run s es s' \<Longrightarrow> pause_step s' e s'' \<Longrightarrow> pause_run s (es @ [e]) s''"

section \<open>What the events tell\<close>

text \<open>The functions that wait to be run at rest, and the threads that have passed the top of the loop
  since the last call of \<open>while_paused2\<close> ran its function.\<close>

fun register_event :: "'r list \<Rightarrow> 'r pause_event \<Rightarrow> 'r list" where
  "register_event fs (Called c (Some r)) = r # fs"
| "register_event fs (Ran t gs) = []"
| "register_event fs e = fs"

definition registered :: "'r pause_event list \<Rightarrow> 'r list" where
  "registered es = foldl register_event [] es"

fun pass_event :: "nat set \<Rightarrow> 'r pause_event \<Rightarrow> nat set" where
  "pass_event p (Called c (Some r)) = {}"
| "pass_event p (Threw c) = {}"
| "pass_event p (Passed t) = insert t p"
| "pass_event p e = p"

definition passed_since :: "'r pause_event list \<Rightarrow> nat set" where
  "passed_since es = foldl pass_event UNIV es"

lemma registered_simps [simp]: "registered [] = []" "registered (es @ [e]) = register_event (registered es) e"
  by (simp_all add: registered_def)

lemma passed_since_simps [simp]:
  "passed_since [] = UNIV" "passed_since (es @ [e]) = pass_event (passed_since es) e"
  by (simp_all add: passed_since_def)

lemma passed_since_call: "t \<in> passed_since (ys @ Called c (Some r) # zs) \<Longrightarrow> Passed t \<in> set zs"
proof (induction zs rule: rev_induct)
  case Nil
  then show ?case by simp
next
  case (snoc e zs)
  have "passed_since ((ys @ Called c (Some r) # zs) @ [e]) =
      pass_event (passed_since (ys @ Called c (Some r) # zs)) e"
    by (rule passed_since_simps)
  then show ?case using snoc by (cases "(passed_since (ys @ Called c (Some r) # zs), e)" rule: pass_event.cases) auto
qed

section \<open>The invariant\<close>

definition tally :: "nat \<Rightarrow> 'r thread_pc \<Rightarrow> (nat \<Rightarrow> 'r thread_pc) \<Rightarrow> int" where
  "tally n p f = (\<Sum>t<n. of_bool (f t = p))"

lemma sum_fun_upd:
  fixes g :: "'a \<Rightarrow> int" and t n :: nat
  assumes "t < n"
  shows "(\<Sum>i<n. g ((f(t := x)) i)) = (\<Sum>i<n. g (f i)) - g (f t) + g x"
proof -
  have fin: "finite {..<n}" and t: "t \<in> {..<n}" using assms by auto
  have "(\<Sum>i \<in> {..<n} - {t}. g ((f(t := x)) i)) = (\<Sum>i \<in> {..<n} - {t}. g (f i))"
    by (rule sum.cong) auto
  then show ?thesis by (simp add: sum.remove [OF fin t])
qed

lemma tally_upd:
  "t < n \<Longrightarrow> tally n p (f(t := x)) = tally n p f - of_bool (f t = p) + of_bool (x = p)"
  unfolding tally_def by (rule sum_fun_upd)

definition owed :: "nat \<Rightarrow> (nat \<Rightarrow> int) \<Rightarrow> int" where
  "owed n f = (\<Sum>t<n. f t)"

lemma owed_upd: "t < n \<Longrightarrow> owed n (f(t := x)) = owed n f - f t + x"
  unfolding owed_def by (rule sum_fun_upd)

lemma owed_zero: "(\<And>t. 0 \<le> f t) \<Longrightarrow> owed n f = 0 \<longleftrightarrow> (\<forall>t<n. f t = 0)"
  by (auto simp: owed_def sum_nonneg_eq_0_iff)

lemma owed_nonneg: "(\<And>t. 0 \<le> f t) \<Longrightarrow> 0 \<le> owed n f"
  by (simp add: owed_def sum_nonneg)

lemma tally_bounds: "0 \<le> tally n p f" "tally n p f \<le> int n"
proof -
  show "0 \<le> tally n p f" by (simp add: tally_def sum_nonneg)
  have "tally n p f \<le> (\<Sum>t<n. 1)" unfolding tally_def by (rule sum_mono) simp
  then show "tally n p f \<le> int n" by simp
qed

lemma tally_zero: "tally n p f = 0 \<longleftrightarrow> (\<forall>t<n. f t \<noteq> p)"
  by (auto simp: tally_def sum_nonneg_eq_0_iff)

lemma tally_pos: "t < n \<Longrightarrow> f t = p \<Longrightarrow> 0 < tally n p f"
  using tally_zero [of n p f] tally_bounds(1) [of n p f] by fastforce

lemma tally_missing:
  assumes "tally n p f = int n - 1" "c < n" "f c \<noteq> p" "t < n" "t \<noteq> c"
  shows "f t = p"
proof (rule ccontr)
  assume "f t \<noteq> p"
  have "tally n p f = (\<Sum>i \<in> {..<n} - {c, t}. of_bool (f i = p))"
    unfolding tally_def by (rule sum.mono_neutral_right) (use assms \<open>f t \<noteq> p\<close> in auto)
  also have "\<dots> \<le> int (card ({..<n} - {c, t}))"
    using sum_bounded_above [of "{..<n} - {c, t}" "\<lambda>i. of_bool (f i = p)" "1 :: int"] by simp
  also have "card ({..<n} - {c, t}) = n - 2"
    using assms by (subst card_Diff_subset) auto
  finally show False using assms by linarith
qed

text \<open>Whether a thread must still pass the top of the loop.\<close>

definition resuming :: "'r pause_sys \<Rightarrow> bool" where
  "resuming s \<longleftrightarrow> (case pause_outer s of None \<Rightarrow> False | Some c \<Rightarrow> place s c = Resuming)"

definition behind :: "'r pause_sys \<Rightarrow> nat \<Rightarrow> bool" where
  "behind s t \<longleftrightarrow> countdown s t \<noteq> 0 \<or> resuming s \<and> place s t = Paused"

definition calling :: "'r thread_pc \<Rightarrow> bool" where
  "calling p \<longleftrightarrow> p = Resuming \<or> (\<exists>r. p = Pausing (Some r))"

definition phase_inv :: "'r pause_sys \<Rightarrow> bool" where
  "phase_inv s \<longleftrightarrow>
     (let n = num_threads s; paused = tally n Paused (place s); reading = tally n Pause_Read (place s)
      in case pause_outer s of
           None \<Rightarrow> commands s = 0 \<and> paused = 0 \<and> reading = 0 \<and> (\<forall>t. \<not> calling (place s t))
         | Some c \<Rightarrow> c < n \<and> calling (place s c) \<and> (\<forall>t. t \<noteq> c \<longrightarrow> \<not> calling (place s t)) \<and>
             (if place s c = Resuming
              then num_paused_threads s = 0 \<and> commands s = 0 \<and> reading = 0 \<and>
                num_pause_done_threads s = int n - paused
              else num_paused_threads s = 1 + paused \<and> int (commands s) + reading + paused = int n - 1))"

definition pause_inv :: "'r pause_sys \<Rightarrow> bool" where
  "pause_inv s \<longleftrightarrow>
     (\<forall>t. num_threads s \<le> t \<longrightarrow> place s t = Busy) \<and> (\<forall>t. place s t \<noteq> Pausing None) \<and>
     tally (num_threads s) Pause_Read (place s) = of_bool (\<not> armed s) \<and> phase_inv s \<and>
     (\<forall>t. 0 \<le> countdown s t) \<and>
     thread_countdown s = owed (num_threads s) (countdown s) +
       (if resuming s then tally (num_threads s) Paused (place s) else 0)"

definition rest_inv :: "'r pause_event list \<Rightarrow> 'r pause_sys \<Rightarrow> bool" where
  "rest_inv es s \<longleftrightarrow> at_rest_functions s = registered es \<and>
     (\<forall>t < num_threads s. behind s t \<or> t \<in> passed_since es) \<and>
     (\<forall>t. place s t = Resting \<longrightarrow> {..<num_threads s} \<subseteq> passed_since es) \<and>
     (at_rest_functions s \<noteq> [] \<longrightarrow> 0 < thread_countdown s \<or> (\<exists>t. place s t = Resting))"

lemmas pause_defs = begin_pause_def end_pause_def end_pause2_def end_resume2_def read_command_def
  add_at_rest_fn_def pause_thread_def resume_thread_def run_at_rest_def at_def set_this_thread_countdown_def is_io_thread_def Let_def

lemma pause_inv_init: "pause_init s \<Longrightarrow> pause_inv s"
  by (auto simp: pause_init_def pause_inv_def phase_inv_def resuming_def calling_def tally_zero owed_def)

lemma io_place: "pause_inv s \<Longrightarrow> place s t \<noteq> Busy \<Longrightarrow> t < num_threads s"
  by (auto simp: pause_inv_def not_less [symmetric])

lemma reader:
  assumes "pause_inv s" "place s t = Pause_Read"
  shows "\<not> armed s"
proof -
  have "t < num_threads s" using assms by (simp add: io_place)
  then show ?thesis using tally_pos [of t "num_threads s" "place s" Pause_Read] assms by (auto simp: pause_inv_def)
qed

lemma caller_outer:
  assumes "pause_inv s" "calling (place s c)"
  shows "pause_outer s = Some c"
proof (cases "pause_outer s")
  case None
  then show ?thesis using assms by (simp add: pause_inv_def phase_inv_def Let_def)
next
  case (Some d)
  then have "\<forall>t. t \<noteq> d \<longrightarrow> \<not> calling (place s t)" using assms(1) by (simp add: pause_inv_def phase_inv_def Let_def)
  then show ?thesis using assms(2) Some by auto
qed

text \<open>Moving between the places outside of a pause, and settling a countdown.\<close>

lemma pause_inv_move:
  assumes "pause_inv s" "t < num_threads s" "place s t \<in> {Loop_Top, Busy, Resting}" "p \<in> {Loop_Top, Busy, Resting}"
  shows "pause_inv (at t p s)"
proof -
  have same: "(place (at t p s) u = q) = (place s u = q)" if "q \<notin> {Loop_Top, Busy, Resting}" for u q
    using assms(3,4) that by (auto simp: at_def)
  have tally: "tally n q (place (at t p s)) = tally n q (place s)" if "q \<notin> {Loop_Top, Busy, Resting}" for n q
    using same [OF that] by (simp add: tally_def)
  have calling: "calling (place (at t p s) u) = calling (place s u)" for u by (simp add: calling_def same)
  have fields: "pause_outer (at t p s) = pause_outer s" "num_threads (at t p s) = num_threads s"
    "commands (at t p s) = commands s" "armed (at t p s) = armed s"
    "num_paused_threads (at t p s) = num_paused_threads s"
    "num_pause_done_threads (at t p s) = num_pause_done_threads s"
    "thread_countdown (at t p s) = thread_countdown s" "countdown (at t p s) = countdown s" by (simp_all add: at_def)
  have "phase_inv (at t p s) = phase_inv s"
    by (simp add: phase_inv_def Let_def fields tally calling same split: option.split)
  moreover have "resuming (at t p s) = resuming s" by (simp add: resuming_def fields same split: option.split)
  moreover have "place (at t p s) u = Busy" if "num_threads s \<le> u" for u
    using assms(1,2) that by (auto simp: pause_inv_def at_def)
  ultimately show ?thesis using assms(1) by (simp add: pause_inv_def fields tally same)
qed

lemma phase_inv_fields:
  "phase_inv (s\<lparr>at_rest_functions := fs\<rparr>) = phase_inv s" "resuming (s\<lparr>at_rest_functions := fs\<rparr>) = resuming s"
  "phase_inv (s\<lparr>thread_countdown := k, countdown := f\<rparr>) = phase_inv s"
  "resuming (s\<lparr>thread_countdown := k, countdown := f\<rparr>) = resuming s"
  by (simp_all add: phase_inv_def resuming_def Let_def split: option.split)

lemma pause_inv_settle:
  "pause_inv s \<Longrightarrow> t < num_threads s \<Longrightarrow>
     pause_inv (s\<lparr>thread_countdown := thread_countdown s - countdown s t, countdown := (countdown s)(t := 0)\<rparr>)"
  by (simp add: pause_inv_def phase_inv_fields owed_upd)

lemma pause_inv_rested: "pause_inv s \<Longrightarrow> pause_inv (s\<lparr>at_rest_functions := fs\<rparr>)"
  by (simp add: pause_inv_def phase_inv_fields)

lemma pause_inv_step:
  assumes "pause_step s e s'" "pause_inv s" "\<And>c. e \<noteq> Begins c False"
  shows "pause_inv s'"
  using assms
proof (induction rule: pause_step.induct)
  case (begins s c f)
  then have "c < num_threads s" by (auto simp: is_io_thread_def)
  then show ?case using begins
    by (auto simp: pause_inv_def phase_inv_def resuming_def calling_def pause_defs tally_upd)
next
  case (calls s c)
  then show ?case by (auto simp: pause_inv_def)
next
  case (calls2 s c r)
  then show ?case
    by (cases "armed s")
      (auto simp: pause_inv_def phase_inv_def resuming_def calling_def pause_defs tally_upd owed_upd split: option.splits)
next
  case (throws s c r)
  then show ?case
    by (cases "armed s")
      (auto simp: pause_inv_def phase_inv_def resuming_def calling_def pause_defs tally_upd owed_upd split: option.splits)
next
  case (resumed s c)
  have outer: "pause_outer s = Some c" using resumed(3) by (rule caller_outer) (simp add: resumed(1) calling_def)
  then have "c < num_threads s" using resumed(3) by (auto simp: pause_inv_def phase_inv_def Let_def)
  then show ?case using resumed outer
    by (auto simp: pause_inv_def phase_inv_def resuming_def calling_def pause_defs tally_upd)
next
  case (reads t s)
  then show ?case
    by (auto simp: pause_inv_def phase_inv_def resuming_def calling_def pause_defs tally_upd split: option.splits)
next
  case (pauses s t)
  then have "t < num_threads s" "\<not> armed s" by (simp_all add: io_place reader)
  then show ?case using pauses
    by (auto simp: pause_inv_def phase_inv_def resuming_def calling_def pause_defs tally_upd split: option.splits)
next
  case (resumes s t)
  then have "t < num_threads s" by (simp add: io_place)
  moreover have "0 < tally (num_threads s) Paused (place s)" using calculation resumes(1) by (rule tally_pos)
  ultimately show ?case using resumes
    by (auto simp: pause_inv_def phase_inv_def resuming_def calling_def pause_defs tally_upd owed_upd split: option.splits)
next
  case (passes t s)
  define r where "r = s\<lparr>thread_countdown := thread_countdown s - countdown s t, countdown := (countdown s)(t := 0)\<rparr>"
  have "pause_inv r" using passes by (simp add: r_def pause_inv_settle is_io_thread_def)
  then have "pause_inv (at t Resting r)" "pause_inv (at t Busy r)"
    using passes by (simp_all add: pause_inv_move is_io_thread_def r_def)
  moreover have "loop_top t s \<in> {at t Resting r, at t Busy r, at t Busy s}"
    by (simp add: loop_top_def Let_def r_def)
  ultimately show ?case using passes by (auto simp: is_io_thread_def pause_inv_move)
next
  case (rests s t)
  then have "t < num_threads s" by (simp add: io_place)
  then show ?case using rests pause_inv_rested [of s "[]"] by (simp add: run_at_rest_def pause_inv_move)
next
  case (event_done t s)
  then show ?case by (simp add: is_io_thread_def pause_inv_move)
qed

text \<open>While a caller runs its function, all other io threads are paused.\<close>

lemma all_paused:
  assumes "pause_inv s" "place s c = Pausing f" "num_paused_threads s = int (num_threads s)"
  shows "c < num_threads s" and "t < num_threads s \<Longrightarrow> t \<noteq> c \<Longrightarrow> place s t = Paused"
proof -
  obtain r where f: "f = Some r" using assms(1,2) by (cases f) (auto simp: pause_inv_def)
  have outer: "pause_outer s = Some c" using assms(1) by (rule caller_outer) (simp add: assms(2) f calling_def)
  then show "c < num_threads s" using assms(1) by (auto simp: pause_inv_def phase_inv_def Let_def)
  have "tally (num_threads s) Paused (place s) = int (num_threads s) - 1"
    using outer assms f by (auto simp: pause_inv_def phase_inv_def Let_def)
  then show "t < num_threads s \<Longrightarrow> t \<noteq> c \<Longrightarrow> place s t = Paused"
    using tally_missing [of "num_threads s" Paused "place s" c t] \<open>c < num_threads s\<close> assms(2) by simp
qed

lemma countdown_nonneg: "pause_inv s \<Longrightarrow> 0 \<le> thread_countdown s"
  using owed_nonneg [of "countdown s" "num_threads s"] tally_bounds(1) [of "num_threads s" Paused "place s"]
  by (auto simp: pause_inv_def)

lemma countdown_zero:
  assumes "pause_inv s" "thread_countdown s = 0" "t < num_threads s"
  shows "\<not> behind s t"
proof -
  have nonneg: "0 \<le> countdown s u" for u using assms(1) by (simp add: pause_inv_def)
  have "owed (num_threads s) (countdown s) + (if resuming s then tally (num_threads s) Paused (place s) else 0) = 0"
    using assms(1,2) by (simp add: pause_inv_def)
  moreover have "0 \<le> owed (num_threads s) (countdown s)" using nonneg by (rule owed_nonneg)
  moreover note tally_bounds(1) [of "num_threads s" Paused "place s"]
  ultimately have "owed (num_threads s) (countdown s) = 0"
    "resuming s \<Longrightarrow> tally (num_threads s) Paused (place s) = 0" by (auto split: if_splits)
  then show ?thesis using assms(3) nonneg by (auto simp: behind_def owed_zero tally_zero)
qed

lemma rest_inv_init: "pause_init s \<Longrightarrow> rest_inv [] s"
  by (auto simp: pause_init_def rest_inv_def)

text \<open>The steps that neither call nor run anything at rest.\<close>

lemma rest_inv_keep:
  assumes "rest_inv es s" "at_rest_functions s' = at_rest_functions s" "thread_countdown s' = thread_countdown s"
    "num_threads s' = num_threads s" "\<And>fs. register_event fs e = fs" "\<And>p. pass_event p e = p"
    "\<And>t. place s' t = Resting \<longleftrightarrow> place s t = Resting" "\<And>t. t < num_threads s \<Longrightarrow> behind s t \<Longrightarrow> behind s' t"
  shows "rest_inv (es @ [e]) s'"
  using assms unfolding rest_inv_def by auto

lemma rest_inv_passes:
  assumes "pause_inv s" "rest_inv es s" "t < num_threads s" "place s t = Loop_Top" "pause_inv (loop_top t s)"
  shows "rest_inv (es @ [Passed t]) (loop_top t s)"
proof -
  have n: "num_threads (loop_top t s) = num_threads s" by (simp add: loop_top_def at_def Let_def)
  have keep: "place (loop_top t s) u = Resting \<Longrightarrow> u \<noteq> t \<Longrightarrow> place s u = Resting"
    "place s u = Resting \<Longrightarrow> place (loop_top t s) u = Resting" for u
    using assms(4) by (auto simp: loop_top_def at_def Let_def split: if_splits)
  have behind: "behind s u \<Longrightarrow> u \<noteq> t \<Longrightarrow> behind (loop_top t s) u" for u
    using assms(4) by (auto simp: behind_def resuming_def loop_top_def at_def Let_def split: option.splits)
  have now: "place (loop_top t s) t = Resting \<Longrightarrow> thread_countdown (loop_top t s) = 0"
    by (auto simp: loop_top_def at_def Let_def split: if_splits)
  have later: "0 < thread_countdown s \<Longrightarrow> place (loop_top t s) t \<noteq> Resting \<Longrightarrow> 0 < thread_countdown (loop_top t s)"
    using countdown_nonneg [OF assms(5)] by (auto simp: loop_top_def at_def Let_def split: if_splits)
  have "behind (loop_top t s) u \<or> u \<in> insert t (passed_since es)" if "u < num_threads s" for u
    using that assms(2) behind [of u] by (auto simp: rest_inv_def)
  moreover have "u \<in> insert t (passed_since es)"
    if "place (loop_top t s) v = Resting" "u < num_threads s" for u v
  proof (cases "v = t")
    case True
    then show ?thesis
      using that now countdown_zero [OF assms(5), of u] n calculation [of u] by auto
  next
    case False
    then show ?thesis using that keep(1) assms(2) by (auto simp: rest_inv_def)
  qed
  moreover have "at_rest_functions (loop_top t s) = registered es"
    using assms(2) by (simp add: rest_inv_def loop_top_def at_def Let_def)
  moreover have "registered es \<noteq> [] \<longrightarrow>
      0 < thread_countdown (loop_top t s) \<or> (\<exists>u. place (loop_top t s) u = Resting)"
    using assms(2) keep(2) later unfolding rest_inv_def by metis
  ultimately show ?thesis using n by (auto simp: rest_inv_def)
qed

lemma rest_inv_calls:
  assumes "place s c = Pausing (Some r)" "num_paused_threads s = int (num_threads s)" "pause_inv s" "rest_inv es s"
    "e = Called c (Some r) \<and> res = Some r \<or> e = Threw c \<and> res = None"
  shows "rest_inv (es @ [e]) (end_pause2 c res s)"
proof -
  have all: "c < num_threads s" "\<And>t. t < num_threads s \<Longrightarrow> t \<noteq> c \<Longrightarrow> place s t = Paused"
    using all_paused [OF assms(3,1,2)] by blast+
  have outer: "pause_outer s = Some c" using assms(3) by (rule caller_outer) (simp add: assms(1) calling_def)
  have rest: "place s t \<noteq> Resting" for t
    using all(2) [of t] assms(1,3) by (cases "t < num_threads s"; cases "t = c") (simp_all add: pause_inv_def)
  have "0 \<le> countdown s c" using assms(3) by (simp add: pause_inv_def)
  then have "behind (end_pause2 c res s) t" if "t < num_threads s" for t
    using all(2) [OF that] outer
    by (cases "t = c"; cases res) (auto simp: behind_def resuming_def pause_defs)
  moreover have "0 < thread_countdown (end_pause2 c res s)"
    using countdown_nonneg [OF assms(3)] all(1) by (cases res) (simp_all add: pause_defs)
  ultimately show ?thesis using assms(4,5) rest by (auto simp: rest_inv_def pause_defs)
qed

lemma rest_inv_step:
  assumes "pause_step s e s'" "pause_inv s" "rest_inv es s" "\<And>c. e \<noteq> Begins c False"
  shows "rest_inv (es @ [e]) s'"
proof -
  have inv': "pause_inv s'" using assms(1,2,4) by (rule pause_inv_step)
  show ?thesis using assms inv'
  proof (induction rule: pause_step.induct)
    case (begins s c f)
    show ?case using begins by (intro rest_inv_keep [OF begins(5)]) (auto simp: behind_def resuming_def pause_defs)
  next
    case (calls s c)
    then show ?case by (auto simp: pause_inv_def)
  next
    case (calls2 s c r)
    then show ?case by (intro rest_inv_calls) (auto simp: end_pause2_def Let_def)
  next
    case (throws s c r)
    then show ?case by (intro rest_inv_calls) (auto simp: end_pause2_def Let_def)
  next
    case (resumed s c)
    have "pause_outer s = Some c" using resumed(3) by (rule caller_outer) (simp add: resumed(1) calling_def)
    then have "tally (num_threads s) Paused (place s) = 0"
      using resumed by (auto simp: pause_inv_def phase_inv_def Let_def)
    then show ?case using resumed
      by (intro rest_inv_keep [OF resumed(4)]) (auto simp: behind_def resuming_def tally_zero pause_defs)
  next
    case (reads t s)
    then show ?case by (intro rest_inv_keep [OF reads(6)]) (auto simp: behind_def resuming_def pause_defs split: option.splits)
  next
    case (pauses s t)
    then show ?case by (intro rest_inv_keep [OF pauses(3)]) (auto simp: behind_def resuming_def pause_defs split: option.splits)
  next
    case (resumes s t)
    have "countdown s t + 1 \<noteq> 0" using resumes(3) by (auto simp: pause_inv_def dest: spec [of _ t])
    then show ?case using resumes
      by (intro rest_inv_keep [OF resumes(4)]) (auto simp: behind_def resuming_def pause_defs split: option.splits)
  next
    case (passes t s)
    then show ?case by (intro rest_inv_passes) (auto simp: is_io_thread_def)
  next
    case (rests s t)
    have "num_threads (run_at_rest t s) = num_threads s" by (simp add: pause_defs)
    then show ?case using rests by (auto simp: rest_inv_def behind_def resuming_def pause_defs split: option.splits)
  next
    case (event_done t s)
    then show ?case by (intro rest_inv_keep [OF event_done(4)]) (auto simp: behind_def resuming_def pause_defs split: option.splits)
  qed
qed

section \<open>Runs\<close>

text \<open>Every caller is \<open>while_paused2\<close>.\<close>

definition only_pause2 :: "'r pause_event list \<Rightarrow> bool" where
  "only_pause2 es \<longleftrightarrow> (\<forall>c. Begins c False \<notin> set es)"

lemma step_num_threads: "pause_step s e s' \<Longrightarrow> num_threads s' = num_threads s"
  by (induction rule: pause_step.induct) (auto simp: pause_defs loop_top_def)

lemma run_inv:
  "pause_run s0 es s \<Longrightarrow> pause_init s0 \<Longrightarrow> only_pause2 es \<Longrightarrow>
     pause_inv s \<and> rest_inv es s \<and> num_threads s = num_threads s0"
proof (induction rule: pause_run.induct)
  case (pause_start s)
  then show ?case by (simp add: pause_inv_init rest_inv_init)
next
  case (pause_more s0 es s e s')
  then have "pause_inv s" "rest_inv es s" "num_threads s = num_threads s0" "\<And>c. e \<noteq> Begins c False"
    by (auto simp: only_pause2_def)
  then show ?case
    using pause_more(2) by (simp add: pause_inv_step rest_inv_step step_num_threads)
qed

text \<open>The steps as a function of a choice, to run concrete schedules.\<close>

datatype 'r move =
    M_begin nat "'r option" | M_call nat | M_resumed nat | M_read nat | M_pause nat | M_resume nat
  | M_pass nat | M_rest nat | M_done nat

fun pause_move :: "'r move \<Rightarrow> 'r pause_sys \<Rightarrow> ('r pause_event \<times> 'r pause_sys) option" where
  "pause_move (M_begin c f) s =
     (if place s c = Busy \<and> pause_outer s = None \<and> (is_io_thread c s \<or> f = None)
      then Some (Begins c (f \<noteq> None), begin_pause c f s) else None)"
| "pause_move (M_call c) s =
     (if num_paused_threads s = int (num_threads s) then
        (case place s c of
           Pausing None \<Rightarrow> Some (Called c None, end_pause c s)
         | Pausing (Some r) \<Rightarrow> Some (Called c (Some r), end_pause2 c (Some r) s)
         | _ \<Rightarrow> None)
      else None)"
| "pause_move (M_resumed c) s =
     (if place s c = Resuming \<and> num_pause_done_threads s = int (num_threads s)
      then Some (Silent, end_resume2 c s) else None)"
| "pause_move (M_read t) s =
     (if is_io_thread t s \<and> place s t = Busy \<and> armed s \<and> 0 < commands s
      then Some (Silent, read_command t s) else None)"
| "pause_move (M_pause t) s = (if place s t = Pause_Read then Some (Silent, pause_thread t s) else None)"
| "pause_move (M_resume t) s =
     (if place s t = Paused \<and> num_paused_threads s = 0 then Some (Silent, resume_thread t s) else None)"
| "pause_move (M_pass t) s =
     (if is_io_thread t s \<and> place s t = Loop_Top then Some (Passed t, loop_top t s) else None)"
| "pause_move (M_rest t) s =
     (if place s t = Resting then Some (Ran t (at_rest_functions s), run_at_rest t s) else None)"
| "pause_move (M_done t) s =
     (if is_io_thread t s \<and> place s t = Busy then Some (Silent, at t Loop_Top s) else None)"

fun pause_moves :: "'r move list \<Rightarrow> 'r pause_sys \<Rightarrow> ('r pause_event list \<times> 'r pause_sys) option" where
  "pause_moves [] s = Some ([], s)"
| "pause_moves (m # ms) s = do {
     (e, s) \<leftarrow> pause_move m s;
     (es, s) \<leftarrow> pause_moves ms s;
     Some (e # es, s) }"

lemma pause_move_step: "pause_move m s = Some (e, s') \<Longrightarrow> pause_step s e s'"
  using begins [of s] by (cases m) (fastforce split: if_splits thread_pc.splits option.splits intro: pause_step.intros)+

lemma pause_run_Cons: "pause_run s' es s'' \<Longrightarrow> pause_step s e s' \<Longrightarrow> pause_run s (e # es) s''"
proof (induction rule: pause_run.induct)
  case (pause_start s')
  then show ?case using pause_run.intros(2) [OF pause_run.intros(1)] by fastforce
next
  case (pause_more s' es s1 e' s2)
  then show ?case using pause_run.intros(2) [of s "e # es" s1 e' s2] by simp
qed

lemma pause_moves_run: "pause_moves ms s = Some (es, s') \<Longrightarrow> pause_run s es s'"
  by (induction ms arbitrary: s es)
    (auto simp: bind_Some_iff pause_run.intros(1) intro: pause_run_Cons pause_move_step)

text \<open>Two io threads that have just started.\<close>

definition two_threads :: "nat pause_sys" where
  "two_threads = \<lparr> num_threads = 2, commands = 0, armed = True, pause_outer = None, num_paused_threads = 0,
     num_pause_done_threads = 0, thread_countdown = 0, at_rest_functions = [], countdown = (\<lambda>t. 0),
     place = (\<lambda>t. if t < 2 then Loop_Top else Busy) \<rparr>"

lemma two_threads_init: "pause_init two_threads"
  by (simp add: two_threads_def pause_init_def)

lemmas pause_eval = two_threads_def pause_defs loop_top_def

text \<open>Thread 0 pauses the threads with \<open>while_paused2\<close>, its function returns function 7.\<close>

definition pause2_until_call :: "nat move list" where
  "pause2_until_call = [M_pass 0, M_pass 1, M_begin 0 (Some 7), M_read 1, M_pause 1]"

definition pause2_all :: "nat move list" where
  "pause2_all = pause2_until_call @ [M_call 0, M_resume 1, M_resumed 0, M_pass 1, M_done 0, M_pass 0, M_rest 0]"

section \<open>Progress\<close>

text \<open>What is left of a pause: nothing waits and nothing is to be run.\<close>

definition pause_over :: "'r pause_sys \<Rightarrow> bool" where
  "pause_over s \<longleftrightarrow> pause_outer s = None \<and> at_rest_functions s = []"

text \<open>A measure that some step decreases in every other state.\<close>

definition phase_of :: "'r pause_sys \<Rightarrow> nat" where
  "phase_of s = (case pause_outer s of None \<Rightarrow> 0 | Some c \<Rightarrow> if place s c = Resuming then 1 else 2)"

fun distance :: "nat \<Rightarrow> 'r thread_pc \<Rightarrow> int \<Rightarrow> nat" where
  "distance 0 p cd = (if cd = 0 then 0 else if p = Busy then 2 else 1)"
| "distance (Suc 0) p cd = (if p = Paused then 1 else 0)"
| "distance (Suc (Suc _)) p cd =
     (case p of Loop_Top \<Rightarrow> 4 | Resting \<Rightarrow> 3 | Busy \<Rightarrow> 2 | Pause_Read \<Rightarrow> 1 | _ \<Rightarrow> 0)"

lemma distance_2 [simp]: "distance 2 p cd = distance (Suc (Suc 0)) p cd"
  by (simp add: numeral_2_eq_2)

definition distances :: "'r pause_sys \<Rightarrow> nat" where
  "distances s = (\<Sum>t < num_threads s. distance (phase_of s) (place s t) (countdown s t))"

definition pause_measure :: "'r pause_sys \<Rightarrow> nat" where
  "pause_measure s = phase_of s * (4 * num_threads s + 1) + distances s"

lemma distance_le: "distance k p cd \<le> 4"
  by (cases "(k, p, cd)" rule: distance.cases) (auto split: thread_pc.splits)

lemma distances_le: "distances s \<le> 4 * num_threads s"
proof -
  have "distances s \<le> (\<Sum>t < num_threads s. 4)" unfolding distances_def by (rule sum_mono) (rule distance_le)
  then show ?thesis by simp
qed

lemma measure_phase: "phase_of s' < phase_of s \<Longrightarrow> num_threads s' = num_threads s \<Longrightarrow> pause_measure s' < pause_measure s"
proof -
  assume a: "phase_of s' < phase_of s" "num_threads s' = num_threads s"
  have "Suc (phase_of s') * (4 * num_threads s + 1) \<le> phase_of s * (4 * num_threads s + 1)"
    using a(1) by (intro mult_le_mono1) simp
  then show ?thesis using a(2) distances_le [of s'] by (simp add: pause_measure_def)
qed

text \<open>A step of one thread in the same phase.\<close>

lemma measure_thread:
  assumes "phase_of s' = phase_of s" "num_threads s' = num_threads s" "t < num_threads s"
    "\<And>u. u \<noteq> t \<Longrightarrow> place s' u = place s u \<and> countdown s' u = countdown s u"
    "distance (phase_of s) (place s' t) (countdown s' t) < distance (phase_of s) (place s t) (countdown s t)"
  shows "pause_measure s' < pause_measure s"
proof -
  have "distances s' < distances s"
    unfolding distances_def assms(1,2)
  proof (rule sum_strict_mono_ex1)
    show "\<forall>u \<in> {..<num_threads s}. distance (phase_of s) (place s' u) (countdown s' u)
        \<le> distance (phase_of s) (place s u) (countdown s u)"
      using assms(4,5) by (metis less_imp_le order_refl)
  qed (use assms(3,5) in auto)
  then show ?thesis by (simp add: pause_measure_def assms(1,2))
qed

definition advances :: "'r pause_sys \<Rightarrow> 'r pause_event \<Rightarrow> 'r pause_sys \<Rightarrow> bool" where
  "advances s e s' \<longleftrightarrow> pause_step s e s' \<and> (\<forall>c b. e \<noteq> Begins c b) \<and>
     (pause_over s' \<or> pause_measure s' < pause_measure s)"

lemma phase_pausing: "pause_outer s = Some c \<Longrightarrow> place s c \<noteq> Resuming \<Longrightarrow> phase_of s = Suc (Suc 0)"
  by (simp add: phase_of_def)

lemma advance_pausing:
  assumes "pause_inv s" "pause_outer s = Some c" "place s c \<noteq> Resuming"
  shows "\<exists>e s'. advances s e s'"
proof -
  let ?n = "num_threads s"
  have c: "calling (place s c)" "c < ?n" "num_paused_threads s = 1 + tally ?n Paused (place s)"
    "int (commands s) + tally ?n Pause_Read (place s) + tally ?n Paused (place s) = int ?n - 1"
    using assms by (auto simp: pause_inv_def phase_inv_def Let_def)
  then obtain r where r: "place s c = Pausing (Some r)" using assms(3) by (auto simp: calling_def)
  note phase = phase_pausing [OF assms(2,3)]
  consider (call) "num_paused_threads s = int ?n" | (pause) "\<not> armed s" "num_paused_threads s \<noteq> int ?n"
    | (read) "armed s" "num_paused_threads s \<noteq> int ?n" by blast
  then show ?thesis
  proof cases
    case call
    then have "pause_step s (Called c (Some r)) (end_pause2 c (Some r) s)" using r by (intro calls2)
    moreover have "pause_measure (end_pause2 c (Some r) s) < pause_measure s"
      by (rule measure_phase) (use phase assms(2) in \<open>auto simp: phase_of_def pause_defs\<close>)
    ultimately show ?thesis unfolding advances_def by blast
  next
    case pause
    then have "tally ?n Pause_Read (place s) \<noteq> 0" using assms(1) by (simp add: pause_inv_def)
    then obtain t where t: "t < ?n" "place s t = Pause_Read" by (auto simp: tally_zero)
    have "pause_measure (pause_thread t s) < pause_measure s"
      by (rule measure_thread [of _ _ t])
        (use t phase assms(2,3) r in \<open>auto simp: phase_of_def pause_defs\<close>)
    then show ?thesis unfolding advances_def using pauses [OF t(2)] by blast
  next
    case read
    then have reading: "tally ?n Pause_Read (place s) = 0" using assms(1) by (simp add: pause_inv_def)
    have "\<exists>t < ?n. t \<noteq> c \<and> place s t \<noteq> Paused"
    proof (rule ccontr)
      assume a: "\<not> ?thesis"
      have "tally ?n Paused ((place s)(c := Paused)) = (\<Sum>t < ?n. 1)"
        unfolding tally_def using a by (intro sum.cong) auto
      then show False using tally_upd [OF c(2), of Paused "place s" Paused] c(3) r read(2) by simp
    qed
    then obtain t where t: "t < ?n" "t \<noteq> c" "place s t \<noteq> Paused" by blast
    have other: "\<not> calling (place s t)" "place s t \<noteq> Pause_Read" "place s t \<noteq> Pausing None"
      using assms(1,2) t reading by (auto simp: pause_inv_def phase_inv_def Let_def tally_zero)
    have neq: "t \<noteq> c" by fact
    have "place s t = Loop_Top \<or> place s t = Busy \<or> place s t = Resting"
      using other t(3) by (cases "place s t") (auto simp: calling_def)
    then show ?thesis
    proof (elim disjE)
      assume p: "place s t = Loop_Top"
      have "pause_measure (loop_top t s) < pause_measure s"
        by (rule measure_thread [of _ _ t])
          (use t p phase assms(2) r in \<open>auto simp: phase_of_def loop_top_def at_def Let_def\<close>)
      moreover have "pause_step s (Passed t) (loop_top t s)" using t p by (intro passes) (simp_all add: is_io_thread_def)
      ultimately show ?thesis unfolding advances_def by blast
    next
      assume p: "place s t = Busy"
      have "pause_measure (read_command t s) < pause_measure s"
        by (rule measure_thread [of _ _ t])
          (use t p phase assms(2) r in \<open>auto simp: phase_of_def pause_defs\<close>)
      moreover have "0 < commands s"
        using c(3,4) read(2) reading by linarith
      then have "pause_step s Silent (read_command t s)"
        using t p read(1) by (intro reads) (simp_all add: is_io_thread_def)
      ultimately show ?thesis unfolding advances_def by blast
    next
      assume p: "place s t = Resting"
      have "pause_measure (run_at_rest t s) < pause_measure s"
        by (rule measure_thread [of _ _ t])
          (use t p phase assms(2) r in \<open>auto simp: phase_of_def pause_defs\<close>)
      then show ?thesis unfolding advances_def using rests [OF p] by blast
    qed
  qed
qed

lemma advance_resuming:
  assumes "pause_inv s" "pause_outer s = Some c" "place s c = Resuming"
  shows "\<exists>e s'. advances s e s'"
proof -
  let ?n = "num_threads s"
  have c: "num_paused_threads s = 0" "num_pause_done_threads s = int ?n - tally ?n Paused (place s)"
    using assms by (auto simp: pause_inv_def phase_inv_def Let_def)
  show ?thesis
  proof (cases "tally ?n Paused (place s) = 0")
    case True
    then have "pause_step s Silent (end_resume2 c s)" using c(2) assms(3) by (intro resumed) simp_all
    moreover have "pause_measure (end_resume2 c s) < pause_measure s"
      by (rule measure_phase) (use assms in \<open>auto simp: phase_of_def pause_defs\<close>)
    ultimately show ?thesis unfolding advances_def by blast
  next
    case False
    then obtain t where t: "t < ?n" "place s t = Paused" by (auto simp: tally_zero)
    have "pause_measure (resume_thread t s) < pause_measure s"
      by (rule measure_thread [of _ _ t])
        (use t assms in \<open>auto simp: phase_of_def pause_defs\<close>)
    then show ?thesis unfolding advances_def using resumes [OF t(2) c(1)] by blast
  qed
qed

lemma advance_resting:
  assumes "pause_inv s" "rest_inv es s" "pause_outer s = None" "at_rest_functions s \<noteq> []"
  shows "\<exists>e s'. advances s e s'"
proof (cases "\<exists>t. place s t = Resting")
  case True
  then obtain t where t: "place s t = Resting" ..
  have "pause_over (run_at_rest t s)" using assms(3) by (simp add: pause_over_def pause_defs)
  then show ?thesis unfolding advances_def using rests [OF t] by blast
next
  case False
  let ?n = "num_threads s"
  have "0 < owed ?n (countdown s)" using assms False by (auto simp: rest_inv_def pause_inv_def resuming_def)
  then obtain t where t: "t < ?n" "countdown s t \<noteq> 0" using owed_def [of ?n "countdown s"] sum.neutral [of "{..<?n}" "countdown s"] by fastforce
  have "place s t = Loop_Top \<or> place s t = Busy"
  proof (cases "place s t")
    case (Pausing f)
    then show ?thesis using assms(1,3) by (cases f) (auto simp: pause_inv_def phase_inv_def Let_def calling_def)
  qed (use assms(1,3) False t(1) in \<open>auto simp: pause_inv_def phase_inv_def Let_def calling_def tally_zero\<close>)
  then show ?thesis
  proof
    assume p: "place s t = Loop_Top"
    have "pause_measure (loop_top t s) < pause_measure s"
      by (rule measure_thread [of _ _ t])
        (use t p assms(3) in \<open>auto simp: phase_of_def loop_top_def at_def Let_def\<close>)
    moreover have "pause_step s (Passed t) (loop_top t s)" using t p by (intro passes) (simp_all add: is_io_thread_def)
    ultimately show ?thesis unfolding advances_def by blast
  next
    assume p: "place s t = Busy"
    have "pause_measure (at t Loop_Top s) < pause_measure s"
      by (rule measure_thread [of _ _ t]) (use t p assms(3) in \<open>auto simp: phase_of_def at_def\<close>)
    moreover have "pause_step s Silent (at t Loop_Top s)" using t p by (intro event_done) (simp_all add: is_io_thread_def)
    ultimately show ?thesis unfolding advances_def by blast
  qed
qed

lemma run_to_end:
  assumes "pause_inv s" "rest_inv es s"
  shows "\<exists>fs s'. pause_run s fs s' \<and> (\<forall>c b. Begins c b \<notin> set fs) \<and> pause_over s'"
  using assms
proof (induction "pause_measure s" arbitrary: s es rule: less_induct)
  case less
  show ?case
  proof (cases "pause_over s")
    case True
    then show ?thesis using pause_run.intros(1) [of s] by (intro exI [of _ "[]"] exI [of _ s]) simp
  next
    case False
    have "\<exists>e s'. advances s e s'"
    proof (cases "pause_outer s")
      case None
      then show ?thesis using less(2,3) \<open>\<not> pause_over s\<close> by (intro advance_resting) (auto simp: pause_over_def)
    next
      case (Some c)
      then show ?thesis
        using less(2) by (cases "place s c = Resuming") (auto intro: advance_resuming advance_pausing)
    qed
    then obtain e s' where e: "advances s e s'" by blast
    then have step: "pause_step s e s'" and quiet: "\<forall>c b. e \<noteq> Begins c b" by (auto simp: advances_def)
    have only: "e \<noteq> Begins c False" for c using quiet by simp
    have "\<exists>fs s''. pause_run s' fs s'' \<and> (\<forall>c b. Begins c b \<notin> set fs) \<and> pause_over s''"
    proof (cases "pause_over s'")
      case True
      then show ?thesis using pause_run.intros(1) [of s'] by (intro exI [of _ "[]"] exI [of _ s']) simp
    next
      case False
      then have "pause_measure s' < pause_measure s" using e by (simp add: advances_def)
      then show ?thesis
        using pause_inv_step [OF step less(2) only] rest_inv_step [OF step less(2,3) only]
        by (intro less(1))
    qed
    then obtain fs s'' where "pause_run s' fs s''" "\<forall>c b. Begins c b \<notin> set fs" "pause_over s''" by blast
    then show ?thesis using pause_run_Cons [OF _ step] quiet
      by (intro exI [of _ "e # fs"] exI [of _ s'']) (simp; blast)
  qed
qed

section \<open>Properties\<close>

text \<open>
  C14: while the function of a caller of \<open>while_paused2\<close> runs, every other io thread waits in the handler
  of its pause command.
\<close>
theorem pause_exclusive:
  assumes "pause_init s0" "pause_run s0 es s" "only_pause2 es" "pause_step s e s'"
    "e = Called c f \<or> e = Threw c" "t < num_threads s0" "t \<noteq> c"
  shows "place s t = Paused"
proof -
  have inv: "pause_inv s" "num_threads s = num_threads s0" using run_inv [OF assms(2,1,3)] by auto
  from assms(4,5) have "(\<exists>f. place s c = Pausing f) \<and> num_paused_threads s = int (num_threads s)"
    by (cases rule: pause_step.cases) auto
  then show ?thesis using all_paused(2) [OF inv(1)] assms(6,7) inv(2) by auto
qed

theorem pause_exclusive_witness:
  "case pause_moves pause2_until_call two_threads of
     None \<Rightarrow> False | Some (es, s) \<Rightarrow> place s 1 = Paused \<and> place s 0 = Pausing (Some 7)"
proof -
  obtain es s where run: "pause_moves pause2_until_call two_threads = Some (es, s)"
    and es: "only_pause2 es" and s: "pause_move (M_call 0) s = Some (Called 0 (Some 7), end_pause2 0 (Some 7) s)"
      "place s 0 = Pausing (Some 7)"
    by (simp add: pause2_until_call_def pause_eval only_pause2_def)
  have "place s 1 = Paused"
    using pause_exclusive [OF two_threads_init pause_moves_run [OF run] es pause_move_step [OF s(1)], of 0 _ 1]
    by (simp add: two_threads_def)
  then show ?thesis using run s by simp
qed

text \<open>
  C11: when all callers use \<open>while_paused2\<close>, the functions that run at rest are exactly the ones that were
  returned since the last time, the latest first, and by then every io thread has
  been at the top of its loop after the call that returned them.
\<close>
theorem at_rest_after_all_passed:
  assumes "pause_init s0" "pause_run s0 es s" "only_pause2 es" "pause_step s (Ran t fs) s'"
  shows "fs = registered es \<and>
    (\<forall>ys c r zs. es = ys @ Called c (Some r) # zs \<longrightarrow> (\<forall>u < num_threads s0. Passed u \<in> set zs))"
proof -
  have inv: "rest_inv es s" "num_threads s = num_threads s0" using run_inv [OF assms(2,1,3)] by auto
  from assms(4) have "place s t = Resting \<and> fs = at_rest_functions s"
    by (cases rule: pause_step.cases) auto
  then have "fs = registered es" "{..<num_threads s0} \<subseteq> passed_since es"
    using inv by (auto simp: rest_inv_def)
  then show ?thesis by (auto intro: passed_since_call)
qed

theorem at_rest_after_all_passed_witness:
  "\<exists>es s. pause_moves (butlast pause2_all) two_threads = Some (es, s) \<and> registered es = [7] \<and>
     Called 0 (Some 7) \<in> set es"
proof -
  obtain es s where run: "pause_moves (butlast pause2_all) two_threads = Some (es, s)"
    and es: "only_pause2 es" "Called 0 (Some 7) \<in> set es"
    and s: "pause_move (M_rest 0) s = Some (Ran 0 [7], run_at_rest 0 s)"
    by (simp add: pause2_all_def pause2_until_call_def pause_eval only_pause2_def)
  have "[7] = registered es"
    using at_rest_after_all_passed [OF two_threads_init pause_moves_run [OF run] es(1) pause_move_step [OF s]] by blast
  then show ?thesis using run es(2) by simp
qed

text \<open>
  C16: when all callers use \<open>while_paused2\<close>, no state is a deadlock: from every state of a run, the threads can
  go on, with no new pause, until no pause is in progress and no function is
  left to be run at rest.
\<close>
theorem pause_ends:
  assumes "pause_init s0" "pause_run s0 es s" "only_pause2 es"
  shows "\<exists>fs s'. pause_run s fs s' \<and> (\<forall>c b. Begins c b \<notin> set fs) \<and> pause_outer s' = None \<and>
    at_rest_functions s' = []"
  using run_inv [OF assms(2,1,3)] run_to_end [of s es] by (auto simp: pause_over_def)

theorem pause_ends_witness:
  "\<exists>es s fs s'. pause_moves pause2_until_call two_threads = Some (es, s) \<and> pause_outer s = Some 0 \<and>
     pause_run s fs s' \<and> pause_outer s' = None"
proof -
  obtain es s where run: "pause_moves pause2_until_call two_threads = Some (es, s)"
    and es: "only_pause2 es" "pause_outer s = Some 0"
    by (simp add: pause2_until_call_def pause_eval only_pause2_def)
  then show ?thesis using pause_ends [OF two_threads_init pause_moves_run [OF run] es(1)] by blast
qed

text \<open>
  The pauses of \<open>while_paused\<close> leave their mark on \<open>thread_countdown_\<close>: after one of them, the function of
  a later \<open>while_paused2\<close> runs although thread 0 has not been at the top of its loop
  since.
\<close>

definition pause_then_pause2 :: "nat move list" where
  "pause_then_pause2 = [M_pass 0, M_pass 1, M_begin 0 None, M_read 1, M_pause 1, M_call 0, M_resume 1, M_pass 1,
     M_begin 0 (Some 7), M_read 1, M_pause 1, M_call 0, M_resume 1, M_resumed 0, M_pass 1]"

theorem while_paused_breaks_at_rest:
  "\<exists>es s s' t ys zs. pause_run two_threads es s \<and> pause_step s (Ran t [7]) s' \<and>
     es = ys @ Called 0 (Some 7) # zs \<and> Passed 0 \<notin> set zs"
proof -
  obtain es s where run: "pause_moves pause_then_pause2 two_threads = Some (es, s)"
    and s: "pause_move (M_rest 1) s = Some (Ran 1 [7], run_at_rest 1 s)"
    and es: "es = take 11 es @ Called 0 (Some 7) # drop 12 es" "Passed 0 \<notin> set (drop 12 es)"
    by (simp add: pause_then_pause2_def pause_eval)
  then show ?thesis using pause_moves_run [OF run] pause_move_step [OF s] by blast
qed

end
