(* ===== verification/Epc.thy ===== *)
theory Epc
  imports Prelude Systems Time_Utils
begin

text \<open>
  The endpoint clusters of \<open>src/cpp/epc.cpp\<close> and \<open>epc.h\<close>: the connections to the addresses of a host, and
  the fibers that use them.  Each endpoint is one address with its idle sockets and the
  number of its outstanding requests; endpoints are objects on a heap, referred to by the list
  of the cluster and by fibers.  What a fiber does while it holds a mutex is one step; the
  addresses are any type with the order of \<open>operator<\<close> on \<open>sockaddr_in6\<close> in \<open>tcp_utils.h\<close>.
\<close>

section \<open>States\<close>

type_synonym eid = nat
type_synonym sid = nat

record 'a endpoint =
  addr :: 'a
  socks :: "(sid \<times> timespec) list"
  outstanding_requests :: int
  last_lookup :: timespec
  ep_error :: bool

text \<open>The places of a fiber in \<open>do_with_connected_pipe\<close>: outside of it; about to call it again;
  waiting for a lookup, and woken from that; holding an endpoint, waiting for a free connection of it,
  and woken; connecting; and running its function on a socket.\<close>

datatype user_pc =
    Away
  | Again
  | Wait_Lookup
  | Woken_Lookup
  | Has_Endpoint eid
  | Wait_Endpoint eid
  | Woken_Endpoint eid
  | Connecting eid
  | Using eid sid

text \<open>\<open>round_robin_index_\<close> is an \<open>int\<close> that every use of the cluster increments; here it is a number without bound, so
  that the model is that of the code for the first 2^31 of them.\<close>

record ('a, 'f) cluster =
  max_conn_per_ep :: int
  lookup_frequency :: int
  endpoints :: "eid list"
  heap :: "eid \<Rightarrow> 'a endpoint"
  next_eid :: eid
  next_sid :: sid
  looking_up_endpoints :: bool
  last_lookup_time :: timespec
  round_robin_index :: nat
  peer :: "sid \<Rightarrow> 'a"
  lookup_err :: bool
  user :: "'f \<Rightarrow> user_pc"

definition new_endpoint :: "'a \<Rightarrow> timespec \<Rightarrow> 'a endpoint" where
  "new_endpoint a now =
     \<lparr> addr = a, socks = [], outstanding_requests = 0, last_lookup = now, ep_error = False \<rparr>"

definition new_cluster :: "int \<Rightarrow> int \<Rightarrow> (eid \<Rightarrow> 'a endpoint) \<Rightarrow> (sid \<Rightarrow> 'a) \<Rightarrow> ('a, 'f) cluster" where
  "new_cluster max_conn freq h ps =
     \<lparr> max_conn_per_ep = max_conn, lookup_frequency = freq, endpoints = [], heap = h, next_eid = 0,
       next_sid = 0, looking_up_endpoints = False, last_lookup_time = Timespec 0 0, round_robin_index = 0,
       peer = ps,       lookup_err = False, user = (\<lambda>f. Away) \<rparr>"

definition goto :: "'f \<Rightarrow> user_pc \<Rightarrow> ('a, 'f) cluster \<Rightarrow> ('a, 'f) cluster" where
  "goto f p c = c\<lparr>user := (user c)(f := p)\<rparr>"

section \<open>Looking up the host\<close>

text \<open>\<open>std::map::insert\<close> and \<open>find\<close> on the map from addresses to endpoints.\<close>

definition map_insert :: "'a::linorder \<Rightarrow> eid \<Rightarrow> ('a \<times> eid) list \<Rightarrow> ('a \<times> eid) list" where
  "map_insert a e m = (if a \<in> fst ` set m then m else insort_key fst (a, e) m)"

fun known_endpoints :: "(eid \<Rightarrow> 'a::linorder endpoint) \<Rightarrow> eid list \<Rightarrow> ('a \<times> eid) list \<Rightarrow> ('a \<times> eid) list" where
  "known_endpoints h [] m = m"
| "known_endpoints h (e # es) m = known_endpoints h es (map_insert (addr (h e)) e m)"

text \<open>The loop over the addresses that the lookup returned: a new endpoint takes its own time from
  the clock.\<close>

fun add_addresses ::
  "timespec \<Rightarrow> timespec \<Rightarrow> 'a::linorder list \<Rightarrow> ('a \<times> eid) list \<Rightarrow> (eid \<Rightarrow> 'a endpoint) \<Rightarrow> eid \<Rightarrow>
     ('a \<times> eid) list \<times> (eid \<Rightarrow> 'a endpoint) \<times> eid"
where
  "add_addresses now t [] m h n = (m, h, n)"
| "add_addresses now t (a # as) m h n =
     (case map_of m a of
        None \<Rightarrow> add_addresses now t as (map_insert a n m) (h(n := new_endpoint a t)) (n + 1)
      | Some e \<Rightarrow> add_addresses now t as m (h(e := (h e)\<lparr>last_lookup := now\<rparr>)) n)"

text \<open>The lookup gives an error, or the list of addresses, which may be empty.  The clock is read
  three times.\<close>

definition update_endpoints ::
  "timespec \<Rightarrow> timespec \<Rightarrow> timespec \<Rightarrow> 'a::linorder list option \<Rightarrow> ('a, 'f) cluster \<Rightarrow> ('a, 'f) cluster"
where
  "update_endpoints now t t' addrs c =
     (let c =
        (case addrs of
           None \<Rightarrow> c\<lparr>lookup_err := True\<rparr>
         | Some [] \<Rightarrow> c\<lparr>lookup_err := True\<rparr>
         | Some as \<Rightarrow>
             (case add_addresses now t as (known_endpoints (heap c) (endpoints c) []) (heap c) (next_eid c) of
                (m, h, n) \<Rightarrow>
                  let oldest = timespec_minus_seconds now (lookup_frequency c * 10);
                      m = filter (\<lambda>(a, e). \<not> last_lookup (h e) < oldest) m
                  in c\<lparr>heap := h, next_eid := n, endpoints := map snd m\<rparr>))
      in c\<lparr>last_lookup_time := t', looking_up_endpoints := False,
           user := (\<lambda>f. if user c f = Wait_Lookup then Woken_Lookup else user c f)\<rparr>)"

definition erase_all_endpoints :: "('a, 'f) cluster \<Rightarrow> ('a, 'f) cluster" where
  "erase_all_endpoints c = c\<lparr>endpoints := [], lookup_err := True\<rparr>"

definition delete_cached_endpoints :: "('a, 'f) cluster \<Rightarrow> ('a, 'f) cluster" where
  "delete_cached_endpoints c = c\<lparr>endpoints := []\<rparr>"

definition erase :: "eid \<Rightarrow> ('a, 'f) cluster \<Rightarrow> ('a, 'f) cluster" where
  "erase e c = c\<lparr>endpoints := remove1 e (endpoints c)\<rparr>"

section \<open>Using a connection\<close>

definition k_max_idle_time :: int where "k_max_idle_time = 25"

text \<open>The next endpoint in turn.\<close>

definition pick_endpoint :: "'f \<Rightarrow> ('a, 'f) cluster \<Rightarrow> ('a, 'f) cluster" where
  "pick_endpoint f c =
     (let e = endpoints c ! (round_robin_index c mod length (endpoints c))
      in goto f (Has_Endpoint e) (c\<lparr>round_robin_index := round_robin_index c + 1\<rparr>))"

text \<open>The first part, up to the choice of an endpoint or to \<open>cond_.wait\<close>; the comparison of seconds as
  \<open>double\<close> is the one of nanoseconds.\<close>

definition enter :: "timespec \<Rightarrow> 'f \<Rightarrow> ('a, 'f) cluster \<Rightarrow> ('a, 'f) cluster" where
  "enter now f c =
     (if endpoints c = [] \<or>
         nanos (timespec_minus now (last_lookup_time c)) > lookup_frequency c * 1000000000 then
        (let c = (if \<not> looking_up_endpoints c
                  then c\<lparr>looking_up_endpoints := True, lookup_err := False\<rparr> else c)
         in if endpoints c = [] then goto f Wait_Lookup c else pick_endpoint f c)
      else pick_endpoint f c)"

definition woken_lookup :: "'f \<Rightarrow> ('a, 'f) cluster \<Rightarrow> ('a, 'f) cluster" where
  "woken_lookup f c =
     (if lookup_err c then goto f Away c
      else if endpoints c = [] then goto f Wait_Lookup c
      else pick_endpoint f c)"

text \<open>The second part: the wait for a free connection, the recursive call after an error, and the loop
  over the idle sockets.\<close>

fun take_sock :: "timespec \<Rightarrow> (sid \<times> timespec) list \<Rightarrow> sid option \<times> (sid \<times> timespec) list" where
  "take_sock now [] = (None, [])"
| "take_sock now ((k, idle_start_time) # q) =
     (if now < timespec_plus_seconds idle_start_time k_max_idle_time then (Some k, q) else take_sock now q)"

definition use_endpoint :: "timespec \<Rightarrow> 'f \<Rightarrow> eid \<Rightarrow> ('a, 'f) cluster \<Rightarrow> ('a, 'f) cluster" where
  "use_endpoint now f e c =
     (let ep = heap c e
      in if outstanding_requests ep \<ge> max_conn_per_ep c then goto f (Wait_Endpoint e) c
         else if ep_error ep then goto f Again c
         else (case take_sock now (socks ep) of (sock, q) \<Rightarrow>
           let c = c\<lparr>heap := (heap c)(e := ep\<lparr>outstanding_requests := outstanding_requests ep + 1, socks := q\<rparr>)\<rparr>
           in (case sock of
                 Some k \<Rightarrow> goto f (Using e k) c
               | None \<Rightarrow> goto f (Connecting e) c)))"

definition connected :: "'f \<Rightarrow> eid \<Rightarrow> ('a, 'f) cluster \<Rightarrow> ('a, 'f) cluster" where
  "connected f e c = 
     goto f (Using e (next_sid c))
       (c\<lparr>next_sid := next_sid c + 1, peer := (peer c)(next_sid c := addr (heap c e))\<rparr>)"

text \<open>A connection that fails erases the endpoint; a TLS pipe that cannot be made does not.  Both
  throw.\<close>

definition connect_failed :: "'f \<Rightarrow> eid \<Rightarrow> ('a, 'f) cluster \<Rightarrow> ('a, 'f) cluster" where
  "connect_failed f e c = goto f Away (erase e c)"

definition tls_failed :: "'f \<Rightarrow> ('a, 'f) cluster \<Rightarrow> ('a, 'f) cluster" where
  "tls_failed f c = goto f Away c"

text \<open>The destructor of \<open>cleanup\<close>: \<open>wep.lock()\<close> gives the endpoint while something refers to it.\<close>

fun refers :: "eid \<Rightarrow> user_pc \<Rightarrow> bool" where
  "refers e (Has_Endpoint d) \<longleftrightarrow> d = e"
| "refers e (Wait_Endpoint d) \<longleftrightarrow> d = e"
| "refers e (Woken_Endpoint d) \<longleftrightarrow> d = e"
| "refers e (Connecting d) \<longleftrightarrow> d = e"
| "refers e p \<longleftrightarrow> False"

definition alive :: "eid \<Rightarrow> ('a, 'f) cluster \<Rightarrow> bool" where
  "alive e c \<longleftrightarrow> e \<in> set (endpoints c) \<or> (\<exists>f. refers e (user c f))"

definition cleanup :: "timespec \<Rightarrow> eid \<Rightarrow> sid \<Rightarrow> bool \<Rightarrow> bool \<Rightarrow> ('a, 'f) cluster \<Rightarrow> ('a, 'f) cluster" where
  "cleanup now e k cache exception_thrown c =
     (if alive e c then
        (let c = (if exception_thrown then erase e c else c);
             ep = heap c e;
             ep = ep\<lparr>outstanding_requests := outstanding_requests ep - 1,
                     socks := (if cache then socks ep @ [(k, now)] else socks ep),
                     ep_error := ep_error ep \<or> exception_thrown\<rparr>
         in c\<lparr>heap := (heap c)(e := ep),
              user := (\<lambda>f. if user c f = Wait_Endpoint e then Woken_Endpoint e else user c f)\<rparr>)
      else c)"

text \<open>The function returns whether the socket is to be kept, or throws.\<close>

definition finished :: "timespec \<Rightarrow> 'f \<Rightarrow> eid \<Rightarrow> sid \<Rightarrow> bool option \<Rightarrow> ('a, 'f) cluster \<Rightarrow> ('a, 'f) cluster" where
  "finished now f e k res c =
     (let c = goto f Away c
      in (case res of
            Some cache \<Rightarrow> cleanup now e k cache False c
          | None \<Rightarrow> cleanup now e k False True c))"

text \<open>The event of a step is the endpoint whose connection failed, if one did.\<close>

inductive epc_step :: "('a::linorder, 'f) cluster \<Rightarrow> eid option \<Rightarrow> ('a, 'f) cluster \<Rightarrow> bool" where
  epc_enter: "user c f = Away \<or> user c f = Again \<Longrightarrow> epc_step c None (enter now f c)"
| epc_woken_lookup: "user c f = Woken_Lookup \<Longrightarrow> epc_step c None (woken_lookup f c)"
| epc_use: "user c f = Has_Endpoint e \<or> user c f = Woken_Endpoint e \<Longrightarrow> epc_step c None (use_endpoint now f e c)"
| epc_connected: "user c f = Connecting e \<Longrightarrow> epc_step c None (connected f e c)"
| epc_connect_failed: "user c f = Connecting e \<Longrightarrow> epc_step c (Some e) (connect_failed f e c)"
| epc_tls_failed: "user c f = Connecting e \<Longrightarrow> epc_step c (Some e) (tls_failed f c)"
| epc_finished: "user c f = Using e k \<Longrightarrow> epc_step c None (finished now f e k res c)"
| epc_update: "looking_up_endpoints c \<Longrightarrow> epc_step c None (update_endpoints now t t' addrs c)"
| epc_erase_all: "epc_step c None (erase_all_endpoints c)"
| epc_delete: "epc_step c None (delete_cached_endpoints c)"

inductive epc_run :: "('a::linorder, 'f) cluster \<Rightarrow> eid list \<Rightarrow> ('a, 'f) cluster \<Rightarrow> bool" where
  epc_start: "epc_run c [] c"
| epc_more: "epc_run c es c' \<Longrightarrow> epc_step c' e c'' \<Longrightarrow>
    epc_run c (case e of None \<Rightarrow> es | Some e \<Rightarrow> e # es) c''"

section \<open>The invariant\<close>

fun busy :: "eid \<Rightarrow> user_pc \<Rightarrow> bool" where
  "busy e (Connecting d) \<longleftrightarrow> d = e"
| "busy e (Using d k) \<longleftrightarrow> d = e"
| "busy e p \<longleftrightarrow> False"

definition busy_fibers :: "eid \<Rightarrow> ('a, 'f) cluster \<Rightarrow> 'f set" where
  "busy_fibers e c = {f. busy e (user c f)}"

text \<open>The list of endpoints is sorted by address, and what is referred to exists.\<close>

definition ids_inv :: "eid list \<Rightarrow> ('a::linorder, 'f) cluster \<Rightarrow> bool" where
  "ids_inv fails c \<longleftrightarrow>
     set (endpoints c) \<subseteq> {..<next_eid c} \<and> set fails \<subseteq> {..<next_eid c} \<and>
     (\<forall>f e. refers e (user c f) \<or> busy e (user c f) \<longrightarrow> e < next_eid c) \<and>
     sorted_wrt (<) (map (\<lambda>e. addr (heap c e)) (endpoints c))"

text \<open>The number of outstanding requests of an endpoint.\<close>

definition count_inv :: "eid list \<Rightarrow> ('a, 'f) cluster \<Rightarrow> bool" where
  "count_inv fails c \<longleftrightarrow> (\<forall>e < next_eid c.
     finite (busy_fibers e c) \<and> int (card (busy_fibers e c)) \<le> outstanding_requests (heap c e) \<and>
     outstanding_requests (heap c e) \<le> max_conn_per_ep c \<and>
     (alive e c \<longrightarrow>
        outstanding_requests (heap c e) = int (card (busy_fibers e c)) + int (count_list fails e)))"

definition wait_inv :: "('a, 'f) cluster \<Rightarrow> bool" where
  "wait_inv c \<longleftrightarrow> (\<forall>f e. user c f = Wait_Endpoint e \<longrightarrow> max_conn_per_ep c \<le> outstanding_requests (heap c e))"

text \<open>The sockets of an endpoint, idle or used, are connected to its address, and each of them is idle
  or used by one fiber.\<close>

definition idle :: "eid \<Rightarrow> ('a, 'f) cluster \<Rightarrow> sid list" where
  "idle e c = map fst (socks (heap c e))"

definition sock_inv :: "('a, 'f) cluster \<Rightarrow> bool" where
  "sock_inv c \<longleftrightarrow>
     (\<forall>e < next_eid c. distinct (idle e c) \<and> (\<forall>k \<in> set (idle e c). k < next_sid c \<and> peer c k = addr (heap c e)) \<and>
        (\<forall>d < next_eid c. d \<noteq> e \<longrightarrow> set (idle d c) \<inter> set (idle e c) = {})) \<and>
     (\<forall>f e k. user c f = Using e k \<longrightarrow> k < next_sid c \<and> peer c k = addr (heap c e) \<and>
        (\<forall>d < next_eid c. k \<notin> set (idle d c)) \<and> (\<forall>g d. user c g = Using d k \<longrightarrow> g = f))"

definition epc_inv :: "eid list \<Rightarrow> ('a::linorder, 'f) cluster \<Rightarrow> bool" where
  "epc_inv fails c \<longleftrightarrow> 0 \<le> max_conn_per_ep c \<and> ids_inv fails c \<and> count_inv fails c \<and> wait_inv c \<and> sock_inv c"

lemma epc_inv_init: "0 \<le> m \<Longrightarrow> epc_inv [] (new_cluster m freq h ps)"
  by (simp add: epc_inv_def ids_inv_def count_inv_def wait_inv_def sock_inv_def new_cluster_def)

subsection \<open>Moving a fiber\<close>

lemma goto_simps [simp]:
  "user (goto f p c) = (user c)(f := p)" "heap (goto f p c) = heap c" "endpoints (goto f p c) = endpoints c"
  "next_eid (goto f p c) = next_eid c" "next_sid (goto f p c) = next_sid c" "peer (goto f p c) = peer c"
  "max_conn_per_ep (goto f p c) = max_conn_per_ep c" "looking_up_endpoints (goto f p c) = looking_up_endpoints c"
  "lookup_err (goto f p c) = lookup_err c" "idle e (goto f p c) = idle e c"
  by (simp_all add: goto_def idle_def)

lemma busy_fibers_goto:
  "busy_fibers e (goto f p c) = (if busy e p then insert f (busy_fibers e c) else busy_fibers e c - {f})"
  by (auto simp: busy_fibers_def)

lemma alive_goto: "alive e (goto f p c) \<Longrightarrow> alive e c \<or> refers e p"
  by (auto simp: alive_def split: if_splits)

text \<open>A fiber that is not busy goes to a place where it is not busy.\<close>

lemma epc_inv_goto:
  assumes "epc_inv fails c" "\<And>e. \<not> busy e (user c f)" "\<And>e. \<not> busy e p"
    "\<And>e. refers e p \<Longrightarrow> alive e c \<and> e < next_eid c"
    "\<And>e. p = Wait_Endpoint e \<Longrightarrow> max_conn_per_ep c \<le> outstanding_requests (heap c e)"
  shows "epc_inv fails (goto f p c)"
proof -
  have busy: "busy_fibers e (goto f p c) = busy_fibers e c" for e
    using assms(2,3) by (auto simp: busy_fibers_goto) (auto simp: busy_fibers_def)
  have "ids_inv fails (goto f p c)" using assms by (auto simp: epc_inv_def ids_inv_def)
  moreover have "count_inv fails (goto f p c)"
    using assms(1,4) alive_goto [of _ f p c] by (auto simp: epc_inv_def count_inv_def busy)
  moreover have "wait_inv (goto f p c)" using assms(1,5) by (auto simp: epc_inv_def wait_inv_def)
  moreover have "p \<noteq> Using e k" for e k using assms(3) [of e] by auto
  then have "sock_inv (goto f p c)"
    using assms(1) by (auto simp: epc_inv_def sock_inv_def)
  ultimately show ?thesis using assms(1) by (simp add: epc_inv_def)
qed

subsection \<open>The steps\<close>

lemmas epc_inv_defs = epc_inv_def ids_inv_def count_inv_def wait_inv_def sock_inv_def idle_def busy_fibers_def alive_def

lemma epc_inv_fields [simp]:
  "epc_inv fails (c\<lparr>looking_up_endpoints := b\<rparr>) = epc_inv fails c"
  "epc_inv fails (c\<lparr>round_robin_index := n\<rparr>) = epc_inv fails c"
  "epc_inv fails (c\<lparr>lookup_err := b'\<rparr>) = epc_inv fails c"
  "epc_inv fails (c\<lparr>last_lookup_time := t\<rparr>) = epc_inv fails c"
  by (simp_all add: epc_inv_defs)

lemma sorted_map_remove1: "sorted_wrt P (map g xs) \<Longrightarrow> sorted_wrt P (map g (remove1 x xs))"
  by (induction xs) (auto dest: notin_set_remove1)

lemma epc_inv_shrink:
  assumes "epc_inv fails c" "es = [] \<or> es = remove1 e (endpoints c)"
  shows "epc_inv fails (c\<lparr>endpoints := es\<rparr>)"
proof -
  have sub: "set es \<subseteq> set (endpoints c)" using assms(2) set_remove1_subset [of e "endpoints c"] by auto
  have "sorted_wrt (<) (map (\<lambda>e. addr (heap c e)) es)"
    using assms by (auto simp: epc_inv_def ids_inv_def sorted_map_remove1)
  moreover have "alive e (c\<lparr>endpoints := es\<rparr>) \<Longrightarrow> alive e c" for e using sub by (auto simp: alive_def)
  ultimately show ?thesis using assms(1) sub
    by (auto simp: epc_inv_def ids_inv_def count_inv_def wait_inv_def sock_inv_def idle_def busy_fibers_def)
qed

lemma erase_simps [simp]:
  "user (erase e c) = user c" "heap (erase e c) = heap c" "next_eid (erase e c) = next_eid c"
  "max_conn_per_ep (erase e c) = max_conn_per_ep c"
  by (simp_all add: erase_def)

lemma epc_inv_erase: "epc_inv fails c \<Longrightarrow> epc_inv fails (erase e c)"
  unfolding erase_def by (rule epc_inv_shrink) auto

lemma epc_inv_pick:
  assumes "epc_inv fails c" "endpoints c \<noteq> []" "\<And>e. \<not> busy e (user c f)"
  shows "epc_inv fails (pick_endpoint f c)"
proof -
  have "endpoints c ! (round_robin_index c mod length (endpoints c)) \<in> set (endpoints c)"
    using assms(2) by (intro nth_mem) simp
  moreover from this have "endpoints c ! (round_robin_index c mod length (endpoints c)) < next_eid c"
    using assms(1) by (auto simp: epc_inv_def ids_inv_def)
  moreover have "epc_inv fails (c\<lparr>round_robin_index := round_robin_index c + 1\<rparr>)" using assms(1) by simp
  ultimately show ?thesis using assms(3) unfolding pick_endpoint_def Let_def
    by (intro epc_inv_goto) (auto simp: alive_def)
qed

lemma epc_inv_enter:
  assumes "epc_inv fails c" "\<And>e. \<not> busy e (user c f)"
  shows "epc_inv fails (enter now f c)"
proof -
  define d where "d = c\<lparr>looking_up_endpoints := True, lookup_err := False\<rparr>"
  have d: "epc_inv fails d" "endpoints d = endpoints c" "user d = user c" using assms(1) by (simp_all add: d_def)
  have "epc_inv fails (goto f Wait_Lookup b)" if "b \<in> {c, d}" for b
    using that assms d by (auto intro!: epc_inv_goto)
  moreover have "epc_inv fails (pick_endpoint f b)" if "b \<in> {c, d}" "endpoints b \<noteq> []" for b
    using that assms d by (auto intro!: epc_inv_pick)
  ultimately show ?thesis using d by (simp add: enter_def Let_def d_def [symmetric])
qed

lemma epc_inv_woken:
  "epc_inv fails c \<Longrightarrow> user c f = Woken_Lookup \<Longrightarrow> epc_inv fails (woken_lookup f c)"
  unfolding woken_lookup_def by (auto intro!: epc_inv_goto epc_inv_pick)

lemma take_sock_None: "take_sock now q = (None, q') \<Longrightarrow> q' = []"
  by (induction now q rule: take_sock.induct) (auto split: if_splits)

lemma take_sock_Some:
  "take_sock now q = (Some k, q') \<Longrightarrow> \<exists>p t. q = p @ (k, t) # q' \<and> now < timespec_plus_seconds t k_max_idle_time"
proof (induction now q rule: take_sock.induct)
  case (2 now k0 t q)
  show ?case
  proof (cases "now < timespec_plus_seconds t k_max_idle_time")
    case True
    then show ?thesis using 2(2) by auto
  next
    case False
    then obtain p t' where "q = p @ (k, t') # q'" "now < timespec_plus_seconds t' k_max_idle_time" using 2 by auto
    then show ?thesis by (intro exI [of _ "(k0, t) # p"] exI [of _ t']) simp
  qed
qed simp

lemma take_sock_idle:
  assumes "take_sock now q = (r, q')"
  shows "set (map fst q') \<subseteq> set (map fst q)" "distinct (map fst q) \<Longrightarrow> distinct (map fst q')"
    "r = Some k \<Longrightarrow> k \<in> set (map fst q)" "r = Some k \<Longrightarrow> distinct (map fst q) \<Longrightarrow> k \<notin> set (map fst q')"
proof -
  have "\<exists>p. q = p @ q' \<and> (\<forall>k. r = Some k \<longrightarrow> k \<in> set (map fst p))"
  proof (cases r)
    case None
    then show ?thesis using assms take_sock_None by (intro exI [of _ q]) auto
  next
    case (Some k)
    then obtain p t where "q = p @ (k, t) # q'" using assms take_sock_Some by metis
    then show ?thesis using Some by (intro exI [of _ "p @ [(k, t)]"]) auto
  qed
  then obtain p where p: "q = p @ q'" "\<forall>k. r = Some k \<longrightarrow> k \<in> set (map fst p)" by blast
  then show "set (map fst q') \<subseteq> set (map fst q)" "distinct (map fst q) \<Longrightarrow> distinct (map fst q')"
    "r = Some k \<Longrightarrow> k \<in> set (map fst q)" by auto
  show "r = Some k \<Longrightarrow> distinct (map fst q) \<Longrightarrow> k \<notin> set (map fst q')"
    using p by (auto simp del: set_map)
qed

text \<open>A step of a busy fiber, or of one that becomes busy, at the endpoint \<open>e\<close>: the counts.\<close>

lemma count_inv_at:
  assumes "count_inv fails c" "max_conn_per_ep c' = max_conn_per_ep c" "next_eid c' = next_eid c"
    "\<And>d. d \<noteq> e \<Longrightarrow> busy_fibers d c' = busy_fibers d c \<and> outstanding_requests (heap c' d) = outstanding_requests (heap c d)
       \<and> count_list fails' d = count_list fails d"
    "\<And>d. alive d c' \<Longrightarrow> alive d c"
    "finite (busy_fibers e c) \<Longrightarrow> int (card (busy_fibers e c)) \<le> outstanding_requests (heap c e) \<Longrightarrow>
     outstanding_requests (heap c e) \<le> max_conn_per_ep c \<Longrightarrow>
     (alive e c \<longrightarrow> outstanding_requests (heap c e) = int (card (busy_fibers e c)) + int (count_list fails e)) \<Longrightarrow>
     finite (busy_fibers e c') \<and> int (card (busy_fibers e c')) \<le> outstanding_requests (heap c' e) \<and>
     outstanding_requests (heap c' e) \<le> max_conn_per_ep c \<and>
     (alive e c' \<longrightarrow> outstanding_requests (heap c' e) = int (card (busy_fibers e c')) + int (count_list fails' e))"
  shows "count_inv fails' c'"
  unfolding count_inv_def
proof (intro allI impI)
  fix d assume "d < next_eid c'"
  then have d: "finite (busy_fibers d c) \<and> int (card (busy_fibers d c)) \<le> outstanding_requests (heap c d) \<and>
     outstanding_requests (heap c d) \<le> max_conn_per_ep c \<and>
     (alive d c \<longrightarrow> outstanding_requests (heap c d) = int (card (busy_fibers d c)) + int (count_list fails d))"
    using assms(1,3) by (simp add: count_inv_def)
  show "finite (busy_fibers d c') \<and> int (card (busy_fibers d c')) \<le> outstanding_requests (heap c' d) \<and>
     outstanding_requests (heap c' d) \<le> max_conn_per_ep c' \<and>
     (alive d c' \<longrightarrow> outstanding_requests (heap c' d) = int (card (busy_fibers d c')) + int (count_list fails' d))"
  proof (cases "d = e")
    case True
    then show ?thesis using d assms(2,6) by simp
  next
    case False
    then show ?thesis using d assms(2,5) assms(4) [OF False] by auto
  qed
qed

text \<open>A fiber may take an idle socket of an endpoint.\<close>

lemma sock_inv_take:
  assumes "sock_inv c" "next_eid c' = next_eid c" "next_sid c' = next_sid c" "peer c' = peer c"
    "\<And>d. addr (heap c' d) = addr (heap c d)"
    "\<And>d. set (idle d c') \<subseteq> set (idle d c) \<and> (distinct (idle d c) \<longrightarrow> distinct (idle d c'))"
    "\<And>g d k. user c' g = Using d k \<Longrightarrow> user c g = Using d k \<or>
       g = f \<and> d = e \<and> k \<in> set (idle e c) \<and> (distinct (idle e c) \<longrightarrow> k \<notin> set (idle e c'))"
    "e < next_eid c"
  shows "sock_inv c'"
proof -
  have a: "distinct (idle d c) \<and> (\<forall>k \<in> set (idle d c). k < next_sid c \<and> peer c k = addr (heap c d)) \<and>
      (\<forall>d' < next_eid c. d' \<noteq> d \<longrightarrow> set (idle d' c) \<inter> set (idle d c) = {})" if "d < next_eid c" for d
    using assms(1) that by (simp add: sock_inv_def)
  have b: "k < next_sid c \<and> peer c k = addr (heap c d) \<and> (\<forall>d < next_eid c. k \<notin> set (idle d c)) \<and>
      (\<forall>g' d. user c g' = Using d k \<longrightarrow> g' = g)" if "user c g = Using d k" for g d k
    using assms(1) that unfolding sock_inv_def by blast
  have c: "k < next_sid c \<and> peer c k = addr (heap c d) \<and> (\<forall>d < next_eid c. k \<notin> set (idle d c')) \<and>
      (\<forall>g' d. user c' g' = Using d k \<longrightarrow> g' = g)" if u: "user c' g = Using d k" for g d k
  proof (cases "user c g = Using d k")
    case True
    have "g' = g" if "user c' g' = Using d' k" for g' d'
      using assms(7) [OF that] b [OF True] assms(8) by blast
    then show ?thesis using b [OF True] assms(6) by blast
  next
    case False
    then have k: "g = f" "d = e" "k \<in> set (idle e c)" "k \<notin> set (idle e c')"
      using assms(7) [OF u] a [OF assms(8)] by auto
    have "g' = g" if "user c' g' = Using d' k" for g' d'
      using assms(7) [OF that] b [of g' d' k] k assms(8) by blast
    moreover have "k \<notin> set (idle d' c')" if "d' < next_eid c" for d'
      using a [OF assms(8)] k assms(6) [of d'] that by (cases "d' = e") auto
    ultimately show ?thesis using a [OF assms(8)] k by blast
  qed
  have a': "distinct (idle d c') \<and> (\<forall>k \<in> set (idle d c'). k < next_sid c \<and> peer c k = addr (heap c d)) \<and>
      (\<forall>d' < next_eid c. d' \<noteq> d \<longrightarrow> set (idle d' c') \<inter> set (idle d c') = {})" if "d < next_eid c" for d
  proof (intro conjI allI impI ballI)
    show "distinct (idle d c')" using a [OF that] assms(6) by blast
    show "k < next_sid c" "peer c k = addr (heap c d)" if "k \<in> set (idle d c')" for k
      using a [OF \<open>d < next_eid c\<close>] assms(6) [of d] that by blast+
    show "set (idle d' c') \<inter> set (idle d c') = {}" if "d' < next_eid c" "d' \<noteq> d" for d'
      using a [OF \<open>d < next_eid c\<close>] assms(6) [of d] assms(6) [of d'] that by blast
  qed
  show ?thesis
    unfolding sock_inv_def assms(2-5) using a' c by simp
qed

lemma epc_inv_use:
  assumes "epc_inv fails c" "user c f = Has_Endpoint e \<or> user c f = Woken_Endpoint e"
  shows "epc_inv fails (use_endpoint now f e c)"
proof -
  have ref: "refers e (user c f)" using assms(2) by auto
  then have e: "alive e c" "e < next_eid c" "\<And>d. \<not> busy d (user c f)"
    using assms by (auto simp: alive_def epc_inv_def ids_inv_def)
  let ?ep = "heap c e"
  consider (waits) "outstanding_requests ?ep \<ge> max_conn_per_ep c"
    | (again) "outstanding_requests ?ep < max_conn_per_ep c" "ep_error ?ep"
    | (uses) "outstanding_requests ?ep < max_conn_per_ep c" "\<not> ep_error ?ep" by linarith
  then show ?thesis
  proof cases
    case waits
    have "epc_inv fails (goto f (Wait_Endpoint e) c)"
      using assms(1) e waits by (intro epc_inv_goto) auto
    then show ?thesis using waits by (simp add: use_endpoint_def Let_def)
  next
    case again
    then have "epc_inv fails (goto f Again c)" using assms(1) e by (intro epc_inv_goto) auto
    then show ?thesis using again by (simp add: use_endpoint_def Let_def)
  next
    case uses
    obtain r q where rq: "take_sock now (socks ?ep) = (r, q)" by fastforce
    define p where "p = (case r of None \<Rightarrow> Connecting e | Some k \<Rightarrow> Using e k)"
    define c' where "c' = goto f p (c\<lparr>heap := (heap c)(e := ?ep\<lparr>outstanding_requests := outstanding_requests ?ep + 1, socks := q\<rparr>)\<rparr>)"
    have c': "use_endpoint now f e c = c'"
      using uses rq by (cases r) (simp_all add: use_endpoint_def Let_def c'_def p_def)
    have p: "busy d p \<longleftrightarrow> d = e" "refers d p \<Longrightarrow> d = e" for d by (cases r; auto simp: p_def)+
    have f: "f \<notin> busy_fibers d c" for d using e(3) by (simp add: busy_fibers_def)
    have busy: "busy_fibers d c' = (if d = e then insert f (busy_fibers e c) else busy_fibers d c)" for d
      using p(1) f e(3) by (auto simp: c'_def busy_fibers_def)
    have al: "alive d c' \<Longrightarrow> alive d c" for d
    proof -
      have "alive d c' \<Longrightarrow> alive d c \<or> refers d p" unfolding c'_def by (drule alive_goto) (auto simp: alive_def)
      then show "alive d c' \<Longrightarrow> alive d c" using p(2) e(1) by blast
    qed
    have other: "d \<noteq> e \<Longrightarrow> heap c' d = heap c d" and here: "heap c' e = ?ep\<lparr>outstanding_requests := outstanding_requests ?ep + 1, socks := q\<rparr>"
      and same: "max_conn_per_ep c' = max_conn_per_ep c" "next_eid c' = next_eid c" for d by (simp_all add: c'_def)
    have addr: "addr (heap c' d) = addr (heap c d)" for d by (simp add: c'_def)
    have ids: "ids_inv fails c'"
      using assms(1) p e(2) unfolding ids_inv_def epc_inv_def addr by (auto simp: c'_def)
    have count: "count_inv fails c'"
    proof (rule count_inv_at [where e = e and c = c and fails = fails])
      show "count_inv fails c" using assms(1) by (simp add: epc_inv_def)
    qed (use uses(1) e(1) f al in \<open>auto simp: busy other here same\<close>)
    have wait: "wait_inv c'"
      using assms(1) uses(1) p(1) [of e] by (fastforce simp: epc_inv_def wait_inv_def c'_def)
    have sock: "sock_inv c'"
    proof (rule sock_inv_take [where f = f and e = e])
      show "sock_inv c" using assms(1) by (simp add: epc_inv_def)
      show "set (idle d c') \<subseteq> set (idle d c) \<and> (distinct (idle d c) \<longrightarrow> distinct (idle d c'))" for d
      proof (cases "d = e")
        case True
        then show ?thesis using take_sock_idle(1,2) [OF rq] by (simp add: idle_def here)
      qed (simp add: idle_def other)
      show "user c' g = Using d k \<Longrightarrow> user c g = Using d k \<or>
          g = f \<and> d = e \<and> k \<in> set (idle e c) \<and> (distinct (idle e c) \<longrightarrow> k \<notin> set (idle e c'))" for g d k
        using take_sock_idle(3,4) [OF rq, of k]
        by (cases r) (auto simp: c'_def p_def idle_def simp del: set_map split: if_splits)
    qed (use e(2,3) in \<open>simp_all add: c'_def\<close>)
    show ?thesis using assms(1) ids count wait sock unfolding c' by (simp add: epc_inv_def c'_def)
  qed
qed

lemma id_bound: "epc_inv fails c \<Longrightarrow> refers e (user c f) \<or> busy e (user c f) \<Longrightarrow> e < next_eid c"
  unfolding epc_inv_def ids_inv_def by blast

lemma epc_inv_connected:
  assumes "epc_inv fails c" "user c f = Connecting e"
  shows "epc_inv fails (connected f e c)"
proof -
  let ?c = "connected f e c"
  have e: "e < next_eid c" using id_bound [OF assms(1), of e f] assms(2) by simp
  have simps: "user ?c = (user c)(f := Using e (next_sid c))" "heap ?c = heap c" "endpoints ?c = endpoints c"
    "next_eid ?c = next_eid c" "max_conn_per_ep ?c = max_conn_per_ep c" "next_sid ?c = next_sid c + 1"
    "peer ?c = (peer c)(next_sid c := addr (heap c e))" "idle d ?c = idle d c" for d
    by (simp_all add: connected_def idle_def)
  have busy: "busy_fibers d ?c = busy_fibers d c" for d using assms(2) by (auto simp: busy_fibers_def simps)
  have al: "alive d ?c \<Longrightarrow> alive d c" for d by (auto simp: alive_def simps split: if_splits)
  have "ids_inv fails ?c" using assms(1) e by (auto simp: epc_inv_def ids_inv_def simps)
  moreover have "count_inv fails ?c" using assms(1) al by (auto simp: epc_inv_def count_inv_def simps busy)
  moreover have "wait_inv ?c" using assms(1) by (auto simp: epc_inv_def wait_inv_def simps)
  moreover have "sock_inv ?c"
  proof -
    have a: "sock_inv c" using assms(1) by (simp add: epc_inv_def)
    then have fresh: "next_sid c \<notin> set (idle d c)" if "d < next_eid c" for d
      using that by (auto simp: sock_inv_def)
    moreover have "user c g \<noteq> Using d (next_sid c)" for g d
    proof
      assume "user c g = Using d (next_sid c)"
      then have "next_sid c < next_sid c" using a unfolding sock_inv_def by blast
      then show False by simp
    qed
    ultimately show ?thesis using a unfolding sock_inv_def simps by (auto simp: less_Suc_eq)
  qed
  ultimately show ?thesis using assms(1) by (simp add: epc_inv_def simps)
qed

lemma card_minus_one: "finite B \<Longrightarrow> x \<in> B \<Longrightarrow> int (card (B - {x})) = int (card B) - 1"
  using card_gt_0_iff [of B] by (auto simp: card_Diff_singleton)

lemma epc_inv_lost:
  assumes "epc_inv fails c" "user c f = Connecting e"
  shows "epc_inv (e # fails) (goto f Away c)"
proof -
  let ?c = "goto f Away c"
  have e: "e < next_eid c" using id_bound [OF assms(1), of e f] assms(2) by simp
  have f: "f \<in> busy_fibers e c" using assms(2) by (simp add: busy_fibers_def)
  have busy: "busy_fibers d ?c = (if d = e then busy_fibers e c - {f} else busy_fibers d c)" for d
    using assms(2) by (auto simp: busy_fibers_goto) (auto simp: busy_fibers_def)
  have al: "alive d ?c \<Longrightarrow> alive d c" for d by (drule alive_goto) simp
  have "count_inv (e # fails) ?c"
  proof (rule count_inv_at [where e = e and c = c and fails = fails])
    show "count_inv fails c" using assms(1) by (simp add: epc_inv_def)
  qed (use f al in \<open>auto simp: busy card_minus_one simp del: card_Diff_singleton card_Diff_insert\<close>)
  moreover have "ids_inv (e # fails) ?c" using assms(1) e by (auto simp: epc_inv_def ids_inv_def)
  moreover have "wait_inv ?c" using assms(1) by (auto simp: epc_inv_def wait_inv_def)
  moreover have "sock_inv ?c" using assms(1) by (auto simp: epc_inv_def sock_inv_def)
  ultimately show ?thesis using assms(1) by (simp add: epc_inv_def)
qed

lemma sock_inv_put:
  assumes "sock_inv c" "user c f = Using e k" "e < next_eid c"
    "next_eid c' = next_eid c" "next_sid c' = next_sid c" "peer c' = peer c"
    "\<And>d. addr (heap c' d) = addr (heap c d)" "\<And>d. d \<noteq> e \<Longrightarrow> idle d c' = idle d c"
    "idle e c' = idle e c \<or> idle e c' = idle e c @ [k]"
    "\<And>g d j. user c' g = Using d j \<Longrightarrow> user c g = Using d j \<and> g \<noteq> f"
  shows "sock_inv c'"
proof -
  have a: "distinct (idle d c) \<and> (\<forall>k \<in> set (idle d c). k < next_sid c \<and> peer c k = addr (heap c d)) \<and>
      (\<forall>d' < next_eid c. d' \<noteq> d \<longrightarrow> set (idle d' c) \<inter> set (idle d c) = {})" if "d < next_eid c" for d
    using assms(1) that by (simp add: sock_inv_def)
  have b: "k < next_sid c \<and> peer c k = addr (heap c d) \<and> (\<forall>d < next_eid c. k \<notin> set (idle d c)) \<and>
      (\<forall>g' d. user c g' = Using d k \<longrightarrow> g' = g)" if "user c g = Using d k" for g d k
    using assms(1) that unfolding sock_inv_def by blast
  have idle: "set (idle d c') \<subseteq> (if d = e then insert k (set (idle d c)) else set (idle d c))" for d
    using assms(8) [of d] assms(9) by auto
  have a': "distinct (idle d c') \<and> (\<forall>k \<in> set (idle d c'). k < next_sid c \<and> peer c k = addr (heap c d)) \<and>
      (\<forall>d' < next_eid c. d' \<noteq> d \<longrightarrow> set (idle d' c') \<inter> set (idle d c') = {})" if d: "d < next_eid c" for d
  proof (intro conjI allI impI ballI)
    show "distinct (idle d c')"
      using a [OF d] b [OF assms(2)] assms(3,8,9) by (cases "d = e") auto
    show "j < next_sid c" "peer c j = addr (heap c d)" if "j \<in> set (idle d c')" for j
      using a [OF d] b [OF assms(2)] idle [of d] that by (auto split: if_splits)
    show "set (idle d' c') \<inter> set (idle d c') = {}" if "d' < next_eid c" "d' \<noteq> d" for d'
    proof -
      have disj: "set (idle d' c) \<inter> set (idle d c) = {}" using a [OF d] that by simp
      have k: "k \<notin> set (idle d' c)" "k \<notin> set (idle d c)" using b [OF assms(2)] d that(1) by simp_all
      show ?thesis using idle [of d] idle [of d'] disj k that(2) by (cases "d = e"; cases "d' = e") (simp_all, blast+)
    qed
  qed
  moreover have "j < next_sid c \<and> peer c j = addr (heap c d) \<and> (\<forall>d < next_eid c. j \<notin> set (idle d c')) \<and>
      (\<forall>g' d. user c' g' = Using d j \<longrightarrow> g' = g)" if u: "user c' g = Using d j" for g d j
  proof -
    have g: "user c g = Using d j" "g \<noteq> f" using assms(10) [OF u] by auto
    then have "j \<noteq> k" using b [OF assms(2)] by blast
    then have "j \<notin> set (idle d' c')" if "d' < next_eid c" for d'
      using b [OF g(1)] idle [of d'] that by (auto split: if_splits)
    then show ?thesis using b [OF g(1)] assms(10) by blast
  qed
  ultimately show ?thesis unfolding sock_inv_def assms(4-7) by simp
qed

lemma epc_inv_finished:
  assumes "epc_inv fails c" "user c f = Using e k"
  shows "epc_inv fails (finished now f e k res c)"
proof -
  have e: "e < next_eid c" using id_bound [OF assms(1), of e f] assms(2) by simp
  define cache thrown where "cache = (res = Some True)" and "thrown = (res = None)"
  have fin: "finished now f e k res c = cleanup now e k cache thrown (goto f Away c)"
    by (cases res) (auto simp: finished_def cache_def thrown_def)
  have "refers d (((user c)(f := Away)) g) = refers d (user c g)" for d g using assms(2) by simp
  then have al: "alive d (goto f Away c) \<longleftrightarrow> alive d c" for d by (simp add: alive_def)
  have f: "f \<in> busy_fibers e c" using assms(2) by (simp add: busy_fibers_def)
  have card: "finite (busy_fibers e c) \<Longrightarrow> int (card (busy_fibers e c - {f})) = int (card (busy_fibers e c)) - 1"
    by (rule card_minus_one [OF _ f])
  have count0: "count_inv fails c" and sock0: "sock_inv c" using assms(1) by (simp_all add: epc_inv_def)
  show ?thesis
  proof (cases "alive e c")
    case False
    let ?c = "goto f Away c"
    have busy: "busy_fibers d ?c = (if d = e then busy_fibers e c - {f} else busy_fibers d c)" for d
      using assms(2) by (auto simp: busy_fibers_goto) (auto simp: busy_fibers_def)
    have "count_inv fails ?c"
      by (rule count_inv_at [OF count0, where e = e]) (use al False in \<open>auto simp: busy card\<close>)
    moreover have "ids_inv fails ?c" using assms(1) by (auto simp: epc_inv_def ids_inv_def)
    moreover have "wait_inv ?c" using assms(1) by (auto simp: epc_inv_def wait_inv_def)
    moreover have "sock_inv ?c" by (rule sock_inv_put [OF sock0 assms(2) e]) (auto split: if_splits)
    ultimately show ?thesis using assms(1) al False by (simp add: fin cleanup_def epc_inv_def)
  next
    case True
    let ?ep = "heap c e"
    define ep where "ep = ?ep\<lparr>outstanding_requests := outstanding_requests ?ep - 1,
        socks := (if cache then socks ?ep @ [(k, now)] else socks ?ep), ep_error := ep_error ?ep \<or> thrown\<rparr>"
    define c' where "c' = c\<lparr>heap := (heap c)(e := ep),
        user := (\<lambda>g. if ((user c)(f := Away)) g = Wait_Endpoint e then Woken_Endpoint e else ((user c)(f := Away)) g)\<rparr>"
    have res: "finished now f e k res c = (if thrown then erase e c' else c')"
      using True al 
      by (simp add: fin cleanup_def Let_def ep_def c'_def goto_def erase_def cong: if_cong)
    have simps: "next_eid c' = next_eid c" "endpoints c' = endpoints c" "max_conn_per_ep c' = max_conn_per_ep c"
      "next_sid c' = next_sid c" "peer c' = peer c" "addr (heap c' d) = addr (heap c d)"
      "d \<noteq> e \<Longrightarrow> heap c' d = heap c d" "heap c' e = ep" for d
      by (simp_all add: c'_def ep_def)
    have user: "busy d (user c' g) \<longleftrightarrow> busy d (user c g) \<and> g \<noteq> f" "refers d (user c' g) \<Longrightarrow> refers d (user c g)"
      "user c' g = Wait_Endpoint d \<Longrightarrow> user c g = Wait_Endpoint d \<and> d \<noteq> e"
      "user c' g = Using d j \<longleftrightarrow> user c g = Using d j \<and> g \<noteq> f" for d g j
      by (auto simp: c'_def split: if_splits)
    have busy: "busy_fibers d c' = (if d = e then busy_fibers e c - {f} else busy_fibers d c)" for d
      using assms(2) by (auto simp: busy_fibers_def user(1))
    have al': "alive d c' \<Longrightarrow> alive d c" for d using user(2) by (auto simp: alive_def simps)
    have "count_inv fails c'"
      by (rule count_inv_at [OF count0, where e = e]) (use al' True in \<open>auto simp: simps busy card ep_def\<close>)
    moreover have "ids_inv fails c'" using assms(1) unfolding epc_inv_def ids_inv_def simps user(1)
      by (meson user(2))
    moreover have "wait_inv c'" using assms(1) user(3) by (fastforce simp: epc_inv_def wait_inv_def simps)
    moreover have "sock_inv c'"
      by (rule sock_inv_put [OF sock0 assms(2) e]) (auto simp: simps idle_def ep_def user(4))
    ultimately have "epc_inv fails c'" using assms(1) by (simp add: epc_inv_def simps)
    then show ?thesis by (simp add: res epc_inv_erase)
  qed
qed

subsection \<open>The update\<close>

text \<open>What the map of an update holds: the endpoints before, and new ones.\<close>

lemma map_insert_keys: "fst ` set (map_insert a e m) = insert a (fst ` set m)"
  by (auto simp: map_insert_def set_insort_key)

lemma map_insert_new: "a \<notin> fst ` set m \<Longrightarrow> set (map_insert a e m) = insert (a, e) (set m)"
  by (simp add: map_insert_def set_insort_key)

lemma sorted_map_insert:
  "sorted_wrt (<) (map fst m) \<Longrightarrow> sorted_wrt (<) (map fst (map_insert a e m))"
  by (induction m) (auto simp: map_insert_def image_iff not_le less_le set_insort_key split: if_splits)

lemma known_endpoints_sorted:
  "sorted_wrt (<) (map fst m) \<Longrightarrow> sorted_wrt (<) (map fst (known_endpoints h es m))"
  by (induction h es m rule: known_endpoints.induct) (simp_all add: sorted_map_insert)

lemma known_endpoints_set:
  "sorted_wrt (<) (map (\<lambda>e. addr (h e)) es) \<Longrightarrow> (\<And>e. e \<in> set es \<Longrightarrow> addr (h e) \<notin> fst ` set m) \<Longrightarrow>
     set (known_endpoints h es m) = set m \<union> (\<lambda>e. (addr (h e), e)) ` set es"
proof (induction h es m rule: known_endpoints.induct)
  case (2 h e es m)
  have "addr (h d) \<notin> fst ` set (map_insert (addr (h e)) e m)" if "d \<in> set es" for d
    using 2(2,3) that by (auto simp: map_insert_keys)
  then show ?case using 2 by (auto simp: map_insert_new)
qed simp

definition map_ok :: "('a::linorder \<times> eid) list \<Rightarrow> (eid \<Rightarrow> 'a endpoint) \<Rightarrow> eid \<Rightarrow> bool" where
  "map_ok m h n \<longleftrightarrow> sorted_wrt (<) (map fst m) \<and> (\<forall>(a, e) \<in> set m. addr (h e) = a \<and> e < n)"

lemma map_ok_of: "map_ok m h n \<Longrightarrow> (a, e) \<in> set m \<Longrightarrow> map_of m a = Some e"
  by (auto simp: map_ok_def strict_sorted_iff intro: map_of_is_SomeI)

lemma add_addresses_spec:
  assumes "map_ok m h n" "add_addresses now t as m h n = (m', h', n')"
  shows "map_ok m' h' n' \<and> n \<le> n' \<and> set m \<subseteq> set m' \<and> fst ` set m' = fst ` set m \<union> set as \<and>
    (\<forall>(a, e) \<in> set m' - set m. n \<le> e \<and> h' e \<in> {new_endpoint a t, new_endpoint a now}) \<and>
    (\<forall>e. n \<le> e \<and> e < n' \<longrightarrow> e \<in> snd ` (set m' - set m)) \<and>
    (\<forall>e < n. h' e = (h e)\<lparr>last_lookup := if \<exists>a \<in> set as. (a, e) \<in> set m then now else last_lookup (h e)\<rparr>)"
  using assms
proof (induction now t as m h n rule: add_addresses.induct)
  case (1 now t m h n)
  then show ?case by auto
next
  case (2 now t a as m h n)
  show ?case
  proof (cases "map_of m a")
    case None
    then have new: "a \<notin> fst ` set m" by (simp add: map_of_eq_None_iff)
    let ?m = "map_insert a n m" and ?h = "h(n := new_endpoint a t)"
    have ok: "map_ok ?m ?h (n + 1)"
      using 2(3) new by (fastforce simp: map_ok_def sorted_map_insert map_insert_new new_endpoint_def)
    have run: "add_addresses now t as ?m ?h (n + 1) = (m', h', n')" using 2(4) None by simp
    note IH = 2(1) [OF None ok run]
    have m: "set ?m = insert (a, n) (set m)" using new by (rule map_insert_new)
    have here: "h' n \<in> {new_endpoint a t, new_endpoint a now}" using IH by (auto simp: new_endpoint_def)
    have no: "(a, e) \<notin> set m" for e using new by force
    have parts: "fst ` set m' = fst ` set m \<union> set (a # as)" "set m \<subseteq> set m'" "n \<le> n'" "map_ok m' h' n'"
      using IH m by auto
    have fresh: "n \<le> e \<and> h' e \<in> {new_endpoint b t, new_endpoint b now}" if "(b, e) \<in> set m' - set m" for b e
    proof (cases "(b, e) = (a, n)")
      case True
      then show ?thesis using here by simp
    next
      case False
      then have "(b, e) \<in> set m' - set ?m" using that m by auto
      then have "n + 1 \<le> e \<and> h' e \<in> {new_endpoint b t, new_endpoint b now}" using IH by fast
      then show ?thesis by simp
    qed
    have last: "h' e = (h e)\<lparr>last_lookup := if \<exists>b \<in> set (a # as). (b, e) \<in> set m then now else last_lookup (h e)\<rparr>"
      if "e < n" for e
    proof -
      have "(\<exists>b \<in> set (a # as). (b, e) \<in> set m) \<longleftrightarrow> (\<exists>b \<in> set as. (b, e) \<in> set ?m)" using m no that by auto
      then show ?thesis using IH that by simp
    qed
    have all: "e \<in> snd ` (set m' - set m)" if "n \<le> e" "e < n'" for e
    proof (cases "e = n")
      case True
      have "(a, n) \<in> set m' - set m" using IH m no by auto
      then show ?thesis using True by force
    next
      case False
      then have "e \<in> snd ` (set m' - set ?m)" using IH that by simp
      then show ?thesis using m by auto
    qed
    show ?thesis
    proof (intro conjI)
      show "\<forall>(b, e) \<in> set m' - set m. n \<le> e \<and> h' e \<in> {new_endpoint b t, new_endpoint b now}" using fresh by blast
      show "\<forall>e. n \<le> e \<and> e < n' \<longrightarrow> e \<in> snd ` (set m' - set m)" using all by blast
      show "\<forall>e < n. h' e = (h e)\<lparr>last_lookup := if \<exists>b \<in> set (a # as). (b, e) \<in> set m then now else last_lookup (h e)\<rparr>"
        using last by blast
    qed (rule parts)+
  next
    case (Some e)
    then have e: "(a, e) \<in> set m" by (rule map_of_SomeD)
    let ?h = "h(e := (h e)\<lparr>last_lookup := now\<rparr>)"
    have ok: "map_ok m ?h n" using 2(3) by (auto simp: map_ok_def)
    have run: "add_addresses now t as m ?h n = (m', h', n')" using 2(4) Some by simp
    note IH = 2(2) [OF Some ok run]
    have "(a, d) \<in> set m \<longleftrightarrow> d = e" for d using e Some map_ok_of [OF 2(3)] by (metis option.inject)
    moreover have "\<forall>x < n. h' x = (?h x)\<lparr>last_lookup := if \<exists>b \<in> set as. (b, x) \<in> set m then now else last_lookup (?h x)\<rparr>"
      using IH by (elim conjE)
    ultimately have last: "h' x = (h x)\<lparr>last_lookup := if \<exists>b \<in> set (a # as). (b, x) \<in> set m then now else last_lookup (h x)\<rparr>"
      if "x < n" for x using that by (cases "x = e") auto
    have "a \<in> fst ` set m" using e by force
    moreover have "fst ` set m' = fst ` set m \<union> set as" using IH by (elim conjE)
    ultimately have keys: "fst ` set m' = fst ` set m \<union> set (a # as)" by auto
    show ?thesis
    proof (intro conjI)
      show "fst ` set m' = fst ` set m \<union> set (a # as)" by (rule keys)
      show "\<forall>e < n. h' e = (h e)\<lparr>last_lookup := if \<exists>b \<in> set (a # as). (b, e) \<in> set m then now else last_lookup (h e)\<rparr>"
        using last by blast
    qed (rule IH [THEN conjunct1] IH [THEN conjunct2, THEN conjunct1] IH [THEN conjunct2, THEN conjunct2, THEN conjunct1]
        IH [THEN conjunct2, THEN conjunct2, THEN conjunct2, THEN conjunct2, THEN conjunct1]
        IH [THEN conjunct2, THEN conjunct2, THEN conjunct2, THEN conjunct2, THEN conjunct2, THEN conjunct1])+
  qed
qed

lemma count_list_new: "set fails \<subseteq> {..<n :: nat} \<Longrightarrow> n \<le> e \<Longrightarrow> count_list fails e = 0"
  by (auto simp: count_list_0_iff)

text \<open>The endpoints after a successful lookup.\<close>

lemma epc_inv_refresh:
  assumes "epc_inv fails c" "add_addresses now t as (known_endpoints (heap c) (endpoints c) []) (heap c) (next_eid c) = (m, h, n)"
  shows "epc_inv fails (c\<lparr>heap := h, next_eid := n, endpoints := map snd (filter P m)\<rparr>)"
proof -
  let ?m0 = "known_endpoints (heap c) (endpoints c) []" and ?n0 = "next_eid c"
  let ?c = "c\<lparr>heap := h, next_eid := n, endpoints := map snd (filter P m)\<rparr>"
  have ids: "ids_inv fails c" and count: "count_inv fails c" and wait: "wait_inv c" and sock: "sock_inv c"
    using assms(1) by (simp_all add: epc_inv_def)
  have m0: "set ?m0 = (\<lambda>e. (addr (heap c e), e)) ` set (endpoints c)"
    using known_endpoints_set [of "heap c" "endpoints c" "[]"] ids by (simp add: ids_inv_def)
  then have "map_ok ?m0 (heap c) ?n0"
    using ids known_endpoints_sorted [of "[]" "heap c"] by (auto simp: map_ok_def ids_inv_def)
  note spec = add_addresses_spec [OF this assms(2)]
  have newer: "\<forall>(a, e) \<in> set m - set ?m0. ?n0 \<le> e \<and> h e \<in> {new_endpoint a t, new_endpoint a now}"
    using spec by (elim conjE)
  have old: "socks (h e) = socks (heap c e)" "outstanding_requests (h e) = outstanding_requests (heap c e)"
    "addr (h e) = addr (heap c e)" if lt: "e < ?n0" for e
  proof -
    have "\<forall>e < ?n0. h e = (heap c e)\<lparr>last_lookup := if \<exists>a \<in> set as. (a, e) \<in> set ?m0 then now
        else last_lookup (heap c e)\<rparr>" using spec by (elim conjE)
    then obtain l where "h e = (heap c e)\<lparr>last_lookup := l\<rparr>" using lt by blast
    then show "socks (h e) = socks (heap c e)" "outstanding_requests (h e) = outstanding_requests (heap c e)"
      "addr (h e) = addr (heap c e)" by simp_all
  qed
  have new: "socks (h e) = [] \<and> outstanding_requests (h e) = 0" if lt: "?n0 \<le> e" "e < n" for e
  proof -
    have "\<forall>e. ?n0 \<le> e \<and> e < n \<longrightarrow> e \<in> snd ` (set m - set ?m0)" using spec by (elim conjE)
    then obtain a where a: "(a, e) \<in> set m - set ?m0" using lt by auto
    have "h e \<in> {new_endpoint a t, new_endpoint a now}" using newer a by blast
    then show ?thesis by (auto simp: new_endpoint_def)
  qed
  have n: "?n0 \<le> n" and ok: "map_ok m h n" using spec by blast+
  have less: "refers e (user c f) \<or> busy e (user c f) \<Longrightarrow> e < ?n0" for e f by (rule id_bound [OF assms(1)])
  have al: "alive e ?c \<Longrightarrow> e < ?n0 \<Longrightarrow> alive e c" for e
  proof -
    assume a: "alive e ?c" "e < ?n0"
    have "?n0 \<le> e" if "(b, e) \<in> set m - set ?m0" for b using newer that by blast
    then have "(b, e) \<in> set m \<Longrightarrow> (b, e) \<in> set ?m0" for b using a(2) by fastforce
    then have "(b, e) \<in> set m \<Longrightarrow> e \<in> set (endpoints c)" for b using m0 by blast
    then show ?thesis using a(1) m0 by (auto simp: alive_def)
  qed
  have same: "user ?c = user c" "busy_fibers e ?c = busy_fibers e c" "heap ?c = h" "next_eid ?c = n"
    "max_conn_per_ep ?c = max_conn_per_ep c" "next_sid ?c = next_sid c" "peer ?c = peer c" for e
    by (simp_all add: busy_fibers_def)
  have "ids_inv fails ?c"
  proof -
    have "map (\<lambda>e. addr (h e)) (map snd (filter P m)) = map fst (filter P m)"
      using ok by (auto simp: map_ok_def)
    moreover have "sorted_wrt (<) (map fst (filter P m))" using ok by (simp add: map_ok_def sorted_wrt_filter sorted_wrt_map)
    moreover have "set (endpoints ?c) \<subseteq> {..<n}" using ok by (auto simp: map_ok_def)
    moreover have "e < n" if "refers e (user c f) \<or> busy e (user c f)" for e f using less [OF that] n by simp
    ultimately show ?thesis using ids n unfolding ids_inv_def same by (auto simp del: map_map)
  qed
  moreover have "count_inv fails ?c"
    unfolding count_inv_def same
  proof (intro allI impI)
    fix e assume e: "e < n"
    show "finite (busy_fibers e c) \<and> int (card (busy_fibers e c)) \<le> outstanding_requests (h e) \<and>
       outstanding_requests (h e) \<le> max_conn_per_ep c \<and>
       (alive e ?c \<longrightarrow> outstanding_requests (h e) = int (card (busy_fibers e c)) + int (count_list fails e))"
    proof (cases "e < ?n0")
      case True
      then show ?thesis using count old al by (auto simp: count_inv_def)
    next
      case False
      then have "busy_fibers e c = {}" using less by (auto simp: busy_fibers_def)
      moreover have "count_list fails e = 0" using ids False by (auto simp: ids_inv_def intro: count_list_new)
      ultimately show ?thesis using new [OF _ e] False assms(1) by (simp add: epc_inv_def)
    qed
  qed
  moreover have "wait_inv ?c"
    unfolding wait_inv_def same
  proof (intro allI impI)
    fix f e assume f: "user c f = Wait_Endpoint e"
    then have "e < ?n0" using less [of e f] by simp
    then show "max_conn_per_ep c \<le> outstanding_requests (h e)" using wait f old(2) by (simp add: wait_inv_def)
  qed
  moreover have "sock_inv ?c"
  proof -
    have idle: "idle e ?c = (if e < ?n0 then idle e c else [])" if "e < n" for e
      using old new that by (simp add: idle_def)
    have using_less: "e < ?n0" if "user c f = Using e k" for f e k using less [of e f] that by simp
    have "x \<in> set (idle e c) \<Longrightarrow> x \<in> set (idle d c) \<Longrightarrow> e < ?n0 \<Longrightarrow> d < ?n0 \<Longrightarrow> d = e" for x d e
      using sock unfolding sock_inv_def by blast
    then show ?thesis using sock n old unfolding sock_inv_def same
      by (auto simp: idle dest: using_less split: if_splits)
  qed
  ultimately show ?thesis using assms(1) by (simp add: epc_inv_def)
qed

text \<open>Waking the fibers that wait for the lookup.\<close>

lemma epc_inv_wake:
  assumes "epc_inv fails c"
  shows "epc_inv fails (c\<lparr>user := (\<lambda>f. if user c f = Wait_Lookup then Woken_Lookup else user c f)\<rparr>)"
proof -
  let ?c = "c\<lparr>user := (\<lambda>f. if user c f = Wait_Lookup then Woken_Lookup else user c f)\<rparr>"
  have "busy d (user ?c f) = busy d (user c f)" "refers d (user ?c f) = refers d (user c f)"
    "(user ?c f = Wait_Endpoint d) = (user c f = Wait_Endpoint d)" "(user ?c f = Using d k) = (user c f = Using d k)"
    for d f k by auto
  then show ?thesis using assms
    by (simp add: epc_inv_def ids_inv_def count_inv_def wait_inv_def sock_inv_def idle_def busy_fibers_def alive_def
        del: if_split_eq1)
qed

lemma epc_inv_update:
  assumes "epc_inv fails c"
  shows "epc_inv fails (update_endpoints now t t' addrs c)"
proof -
  define d where "d = (case addrs of
           None \<Rightarrow> c\<lparr>lookup_err := True\<rparr>
         | Some [] \<Rightarrow> c\<lparr>lookup_err := True\<rparr>
         | Some as \<Rightarrow>
             (case add_addresses now t as (known_endpoints (heap c) (endpoints c) []) (heap c) (next_eid c) of
                (m, h, n) \<Rightarrow>
                  let oldest = timespec_minus_seconds now (lookup_frequency c * 10);
                      m = filter (\<lambda>(a, e). \<not> last_lookup (h e) < oldest) m
                  in c\<lparr>heap := h, next_eid := n, endpoints := map snd m\<rparr>))"
  have "epc_inv fails d"
  proof (cases "\<exists>a as. addrs = Some (a # as)")
    case True
    then obtain a as where as: "addrs = Some (a # as)" by blast
    obtain m h n where "add_addresses now t (a # as) (known_endpoints (heap c) (endpoints c) []) (heap c) (next_eid c) = (m, h, n)"
      by (cases "add_addresses now t (a # as) (known_endpoints (heap c) (endpoints c) []) (heap c) (next_eid c)")
    note run = this
    show ?thesis unfolding d_def as option.case list.case run prod.case Let_def
      by (rule epc_inv_refresh [OF assms run])
  next
    case False
    then have "d = c\<lparr>lookup_err := True\<rparr>" by (auto simp: d_def split: option.splits list.splits)
    then show ?thesis using assms by simp
  qed
  then have "epc_inv fails (d\<lparr>last_lookup_time := t', looking_up_endpoints := False\<rparr>)" by simp
  then have "epc_inv fails (d\<lparr>last_lookup_time := t', looking_up_endpoints := False,
      user := (\<lambda>f. if user d f = Wait_Lookup then Woken_Lookup else user d f)\<rparr>)"
    by (drule_tac epc_inv_wake) (simp cong: if_cong)
  then show ?thesis by (simp add: update_endpoints_def d_def [symmetric])
qed

lemma epc_inv_step:
  assumes "epc_step c e c'" "epc_inv fails c"
  shows "epc_inv (case e of None \<Rightarrow> fails | Some e \<Rightarrow> e # fails) c'"
  using assms
proof (induction rule: epc_step.induct)
  case (epc_connect_failed c f e)
  have "connect_failed f e c = erase e (goto f Away c)" by (simp add: connect_failed_def erase_def goto_def)
  then show ?case using epc_connect_failed epc_inv_erase [OF epc_inv_lost] by simp
next
  case (epc_tls_failed c f e)
  then show ?case by (simp add: tls_failed_def epc_inv_lost)
next
  case (epc_erase_all c)
  then show ?case using epc_inv_shrink [of fails c "[]"] by (simp add: erase_all_endpoints_def)
next
  case (epc_delete c)
  then show ?case using epc_inv_shrink [of fails c "[]"] by (simp add: delete_cached_endpoints_def)
qed (auto intro: epc_inv_enter epc_inv_woken epc_inv_use epc_inv_connected epc_inv_finished epc_inv_update)

lemma step_max: "epc_step c e c' \<Longrightarrow> max_conn_per_ep c' = max_conn_per_ep c"
  by (induction rule: epc_step.induct)
    (auto simp: enter_def woken_lookup_def pick_endpoint_def use_endpoint_def connected_def connect_failed_def
      tls_failed_def finished_def cleanup_def update_endpoints_def erase_all_endpoints_def delete_cached_endpoints_def
      Let_def split: prod.splits option.splits list.splits)

lemma epc_run_inv:
  "epc_run c fails c' \<Longrightarrow> epc_inv [] c \<Longrightarrow> epc_inv fails c' \<and> max_conn_per_ep c' = max_conn_per_ep c"
  by (induction rule: epc_run.induct) (auto dest: epc_inv_step step_max)

section \<open>Retries\<close>

text \<open>The loop of \<open>with_connected_pipe\<close> over the outcomes of its attempts, each with the random number
  that is drawn for it: how it ends, if it does, and the sleeps in milliseconds.\<close>

datatype attempt = A_Done | A_Io_Error | A_Timeout | A_Other_Error

datatype retry_end = R_Done | R_Throws attempt | R_Goes_On

fun with_connected_pipe :: "int \<Rightarrow> (attempt \<times> u32) list \<Rightarrow> retry_end \<times> int list" where
  "with_connected_pipe sleepMs [] = (R_Goes_On, [])"
| "with_connected_pipe sleepMs ((A_Done, ri) # as) = (R_Done, [])"
| "with_connected_pipe sleepMs ((A_Other_Error, ri) # as) = (R_Throws A_Other_Error, [])"
| "with_connected_pipe sleepMs ((A_Io_Error, ri) # as) =
     (if sleepMs > 30 * 1000 then (R_Throws A_Io_Error, [])
      else
        (let slp = sleepMs * 3 div 4 + uint ri mod (sleepMs div 2)
         in case with_connected_pipe (sleepMs * 2) as of (r, sleeps) \<Rightarrow> (r, slp # sleeps)))"
| "with_connected_pipe sleepMs ((A_Timeout, ri) # as) = with_connected_pipe 50 as"

lemma retry_io_error:
  assumes "k \<le> 30000" "2 \<le> k"
  shows "\<exists>slp. with_connected_pipe k ((A_Io_Error, ri) # as) =
      (fst (with_connected_pipe (2 * k) as), slp # snd (with_connected_pipe (2 * k) as)) \<and>
    k * 3 div 4 \<le> slp \<and> slp < k * 3 div 4 + k div 2"
proof -
  have "0 < k div 2" using assms(2) by simp
  then have "0 \<le> uint ri mod (k div 2)" "uint ri mod (k div 2) < k div 2" by simp_all
  then show ?thesis using assms(1) by (simp add: Let_def mult.commute split: prod.split)
qed

lemma retry_io_errors:
  "int n \<le> 10 \<Longrightarrow> length rs = n + 1 \<Longrightarrow>
     \<exists>sleeps. with_connected_pipe (50 * 2 ^ (10 - n)) (map (\<lambda>ri. (A_Io_Error, ri)) rs @ as) =
       (R_Throws A_Io_Error, sleeps) \<and> length sleeps = n \<and>
       sum_list sleeps \<le> (\<Sum>i<n. 50 * 2 ^ (9 - i) * 3 div 4 + 50 * 2 ^ (9 - i) div 2) \<and>
       (\<Sum>i<n. 50 * 2 ^ (9 - i) * 3 div 4) \<le> sum_list sleeps"
proof (induction n arbitrary: rs)
  case 0
  then show ?case by (cases rs) auto
next
  case (Suc n)
  then obtain r rs' where rs: "rs = r # rs'" "length rs' = n + 1" by (cases rs) auto
  let ?k = "50 * 2 ^ (10 - Suc n) :: int"
  have exp: "2 * ?k = 50 * 2 ^ (10 - n)" "10 - Suc n = 9 - n"
    using Suc(2) by (simp_all add: Suc_diff_Suc [symmetric] flip: power_Suc)
  have "(2 :: int) ^ (10 - Suc n) \<le> 512" using power_increasing [of "10 - Suc n" 9 "2 :: int"] by simp
  then have k: "?k \<le> 30000" by linarith
  have "1 \<le> (2 :: int) ^ (10 - Suc n)" by (rule one_le_power) simp
  then have k2: "2 \<le> ?k" by linarith
  obtain slp where slp: "with_connected_pipe ?k (map (\<lambda>ri. (A_Io_Error, ri)) rs @ as) =
      (fst (with_connected_pipe (2 * ?k) (map (\<lambda>ri. (A_Io_Error, ri)) rs' @ as)),
       slp # snd (with_connected_pipe (2 * ?k) (map (\<lambda>ri. (A_Io_Error, ri)) rs' @ as)))"
    "?k * 3 div 4 \<le> slp" "slp < ?k * 3 div 4 + ?k div 2"
    using retry_io_error [OF k k2, of r] rs(1) by auto
  note slp = slp [unfolded exp(1)]
  obtain sleeps where "with_connected_pipe (50 * 2 ^ (10 - n)) (map (\<lambda>ri. (A_Io_Error, ri)) rs' @ as) =
       (R_Throws A_Io_Error, sleeps)" "length sleeps = n"
       "sum_list sleeps \<le> (\<Sum>i<n. 50 * 2 ^ (9 - i) * 3 div 4 + 50 * 2 ^ (9 - i) div 2)"
       "(\<Sum>i<n. 50 * 2 ^ (9 - i) * 3 div 4) \<le> sum_list sleeps"
    using Suc(1) [OF _ rs(2)] Suc(2) by auto
  then show ?case using slp by (simp add: exp(2))
qed

section \<open>A lost wake-up\<close>

text \<open>The endpoint 0 is no longer in the list, its one connection could not be made and is still counted,
  and fiber 1 waits for it.\<close>

definition stuck :: "('a, nat) cluster \<Rightarrow> bool" where
  "stuck c \<longleftrightarrow> user c 1 = Wait_Endpoint 0 \<and> 0 \<notin> set (endpoints c) \<and> 0 < next_eid c \<and>
     (\<forall>f. f \<noteq> 1 \<longrightarrow> \<not> refers 0 (user c f)) \<and> (\<forall>f. \<not> busy 0 (user c f))"

lemma stuck_busy: "stuck c \<Longrightarrow> busy e (user c f) \<Longrightarrow> f \<noteq> 1 \<and> e \<noteq> 0"
proof -
  assume "stuck c" "busy e (user c f)"
  then have "user c 1 = Wait_Endpoint 0" "\<not> busy 0 (user c f)" by (simp_all add: stuck_def)
  then show ?thesis using \<open>busy e (user c f)\<close> by (intro conjI notI) simp_all
qed

lemma stuck_goto: "stuck c \<Longrightarrow> f \<noteq> 1 \<Longrightarrow> \<not> refers 0 p \<Longrightarrow> \<not> busy 0 p \<Longrightarrow> stuck (goto f p c)"
  by (auto simp: stuck_def)

lemma stuck_fields [simp]:
  "stuck (c\<lparr>looking_up_endpoints := b\<rparr>) = stuck c" "stuck (c\<lparr>lookup_err := b\<rparr>) = stuck c"
  "stuck (c\<lparr>round_robin_index := n\<rparr>) = stuck c" "stuck (c\<lparr>heap := h\<rparr>) = stuck c"
  "stuck (c\<lparr>last_lookup_time := t\<rparr>) = stuck c" "stuck (c\<lparr>next_sid := n, peer := p\<rparr>) = stuck c"
  by (simp_all add: stuck_def)

lemma stuck_pick: "stuck c \<Longrightarrow> endpoints c \<noteq> [] \<Longrightarrow> f \<noteq> 1 \<Longrightarrow> stuck (pick_endpoint f c)"
proof -
  assume a: "stuck c" "endpoints c \<noteq> []" "f \<noteq> 1"
  then have "endpoints c ! (round_robin_index c mod length (endpoints c)) \<in> set (endpoints c)"
    by (intro nth_mem) simp
  then have "endpoints c ! (round_robin_index c mod length (endpoints c)) \<noteq> 0"
    using a(1) unfolding stuck_def by metis
  then show ?thesis using a(1,3) unfolding pick_endpoint_def Let_def by (intro stuck_goto) simp_all
qed

lemma stuck_enter: "stuck c \<Longrightarrow> f \<noteq> 1 \<Longrightarrow> stuck (enter now f c)"
  by (auto simp: enter_def Let_def intro!: stuck_pick stuck_goto)

lemma stuck_erase: "stuck c \<Longrightarrow> stuck (erase e c)"
  using notin_set_remove1 [of 0 "endpoints c" e] by (simp add: stuck_def erase_def)

lemma stuck_use: "stuck c \<Longrightarrow> user c f = Has_Endpoint e \<or> user c f = Woken_Endpoint e \<Longrightarrow> stuck (use_endpoint now f e c)"
proof -
  assume a: "stuck c" "user c f = Has_Endpoint e \<or> user c f = Woken_Endpoint e"
  then have f: "f \<noteq> 1" by (auto simp: stuck_def)
  moreover have "e \<noteq> 0" using a f unfolding stuck_def by (metis refers.simps(1) refers.simps(3))
  ultimately show ?thesis using a(1)
    by (auto simp: use_endpoint_def Let_def intro!: stuck_goto split: prod.splits option.splits)
qed

lemma stuck_finished: "stuck c \<Longrightarrow> user c f = Using e k \<Longrightarrow> stuck (finished now f e k res c)"
proof -
  assume a: "stuck c" "user c f = Using e k"
  then have f: "f \<noteq> 1" "e \<noteq> 0" using stuck_busy [of c e f] by auto
  then have "stuck (cleanup now e k b b' (goto f Away c))" for b b'
    using stuck_goto [OF a(1) f(1), of Away] stuck_erase [of "goto f Away c" e]
    by (auto simp: cleanup_def Let_def stuck_def)
  then show ?thesis by (simp add: finished_def Let_def split: option.split)
qed

lemma stuck_update: "epc_inv fails c \<Longrightarrow> stuck c \<Longrightarrow> stuck (update_endpoints now t t' addrs c)"
proof -
  assume a: "epc_inv fails c" "stuck c"
  have "0 \<notin> set (map snd (filter P m)) \<and> next_eid c \<le> n"
    if run: "add_addresses now t as (known_endpoints (heap c) (endpoints c) []) (heap c) (next_eid c) = (m, h, n)" for P m h n as
  proof -
    let ?m0 = "known_endpoints (heap c) (endpoints c) []"
    have ids: "ids_inv fails c" using a(1) by (simp add: epc_inv_def)
    have m0: "set ?m0 = (\<lambda>e. (addr (heap c e), e)) ` set (endpoints c)"
      using known_endpoints_set [of "heap c" "endpoints c" "[]"] ids by (simp add: ids_inv_def)
    then have "map_ok ?m0 (heap c) (next_eid c)"
      using ids known_endpoints_sorted [of "[]" "heap c"] by (auto simp: map_ok_def ids_inv_def)
    note spec = add_addresses_spec [OF this run]
    have "\<forall>(a, e) \<in> set m - set ?m0. next_eid c \<le> e \<and> h e \<in> {new_endpoint a t, new_endpoint a now}"
      using spec by (elim conjE)
    then have "(b, 0) \<in> set m \<Longrightarrow> (b, 0) \<in> set ?m0" for b using a(2) by (fastforce simp: stuck_def)
    then have "(b, 0) \<in> set m \<Longrightarrow> 0 \<in> set (endpoints c)" for b using m0 by blast
    moreover have "next_eid c \<le> n" using spec by (elim conjE)
    ultimately show ?thesis using a(2) by (auto simp: stuck_def)
  qed
  note parts = this
  show ?thesis
  proof (cases "\<exists>a as. addrs = Some (a # as)")
    case True
    then obtain b as where as: "addrs = Some (b # as)" by blast
    obtain m h n where run: "add_addresses now t (b # as) (known_endpoints (heap c) (endpoints c) []) (heap c) (next_eid c) = (m, h, n)"
      by (cases "add_addresses now t (b # as) (known_endpoints (heap c) (endpoints c) []) (heap c) (next_eid c)")
    have "0 \<notin> set (map snd (filter P m))" "next_eid c \<le> n" for P using parts [OF run, of P] by blast+
    then show ?thesis using a(2)
      unfolding update_endpoints_def as option.case list.case run prod.case Let_def
      by (auto simp: stuck_def simp del: set_map set_filter)
  next
    case False
    then have "update_endpoints now t t' addrs c = c\<lparr>lookup_err := True, last_lookup_time := t', looking_up_endpoints := False,
        user := (\<lambda>f. if user c f = Wait_Lookup then Woken_Lookup else user c f)\<rparr>"
      by (auto simp: update_endpoints_def split: option.splits list.splits cong: if_cong)
    then show ?thesis using a(2) by (simp add: stuck_def)
  qed
qed

lemma stuck_none: "stuck c \<Longrightarrow> stuck (c\<lparr>endpoints := []\<rparr>)"
  by (simp add: stuck_def)

lemma stuck_step: "epc_step c e c' \<Longrightarrow> epc_inv fails c \<Longrightarrow> stuck c \<Longrightarrow> stuck c'"
proof (induction rule: epc_step.induct)
  case (epc_enter c f now)
  then have "f \<noteq> 1" by (auto simp: stuck_def)
  then show ?case using epc_enter by (simp add: stuck_enter)
next
  case (epc_woken_lookup c f)
  then have "f \<noteq> 1" by (auto simp: stuck_def)
  then show ?case using epc_woken_lookup
    by (auto simp: woken_lookup_def intro!: stuck_pick stuck_goto)
next
  case (epc_connected c f e)
  then have "f \<noteq> 1" "e \<noteq> 0" using stuck_busy [of c e f] by auto
  then show ?case using epc_connected by (auto simp: connected_def intro!: stuck_goto)
next
  case (epc_connect_failed c f e)
  then have "f \<noteq> 1" by (auto simp: stuck_def)
  then show ?case using epc_connect_failed by (auto simp: connect_failed_def intro!: stuck_goto stuck_erase)
next
  case (epc_tls_failed c f e)
  then have "f \<noteq> 1" by (auto simp: stuck_def)
  then show ?case using epc_tls_failed by (auto simp: tls_failed_def intro!: stuck_goto)
qed (auto simp: erase_all_endpoints_def delete_cached_endpoints_def stuck_none
      intro: stuck_use stuck_finished stuck_update)

lemma stuck_run: "epc_run c es c' \<Longrightarrow> epc_inv fails c \<Longrightarrow> stuck c \<Longrightarrow> stuck c' \<and> (\<exists>fs. epc_inv fs c')"
proof (induction rule: epc_run.induct)
  case (epc_more c es c' e c'')
  then obtain fs where "stuck c'" "epc_inv fs c'" by blast
  then show ?case using epc_more(2) stuck_step epc_inv_step by blast
qed blast

text \<open>A run into such a state: one connection per endpoint is allowed.\<close>

definition epc0 :: "(nat, nat) cluster" where
  "epc0 = new_cluster 1 20 (\<lambda>e. new_endpoint 0 (Timespec 0 0)) (\<lambda>k. 0)"

definition epc_looked_up :: "(nat, nat) cluster" where
  "epc_looked_up = update_endpoints (Timespec 5 0) (Timespec 5 0) (Timespec 5 0) (Some [80])
     (enter (Timespec 5 0) 0 epc0)"

definition epc_waiting :: "(nat, nat) cluster" where
  "epc_waiting = use_endpoint (Timespec 6 0) 1 0 (enter (Timespec 6 0) 1
     (use_endpoint (Timespec 6 0) 0 0 (woken_lookup 0 epc_looked_up)))"

lemmas epc_eval = epc0_def epc_looked_up_def epc_waiting_def new_cluster_def new_endpoint_def enter_def
  woken_lookup_def pick_endpoint_def use_endpoint_def update_endpoints_def connect_failed_def connected_def
  goto_def erase_def map_insert_def k_max_idle_time_def timespec_order timespec_minus_seconds_def
  timespec_plus_seconds_def timespec_minus_def nanos_def Let_def

lemma epc_more_None: "epc_run c es c' \<Longrightarrow> epc_step c' None c'' \<Longrightarrow> epc_run c es c''"
  using epc_more [of c es c' None c''] by simp

lemma epc_looked_up_run: "epc_run epc0 [] epc_looked_up"
  unfolding epc_looked_up_def
  by (rule epc_more_None [OF epc_more_None [OF epc_start]]; rule epc_step.intros) (simp_all add: epc_eval)

lemma epc_waiting_run: "epc_run epc0 [] epc_waiting"
  unfolding epc_waiting_def
  by (rule epc_more_None [OF epc_more_None [OF epc_more_None [OF epc_more_None [OF epc_looked_up_run]]]];
      rule epc_step.intros) (simp_all add: epc_eval)

lemma epc_reached:
  assumes "epc_run (new_cluster m freq h ps) fails c" "0 \<le> m"
  shows "epc_inv fails c" "max_conn_per_ep c = m"
  using epc_run_inv [OF assms(1) epc_inv_init [OF assms(2)]] by (simp_all add: new_cluster_def)

section \<open>Properties\<close>

text \<open>
  C14: in every reachable state, at most \<open>max_conn_per_ep\<close> fibers connect to or use an endpoint at a time; the
  counter of an endpoint that is still referred to is their number plus the number of its connections
  that could not be made, each of which stays counted for ever.
\<close>
theorem epc_connections_bounded:
  assumes "epc_run (new_cluster m freq h ps) fails c" "0 \<le> m"
  shows "finite (busy_fibers e c) \<and> int (card (busy_fibers e c)) \<le> m \<and>
    (e < next_eid c \<and> alive e c \<longrightarrow>
       outstanding_requests (heap c e) = int (card (busy_fibers e c)) + int (count_list fails e))"
proof -
  note inv = epc_reached [OF assms(1,2)]
  show ?thesis
  proof (cases "e < next_eid c")
    case True
    then show ?thesis using inv by (force simp: epc_inv_def count_inv_def)
  next
    case False
    then have "busy_fibers e c = {}" using id_bound [OF inv(1), of e] by (auto simp: busy_fibers_def)
    then show ?thesis using False assms(2) by simp
  qed
qed

theorem epc_connections_bounded_witness:
  "int (card (busy_fibers 0 epc_waiting)) \<le> 1 \<and> outstanding_requests (heap epc_waiting 0) = 1"
proof -
  have "int (card (busy_fibers 0 epc_waiting)) \<le> 1"
    using epc_connections_bounded [OF epc_waiting_run [unfolded epc0_def], of 0] by simp
  then show ?thesis by (simp add: epc_eval)
qed

text \<open>
  C15: in every reachable state a fiber runs its function on a socket that is connected to the address of the
  endpoint it chose, that no other fiber uses, and that is in no list of idle
  sockets.
\<close>
theorem epc_socket_exclusive:
  assumes "epc_run (new_cluster m freq h ps) fails c" "0 \<le> m" "user c f = Using e k"
  shows "peer c k = addr (heap c e) \<and> (\<forall>g d. user c g = Using d k \<longrightarrow> g = f) \<and>
    (\<forall>d < next_eid c. k \<notin> fst ` set (socks (heap c d)))"
proof -
  have "epc_inv fails c" by (rule epc_reached [OF assms(1,2)])
  then show ?thesis using assms(3) by (simp add: epc_inv_def sock_inv_def idle_def)
qed

definition epc_using :: "(nat, nat) cluster" where
  "epc_using = connected 0 0 epc_waiting"

theorem epc_socket_exclusive_witness:
  "user epc_using 0 = Using 0 0 \<and> peer epc_using 0 = 80 \<and> user epc_using 1 \<noteq> Using 0 0"
proof -
  have "epc_run epc0 [] epc_using"
    unfolding epc_using_def by (rule epc_more_None [OF epc_waiting_run]; rule epc_step.intros) (simp add: epc_eval)
  moreover have "user epc_using 0 = Using 0 0" by (simp add: epc_using_def epc_eval)
  ultimately have "peer epc_using 0 = addr (heap epc_using 0) \<and> (\<forall>g d. user epc_using g = Using d 0 \<longrightarrow> g = 0)"
    using epc_socket_exclusive [of 1 20 "\<lambda>e. new_endpoint 0 (Timespec 0 0)" "\<lambda>k. 0" "[]" epc_using 0 0 0]
    by (simp add: epc0_def)
  moreover have "user epc_using 0 = Using 0 0" "addr (heap epc_using 0) = 80" by (simp_all add: epc_using_def epc_eval)
  ultimately have "user epc_using 0 = Using 0 0 \<and> peer epc_using 0 = 80" "user epc_using 1 = Using 0 0 \<Longrightarrow> 1 = (0 :: nat)"
    by auto
  then show ?thesis by auto
qed

text \<open>
  C16: no wake-up is lost as long as the connections to the endpoint can be made: while a fiber waits for
  a free connection of an endpoint, some fiber connects to it or uses it, and when this fiber finishes,
  the waiting one is woken.
\<close>
theorem epc_waiter_is_woken:
  assumes "epc_run (new_cluster m freq h ps) fails c" "0 < m" "user c f = Wait_Endpoint e" "e \<notin> set fails"
  shows "\<exists>g. busy e (user c g) \<and>
    (\<forall>k now res. user c g = Using e k \<longrightarrow> user (finished now g e k res c) f = Woken_Endpoint e)"
proof -
  have m: "0 \<le> m" using assms(2) by simp
  note inv = epc_reached [OF assms(1) m]
  have al: "alive e c" "e < next_eid c"
    using assms(3) id_bound [OF inv(1), of e f] by (auto simp: alive_def intro: exI [of _ f])
  have "m \<le> outstanding_requests (heap c e)" using inv assms(3) by (auto simp: epc_inv_def wait_inv_def)
  moreover have "outstanding_requests (heap c e) = int (card (busy_fibers e c))"
    using inv(1) al assms(4) by (simp add: epc_inv_def count_inv_def count_list_0_iff)
  ultimately have "busy_fibers e c \<noteq> {}" using assms(2) by auto
  then obtain g where g: "busy e (user c g)" by (auto simp: busy_fibers_def)
  then have "f \<noteq> g" using assms(3) by auto
  have "user (finished now g e k res c) f = Woken_Endpoint e" if "user c g = Using e k" for k now res
  proof -
    have "refers e (user (goto g Away c) f)" using assms(3) \<open>f \<noteq> g\<close> by simp
    then have "alive e (goto g Away c)" unfolding alive_def by blast
    then have "user (cleanup now e k b b' (goto g Away c)) f = Woken_Endpoint e" for b b'
      using assms(3) \<open>f \<noteq> g\<close> by (simp add: cleanup_def Let_def)
    then show ?thesis by (simp add: finished_def Let_def split: option.split)
  qed
  then show ?thesis using g by blast
qed

theorem epc_waiter_is_woken_witness:
  "user epc_waiting 1 = Wait_Endpoint 0 \<and> (\<exists>g. busy 0 (user epc_waiting g))"
proof -
  have w: "user epc_waiting 1 = Wait_Endpoint 0" by (simp add: epc_eval)
  have "0 \<notin> set ([] :: nat list)" by simp
  from epc_waiter_is_woken [OF epc_waiting_run [unfolded epc0_def] zero_less_one w this]
  obtain g where "busy 0 (user epc_waiting g)" by (elim exE conjE) (rule that)
  then have "\<exists>g. busy 0 (user epc_waiting g)" by (rule exI)
  with w show ?thesis by (rule conjI)
qed

text \<open>
  the wake-up is lost when a connection cannot be made: a state can be reached in which a fiber waits for a
  free connection of an endpoint and will wait in every later state, whatever all the
  fibers do.
\<close>
theorem epc_waiter_stuck:
  "\<exists>c. epc_run epc0 [0] c \<and> user c 1 = Wait_Endpoint 0 \<and>
     (\<forall>es c'. epc_run c es c' \<longrightarrow> user c' 1 = Wait_Endpoint 0)"
proof -
  let ?c = "connect_failed 0 0 epc_waiting"
  have "epc_step epc_waiting (Some 0) ?c" by (rule epc_step.intros) (simp add: epc_eval)
  then have run: "epc_run epc0 [0] ?c" using epc_more [OF epc_waiting_run, of "Some 0"] by simp
  have "stuck ?c" by (auto simp: stuck_def epc_eval split: if_splits)
  moreover have "epc_inv [0] ?c"
    by (rule epc_reached(1) [OF run [unfolded epc0_def]]) simp
  ultimately have "stuck c'" if "epc_run ?c es c'" for es c' using stuck_run [OF that] by blast
  then show ?thesis using run \<open>stuck ?c\<close> by (intro exI [of _ ?c]) (auto simp: stuck_def)
qed

lemma not_older: "now \<le> t \<Longrightarrow> 0 \<le> n \<Longrightarrow> \<not> t < timespec_minus_seconds now n"
  by (cases "n = 0") (auto simp: timespec_order timespec_minus_seconds_def split: if_splits)

lemma update_endpoints_Some:
  assumes "epc_inv fails c" "as \<noteq> []" "0 \<le> lookup_frequency c" "now \<le> t"
  defines "oldest \<equiv> timespec_minus_seconds now (lookup_frequency c * 10)"
  obtains h m where "map_ok m h (next_eid (update_endpoints now t t' (Some as) c))"
    "heap (update_endpoints now t t' (Some as) c) = h"
    "endpoints (update_endpoints now t t' (Some as) c) = map snd m"
    "fst ` set m = set as \<union> {addr (heap c e) | e. e \<in> set (endpoints c) \<and> \<not> last_lookup (heap c e) < oldest}"
    "\<And>e. e \<in> set (endpoints c) \<Longrightarrow>
       (e \<in> snd ` set m \<longleftrightarrow> addr (heap c e) \<in> set as \<or> \<not> last_lookup (heap c e) < oldest) \<and>
       h e = (heap c e)\<lparr>last_lookup := if addr (heap c e) \<in> set as then now else last_lookup (heap c e)\<rparr>"
proof -
  let ?m0 = "known_endpoints (heap c) (endpoints c) []" and ?n0 = "next_eid c"
  obtain m h n where run: "add_addresses now t as ?m0 (heap c) ?n0 = (m, h, n)"
    by (cases "add_addresses now t as ?m0 (heap c) ?n0")
  have ids: "ids_inv fails c" using assms(1) by (simp add: epc_inv_def)
  have m0: "set ?m0 = (\<lambda>e. (addr (heap c e), e)) ` set (endpoints c)"
    using known_endpoints_set [of "heap c" "endpoints c" "[]"] ids by (simp add: ids_inv_def)
  then have ok0: "map_ok ?m0 (heap c) ?n0"
    using ids known_endpoints_sorted [of "[]" "heap c"] by (auto simp: map_ok_def ids_inv_def)
  note spec = add_addresses_spec [OF ok0 run]
  have ok: "map_ok m h n" using spec by (elim conjE)
  have sub: "set ?m0 \<subseteq> set m" using spec by (elim conjE)
  have keys: "fst ` set m = fst ` set ?m0 \<union> set as" using spec by (elim conjE)
  have newer: "\<forall>(a, e) \<in> set m - set ?m0. ?n0 \<le> e \<and> h e \<in> {new_endpoint a t, new_endpoint a now}"
    using spec by (elim conjE)
  define fresh where "fresh e \<longleftrightarrow> \<not> last_lookup (h e) < oldest" for e
  let ?f = "filter (\<lambda>(a, e). fresh e) m"
  have now: "\<not> t < oldest" "\<not> now < oldest" using not_older [of now] assms(3,4) by (simp_all add: oldest_def)
  have old: "h e = (heap c e)\<lparr>last_lookup := if addr (heap c e) \<in> set as then now else last_lookup (heap c e)\<rparr>"
    if e: "e \<in> set (endpoints c)" for e
  proof -
    have "e < ?n0" using ids e by (auto simp: ids_inv_def)
    moreover have "\<forall>e < ?n0. h e = (heap c e)\<lparr>last_lookup := if \<exists>a \<in> set as. (a, e) \<in> set ?m0 then now
        else last_lookup (heap c e)\<rparr>" using spec by (elim conjE)
    moreover have "(\<exists>a \<in> set as. (a, e) \<in> set ?m0) \<longleftrightarrow> addr (heap c e) \<in> set as" using m0 e by auto
    ultimately show ?thesis by simp
  qed
  have fresh: "fresh e \<longleftrightarrow> addr (heap c e) \<in> set as \<or> \<not> last_lookup (heap c e) < oldest"
    if "e \<in> set (endpoints c)" for e using old [OF that] now by (simp add: fresh_def)
  have made: "fresh e" if "(a, e) \<in> set m - set ?m0" for a e
  proof -
    have "h e \<in> {new_endpoint a t, new_endpoint a now}" using newer that by blast
    then show ?thesis using now by (auto simp: fresh_def new_endpoint_def)
  qed
  have split: "(a, e) \<in> set m \<Longrightarrow> (a, e) \<in> set m - set ?m0 \<or> e \<in> set (endpoints c) \<and> a = addr (heap c e)" for a e
    using m0 by auto
  have c': "endpoints (update_endpoints now t t' (Some as) c) = map snd ?f"
    "heap (update_endpoints now t t' (Some as) c) = h" "next_eid (update_endpoints now t t' (Some as) c) = n"
    using assms(2) run by (cases as; simp add: update_endpoints_def Let_def fresh_def oldest_def case_prod_beta)+
  show ?thesis
  proof (rule that)
    show "map_ok ?f h (next_eid (update_endpoints now t t' (Some as) c))"
      using ok unfolding c' by (auto simp: map_ok_def sorted_wrt_filter sorted_wrt_map)
    show "fst ` set ?f = set as \<union> {addr (heap c e) | e. e \<in> set (endpoints c) \<and> \<not> last_lookup (heap c e) < oldest}"
    proof (intro equalityI subsetI)
      fix a assume "a \<in> fst ` set ?f"
      then obtain e where e: "(a, e) \<in> set m" "fresh e" by auto
      then have "a \<in> fst ` set ?m0 \<union> set as" using keys by force
      moreover have "a \<in> set as" if "a \<notin> fst ` set ?m0" using that calculation by blast
      moreover have "e \<in> set (endpoints c) \<and> a = addr (heap c e)" if a: "a \<in> fst ` set ?m0"
      proof -
        obtain d where d: "(a, d) \<in> set ?m0" using a by auto
        then have "d = e" using map_ok_of [OF ok] sub e(1) by (metis option.inject subsetD)
        then show ?thesis using d m0 by auto
      qed
      ultimately show "a \<in> set as \<union> {addr (heap c e) | e. e \<in> set (endpoints c) \<and> \<not> last_lookup (heap c e) < oldest}"
        using fresh [of e] e(2) by (cases "a \<in> fst ` set ?m0") auto
    next
      fix a assume "a \<in> set as \<union> {addr (heap c e) | e. e \<in> set (endpoints c) \<and> \<not> last_lookup (heap c e) < oldest}"
      then consider "a \<in> set as" | e where "e \<in> set (endpoints c)" "a = addr (heap c e)" "fresh e" using fresh by blast
      then have "\<exists>e. (a, e) \<in> set m \<and> fresh e"
      proof cases
        case 1
        then obtain e where e: "(a, e) \<in> set m" using keys by force
        have "fresh e" using split [OF e] made fresh 1 by blast
        then show ?thesis using e by blast
      next
        case 2
        then show ?thesis using m0 sub by blast
      qed
      then show "a \<in> fst ` set ?f" by force
    qed
    show "(e \<in> snd ` set ?f \<longleftrightarrow> addr (heap c e) \<in> set as \<or> \<not> last_lookup (heap c e) < oldest) \<and>
       h e = (heap c e)\<lparr>last_lookup := if addr (heap c e) \<in> set as then now else last_lookup (heap c e)\<rparr>"
      if e: "e \<in> set (endpoints c)" for e
    proof -
      have "(addr (heap c e), e) \<in> set m" using m0 sub e by blast
      then have "e \<in> snd ` set ?f \<longleftrightarrow> fresh e" by force
      then show ?thesis using old [OF e] fresh [OF e] by simp
    qed
  qed (rule c')+
qed

text \<open>
  after a lookup that returns addresses, the endpoints are sorted by address, one for each address
  that was returned or that was returned by a lookup in the last ten lookup periods; known endpoints stay
  the same objects with their sockets and counters, and every fiber that waited for
  the lookup is woken.
\<close>
theorem epc_update_exact:
  fixes c :: "('a::linorder, 'f) cluster" and t' :: timespec
  assumes "epc_run (new_cluster m freq h ps) fails c" "0 \<le> m" "as \<noteq> []" "0 \<le> lookup_frequency c" "now \<le> t"
  defines "oldest \<equiv> timespec_minus_seconds now (lookup_frequency c * 10)"
  defines "c' \<equiv> update_endpoints now t t' (Some as) c"
  shows "sorted_wrt (<) (map (\<lambda>e. addr (heap c' e)) (endpoints c')) \<and>
    (\<lambda>e. addr (heap c' e)) ` set (endpoints c') =
      set as \<union> {addr (heap c e) | e. e \<in> set (endpoints c) \<and> \<not> last_lookup (heap c e) < oldest} \<and>
    (\<forall>e \<in> set (endpoints c).
       (e \<in> set (endpoints c') \<longleftrightarrow> addr (heap c e) \<in> set as \<or> \<not> last_lookup (heap c e) < oldest) \<and>
       heap c' e = (heap c e)\<lparr>last_lookup := if addr (heap c e) \<in> set as then now else last_lookup (heap c e)\<rparr>) \<and>
    (\<forall>f. user c' f \<noteq> Wait_Lookup \<and> (user c f = Wait_Lookup \<longrightarrow> user c' f = Woken_Lookup))"
proof -
  have inv: "epc_inv fails c" by (rule epc_reached [OF assms(1,2)])
  obtain k es where ok: "map_ok es k (next_eid c')" "heap c' = k" "endpoints c' = map snd es"
    "fst ` set es = set as \<union> {addr (heap c e) | e. e \<in> set (endpoints c) \<and> \<not> last_lookup (heap c e) < oldest}"
    and old: "\<And>e. e \<in> set (endpoints c) \<Longrightarrow>
       (e \<in> snd ` set es \<longleftrightarrow> addr (heap c e) \<in> set as \<or> \<not> last_lookup (heap c e) < oldest) \<and>
       k e = (heap c e)\<lparr>last_lookup := if addr (heap c e) \<in> set as then now else last_lookup (heap c e)\<rparr>"
    by (rule update_endpoints_Some [OF inv assms(3-5), of t', folded c'_def oldest_def]) (rule that)
  have addrs: "map (\<lambda>e. addr (heap c' e)) (endpoints c') = map fst es"
    using ok(1) by (auto simp: ok(2,3) map_ok_def)
  then have "(\<lambda>e. addr (heap c' e)) ` set (endpoints c') = fst ` set es" by (metis set_map)
  moreover have "user c' f = (if user c f = Wait_Lookup then Woken_Lookup else user c f)" for f
    by (cases as) (auto simp: c'_def update_endpoints_def Let_def split: prod.split)
  moreover have "sorted_wrt (<) (map (\<lambda>e. addr (heap c' e)) (endpoints c'))"
    using ok(1) unfolding addrs by (simp add: map_ok_def)
  moreover note ok(4)
  moreover have "e \<in> set (endpoints c') \<longleftrightarrow> e \<in> snd ` set es" for e by (simp add: ok(3))
  ultimately show ?thesis using old unfolding addrs [symmetric] ok(2) by simp
qed

theorem epc_update_exact_witness:
  "endpoints (update_endpoints (Timespec 300 0) (Timespec 300 0) (Timespec 300 0) (Some [81, 79]) epc_looked_up) = [2, 1]"
proof -
  let ?c = "update_endpoints (Timespec 300 0) (Timespec 300 0) (Timespec 300 0) (Some [81, 79]) epc_looked_up"
  have "0 \<notin> set (endpoints ?c)"
    using epc_update_exact [OF epc_looked_up_run [unfolded epc0_def], of "[81, 79]" "Timespec 300 0" "Timespec 300 0" "Timespec 300 0"]
    by (simp add: epc_eval)
  then show ?thesis by (simp add: epc_eval)
qed

text \<open>
  C17: a call that fails with an I/O error each time is attempted eleven times, with ten sleeps between the
  attempts which take at least 38 and less than 64 seconds together, and then throws
  the error; whatever further attempts would give is not asked for.
\<close>
theorem retry_bounded:
  assumes "length rs = 11"
  shows "\<exists>sleeps. with_connected_pipe 50 (map (\<lambda>ri. (A_Io_Error, ri)) rs @ as) = (R_Throws A_Io_Error, sleeps) \<and>
    length sleeps = 10 \<and> 38000 \<le> sum_list sleeps \<and> sum_list sleeps < 64000"
proof -
  have "(\<Sum>i<10. 50 * 2 ^ (9 - i) * 3 div 4 + 50 * 2 ^ (9 - i) div 2 :: int) = 63937"
    "(\<Sum>i<10. 50 * 2 ^ (9 - i) * 3 div 4 :: int) = 38362"
    by (simp_all add: lessThan_atLeast0 atLeast0_lessThan_Suc eval_nat_numeral)
  then show ?thesis using retry_io_errors [of 10 rs as] assms by fastforce
qed

theorem retry_bounded_witness:
  "\<exists>sleeps. with_connected_pipe 50 (map (\<lambda>ri. (A_Io_Error, ri)) (replicate 11 7)) = (R_Throws A_Io_Error, sleeps) \<and>
    length sleeps = 10"
  using retry_bounded [of "replicate 11 7" "[]"] by auto

end
