(* ===== verification/Dns_Cache.thy ===== *)
theory Dns_Cache
  imports Prelude Systems Time_Utils "HOL-Library.Multiset"
begin

text \<open>
  The cache of resolved hosts, \<open>src/cpp/dns_cache.cpp\<close>: an entry per host in one of four states, the
  lookups in progress with their pointers to entries, and the callers that wait.  Entries are objects
  on a heap, since a lookup keeps a raw pointer to its entry while the map may erase it; an access
  through a pointer to an erased entry is \<^theory_text>\<open>None\<close>.  Everything that runs under \<open>dns_map_mutex\<close> is one step.
  A callback is named by the number of the call that brought it; starting a fiber for it is an
  element of the list \<^theory_text>\<open>started\<close>, the newest last.  \<open>getaddrinfo_a\<close> and the clock are parameters.
\<close>

section \<open>States\<close>

record sockaddr =
  v6 :: bool
  sin_port :: u16
  sin_addr :: "byte list"

text \<open>The lambdas of \<open>resolve_complete\<close> and \<open>lookup_and_run\<close> put the port, by \<open>htons\<close>, into the copy
  of the address.\<close>

definition with_port :: "int \<Rightarrow> sockaddr \<Rightarrow> sockaddr" where
  "with_port port a = a\<lparr>sin_port := word_of_int port\<rparr>"

datatype dns_state = K_init | K_in_progress | K_resolved | K_failed_resolve

record dns_addr =
  sock_addr :: sockaddr
  next_avail_time :: timespec
  valid :: bool

record pending_call =
  pc_host :: string
  pc_port :: int
  pc_dnsc :: nat

text \<open>\<open>last_\<close> is an \<open>int\<close> that every cached lookup increments; here it is an integer without bound, so that the
  model is that of the code for the first 2^31 of them.\<close>

record dns_entry =
  addrs :: "dns_addr list"
  pending_callers :: "pending_call list"
  last_index :: int
  dstate :: dns_state
  when_resolved :: timespec

record notify_complete =
  nc_host :: string
  nc_entry :: nat

record answer =
  to_dnsc :: nat
  err_code :: int
  answer_addr :: "sockaddr option"

record dns =
  dns_map :: "string \<Rightarrow> nat option"
  dns_heap :: "nat \<Rightarrow> dns_entry option"
  next_entry :: nat
  lookups :: "notify_complete list"
  started :: "answer list"
  retries :: "(timespec \<times> string \<times> int \<times> nat) list"
  next_sweep :: "timespec option"
  calls_made :: nat
  returned :: "nat list"

definition cache_life_seconds :: int where "cache_life_seconds = 120"

definition time_min :: timespec where "time_min = Timespec (- (2 ^ 63)) 0"

definition dns_forever :: timespec where "dns_forever = Timespec (2 ^ 63 - 1) (1000000000 - 1)"

definition new_addr :: "sockaddr \<Rightarrow> dns_addr" where
  "new_addr a = \<lparr> sock_addr = a, next_avail_time = time_min, valid = True \<rparr>"

text \<open>\<open>when_resolved_\<close> is not initialised.\<close>

definition new_entry :: "timespec \<Rightarrow> dns_entry" where
  "new_entry garbage =
     \<lparr> addrs = [], pending_callers = [], last_index = 0, dstate = K_init, when_resolved = garbage \<rparr>"

definition new_dns :: dns where
  "new_dns = \<lparr> dns_map = (\<lambda>h. None), dns_heap = (\<lambda>e. None), next_entry = 0, lookups = [], started = [],
     retries = [], next_sweep = None, calls_made = 0, returned = [] \<rparr>"

section \<open>Operations\<close>

text \<open>\<open>fiber::run_in_fiber\<close> on a callback.\<close>

definition call_in_fiber :: "nat \<Rightarrow> int \<Rightarrow> sockaddr option \<Rightarrow> dns \<Rightarrow> dns" where
  "call_in_fiber dnsc err a d =
     d\<lparr>started := started d @ [\<lparr> to_dnsc = dnsc, err_code = err, answer_addr = a \<rparr>]\<rparr>"

text \<open>Erasing the node of a host destroys its entry.\<close>

definition map_erase :: "string \<Rightarrow> dns \<Rightarrow> dns" where
  "map_erase host d =
     (case dns_map d host of
        None \<Rightarrow> d
      | Some e \<Rightarrow> d\<lparr>dns_map := (dns_map d)(host := None), dns_heap := (dns_heap d)(e := None)\<rparr>)"

text \<open>The two loops take the pending callers from the back of the vector.\<close>

fun inform_pending :: "int \<Rightarrow> pending_call list \<Rightarrow> dns \<Rightarrow> dns" where
  "inform_pending err [] d = d"
| "inform_pending err (pc # pcs) d = inform_pending err pcs (call_in_fiber (pc_dnsc pc) err None d)"

fun run_pending :: "dns_addr list \<Rightarrow> nat \<Rightarrow> pending_call list \<Rightarrow> dns \<Rightarrow> dns option" where
  "run_pending as i [] d = Some d"
| "run_pending as i (pc # pcs) d =
     (if as = [] then None
      else run_pending as (i + 1) pcs
        (call_in_fiber (pc_dnsc pc) 0 (Some (with_port (pc_port pc) (sock_addr (as ! (i mod length as))))) d))"

datatype gai_result = Gai_in_progress | Gai_error int | Gai_ok "sockaddr list"

definition set_entry :: "nat \<Rightarrow> dns_entry \<Rightarrow> dns \<Rightarrow> dns" where
  "set_entry e x d = d\<lparr>dns_heap := (dns_heap d)(e := Some x)\<rparr>"

definition delete_lookup :: "notify_complete \<Rightarrow> dns \<Rightarrow> dns" where
  "delete_lookup nc d = d\<lparr>lookups := remove1 nc (lookups d)\<rparr>"

definition resolve_complete :: "timespec \<Rightarrow> notify_complete \<Rightarrow> gai_result \<Rightarrow> dns \<Rightarrow> dns option" where
  "resolve_complete now nc ret d =
     (case ret of
        Gai_in_progress \<Rightarrow> Some d
      | Gai_error err \<Rightarrow> do {
          x \<leftarrow> dns_heap d (nc_entry nc);
          let d = set_entry (nc_entry nc) (x\<lparr>dstate := K_failed_resolve, pending_callers := []\<rparr>) d;
          let d = inform_pending err (rev (pending_callers x)) d;
          Some (delete_lookup nc (map_erase (nc_host nc) d)) }
      | Gai_ok as \<Rightarrow> do {
          x \<leftarrow> dns_heap d (nc_entry nc);
          let as = addrs x @ map new_addr as;
          let d = set_entry (nc_entry nc)
            (x\<lparr>addrs := as, when_resolved := now, dstate := K_resolved, pending_callers := []\<rparr>) d;
          d \<leftarrow> run_pending as 0 (rev (pending_callers x)) d;
          Some (delete_lookup nc d) })"

text \<open>How a call comes back: with an address, without one (the callback will be called), or by throwing.
  The first two calls that \<open>initiate_lookup\<close> makes can fail with an error number, the last with
  an error of \<open>getaddrinfo_a\<close>.\<close>

datatype call_end = Immediate sockaddr | Later | Throws

datatype lookup_start = Attr_failed int | Gai_failed int | Gai_started

definition initiate_lookup ::
  "lookup_start \<Rightarrow> string \<Rightarrow> int \<Rightarrow> nat \<Rightarrow> nat \<Rightarrow> dns \<Rightarrow> (call_end \<times> dns) option"
where
  "initiate_lookup st host port dnsc e d = do {
     x \<leftarrow> dns_heap d e;
     let d = set_entry e (x\<lparr>dstate := K_in_progress\<rparr>) d;
     (case st of
        Attr_failed rslt \<Rightarrow> Some (Throws, map_erase host (call_in_fiber dnsc rslt None d))
      | Gai_failed ret \<Rightarrow>
          Some (Throws, map_erase host (call_in_fiber dnsc ret None
            (set_entry e (x\<lparr>dstate := K_in_progress,
               pending_callers := pending_callers x @ [\<lparr> pc_host = host, pc_port = port, pc_dnsc = dnsc \<rparr>]\<rparr>) d)))
      | Gai_started \<Rightarrow>
          Some (Later, (set_entry e (x\<lparr>dstate := K_in_progress,
              pending_callers := pending_callers x @ [\<lparr> pc_host = host, pc_port = port, pc_dnsc = dnsc \<rparr>]\<rparr>) d)
            \<lparr>lookups := lookups d @ [\<lparr> nc_host = host, nc_entry = e \<rparr>]\<rparr>)) }"

text \<open>The sum of two \<open>int\<close> is converted to \<open>size_t\<close> before the remainder is taken.\<close>

definition addr_index :: "int \<Rightarrow> nat \<Rightarrow> nat \<Rightarrow> nat" where
  "addr_index start_index i n = nat ((start_index + int i) mod 2 ^ 64 mod int n)"

fun cache_loop :: "timespec \<Rightarrow> int \<Rightarrow> dns_addr list \<Rightarrow> nat list \<Rightarrow> timespec \<Rightarrow> sockaddr + timespec" where
  "cache_loop now start_index as [] earliest = Inr earliest"
| "cache_loop now start_index as (i # is) earliest =
     (let a = as ! addr_index start_index i (length as)
      in if \<not> valid a then cache_loop now start_index as is earliest
         else if next_avail_time a \<le> now then Inl (sock_addr a)
         else cache_loop now start_index as is (if next_avail_time a < earliest then next_avail_time a else earliest))"

definition call_from_cache ::
  "timespec \<Rightarrow> string \<Rightarrow> int \<Rightarrow> nat \<Rightarrow> nat \<Rightarrow> dns \<Rightarrow> (call_end \<times> dns) option"
where
  "call_from_cache now host port dnsc e d = do {
     x \<leftarrow> dns_heap d e;
     let d = set_entry e (x\<lparr>last_index := last_index x + 1\<rparr>) d;
     (case cache_loop now (last_index x) (addrs x) [0..<length (addrs x)] dns_forever of
        Inl a \<Rightarrow> Some (Immediate a, d)
      | Inr earliest \<Rightarrow> Some (Later, d\<lparr>retries := retries d @ [(earliest, host, port, dnsc)]\<rparr>)) }"

definition dns_call ::
  "timespec \<Rightarrow> lookup_start \<Rightarrow> string \<Rightarrow> int \<Rightarrow> nat \<Rightarrow> nat \<Rightarrow> dns \<Rightarrow> (call_end \<times> dns) option"
where
  "dns_call now st host port dnsc e d = do {
     x \<leftarrow> dns_heap d e;
     (case dstate x of
        K_init \<Rightarrow> initiate_lookup st host port dnsc e d
      | K_in_progress \<Rightarrow>
          Some (Later, set_entry e
            (x\<lparr>pending_callers := pending_callers x @ [\<lparr> pc_host = host, pc_port = port, pc_dnsc = dnsc \<rparr>]\<rparr>) d)
      | K_resolved \<Rightarrow> call_from_cache now host port dnsc e d
      | K_failed_resolve \<Rightarrow> Some (Throws, d)) }"

text \<open>\<open>dns_map[host]\<close> makes an entry when there is none.\<close>

definition map_index :: "timespec \<Rightarrow> string \<Rightarrow> dns \<Rightarrow> nat \<times> dns" where
  "map_index garbage host d =
     (case dns_map d host of
        Some e \<Rightarrow> (e, d)
      | None \<Rightarrow> (next_entry d,
          (set_entry (next_entry d) (new_entry garbage) d)
            \<lparr>dns_map := (dns_map d)(host := Some (next_entry d)), next_entry := next_entry d + 1\<rparr>))"

definition call_host ::
  "timespec \<Rightarrow> timespec \<Rightarrow> lookup_start \<Rightarrow> string \<Rightarrow> int \<Rightarrow> nat \<Rightarrow> dns \<Rightarrow> (call_end \<times> dns) option"
where
  "call_host garbage now st host port dnsc d =
     (case map_index garbage host d of (e, d) \<Rightarrow> dns_call now st host port dnsc e d)"

definition lookup_and_run ::
  "timespec \<Rightarrow> timespec \<Rightarrow> lookup_start \<Rightarrow> string \<Rightarrow> int \<Rightarrow> nat \<Rightarrow> dns \<Rightarrow> (call_end \<times> dns) option"
where
  "lookup_and_run garbage now st host port dnsc d = do {
     (r, d) \<leftarrow> call_host garbage now st host port dnsc d;
     (case r of
        Immediate a \<Rightarrow> Some (r, call_in_fiber dnsc 0 (Some (with_port port a)) d)
      | _ \<Rightarrow> Some (r, d)) }"

text \<open>The variables of \<open>get_addrinfo\<close> that its callback and its caller share: the callback, the call, and
  the end after it or after the callback was called.\<close>

record addrinfo_call =
  ga_ret :: int
  ga_done :: bool
  ga_addr :: "sockaddr option"
  ga_addrlen :: "nat option"

definition ga_dnsc :: "int \<Rightarrow> sockaddr option \<Rightarrow> addrinfo_call \<Rightarrow> addrinfo_call" where
  "ga_dnsc err a g =
     (case a of
        Some s \<Rightarrow> if err = 0
          then g\<lparr>ga_ret := err, ga_addr := Some s, ga_addrlen := Some (if v6 s then 28 else 16), ga_done := True\<rparr>
          else g\<lparr>ga_ret := err, ga_done := True\<rparr>
      | None \<Rightarrow> g\<lparr>ga_ret := err, ga_done := True\<rparr>)"

definition ga_begin ::
  "timespec \<Rightarrow> timespec \<Rightarrow> lookup_start \<Rightarrow> string \<Rightarrow> int \<Rightarrow> nat \<Rightarrow> dns \<Rightarrow> ((call_end \<times> addrinfo_call) \<times> dns) option"
where
  "ga_begin garbage now st host port dnsc d = do {
     (r, d) \<leftarrow> call_host garbage now st host port dnsc d;
     let g = \<lparr> ga_ret = 0, ga_done = False, ga_addr = None, ga_addrlen = None \<rparr>;
     Some ((r, (case r of Immediate a \<Rightarrow> g\<lparr>ga_addr := Some a\<rparr> | _ \<Rightarrow> g)), d) }"

definition ga_end :: "int \<Rightarrow> addrinfo_call \<Rightarrow> addrinfo_call" where
  "ga_end port g = (if ga_ret g = 0 then g\<lparr>ga_addr := map_option (with_port port) (ga_addr g)\<rparr> else g)"

definition sweep_old_cache_entries :: "timespec \<Rightarrow> timespec \<Rightarrow> dns \<Rightarrow> dns" where
  "sweep_old_cache_entries now now' d =
     (let last_valid_time = timespec_minus_seconds now cache_life_seconds;
          old = (\<lambda>e. case dns_heap d e of
                   Some x \<Rightarrow> dstate x = K_resolved \<and> when_resolved x < last_valid_time | None \<Rightarrow> False)
      in d\<lparr>dns_map := (\<lambda>h. case dns_map d h of Some e \<Rightarrow> if old e then None else Some e | None \<Rightarrow> None),
           dns_heap := (\<lambda>e. if old e then None else dns_heap d e),
           next_sweep := Some (timespec_plus_seconds now' (cache_life_seconds div 2))\<rparr>)"

definition dns_initialize :: "timespec \<Rightarrow> timespec \<Rightarrow> dns \<Rightarrow> dns" where
  "dns_initialize = sweep_old_cache_entries"

definition dns_terminate :: "dns \<Rightarrow> dns" where
  "dns_terminate d = d\<lparr>next_sweep := None\<rparr>"


text \<open>A call of either function by an application; a lookup that completes; the tasks that were
  scheduled.  The calls are counted, and those of \<open>get_addrinfo\<close> that got their address at once are listed.\<close>

definition clock_ok :: "timespec \<Rightarrow> bool" where
  "clock_ok now \<longleftrightarrow> time_min \<le> now"

inductive dns_step :: "dns \<Rightarrow> dns \<Rightarrow> bool" where
  step_lookup_and_run:
    "clock_ok now \<Longrightarrow> lookup_and_run garbage now st host port (calls_made d) d = Some (r, d') \<Longrightarrow>
     dns_step d (d'\<lparr>calls_made := calls_made d' + 1\<rparr>)"
| step_get_addrinfo:
    "clock_ok now \<Longrightarrow> ga_begin garbage now st host port (calls_made d) d = Some ((r, g), d') \<Longrightarrow>
     dns_step d (d'\<lparr>calls_made := calls_made d' + 1,
       returned := (case r of Immediate a \<Rightarrow> returned d' @ [calls_made d] | _ \<Rightarrow> returned d')\<rparr>)"
| step_resolve:
    "nc \<in> set (lookups d) \<Longrightarrow> resolve_complete now nc ret d = Some d' \<Longrightarrow> ret \<noteq> Gai_ok [] \<Longrightarrow> dns_step d d'"
| step_sweep: "dns_step d (sweep_old_cache_entries now now' d)"
| step_terminate: "dns_step d (dns_terminate d)"
| step_retry:
    "(t, host, port, dnsc) \<in> set (retries d) \<Longrightarrow> t \<le> now \<Longrightarrow>
     lookup_and_run garbage now st host port dnsc (d\<lparr>retries := remove1 (t, host, port, dnsc) (retries d)\<rparr>) = Some (r, d') \<Longrightarrow>
     dns_step d d'"

section \<open>The invariant\<close>

definition entry_ok :: "dns \<Rightarrow> nat \<Rightarrow> dns_entry \<Rightarrow> bool" where
  "entry_ok d e x \<longleftrightarrow>
     (case dstate x of
        K_in_progress \<Rightarrow> addrs x = [] \<and> last_index x = 0 \<and> e \<in> nc_entry ` set (lookups d)
      | K_resolved \<Rightarrow> pending_callers x = [] \<and> addrs x \<noteq> [] \<and> 0 \<le> last_index x \<and>
          (\<forall>a \<in> set (addrs x). valid a \<and> next_avail_time a = time_min)
      | _ \<Rightarrow> False)"

definition dns_ok :: "dns \<Rightarrow> bool" where
  "dns_ok d \<longleftrightarrow>
     (\<forall>h e. dns_map d h = Some e \<longrightarrow> e < next_entry d \<and> dns_heap d e \<noteq> None) \<and>
     (\<forall>h h' e. dns_map d h = Some e \<and> dns_map d h' = Some e \<longrightarrow> h = h') \<and>
     (\<forall>e x. dns_heap d e = Some x \<longrightarrow> entry_ok d e x \<and> (\<exists>h. dns_map d h = Some e)) \<and>
     (\<forall>nc \<in> set (lookups d). dns_map d (nc_host nc) = Some (nc_entry nc) \<and>
        map_option dstate (dns_heap d (nc_entry nc)) = Some K_in_progress) \<and>
     distinct (lookups d) \<and> retries d = []"

definition pending_of :: "dns \<Rightarrow> nat \<Rightarrow> nat multiset" where
  "pending_of d e = (case dns_heap d e of Some x \<Rightarrow> mset (map pc_dnsc (pending_callers x)) | None \<Rightarrow> {#})"

definition pending_calls :: "dns \<Rightarrow> nat multiset" where
  "pending_calls d = (\<Sum>nc \<in># mset (lookups d). pending_of d (nc_entry nc))"

definition accounted :: "dns \<Rightarrow> nat multiset" where
  "accounted d = mset (map to_dnsc (started d)) + pending_calls d + mset (returned d)"

definition dns_inv :: "dns \<Rightarrow> bool" where
  "dns_inv d \<longleftrightarrow> dns_ok d \<and> accounted d = mset [0..<calls_made d]"

lemma dns_inv_init: "dns_inv new_dns"
  by (simp add: dns_inv_def dns_ok_def new_dns_def accounted_def pending_calls_def)

lemma dns_ok_map: "dns_ok d \<Longrightarrow> dns_map d h = Some e \<Longrightarrow> e < next_entry d \<and> dns_heap d e \<noteq> None"
  unfolding dns_ok_def by blast

lemma dns_ok_host: "dns_ok d \<Longrightarrow> dns_map d h = Some e \<Longrightarrow> dns_map d h' = Some e \<Longrightarrow> h = h'"
  unfolding dns_ok_def by blast

lemma dns_ok_heap: "dns_ok d \<Longrightarrow> dns_heap d e = Some x \<Longrightarrow> entry_ok d e x \<and> (\<exists>h. dns_map d h = Some e)"
  unfolding dns_ok_def by blast

lemma dns_ok_lookup: "dns_ok d \<Longrightarrow> nc \<in> set (lookups d) \<Longrightarrow>
    dns_map d (nc_host nc) = Some (nc_entry nc) \<and> map_option dstate (dns_heap d (nc_entry nc)) = Some K_in_progress"
  unfolding dns_ok_def by blast

lemma dns_ok_rest: "dns_ok d \<Longrightarrow> distinct (lookups d) \<and> retries d = []"
  unfolding dns_ok_def by blast

lemma dns_okI:
  assumes "\<And>h e. dns_map d h = Some e \<Longrightarrow> e < next_entry d \<and> dns_heap d e \<noteq> None"
    "\<And>h h' e. dns_map d h = Some e \<Longrightarrow> dns_map d h' = Some e \<Longrightarrow> h = h'"
    "\<And>e x. dns_heap d e = Some x \<Longrightarrow> entry_ok d e x"
    "\<And>e x. dns_heap d e = Some x \<Longrightarrow> \<exists>h. dns_map d h = Some e"
    "\<And>nc. nc \<in> set (lookups d) \<Longrightarrow>
       dns_map d (nc_host nc) = Some (nc_entry nc) \<and> map_option dstate (dns_heap d (nc_entry nc)) = Some K_in_progress"
    "distinct (lookups d)" "retries d = []"
  shows "dns_ok d"
  unfolding dns_ok_def using assms by blast

lemma entry_ok_mono:
  "entry_ok d e x \<Longrightarrow> (e \<in> nc_entry ` set (lookups d) \<Longrightarrow> e \<in> nc_entry ` set (lookups d')) \<Longrightarrow> entry_ok d' e x"
  by (auto simp: entry_ok_def split: dns_state.splits)

lemma dns_ok_nc:
  assumes "dns_ok d" "nc \<in> set (lookups d)"
  obtains x where "dns_heap d (nc_entry nc) = Some x" "dstate x = K_in_progress" "addrs x = []" "last_index x = 0"
    "dns_map d (nc_host nc) = Some (nc_entry nc)"
proof -
  have "map_option dstate (dns_heap d (nc_entry nc)) = Some K_in_progress" "dns_map d (nc_host nc) = Some (nc_entry nc)"
    using assms by (auto simp: dns_ok_def)
  moreover from this obtain x where "dns_heap d (nc_entry nc) = Some x" "dstate x = K_in_progress" by auto
  moreover from this have "entry_ok d (nc_entry nc) x" using assms(1) by (auto simp: dns_ok_def)
  ultimately show ?thesis using that by (auto simp: entry_ok_def)
qed

lemma dns_ok_inj:
  assumes "dns_ok d" "nc \<in> set (lookups d)" "nc' \<in> set (lookups d)" "nc_entry nc = nc_entry nc'"
  shows "nc = nc'"
proof -
  have "dns_map d (nc_host nc) = Some (nc_entry nc)" "dns_map d (nc_host nc') = Some (nc_entry nc')"
    using assms(1-3) by (auto simp: dns_ok_def)
  then have "nc_host nc = nc_host nc'" using assms(1,4) unfolding dns_ok_def by metis
  then show ?thesis using assms(4) by simp
qed

text \<open>The sum over the lookups, of which one is singled out.\<close>

lemma pending_calls_split:
  assumes "dns_ok d" "nc \<in> set (lookups d)"
  shows "pending_calls d = pending_of d (nc_entry nc) + (\<Sum>nc' \<in># mset (remove1 nc (lookups d)). pending_of d (nc_entry nc'))"
proof -
  obtain M where "mset (lookups d) = add_mset nc M" using assms(2) by (metis in_multiset_in_set multi_member_split)
  then show ?thesis by (simp add: pending_calls_def)
qed

lemma pending_sum_cong:
  assumes "dns_ok d" "nc \<in> set (lookups d)" "\<And>e. e \<noteq> nc_entry nc \<Longrightarrow> dns_heap d' e = dns_heap d e"
  shows "(\<Sum>nc' \<in># mset (remove1 nc (lookups d)). pending_of d' (nc_entry nc')) =
    (\<Sum>nc' \<in># mset (remove1 nc (lookups d)). pending_of d (nc_entry nc'))"
proof (intro arg_cong [where f = sum_mset] image_mset_cong)
  fix nc' assume a: "nc' \<in># mset (remove1 nc (lookups d))"
  have "distinct (lookups d)" using assms(1) by (simp add: dns_ok_def)
  then have "nc' \<in> set (lookups d)" "nc' \<noteq> nc" using a by (auto simp del: mset_remove1)
  then have "nc_entry nc' \<noteq> nc_entry nc" using dns_ok_inj [OF assms(1) _ assms(2)] by blast
  then show "pending_of d' (nc_entry nc') = pending_of d (nc_entry nc')" by (simp add: pending_of_def assms(3))
qed

subsection \<open>Completion of a lookup\<close>

lemma inform_pending_simp:
  "inform_pending err pcs d = d\<lparr>started := started d @
     map (\<lambda>pc. \<lparr> to_dnsc = pc_dnsc pc, err_code = err, answer_addr = None \<rparr>) pcs\<rparr>"
  by (induction err pcs d rule: inform_pending.induct) (simp_all add: call_in_fiber_def)

definition pending_answer :: "dns_addr list \<Rightarrow> nat \<Rightarrow> pending_call \<Rightarrow> answer" where
  "pending_answer as i pc = \<lparr> to_dnsc = pc_dnsc pc, err_code = 0,
     answer_addr = Some (with_port (pc_port pc) (sock_addr (as ! (i mod length as)))) \<rparr>"

lemma run_pending_simp:
  "as \<noteq> [] \<Longrightarrow> run_pending as i pcs d = Some (d\<lparr>started := started d @
     map (\<lambda>(j, pc). pending_answer as j pc) (enumerate i pcs)\<rparr>)"
  by (induction as i pcs d rule: run_pending.induct) (simp_all add: call_in_fiber_def pending_answer_def)

lemma run_pending_dnsc: "map to_dnsc (map (\<lambda>(j, pc). pending_answer as j pc) (enumerate i pcs)) = map pc_dnsc pcs"
  by (induction pcs arbitrary: i) (simp_all add: pending_answer_def)

lemma resolve_failed:
  assumes "dns_ok d" "nc \<in> set (lookups d)" "resolve_complete now nc (Gai_error err) d = Some d'"
  shows "dns_ok d' \<and> accounted d' = accounted d \<and> calls_made d' = calls_made d"
proof -
  obtain x where x: "dns_heap d (nc_entry nc) = Some x" "dstate x = K_in_progress"
    "dns_map d (nc_host nc) = Some (nc_entry nc)" by (rule dns_ok_nc [OF assms(1,2)])
  have d': "d' = d\<lparr>started := started d @
        map (\<lambda>pc. \<lparr> to_dnsc = pc_dnsc pc, err_code = err, answer_addr = None \<rparr>) (rev (pending_callers x)),
      dns_map := (dns_map d)(nc_host nc := None), dns_heap := (dns_heap d)(nc_entry nc := None),
      lookups := remove1 nc (lookups d)\<rparr>"
    using assms(3) x
    by (auto simp: resolve_complete_def inform_pending_simp set_entry_def map_erase_def delete_lookup_def)
  have look: "set (lookups d') = set (lookups d) - {nc}" using assms(1) by (simp add: d' dns_ok_def)
  have other: "nc' \<in> set (lookups d') \<Longrightarrow> nc_entry nc' \<noteq> nc_entry nc" for nc'
    using look dns_ok_inj [OF assms(1) _ assms(2)] by auto
  have "dns_ok d'"
  proof (rule dns_okI)
    fix h e assume "dns_map d' h = Some e"
    then have h: "dns_map d h = Some e" "h \<noteq> nc_host nc" by (auto simp: d' split: if_splits)
    then have "e \<noteq> nc_entry nc" using dns_ok_host [OF assms(1) h(1), of "nc_host nc"] x(3) by auto
    then show "e < next_entry d' \<and> dns_heap d' e \<noteq> None" using dns_ok_map [OF assms(1) h(1)] by (simp add: d')
  next
    fix h h' e assume "dns_map d' h = Some e" "dns_map d' h' = Some e"
    then have "dns_map d h = Some e" "dns_map d h' = Some e" by (auto simp: d' split: if_splits)
    then show "h = h'" by (rule dns_ok_host [OF assms(1)])
  next
    fix e y assume "dns_heap d' e = Some y"
    then have e: "dns_heap d e = Some y" "e \<noteq> nc_entry nc" by (auto simp: d' split: if_splits)
    then have "e \<in> nc_entry ` set (lookups d) \<Longrightarrow> e \<in> nc_entry ` set (lookups d')" using look by auto
    then show "entry_ok d' e y" using dns_ok_heap [OF assms(1) e(1)] entry_ok_mono by blast
    obtain h where "dns_map d h = Some e" using dns_ok_heap [OF assms(1) e(1)] by blast
    moreover from this have "h \<noteq> nc_host nc" using e(2) x(3) by auto
    ultimately show "\<exists>h. dns_map d' h = Some e" by (intro exI [of _ h]) (simp add: d')
  next
    fix nc' assume n: "nc' \<in> set (lookups d')"
    then have m: "dns_map d (nc_host nc') = Some (nc_entry nc')" "map_option dstate (dns_heap d (nc_entry nc')) = Some K_in_progress"
      using look dns_ok_lookup [OF assms(1)] by auto
    moreover have "nc_host nc' \<noteq> nc_host nc" using m(1) x(3) other [OF n] by auto
    ultimately show "dns_map d' (nc_host nc') = Some (nc_entry nc') \<and>
        map_option dstate (dns_heap d' (nc_entry nc')) = Some K_in_progress" using other [OF n] by (simp add: d')
  qed (use dns_ok_rest [OF assms(1)] in \<open>simp_all add: d'\<close>)
  moreover have "pending_calls d = pending_of d (nc_entry nc) + pending_calls d'"
    using pending_calls_split [OF assms(1,2)] pending_sum_cong [OF assms(1,2), of d']
    by (simp add: pending_calls_def d')
  then have "accounted d' = accounted d"
    by (simp add: accounted_def d' pending_of_def x(1) comp_def pending_calls_def)
  ultimately show ?thesis by (simp add: d')
qed

text \<open>Another value of an entry that is in the map.\<close>

lemma dns_ok_update:
  assumes "dns_ok d" "dns_heap d e = Some x" "dns_map d' = dns_map d" "dns_heap d' = (dns_heap d)(e := Some x')"
    "next_entry d' = next_entry d" "retries d' = retries d" "distinct (lookups d')"
    "set (lookups d') \<subseteq> set (lookups d)"
    "\<And>nc. nc \<in> set (lookups d) \<Longrightarrow> nc_entry nc \<noteq> e \<Longrightarrow> nc \<in> set (lookups d')"
    "\<And>nc. nc \<in> set (lookups d') \<Longrightarrow> nc_entry nc = e \<Longrightarrow> dstate x' = K_in_progress"
    "entry_ok d' e x'"
  shows "dns_ok d'"
proof (rule dns_okI)
  fix h e' assume "dns_map d' h = Some e'"
  then show "e' < next_entry d' \<and> dns_heap d' e' \<noteq> None"
    using dns_ok_map [OF assms(1), of h e'] by (simp add: assms(3-5))
next
  fix h h' e' assume "dns_map d' h = Some e'" "dns_map d' h' = Some e'"
  then show "h = h'" using dns_ok_host [OF assms(1)] by (simp add: assms(3))
next
  fix e' y assume y: "dns_heap d' e' = Some y"
  show "entry_ok d' e' y"
  proof (cases "e' = e")
    case True
    then show ?thesis using y assms(11) by (simp add: assms(4))
  next
    case False
    then have "entry_ok d e' y" using y dns_ok_heap [OF assms(1)] by (simp add: assms(4))
    moreover have "e' \<in> nc_entry ` set (lookups d) \<Longrightarrow> e' \<in> nc_entry ` set (lookups d')"
      using assms(9) False by auto
    ultimately show ?thesis by (rule entry_ok_mono)
  qed
  have "\<exists>x. dns_heap d e' = Some x" using y assms(2) by (cases "e' = e") (simp_all add: assms(4))
  then show "\<exists>h. dns_map d' h = Some e'" using dns_ok_heap [OF assms(1)] by (auto simp: assms(3))
next
  fix nc assume nc: "nc \<in> set (lookups d')"
  then have "nc \<in> set (lookups d)" using assms(8) by blast
  then show "dns_map d' (nc_host nc) = Some (nc_entry nc) \<and> map_option dstate (dns_heap d' (nc_entry nc)) = Some K_in_progress"
    using dns_ok_lookup [OF assms(1)] assms(10) nc by (cases "nc_entry nc = e") (simp_all add: assms(3,4))
qed (use assms(6,7) dns_ok_rest [OF assms(1)] in simp_all)

lemma resolve_succeeded:
  assumes "dns_ok d" "nc \<in> set (lookups d)" "resolve_complete now nc (Gai_ok as) d = Some d'" "as \<noteq> []"
  shows "dns_ok d' \<and> accounted d' = accounted d \<and> calls_made d' = calls_made d"
proof -
  obtain x where x: "dns_heap d (nc_entry nc) = Some x" "dstate x = K_in_progress" "addrs x = []" "last_index x = 0"
    by (rule dns_ok_nc [OF assms(1,2)])
  define x' where "x' = x\<lparr>addrs := map new_addr as, when_resolved := now, dstate := K_resolved, pending_callers := []\<rparr>"
  have d': "d' = d\<lparr>dns_heap := (dns_heap d)(nc_entry nc := Some x'),
      started := started d @ map (\<lambda>(j, pc). pending_answer (map new_addr as) j pc) (enumerate 0 (rev (pending_callers x))),
      lookups := remove1 nc (lookups d)\<rparr>"
    using assms(3,4) x
    by (auto simp: resolve_complete_def run_pending_simp set_entry_def delete_lookup_def x'_def Let_def)
  have look: "set (lookups d') = set (lookups d) - {nc}" using dns_ok_rest [OF assms(1)] by (simp add: d')
  have "dns_ok d'"
  proof (rule dns_ok_update [OF assms(1) x(1), of d' x'])
    show "entry_ok d' (nc_entry nc) x'" using x assms(4) by (auto simp: entry_ok_def x'_def new_addr_def)
    show "dstate x' = K_in_progress" if "nc' \<in> set (lookups d')" "nc_entry nc' = nc_entry nc" for nc'
      using that look dns_ok_inj [OF assms(1) _ assms(2)] by auto
  qed (use look dns_ok_rest [OF assms(1)] in \<open>auto simp: d'\<close>)
  moreover have "pending_calls d = pending_of d (nc_entry nc) + pending_calls d'"
    using pending_calls_split [OF assms(1,2)] pending_sum_cong [OF assms(1,2), of d']
    by (simp add: pending_calls_def d')
  moreover have "mset (map to_dnsc (map (\<lambda>(j, pc). pending_answer (map new_addr as) j pc) (enumerate 0 (rev (pending_callers x)))))
      = pending_of d (nc_entry nc)"
    unfolding run_pending_dnsc by (simp add: pending_of_def x(1))
  then have "accounted d' = mset (map to_dnsc (started d)) + pending_of d (nc_entry nc) + pending_calls d' + mset (returned d)"
    by (simp add: accounted_def d')
  ultimately show ?thesis by (simp add: d' accounted_def)
qed

subsection \<open>Calls\<close>

text \<open>What a call does in a state where the invariant holds, when the clock is past the least time.\<close>

lemma cache_loop_resolved:
  assumes "as \<noteq> []" "\<forall>a \<in> set as. valid a \<and> next_avail_time a = time_min" "clock_ok now"
  shows "cache_loop now st as [0..<length as] earliest = Inl (sock_addr (as ! addr_index st 0 (length as)))"
proof -
  have "addr_index st 0 (length as) < length as" using assms(1) by (simp add: addr_index_def nat_less_iff)
  then have "as ! addr_index st 0 (length as) \<in> set as" by simp
  then have "valid (as ! addr_index st 0 (length as))" "next_avail_time (as ! addr_index st 0 (length as)) \<le> now"
    using assms(2,3) by (auto simp: clock_ok_def)
  then show ?thesis using assms(1) by (simp add: upt_conv_Cons Let_def)
qed

definition new_pending :: "string \<Rightarrow> int \<Rightarrow> nat \<Rightarrow> pending_call" where
  "new_pending host port dnsc = \<lparr> pc_host = host, pc_port = port, pc_dnsc = dnsc \<rparr>"

definition first_entry :: "timespec \<Rightarrow> string \<Rightarrow> int \<Rightarrow> nat \<Rightarrow> dns_entry" where
  "first_entry garbage host port dnsc =
     (new_entry garbage)\<lparr>dstate := K_in_progress, pending_callers := [new_pending host port dnsc]\<rparr>"

lemma call_host_cases:
  assumes "dns_ok d" "clock_ok now"
  obtains (starts) "dns_map d host = None" "st = Gai_started"
      "call_host garbage now st host port dnsc d = Some (Later, d\<lparr>
         dns_heap := (dns_heap d)(next_entry d := Some (first_entry garbage host port dnsc)),
         dns_map := (dns_map d)(host := Some (next_entry d)), next_entry := next_entry d + 1,
         lookups := lookups d @ [\<lparr> nc_host = host, nc_entry = next_entry d \<rparr>]\<rparr>)"
    | (fails) err where "dns_map d host = None" "st = Attr_failed err \<or> st = Gai_failed err"
      "call_host garbage now st host port dnsc d = Some (Throws, (call_in_fiber dnsc err None d)\<lparr>
         dns_heap := (dns_heap d)(next_entry d := None), dns_map := (dns_map d)(host := None),
         next_entry := next_entry d + 1\<rparr>)"
    | (joins) e x where "dns_map d host = Some e" "dns_heap d e = Some x" "dstate x = K_in_progress"
      "call_host garbage now st host port dnsc d = Some (Later,
         set_entry e (x\<lparr>pending_callers := pending_callers x @ [new_pending host port dnsc]\<rparr>) d)"
    | (cached) e x where "dns_map d host = Some e" "dns_heap d e = Some x" "dstate x = K_resolved"
      "call_host garbage now st host port dnsc d = Some
         (Immediate (sock_addr (addrs x ! addr_index (last_index x) 0 (length (addrs x)))),
          set_entry e (x\<lparr>last_index := last_index x + 1\<rparr>) d)"
proof (cases "dns_map d host")
  case None
  show ?thesis
  proof (cases st)
    case Gai_started
    then show ?thesis using None
      by (intro starts) (simp_all add: call_host_def map_index_def dns_call_def initiate_lookup_def set_entry_def
          first_entry_def new_entry_def new_pending_def)
  next
    case (Attr_failed err)
    then show ?thesis using None
      by (intro fails [of err]) (simp_all add: call_host_def map_index_def dns_call_def initiate_lookup_def set_entry_def
          new_entry_def call_in_fiber_def map_erase_def)
  next
    case (Gai_failed err)
    then show ?thesis using None
      by (intro fails [of err]) (simp_all add: call_host_def map_index_def dns_call_def initiate_lookup_def set_entry_def
          new_entry_def call_in_fiber_def map_erase_def)
  qed
next
  case (Some e)
  then obtain x where x: "dns_heap d e = Some x" using dns_ok_map [OF assms(1)] by blast
  then have ok: "entry_ok d e x" using dns_ok_heap [OF assms(1)] by blast
  then consider "dstate x = K_in_progress" | "dstate x = K_resolved"
    by (cases "dstate x") (simp_all add: entry_ok_def)
  then show ?thesis
  proof cases
    case 1
    then show ?thesis using Some x
      by (intro joins) (simp_all add: call_host_def map_index_def dns_call_def new_pending_def)
  next
    case 2
    then have "cache_loop now (last_index x) (addrs x) [0..<length (addrs x)] dns_forever =
        Inl (sock_addr (addrs x ! addr_index (last_index x) 0 (length (addrs x))))"
      using ok assms(2) by (intro cache_loop_resolved) (auto simp: entry_ok_def)
    then show ?thesis using Some x 2
      by (intro cached) (simp_all add: call_host_def map_index_def dns_call_def call_from_cache_def)
  qed
qed

text \<open>The heap of lookups that are not concerned.\<close>

lemma pending_calls_other:
  assumes "lookups d' = lookups d" "\<And>nc. nc \<in> set (lookups d) \<Longrightarrow> dns_heap d' (nc_entry nc) = dns_heap d (nc_entry nc)"
  shows "pending_calls d' = pending_calls d"
  unfolding pending_calls_def assms(1)
  by (intro arg_cong [where f = sum_mset] image_mset_cong) (simp add: pending_of_def assms(2))

lemma fresh_entry: "dns_ok d \<Longrightarrow> dns_heap d (next_entry d) = None"
  using dns_ok_heap [of d "next_entry d"] dns_ok_map [of d _ "next_entry d"] by (cases "dns_heap d (next_entry d)") fastforce+

lemma call_host_ok:
  assumes "dns_ok d" "clock_ok now" "call_host garbage now st host port dnsc d = Some (r, d')"
  shows "dns_ok d' \<and> calls_made d' = calls_made d \<and>
    accounted d' = accounted d + (case r of Immediate a \<Rightarrow> {#} | _ \<Rightarrow> {#dnsc#})"
  using assms(1,2)
proof (cases rule: call_host_cases [where st = st and host = host and garbage = garbage and port = port and dnsc = dnsc])
  case starts
  let ?n = "next_entry d" and ?nc = "\<lparr> nc_host = host, nc_entry = next_entry d \<rparr>"
  have d': "r = Later" "d' = d\<lparr>dns_heap := (dns_heap d)(?n := Some (first_entry garbage host port dnsc)),
         dns_map := (dns_map d)(host := Some ?n), next_entry := ?n + 1, lookups := lookups d @ [?nc]\<rparr>"
    using assms(3) starts by auto
  note [simp] = fresh_entry [OF assms(1)]
  have less: "dns_map d h = Some e \<Longrightarrow> e < ?n" for h e using dns_ok_map [OF assms(1)] by blast
  have old: "nc_entry nc < ?n" "nc_host nc \<noteq> host" if "nc \<in> set (lookups d)" for nc
    using dns_ok_lookup [OF assms(1) that] less starts(1) by auto
  have "dns_ok d'"
  proof (rule dns_okI)
    fix h e assume "dns_map d' h = Some e"
    then show "e < next_entry d' \<and> dns_heap d' e \<noteq> None"
      using dns_ok_map [OF assms(1), of h e] by (auto simp: d' split: if_splits)
  next
    fix h h' e assume "dns_map d' h = Some e" "dns_map d' h' = Some e"
    then show "h = h'" using dns_ok_host [OF assms(1), of h e h'] less [of h e] less [of h' e] by (auto simp: d' split: if_splits)
  next
    fix e y assume y: "dns_heap d' e = Some y"
    show "entry_ok d' e y"
    proof (cases "e = ?n")
      case True
      then show ?thesis using y by (auto simp: d' entry_ok_def first_entry_def new_entry_def)
    next
      case False
      then have "entry_ok d e y" using y dns_ok_heap [OF assms(1)] by (simp add: d')
      then show ?thesis by (rule entry_ok_mono) (auto simp: d')
    qed
    show "\<exists>h. dns_map d' h = Some e"
    proof (cases "e = ?n")
      case False
      then obtain h where h: "dns_map d h = Some e" using y dns_ok_heap [OF assms(1)] by (auto simp: d')
      then show ?thesis using starts(1) by (intro exI [of _ h]) (auto simp: d')
    qed (auto simp: d')
  next
    fix nc assume "nc \<in> set (lookups d')"
    then show "dns_map d' (nc_host nc) = Some (nc_entry nc) \<and> map_option dstate (dns_heap d' (nc_entry nc)) = Some K_in_progress"
      using dns_ok_lookup [OF assms(1), of nc] old [of nc] by (auto simp: d' first_entry_def new_entry_def)
  next
    have "?nc \<notin> set (lookups d)" using old(2) [of ?nc] by auto
    then show "distinct (lookups d')" using dns_ok_rest [OF assms(1)] by (simp add: d')
  qed (use dns_ok_rest [OF assms(1)] in \<open>simp add: d'\<close>)
  moreover have "(\<Sum>nc \<in># mset (lookups d). pending_of d' (nc_entry nc)) = pending_calls d"
    unfolding pending_calls_def
    by (intro arg_cong [where f = sum_mset] image_mset_cong) (use old(1) in \<open>fastforce simp: pending_of_def d'\<close>)
  then have "pending_calls d' = add_mset dnsc (pending_calls d)"
    by (simp add: pending_calls_def d'(2)) (simp add: d'(2) pending_of_def first_entry_def new_entry_def new_pending_def)
  ultimately show ?thesis by (simp add: d' accounted_def)
next
  case (fails err)
  let ?n = "next_entry d"
  have d': "r = Throws" "d' = (call_in_fiber dnsc err None d)\<lparr>dns_heap := (dns_heap d)(?n := None),
         dns_map := (dns_map d)(host := None), next_entry := ?n + 1\<rparr>"
    using assms(3) fails by auto
  have heap: "(dns_heap d)(?n := None) = dns_heap d" "(dns_map d)(host := None) = dns_map d"
    using fresh_entry [OF assms(1)] fails(1) by auto
  have "dns_ok d'"
    using assms(1) unfolding dns_ok_def d' heap by (auto simp: call_in_fiber_def entry_ok_def less_Suc_eq split: dns_state.splits)
  moreover have "pending_calls d' = pending_calls d" unfolding d' heap by (rule pending_calls_other) (simp_all add: call_in_fiber_def)
  ultimately show ?thesis by (simp add: d' accounted_def call_in_fiber_def)
next
  case (joins e x)
  define x' where "x' = x\<lparr>pending_callers := pending_callers x @ [new_pending host port dnsc]\<rparr>"
  have d': "r = Later" "d' = set_entry e x' d" using assms(3) joins(4) by (auto simp: x'_def)
  have ok: "entry_ok d e x" using dns_ok_heap [OF assms(1) joins(2)] by blast
  then obtain nc where nc: "nc \<in> set (lookups d)" "nc_entry nc = e" using joins(3) by (auto simp: entry_ok_def)
  have "dns_ok d'"
    by (rule dns_ok_update [OF assms(1) joins(2), of d' x'])
      (use joins(3) ok dns_ok_rest [OF assms(1)] in \<open>auto simp: d' set_entry_def x'_def entry_ok_def\<close>)
  moreover have "pending_calls d' = pending_of d' e + (\<Sum>nc' \<in># mset (remove1 nc (lookups d')). pending_of d' (nc_entry nc'))"
    using pending_calls_split [OF calculation, of nc] nc by (simp add: d' set_entry_def)
  then have "pending_calls d' = add_mset dnsc (pending_of d e) + (\<Sum>nc' \<in># mset (remove1 nc (lookups d)). pending_of d (nc_entry nc'))"
    using pending_sum_cong [OF assms(1) nc(1), of d'] nc(2) joins(2)
    by (simp add: d' set_entry_def pending_of_def x'_def new_pending_def)
  then have "pending_calls d' = add_mset dnsc (pending_calls d)"
    using pending_calls_split [OF assms(1) nc(1)] nc(2) by simp
  ultimately show ?thesis by (simp add: d' accounted_def set_entry_def)
next
  case (cached e x)
  define x' where "x' = x\<lparr>last_index := last_index x + 1\<rparr>"
  have d': "\<exists>a. r = Immediate a" "d' = set_entry e x' d" using assms(3) cached(4) by (auto simp: x'_def)
  have ok: "entry_ok d e x" using dns_ok_heap [OF assms(1) cached(2)] by blast
  have no: "nc_entry nc \<noteq> e" if "nc \<in> set (lookups d)" for nc
    using dns_ok_lookup [OF assms(1) that] cached(2,3) by auto
  have "dns_ok d'"
    by (rule dns_ok_update [OF assms(1) cached(2), of d' x'])
      (use no cached(3) ok dns_ok_rest [OF assms(1)] in \<open>auto simp: d' set_entry_def x'_def entry_ok_def\<close>)
  moreover have "pending_calls d' = pending_calls d"
    by (rule pending_calls_other) (use no in \<open>simp_all add: d' set_entry_def\<close>)
  ultimately show ?thesis using d'(1) by (auto simp: d'(2) accounted_def set_entry_def)
qed

lemma dns_ok_fields [simp]:
  "dns_ok (d\<lparr>calls_made := n\<rparr>) = dns_ok d" "dns_ok (d\<lparr>returned := l\<rparr>) = dns_ok d"
  "dns_ok (d\<lparr>started := as\<rparr>) = dns_ok d" "dns_ok (d\<lparr>next_sweep := t\<rparr>) = dns_ok d"
  by (simp_all add: dns_ok_def entry_ok_def cong: dns_state.case_cong)

lemma pending_calls_fields [simp]:
  "pending_calls (d\<lparr>calls_made := n\<rparr>) = pending_calls d" "pending_calls (d\<lparr>returned := l\<rparr>) = pending_calls d"
  "pending_calls (d\<lparr>started := as\<rparr>) = pending_calls d" "pending_calls (d\<lparr>next_sweep := t\<rparr>) = pending_calls d"
  by (simp_all add: pending_calls_def pending_of_def)

lemma sweep_ok:
  assumes "dns_ok d"
  shows "dns_ok (sweep_old_cache_entries now now' d) \<and> accounted (sweep_old_cache_entries now now' d) = accounted d"
proof -
  define old where "old e = (case dns_heap d e of
      Some x \<Rightarrow> dstate x = K_resolved \<and> when_resolved x < timespec_minus_seconds now cache_life_seconds | None \<Rightarrow> False)" for e
  define d' where "d' = sweep_old_cache_entries now now' d"
  have map: "dns_map d' h = Some e \<longleftrightarrow> dns_map d h = Some e \<and> \<not> old e" for h e
    by (auto simp: d'_def sweep_old_cache_entries_def old_def [symmetric] split: option.splits)
  have heap: "dns_heap d' e = (if old e then None else dns_heap d e)" for e
    by (simp add: d'_def sweep_old_cache_entries_def old_def Let_def)
  have same: "lookups d' = lookups d" "next_entry d' = next_entry d" "retries d' = retries d" "started d' = started d"
    "returned d' = returned d" by (simp_all add: d'_def sweep_old_cache_entries_def Let_def)
  have nc: "\<not> old (nc_entry nc)" if n: "nc \<in> set (lookups d)" for nc
    using dns_ok_lookup [OF assms n] by (auto simp: old_def split: option.split)
  have "dns_ok d'"
  proof (rule dns_okI)
    show "\<And>h e. dns_map d' h = Some e \<Longrightarrow> e < next_entry d' \<and> dns_heap d' e \<noteq> None"
      using dns_ok_map [OF assms] by (auto simp: map heap same)
    show "\<And>h h' e. dns_map d' h = Some e \<Longrightarrow> dns_map d' h' = Some e \<Longrightarrow> h = h'"
      using dns_ok_host [OF assms] by (auto simp: map)
    show "\<And>e x. dns_heap d' e = Some x \<Longrightarrow> entry_ok d' e x"
      using dns_ok_heap [OF assms] by (auto simp: heap same entry_ok_def cong: dns_state.case_cong split: if_splits)
    show "\<And>e x. dns_heap d' e = Some x \<Longrightarrow> \<exists>h. dns_map d' h = Some e"
      using dns_ok_heap [OF assms] by (auto simp: heap map split: if_splits)
    show "\<And>nc. nc \<in> set (lookups d') \<Longrightarrow> dns_map d' (nc_host nc) = Some (nc_entry nc) \<and>
        map_option dstate (dns_heap d' (nc_entry nc)) = Some K_in_progress"
      using dns_ok_lookup [OF assms] nc by (simp add: map heap same)
  qed (use dns_ok_rest [OF assms] in \<open>simp_all add: same\<close>)
  moreover have "pending_calls d' = pending_calls d"
    by (rule pending_calls_other) (simp_all add: same heap nc)
  ultimately show ?thesis by (simp add: accounted_def same d'_def [symmetric])
qed

subsection \<open>Runs\<close>

lemma lookup_and_run_ok:
  assumes "dns_ok d" "clock_ok now" "lookup_and_run garbage now st host port dnsc d = Some (r, d')"
  shows "dns_ok d' \<and> calls_made d' = calls_made d \<and> accounted d' = add_mset dnsc (accounted d)"
proof -
  obtain d1 where d1: "call_host garbage now st host port dnsc d = Some (r, d1)"
    and d': "d' = (case r of Immediate a \<Rightarrow> call_in_fiber dnsc 0 (Some (with_port port a)) d1 | _ \<Rightarrow> d1)"
    using assms(3) by (auto simp: lookup_and_run_def split: Option.bind_splits call_end.splits)
  show ?thesis using call_host_ok [OF assms(1,2) d1]
    by (cases r) (simp_all add: d' call_in_fiber_def accounted_def)
qed

lemma ga_begin_ok:
  assumes "dns_ok d" "clock_ok now" "ga_begin garbage now st host port dnsc d = Some ((r, g), d')"
  shows "dns_ok d' \<and> calls_made d' = calls_made d \<and>
    accounted d' = accounted d + (case r of Immediate a \<Rightarrow> {#} | _ \<Rightarrow> {#dnsc#})"
proof -
  have "call_host garbage now st host port dnsc d = Some (r, d')"
    using assms(3) by (auto simp: ga_begin_def Let_def split: Option.bind_splits)
  then show ?thesis by (rule call_host_ok [OF assms(1,2)])
qed

lemma dns_inv_step:
  assumes "dns_inv d" "dns_step d d'"
  shows "dns_inv d'"
proof -
  have ok: "dns_ok d" "accounted d = mset [0..<calls_made d]" using assms(1) by (simp_all add: dns_inv_def)
  show ?thesis using assms(2)
  proof (cases rule: dns_step.cases)
    case (step_lookup_and_run now garbage st host port r e)
    then show ?thesis using lookup_and_run_ok [OF ok(1) step_lookup_and_run(2,3)] ok(2)
      by (simp add: dns_inv_def accounted_def)
  next
    case (step_get_addrinfo now garbage st host port r g e)
    then show ?thesis using ga_begin_ok [OF ok(1) step_get_addrinfo(2,3)] ok(2)
      by (cases r) (simp_all add: dns_inv_def accounted_def)
  next
    case (step_resolve nc now ret)
    show ?thesis
    proof (cases ret)
      case Gai_in_progress
      then show ?thesis using step_resolve(2) assms(1) by (simp add: resolve_complete_def)
    next
      case (Gai_error err)
      then show ?thesis using resolve_failed [OF ok(1) step_resolve(1), of now err d'] step_resolve(2) ok(2)
        by (simp add: dns_inv_def)
    next
      case (Gai_ok as)
      then show ?thesis using resolve_succeeded [OF ok(1) step_resolve(1), of now as d'] step_resolve(2,3) ok(2)
        by (simp add: dns_inv_def)
    qed
  next
    case (step_sweep now now')
    have "calls_made (sweep_old_cache_entries now now' d) = calls_made d" by (simp add: sweep_old_cache_entries_def Let_def)
    then show ?thesis using step_sweep sweep_ok [OF ok(1), of now now'] ok(2) by (simp add: dns_inv_def)
  next
    case step_terminate
    then show ?thesis using ok by (simp add: dns_inv_def dns_terminate_def accounted_def)
  next
    case (step_retry t host port dnsc now garbage st r)
    then show ?thesis using dns_ok_rest [OF ok(1)] by simp
  qed
qed

interpretation dns: transition_invariant "\<lambda>d. d = new_dns" dns_step dns_inv
  by unfold_locales (auto simp: dns_inv_init intro: dns_inv_step)

section \<open>Rotation\<close>

text \<open>A sequence of calls of \<open>lookup_and_run\<close> for one host, each with the time, the port and the callback.\<close>

fun calls_in_turn :: "timespec \<Rightarrow> lookup_start \<Rightarrow> string \<Rightarrow> (timespec \<times> int \<times> nat) list \<Rightarrow> dns \<Rightarrow> dns option" where
  "calls_in_turn garbage st host [] d = Some d"
| "calls_in_turn garbage st host ((now, port, dnsc) # cs) d = do {
     (r, d) \<leftarrow> lookup_and_run garbage now st host port dnsc d;
     calls_in_turn garbage st host cs d }"

definition cached_answer :: "sockaddr list \<Rightarrow> nat \<Rightarrow> int \<Rightarrow> nat \<Rightarrow> answer" where
  "cached_answer as k port dnsc =
     \<lparr> to_dnsc = dnsc, err_code = 0, answer_addr = Some (with_port port (as ! (k mod length as))) \<rparr>"

lemma addr_index_small: "int k < 2 ^ 64 \<Longrightarrow> addr_index (int k) 0 n = k mod n"
  by (simp add: addr_index_def nat_mod_distrib)

lemma calls_in_turn_answers:
  assumes "dns_ok d" "dns_map d host = Some e" "dns_heap d e = Some x" "dstate x = K_resolved"
    "addrs x = map new_addr as" "last_index x = int k" "int k + int (length cs) \<le> 2 ^ 31"
    "\<forall>(now, port, dnsc) \<in> set cs. clock_ok now"
  shows "\<exists>d'. calls_in_turn garbage st host cs d = Some d' \<and>
    started d' = started d @ map (\<lambda>(j, (now, port, dnsc)). cached_answer as j port dnsc) (enumerate k cs)"
  using assms
proof (induction cs arbitrary: d x k)
  case (Cons c cs)
  obtain now port dnsc where c: "c = (now, port, dnsc)" by (cases c)
  have clock: "clock_ok now" using Cons(9) c by simp
  have as: "as \<noteq> []" using dns_ok_heap [OF Cons(2,4)] Cons(5,6) by (auto simp: entry_ok_def)
  define d1 where "d1 = set_entry e (x\<lparr>last_index := int (Suc k)\<rparr>) d"
  have call: "call_host garbage now st host port dnsc d =
      Some (Immediate (sock_addr (addrs x ! addr_index (last_index x) 0 (length (addrs x)))), d1)"
    using Cons(2) clock
    by (cases rule: call_host_cases [where st = st and host = host and garbage = garbage and port = port and dnsc = dnsc])
      (use Cons(3-7) in \<open>simp_all add: d1_def add.commute\<close>)
  have "sock_addr (addrs x ! addr_index (last_index x) 0 (length (addrs x))) = as ! (k mod length as)"
    using as Cons(8) unfolding Cons(6,7) by (subst addr_index_small) (auto simp: new_addr_def)
  then have run: "lookup_and_run garbage now st host port dnsc d =
      Some (Immediate (as ! (k mod length as)), call_in_fiber dnsc 0 (Some (with_port port (as ! (k mod length as)))) d1)"
    using call by (simp add: lookup_and_run_def)
  let ?d = "call_in_fiber dnsc 0 (Some (with_port port (as ! (k mod length as)))) d1"
  have ok: "dns_ok ?d" using lookup_and_run_ok [OF Cons(2) clock run] by simp
  have parts: "dns_map ?d host = Some e" "dns_heap ?d e = Some (x\<lparr>last_index := int (Suc k)\<rparr>)"
    "dstate (x\<lparr>last_index := int (Suc k)\<rparr>) = K_resolved" "addrs (x\<lparr>last_index := int (Suc k)\<rparr>) = map new_addr as"
    "last_index (x\<lparr>last_index := int (Suc k)\<rparr>) = int (Suc k)"
    using Cons(3-6) by (simp_all add: call_in_fiber_def d1_def set_entry_def)
  obtain d' where "calls_in_turn garbage st host cs ?d = Some d'"
    "started d' = started ?d @ map (\<lambda>(j, (now, port, dnsc)). cached_answer as j port dnsc) (enumerate (Suc k) cs)"
    using Cons(1) [OF ok parts] Cons(8,9) by auto
  then show ?case using run c
    by (simp add: call_in_fiber_def cached_answer_def d1_def set_entry_def)
qed simp

section \<open>Properties\<close>

text \<open>
  C18: over any run, every call of the cache is answered exactly once: its callback has been started, or the
  address was returned to it, or it waits in the entry of a lookup that is in progress; so that when no
  lookup is in progress every call has been answered.
\<close>
theorem dns_answered_once:
  assumes "dns_step\<^sup>*\<^sup>* new_dns d"
  shows "mset (map to_dnsc (started d)) + pending_calls d + mset (returned d) = mset [0..<calls_made d] \<and>
    (lookups d = [] \<longrightarrow> (\<forall>c < calls_made d. count (mset (map to_dnsc (started d) @ returned d)) c = 1))"
proof -
  have eq: "mset (map to_dnsc (started d)) + pending_calls d + mset (returned d) = mset [0..<calls_made d]"
    using dns.reachable_inv [OF assms] by (simp add: dns_inv_def accounted_def)
  moreover have "count (mset (map to_dnsc (started d) @ returned d)) c = 1" if "lookups d = []" "c < calls_made d" for c
  proof -
    have "mset (map to_dnsc (started d) @ returned d) = mset [0..<calls_made d]"
      using eq that(1) by (simp add: pending_calls_def)
    moreover have "count (mset [0..<calls_made d]) c = 1"
      using that(2) distinct_count_atmost_1 [of "[0..<calls_made d]"] by auto
    ultimately show ?thesis by simp
  qed
  ultimately show ?thesis by blast
qed

text \<open>
  C19: in every reachable state the pointer of each lookup in progress is valid when it completes, a call never meets
  an entry in the failed state (it throws only if the lookup cannot be started), and
  no call is ever put off to a later time.
\<close>
theorem dns_never_dangling:
  assumes "dns_step\<^sup>*\<^sup>* new_dns d" "clock_ok now"
  shows "(\<forall>nc ret. nc \<in> set (lookups d) \<and> ret \<noteq> Gai_ok [] \<longrightarrow> resolve_complete now nc ret d \<noteq> None) \<and>
    (\<exists>r d'. lookup_and_run garbage now st host port dnsc d = Some (r, d') \<and> (r = Throws \<longrightarrow> st \<noteq> Gai_started)) \<and>
    retries d = []"
proof -
  have ok: "dns_ok d" using dns.reachable_inv [OF assms(1)] by (simp add: dns_inv_def)
  have "resolve_complete now nc ret d \<noteq> None" if ret: "nc \<in> set (lookups d)" "ret \<noteq> Gai_ok []" for nc ret
  proof -
    obtain x where "dns_heap d (nc_entry nc) = Some x" by (rule dns_ok_nc [OF ok ret(1)])
    then show ?thesis using ret(2)
      by (cases ret) (auto simp: resolve_complete_def run_pending_simp Let_def)
  qed
  moreover have "\<exists>r d'. call_host garbage now st host port dnsc d = Some (r, d') \<and> (r = Throws \<longrightarrow> st \<noteq> Gai_started)"
    using ok assms(2)
    by (cases rule: call_host_cases [where st = st and host = host and garbage = garbage and port = port and dnsc = dnsc]) auto
  then have "\<exists>r d'. lookup_and_run garbage now st host port dnsc d = Some (r, d') \<and> (r = Throws \<longrightarrow> st \<noteq> Gai_started)"
    by (auto simp: lookup_and_run_def split: call_end.split)
  ultimately show ?thesis using dns_ok_rest [OF ok] by blast
qed

text \<open>
  when a lookup completes with addresses, the calls that wait for it are answered from the last to the first with
  the addresses in turn, each with its own port; the calls of the host that follow are
  answered in their order, again with the addresses in turn from the first one.
\<close>
theorem dns_rotation:
  assumes "dns_step\<^sup>*\<^sup>* new_dns d" "nc \<in> set (lookups d)" "dns_heap d (nc_entry nc) = Some x" "as \<noteq> []"
    "length cs \<le> 2 ^ 31" "\<forall>(now, port, dnsc) \<in> set cs. clock_ok now"
  shows "\<exists>d1 d2. resolve_complete t nc (Gai_ok as) d = Some d1 \<and> calls_in_turn garbage st (nc_host nc) cs d1 = Some d2 \<and>
    started d2 = started d @
      map (\<lambda>(j, pc). cached_answer as j (pc_port pc) (pc_dnsc pc)) (enumerate 0 (rev (pending_callers x))) @
      map (\<lambda>(j, (now, port, dnsc)). cached_answer as j port dnsc) (enumerate 0 cs)"
proof -
  have ok: "dns_ok d" using dns.reachable_inv [OF assms(1)] by (simp add: dns_inv_def)
  have x: "dstate x = K_in_progress" "addrs x = []" "last_index x = 0" "dns_map d (nc_host nc) = Some (nc_entry nc)"
    using dns_ok_nc [OF ok assms(2)] assms(3) by auto
  define x' where "x' = x\<lparr>addrs := map new_addr as, when_resolved := t, dstate := K_resolved, pending_callers := []\<rparr>"
  define d1 where "d1 = d\<lparr>dns_heap := (dns_heap d)(nc_entry nc := Some x'),
      started := started d @ map (\<lambda>(j, pc). pending_answer (map new_addr as) j pc) (enumerate 0 (rev (pending_callers x))),
      lookups := remove1 nc (lookups d)\<rparr>"
  have d1: "resolve_complete t nc (Gai_ok as) d = Some d1"
    using assms(3,4) x by (simp add: resolve_complete_def run_pending_simp set_entry_def delete_lookup_def x'_def d1_def Let_def)
  have "pending_answer (map new_addr as) j pc = cached_answer as j (pc_port pc) (pc_dnsc pc)" for j pc
    using assms(4) by (simp add: pending_answer_def cached_answer_def new_addr_def)
  then have s1: "started d1 = started d @
      map (\<lambda>(j, pc). cached_answer as j (pc_port pc) (pc_dnsc pc)) (enumerate 0 (rev (pending_callers x)))"
    by (simp add: d1_def)
  have "dns_ok d1" using resolve_succeeded [OF ok assms(2) d1 assms(4)] by simp
  then obtain d2 where "calls_in_turn garbage st (nc_host nc) cs d1 = Some d2"
    "started d2 = started d1 @ map (\<lambda>(j, (now, port, dnsc)). cached_answer as j port dnsc) (enumerate 0 cs)"
    using calls_in_turn_answers [of d1 "nc_host nc" "nc_entry nc" x' as 0 cs garbage st] assms(5,6) x
    by (auto simp: d1_def x'_def)
  then show ?thesis using d1 s1 by auto
qed

text \<open>Two calls for a host, then the completion of the lookup.\<close>

definition dns_example :: dns where
  "dns_example = the (do {
     let t0 = Timespec 1 0;
     (r, d) \<leftarrow> lookup_and_run t0 t0 Gai_started ''h'' 80 0 new_dns;
     (r, d) \<leftarrow> lookup_and_run t0 t0 Gai_started ''h'' 81 1 (d\<lparr>calls_made := 1\<rparr>);
     Some (d\<lparr>calls_made := Suc 1\<rparr>) })"

lemmas dns_eval = lookup_and_run_def call_host_def map_index_def dns_call_def initiate_lookup_def set_entry_def
  new_entry_def new_dns_def call_in_fiber_def clock_ok_def time_min_def timespec_order

lemma dns_example_run: "dns_step\<^sup>*\<^sup>* new_dns dns_example"
proof -
  let ?t = "Timespec 1 0"
  define d1 where "d1 = (snd (the (lookup_and_run ?t ?t Gai_started ''h'' 80 0 new_dns)))\<lparr>calls_made := 1\<rparr>"
  have "dns_step new_dns d1"
    using step_lookup_and_run [of ?t ?t Gai_started "''h''" 80 new_dns Later] by (simp add: d1_def dns_eval)
  moreover have "dns_step d1 dns_example"
    using step_lookup_and_run [of ?t ?t Gai_started "''h''" 81 d1 Later]
    by (simp add: d1_def dns_example_def dns_eval)
  ultimately show ?thesis by simp
qed

theorem dns_answered_once_witness:
  "pending_calls dns_example = {#0, 1#} \<and> started dns_example = []"
proof -
  have "mset (map to_dnsc (started dns_example)) + pending_calls dns_example + mset (returned dns_example) =
      mset [0..<calls_made dns_example]"
    using dns_answered_once [OF dns_example_run] by simp
  moreover have "started dns_example = []" "returned dns_example = []" "calls_made dns_example = 2"
    by (simp_all add: dns_example_def dns_eval)
  ultimately show ?thesis by (simp add: numeral_2_eq_2)
qed

theorem dns_never_dangling_witness:
  "lookups dns_example \<noteq> [] \<and> retries dns_example = []"
  using dns_never_dangling [OF dns_example_run, of "Timespec 1 0" "Timespec 1 0" Gai_started "''h''" 80 2]
  by (simp add: dns_example_def dns_eval)

definition ex_addr :: "byte \<Rightarrow> sockaddr" where
  "ex_addr b = \<lparr> v6 = False, sin_port = 0, sin_addr = [127, 0, 0, b] \<rparr>"

theorem dns_rotation_witness:
  "\<exists>d1 d2. resolve_complete (Timespec 2 0) \<lparr> nc_host = ''h'', nc_entry = 0 \<rparr> (Gai_ok [ex_addr 1, ex_addr 2]) dns_example = Some d1 \<and>
    calls_in_turn (Timespec 2 0) Gai_started ''h'' [(Timespec 3 0, 82, 2)] d1 = Some d2 \<and>
    started d2 = [\<lparr> to_dnsc = 1, err_code = 0, answer_addr = Some (with_port 81 (ex_addr 1)) \<rparr>,
      \<lparr> to_dnsc = 0, err_code = 0, answer_addr = Some (with_port 80 (ex_addr 2)) \<rparr>,
      \<lparr> to_dnsc = 2, err_code = 0, answer_addr = Some (with_port 82 (ex_addr 1)) \<rparr>]"
proof -
  let ?nc = "\<lparr> nc_host = ''h'', nc_entry = 0 \<rparr>"
  let ?x = "the (dns_heap dns_example 0)"
  have ex: "?nc \<in> set (lookups dns_example)" "dns_heap dns_example (nc_entry ?nc) = Some ?x"
    "started dns_example = []" "pending_callers ?x = [new_pending ''h'' 80 0, new_pending ''h'' 81 1]"
    by (simp_all add: dns_example_def dns_eval new_pending_def)
  show ?thesis
    using dns_rotation [OF dns_example_run ex(1,2), of "[ex_addr 1, ex_addr 2]" "[(Timespec 3 0, 82, 2)]" "Timespec 2 0"
        "Timespec 2 0" Gai_started]
    by (simp add: ex(3,4) clock_ok_def time_min_def timespec_order cached_answer_def new_pending_def)
qed

text \<open>When \<open>getaddrinfo_a\<close> refuses, the callback is started and the call throws as well: the caller
  of \<open>get_addrinfo\<close>, whose callback refers to its own variables, is left before the callback runs.\<close>

lemma dns_throws_and_calls:
  "\<exists>d'. lookup_and_run t t (Gai_failed 5) ''h'' 80 0 new_dns = Some (Throws, d') \<and>
     started d' = [\<lparr> to_dnsc = 0, err_code = 5, answer_addr = None \<rparr>]"
  by (simp add: dns_eval map_erase_def)

text \<open>\<open>get_addrinfo\<close>: what a call that waits gets; what one gets at once, which leaves \<open>*addrlen\<close> as it was.\<close>

lemma get_addrinfo_waits:
  "ga_end port (ga_dnsc err (if err = 0 then Some (with_port p a) else None) g) =
     (if err = 0
      then g\<lparr>ga_ret := 0, ga_done := True, ga_addr := Some (with_port port a), ga_addrlen := Some (if v6 a then 28 else 16)\<rparr>
      else g\<lparr>ga_ret := err, ga_done := True\<rparr>)"
  by (simp add: ga_end_def ga_dnsc_def with_port_def)

lemma get_addrinfo_addrlen_unset:
  assumes "ga_begin garbage now st host port dnsc d = Some ((Immediate a, g), d')"
  shows "ga_end port g = \<lparr> ga_ret = 0, ga_done = False, ga_addr = Some (with_port port a), ga_addrlen = None \<rparr>"
  using assms by (auto simp: ga_begin_def ga_end_def Let_def split: Option.bind_splits)

text \<open>The age of what the cache holds after a sweep, and when the next one is due: until then an entry
  gets up to half a period older than a period.\<close>

lemma sweep_age:
  assumes "dns_heap (sweep_old_cache_entries now now' d) e = Some x" "dstate x = K_resolved"
  shows "timespec_minus_seconds now 120 \<le> when_resolved x \<and> dns_heap d e = Some x \<and>
    next_sweep (sweep_old_cache_entries now now' d) = Some (timespec_plus_seconds now' 60)"
  using assms by (auto simp: sweep_old_cache_entries_def Let_def cache_life_seconds_def not_less split: if_splits)

end
