(* ===== verification/Streams.thy ===== *)
theory Streams
  imports Prelude
begin

text \<open>
  Reading from a connection: what the peer sends is the list of the chunks in which its bytes arrive.
\<close>

text \<open>\<open>read\<close> gives some of the bytes that have arrived, at most as many as are asked for; at
  the end of the connection it throws.\<close>

fun stream_read :: "nat \<Rightarrow> byte list list \<Rightarrow> (byte list \<times> byte list list) option" where
  "stream_read n [] = None"
| "stream_read n (c # cs) = (if length c \<le> n then Some (c, cs) else Some (take n c, drop n c # cs))"

definition input_size :: "byte list list \<Rightarrow> nat" where
  "input_size cs = (\<Sum>c\<leftarrow>cs. Suc (length c))"

lemma stream_read_spec:
  "stream_read n cs = Some (bs, cs') \<Longrightarrow>
     concat cs = bs @ concat cs' \<and> length bs \<le> n \<and> (0 < n \<longrightarrow> input_size cs' < input_size cs)"
  by (cases cs) (auto simp: input_size_def split: if_splits)

lemma stream_read_more: "cs \<noteq> [] \<Longrightarrow> \<exists>bs cs'. stream_read n cs = Some (bs, cs')"
  by (cases cs) auto

text \<open>The loop that reads a fixed number of bytes, as the clients of \<open>read\<close> write it.\<close>

function read_full :: "nat \<Rightarrow> byte list list \<Rightarrow> (byte list \<times> byte list list) option" where
  "read_full n cs =
     (if n = 0 then Some ([], cs)
      else case stream_read n cs of
        None \<Rightarrow> None
      | Some (bs, cs) \<Rightarrow> (case read_full (n - length bs) cs of
          None \<Rightarrow> None
        | Some (bs', cs) \<Rightarrow> Some (bs @ bs', cs)))"
  by pat_completeness auto
termination
  by (relation "measure (\<lambda>(n, cs). input_size cs)") (auto dest!: stream_read_spec)

declare read_full.simps [simp del]

lemma read_full_0: "read_full 0 cs = Some ([], cs)"
  by (subst read_full.simps) simp

lemma read_full_Nil: "0 < n \<Longrightarrow> read_full n [] = None"
  by (subst read_full.simps) simp

lemma read_full_step:
  "0 < n \<Longrightarrow> stream_read n cs = Some (bs, cs1) \<Longrightarrow> read_full n cs =
     (case read_full (n - length bs) cs1 of None \<Rightarrow> None | Some (bs', cs) \<Rightarrow> Some (bs @ bs', cs))"
  by (subst read_full.simps) simp

lemma read_full_spec:
  "(n \<le> length (concat cs) \<longrightarrow> (\<exists>cs'. read_full n cs = Some (take n (concat cs), cs') \<and> concat cs' = drop n (concat cs) \<and>
      input_size cs' \<le> input_size cs \<and> (0 < n \<longrightarrow> input_size cs' < input_size cs))) \<and>
   (length (concat cs) < n \<longrightarrow> read_full n cs = None)"
proof (induction n cs rule: read_full.induct)
  case (1 n cs)
  show ?case
  proof (cases "n = 0 \<or> cs = []")
    case True
    then consider "n = 0" | "cs = []" "0 < n" by auto
    then show ?thesis
    proof cases
      case 1
      then show ?thesis by (simp add: read_full_0)
    next
      case 2
      then show ?thesis by (simp add: read_full_Nil)
    qed
  next
    case False
    then obtain bs cs1 where r: "stream_read n cs = Some (bs, cs1)" using stream_read_more by blast
    note s = stream_read_spec [OF r]
    have IH: "(n - length bs \<le> length (concat cs1) \<longrightarrow>
         (\<exists>cs'. read_full (n - length bs) cs1 = Some (take (n - length bs) (concat cs1), cs') \<and>
            concat cs' = drop (n - length bs) (concat cs1) \<and> input_size cs' \<le> input_size cs1)) \<and>
        (length (concat cs1) < n - length bs \<longrightarrow> read_full (n - length bs) cs1 = None)"
      using 1 [OF _ r refl] False by auto
    show ?thesis
    proof (cases "n \<le> length (concat cs)")
      case True
      then have "n - length bs \<le> length (concat cs1)" using s by simp
      then obtain cs' where "read_full (n - length bs) cs1 = Some (take (n - length bs) (concat cs1), cs')"
        "concat cs' = drop (n - length bs) (concat cs1)" "input_size cs' \<le> input_size cs1" using IH by blast
      then show ?thesis using False r s True by (auto simp: read_full_step)
    next
      case 2: False
      then have "length (concat cs1) < n - length bs" using s by simp
      then show ?thesis using 2 False r IH by (simp add: read_full_step)
    qed
  qed
qed

end
