(* ===== verification/Http2.thy ===== *)
theory Http2
  imports Prelude Big_Endian Streams Http_Server
begin

text \<open>
  The HTTP/2 endpoint of \<open>src/cpp/http2.cpp\<close> and \<open>http2.h\<close>, and the upgrade of \<open>http2_handler.cpp\<close>: frames, the
  loop that forwards each frame to the handler of its stream, and the frames that are sent.  What
  the peer sends is the list of the chunks in which the bytes arrive; a handler is the list of the bytes
  that were written to its socket.  The HPACK encoder is a parameter.
\<close>

section \<open>Frames\<close>

definition k_frame_header_size :: nat where "k_frame_header_size = 9"

definition k_HEADERS :: byte where "k_HEADERS = 1"
definition k_SETTINGS :: byte where "k_SETTINGS = 4"
definition k_PUSH_PROMISE :: byte where "k_PUSH_PROMISE = 5"
definition k_settings_ack :: byte where "k_settings_ack = 1"
definition k_HEADERS_END_HEADERS :: byte where "k_HEADERS_END_HEADERS = 4"

text \<open>The memory of \<open>htonl(v)\<close> is \<^theory_text>\<open>enc_be 4 v\<close>, and \<open>ntohl\<close> of four bytes in memory is \<^theory_text>\<open>dec_be\<close>.  The checks under
  \<open>ANON_RUNTIME_CHECKS\<close> are not compiled into the release.\<close>

definition format_frame :: "byte list \<Rightarrow> u32 \<Rightarrow> byte \<Rightarrow> byte \<Rightarrow> u32 \<Rightarrow> byte list option" where
  "format_frame b len type flags stream_id = do {
     b \<leftarrow> wr_range b 0 (drop 1 (enc_be 4 len));
     b \<leftarrow> wr b 3 type;
     b \<leftarrow> wr b 4 flags;
     wr_range b 5 (enc_be 4 stream_id) }"

definition frame_size_of :: "byte list \<Rightarrow> u32" where
  "frame_size_of frame = dec_be (0 # take 3 frame)"

definition stream_id_of :: "byte list \<Rightarrow> u32" where
  "stream_id_of frame = dec_be (take 4 (drop 5 frame))"

section \<open>The loop over the frames\<close>

text \<open>Whether a handler can be made for a stream, and whether it takes more bytes after those it got,
  is given by the two parameters.  An error of either throws.\<close>

type_synonym handlers = "u32 \<Rightarrow> byte list option"

record http2_env =
  new_ok :: "u32 \<Rightarrow> bool"
  write_ok :: "u32 \<Rightarrow> byte list \<Rightarrow> byte list \<Rightarrow> bool"

definition handler_write :: "http2_env \<Rightarrow> u32 \<Rightarrow> byte list \<Rightarrow> handlers \<Rightarrow> handlers option" where
  "handler_write env sid bs hs =
     (case hs sid of
        Some w \<Rightarrow> if write_ok env sid w bs then Some (hs(sid := Some (w @ bs))) else None
      | None \<Rightarrow> None)"

text \<open>The loop that forwards the payload, through a buffer of 1024 bytes.  What it leaves when it throws
  are the handlers.\<close>

function forward :: "http2_env \<Rightarrow> u32 \<Rightarrow> nat \<Rightarrow> byte list list \<Rightarrow> handlers \<Rightarrow> handlers + (byte list list \<times> handlers)" where
  "forward env sid n cs hs =
     (if n = 0 then Inr (cs, hs)
      else case stream_read (min 1024 n) cs of
        None \<Rightarrow> Inl hs
      | Some (bs, cs) \<Rightarrow> (case handler_write env sid bs hs of
          None \<Rightarrow> Inl hs
        | Some hs \<Rightarrow> forward env sid (n - length bs) cs hs))"
  by pat_completeness auto
termination
  by (relation "measure (\<lambda>(env, sid, n, cs, hs). input_size cs)") (auto dest!: stream_read_spec)

declare forward.simps [simp del]

lemma forward_0: "forward env sid 0 cs hs = Inr (cs, hs)"
  by (subst forward.simps) simp

lemma forward_step:
  "0 < n \<Longrightarrow> stream_read (min 1024 n) cs = Some (bs, cs1) \<Longrightarrow> handler_write env sid bs hs = Some hs1 \<Longrightarrow>
     forward env sid n cs hs = forward env sid (n - length bs) cs1 hs1"
  by (subst forward.simps) simp

datatype run_end = Run_returns | Run_throws

datatype frame_end = Frame_end run_end | Frame_next "byte list list"

text \<open>What is done with a frame after its header.\<close>

definition deliver :: "http2_env \<Rightarrow> byte list \<Rightarrow> byte list list \<Rightarrow> handlers \<Rightarrow> frame_end \<times> handlers" where
  "deliver env frame cs hs =
     (if hs (stream_id_of frame) = None then (Frame_end Run_returns, hs)
      else (case handler_write env (stream_id_of frame) frame hs of
        None \<Rightarrow> (Frame_end Run_throws, hs)
      | Some hs \<Rightarrow> (case forward env (stream_id_of frame) (unat (frame_size_of frame)) cs hs of
          Inl hs \<Rightarrow> (Frame_end Run_throws, hs)
        | Inr (cs, hs) \<Rightarrow> (Frame_next cs, hs))))"

definition do_frame :: "http2_env \<Rightarrow> byte list \<Rightarrow> byte list list \<Rightarrow> handlers \<Rightarrow> frame_end \<times> handlers" where
  "do_frame env frame cs hs =
     (let stream_id = stream_id_of frame;
          type = frame ! 3;
          opens = (type = k_HEADERS \<or> type = k_PUSH_PROMISE)
      in if stream_id < 2 then (Frame_next cs, hs)
         else if opens \<and> hs stream_id \<noteq> None then (Frame_end Run_returns, hs)
         else if opens \<and> \<not> new_ok env stream_id then (Frame_end Run_throws, hs)
         else deliver env frame cs (if opens then hs(stream_id := Some []) else hs))"

lemma forward_size: "forward env sid n cs hs = Inr (cs', hs') \<Longrightarrow> input_size cs' \<le> input_size cs"
proof (induction env sid n cs hs rule: forward.induct)
  case (1 env sid n cs hs)
  show ?case
  proof (cases "n = 0")
    case True
    then show ?thesis using 1(2) by (simp add: forward_0)
  next
    case False
    then obtain bs cs1 hs1 where r: "stream_read (min 1024 n) cs = Some (bs, cs1)" "handler_write env sid bs hs = Some hs1"
      "forward env sid (n - length bs) cs1 hs1 = Inr (cs', hs')"
      using 1(2) by (subst (asm) forward.simps) (auto split: option.splits)
    have "input_size cs' \<le> input_size cs1" using 1(1) [OF False r(1) refl r(2)] r(3) by simp
    then show ?thesis using stream_read_spec [OF r(1)] False by simp
  qed
qed

lemma do_frame_size: "do_frame env frame cs hs = (Frame_next cs', hs') \<Longrightarrow> input_size cs' \<le> input_size cs"
  by (auto simp: do_frame_def deliver_def Let_def dest!: forward_size split: if_splits option.splits sum.splits)

function http2_run :: "http2_env \<Rightarrow> handlers \<Rightarrow> byte list list \<Rightarrow> run_end \<times> handlers" where
  "http2_run env hs cs =
     (case read_full k_frame_header_size cs of
        None \<Rightarrow> (Run_throws, hs)
      | Some (frame, cs) \<Rightarrow>
          (case do_frame env frame cs hs of
             (Frame_end r, hs) \<Rightarrow> (r, hs)
           | (Frame_next cs, hs) \<Rightarrow> http2_run env hs cs))"
  by pat_completeness auto
termination
proof (relation "measure (\<lambda>(env, hs, cs). input_size cs)")
  fix env hs cs frame cs1 cs2 hs2 p q r
  assume a: "read_full k_frame_header_size cs = Some p" "(frame, cs1) = p" "(q, hs2) = do_frame env frame cs1 hs" "q = Frame_next cs2"
  have "k_frame_header_size \<le> length (concat cs)"
    using a(1) read_full_spec [of k_frame_header_size cs] by (cases "length (concat cs) < k_frame_header_size") auto
  then have "input_size cs1 < input_size cs"
    using a(1,2) read_full_spec [of k_frame_header_size cs] by (auto simp: k_frame_header_size_def)
  moreover have "input_size cs2 \<le> input_size cs1" using a(3,4) do_frame_size by metis
  ultimately show "((env, hs2, cs2), env, hs, cs) \<in> measure (\<lambda>(env, hs, cs). input_size cs)" by simp
qed simp

declare http2_run.simps [simp del]

section \<open>Sending\<close>

record http2 =
  next_stream_id :: u32

definition new_http2 :: "bool \<Rightarrow> http2" where
  "new_http2 client = \<lparr> next_stream_id = (if client then 3 else 2) \<rparr>"

text \<open>The second argument is what the encoder returns, or nothing.  An error leaves the object as it
  was.  The result is the stream and the bytes written; the buffer before is \<^theory_text>\<open>b\<close>.\<close>

definition open_stream :: "byte list \<Rightarrow> byte list option \<Rightarrow> bool \<Rightarrow> http2 \<Rightarrow> (string + (u32 \<times> byte list)) option \<times> http2" where
  "open_stream b encoded is_headers h =
     (let encoded_len = (case encoded of None \<Rightarrow> 0 | Some e \<Rightarrow> length e)
      in if encoded_len > 1024 - k_frame_header_size then (Some (Inl ''encoded headers too big''), h)
         else
           (let stream_id = next_stream_id h;
                h = h\<lparr>next_stream_id := next_stream_id h + 2\<rparr>
            in (do {
                  b \<leftarrow> format_frame b (of_nat encoded_len) k_HEADERS k_HEADERS_END_HEADERS stream_id;
                  b \<leftarrow> (case encoded of None \<Rightarrow> Some b | Some e \<Rightarrow> wr_range b k_frame_header_size e);
                  out \<leftarrow> rd_range b 0 (k_frame_header_size + encoded_len);
                  Some (Inr (stream_id, out)) }, h)))"

text \<open>The value of a setting is copied from the variable that holds its identifier, which has two bytes.\<close>

fun settings_loop :: "nat \<Rightarrow> (u16 \<times> u32) list \<Rightarrow> byte list \<Rightarrow> byte list option" where
  "settings_loop i [] b = Some b"
| "settings_loop i ((ident, val) # ss) b = do {
     let netv16 = enc_be 2 ident;
     b \<leftarrow> wr_range b (k_frame_header_size + i * 6) netv16;
     value \<leftarrow> rd_range netv16 0 4;
     b \<leftarrow> wr_range b (k_frame_header_size + i * 6 + 2) value;
     settings_loop (i + 1) ss b }"

definition send_settings :: "byte list \<Rightarrow> u32 \<Rightarrow> (u16 \<times> u32) list \<Rightarrow> byte list option" where
  "send_settings b stream_id settings = do {
     b \<leftarrow> format_frame b (of_nat (length settings * 6)) k_SETTINGS 0 stream_id;
     b \<leftarrow> settings_loop 0 settings b;
     rd_range b 0 (k_frame_header_size + length settings * 6) }"

text \<open>The acknowledgement is made and not sent.\<close>

definition parse_settings :: "byte list \<Rightarrow> u32 \<Rightarrow> byte \<Rightarrow> u32 \<Rightarrow> byte list option" where
  "parse_settings b stream_id flags frame_size =
     (if flags AND k_settings_ack \<noteq> 0 then Some b
      else format_frame b 0 k_SETTINGS k_settings_ack stream_id)"

section \<open>The upgrade\<close>

definition http2_name :: string where "http2_name = ''h2c-15-anon''"

text \<open>What \<open>http2_handler::exec\<close> writes before it runs the loop, if it does.\<close>

definition http2_handler_exec ::
  "byte list \<Rightarrow> http2_env \<Rightarrow> int \<Rightarrow> int \<Rightarrow> headers \<Rightarrow> byte list list \<Rightarrow> ((string \<times> byte list option) \<times> (run_end \<times> handlers)) option"
where
  "http2_handler_exec b env http_major http_minor hs cs =
     (if http_major < 1 \<or> http_minor < 1 then None
      else if \<not> contains_header hs ''http2-settings'' then None
      else
        (let resp = add_header ''upgrade'' http2_name (add_header ''connection'' ''Upgrade'' (new_response ''101 Switching Protocols''))
         in Some ((respond_text resp, send_settings b 1 []), http2_run env (\<lambda>sid. None) cs)))"

section \<open>Frames as the specification has them\<close>

record frame =
  f_type :: byte
  f_flags :: byte
  f_stream :: u32
  f_payload :: "byte list"

definition frame_header :: "frame \<Rightarrow> byte list" where
  "frame_header f = drop 1 (enc_be 4 (of_nat (length (f_payload f)) :: u32)) @ [f_type f, f_flags f] @ enc_be 4 (f_stream f)"

definition frame_bytes :: "frame \<Rightarrow> byte list" where
  "frame_bytes f = frame_header f @ f_payload f"

definition opens_stream :: "frame \<Rightarrow> bool" where
  "opens_stream f \<longleftrightarrow> f_type f = k_HEADERS \<or> f_type f = k_PUSH_PROMISE"

text \<open>The frames that the loop can go on after: streams are opened once and before other frames, and
  frames of the connection have no payload.\<close>

definition frame_ok :: "u32 set \<Rightarrow> frame \<Rightarrow> bool" where
  "frame_ok streams f \<longleftrightarrow>
     (if f_stream f < 2 then f_payload f = []
      else if opens_stream f then f_stream f \<notin> streams else f_stream f \<in> streams)"

fun frames_ok :: "u32 set \<Rightarrow> frame list \<Rightarrow> bool" where
  "frames_ok streams [] = True"
| "frames_ok streams (f # fs) \<longleftrightarrow>
     length (f_payload f) < 2 ^ 24 \<and> frame_ok streams f \<and>
     frames_ok (if 2 \<le> f_stream f then insert (f_stream f) streams else streams) fs"

text \<open>What the handler of a stream has been given after some frames.\<close>

definition stream_bytes :: "frame list \<Rightarrow> handlers" where
  "stream_bytes fs sid =
     (if 2 \<le> sid \<and> (\<exists>f \<in> set fs. f_stream f = sid)
      then Some (concat (map frame_bytes (filter (\<lambda>f. f_stream f = sid) fs))) else None)"

lemma length_frame_header [simp]: "length (frame_header f) = 9"
  by (simp add: frame_header_def)

lemma enc_be_high:
  assumes "n < 2 ^ 24"
  shows "enc_be 4 (of_nat n :: u32) = 0 # drop 1 (enc_be 4 (of_nat n :: u32))"
proof -
  have "drop_bit 24 (of_nat n :: u32) = 0"
    using assms by (simp add: drop_bit_eq_div word_unat_eq_iff unat_div unat_of_nat)
  then show ?thesis by (simp add: enc_be_def upt_rec)
qed

lemma frame_header_fields:
  "length (f_payload f) < 2 ^ 24 \<Longrightarrow> unat (frame_size_of (frame_header f)) = length (f_payload f)"
  "stream_id_of (frame_header f) = f_stream f" "frame_header f ! 3 = f_type f"
proof -
  assume a: "length (f_payload f) < 2 ^ 24"
  have "frame_size_of (frame_header f) = dec_be (enc_be 4 (of_nat (length (f_payload f)) :: u32))"
    using enc_be_high [OF a] by (simp add: frame_size_of_def frame_header_def)
  then show "unat (frame_size_of (frame_header f)) = length (f_payload f)"
    using a by (simp add: dec_enc_be unat_of_nat)
next
  show "stream_id_of (frame_header f) = f_stream f"
    unfolding stream_id_of_def frame_header_def by (simp add: dec_enc_be)
  show "frame_header f ! 3 = f_type f" by (simp add: frame_header_def nth_append)
qed

definition all_ok :: http2_env where
  "all_ok = \<lparr> new_ok = (\<lambda>sid. True), write_ok = (\<lambda>sid w bs. True) \<rparr>"

lemma forward_all:
  assumes "n \<le> length (concat cs)" "hs sid = Some w"
  shows "\<exists>cs'. forward all_ok sid n cs hs = Inr (cs', hs(sid := Some (w @ take n (concat cs)))) \<and> concat cs' = drop n (concat cs)"
  using assms
proof (induction "all_ok" sid n cs hs arbitrary: w rule: forward.induct)
  case (1 sid n cs hs)
  show ?case
  proof (cases "n = 0")
    case True
    then have "hs(sid := Some (w @ take n (concat cs))) = hs" using 1(3) by (simp add: fun_upd_idem)
    then show ?thesis unfolding True by (intro exI [of _ cs]) (simp add: forward_0)
  next
    case False
    then have "cs \<noteq> []" using 1(2) by auto
    then obtain bs cs1 where r: "stream_read (min 1024 n) cs = Some (bs, cs1)" using stream_read_more by blast
    note s = stream_read_spec [OF r]
    have w: "handler_write all_ok sid bs hs = Some (hs(sid := Some (w @ bs)))"
      using 1(3) by (simp add: handler_write_def all_ok_def)
    have "n - length bs \<le> length (concat cs1)" using 1(2) s by simp
    then obtain cs' where cs': "forward all_ok sid (n - length bs) cs1 (hs(sid := Some (w @ bs))) =
        Inr (cs', (hs(sid := Some (w @ bs)))(sid := Some ((w @ bs) @ take (n - length bs) (concat cs1))))"
      "concat cs' = drop (n - length bs) (concat cs1)"
      using 1(1) [OF False r refl w] by fastforce
    then show ?thesis using False r w s by (auto simp: forward_step)
  qed
qed

text \<open>One frame.\<close>

lemma do_frame_next:
  assumes "length (f_payload f) < 2 ^ 24" "f_stream f < 2 \<longrightarrow> f_payload f = []"
    "f_payload f @ rest = concat cs" "2 \<le> f_stream f \<Longrightarrow> opens_stream f \<longleftrightarrow> hs (f_stream f) = None"
  shows "\<exists>cs'. do_frame all_ok (frame_header f) cs hs = (Frame_next cs',
      if f_stream f < 2 then hs
      else hs(f_stream f := Some ((case hs (f_stream f) of None \<Rightarrow> [] | Some w \<Rightarrow> w) @ frame_bytes f))) \<and> concat cs' = rest"
proof (cases "f_stream f < 2")
  case True
  then show ?thesis using assms(2,3) by (auto simp: do_frame_def Let_def frame_header_fields)
next
  case False
  let ?n = "length (f_payload f)"
  define w where "w = (case hs (f_stream f) of None \<Rightarrow> [] | Some w \<Rightarrow> w)"
  define hs1 where "hs1 = (if opens_stream f then hs(f_stream f := Some []) else hs)"
  have opens: "opens_stream f \<longleftrightarrow> hs (f_stream f) = None" using False assms(4) by (simp add: not_less)
  then have hs1: "hs1 (f_stream f) = Some w" by (auto simp: hs1_def w_def)
  then have wr: "handler_write all_ok (f_stream f) (frame_header f) hs1 = Some (hs1(f_stream f := Some (w @ frame_header f)))"
    by (simp add: handler_write_def all_ok_def)
  have "?n \<le> length (concat cs)" using assms(3) by (metis length_append le_add1)
  then obtain cs' where cs': "forward all_ok (f_stream f) ?n cs (hs1(f_stream f := Some (w @ frame_header f))) =
      Inr (cs', hs1(f_stream f := Some ((w @ frame_header f) @ take ?n (concat cs))))" "concat cs' = drop ?n (concat cs)"
    using forward_all [of ?n cs "hs1(f_stream f := Some (w @ frame_header f))" "f_stream f" "w @ frame_header f"] by auto
  have payload: "take ?n (concat cs) = f_payload f" "drop ?n (concat cs) = rest" by (simp_all flip: assms(3))
  have "do_frame all_ok (frame_header f) cs hs = deliver all_ok (frame_header f) cs hs1"
    using False opens
    by (auto simp: do_frame_def Let_def frame_header_fields opens_stream_def hs1_def all_ok_def)
  also have "\<dots> = (Frame_next cs', hs1(f_stream f := Some ((w @ frame_header f) @ take ?n (concat cs))))"
    using hs1 wr cs'(1) assms(1) by (simp add: deliver_def frame_header_fields)
  finally have "do_frame all_ok (frame_header f) cs hs =
      (Frame_next cs', hs1(f_stream f := Some ((w @ frame_header f) @ take ?n (concat cs))))" .
  moreover have "hs1(f_stream f := v) = hs(f_stream f := v)" for v by (simp add: hs1_def)
  ultimately show ?thesis using False cs'(2) by (auto simp: payload w_def frame_bytes_def)
qed

definition add_frame :: "frame \<Rightarrow> handlers \<Rightarrow> handlers" where
  "add_frame f hs =
     (if f_stream f < 2 then hs
      else hs(f_stream f := Some ((case hs (f_stream f) of None \<Rightarrow> [] | Some w \<Rightarrow> w) @ frame_bytes f)))"

lemma fold_add_frame:
  "fold add_frame fs hs sid =
     (if 2 \<le> sid \<and> (\<exists>f \<in> set fs. f_stream f = sid)
      then Some ((case hs sid of None \<Rightarrow> [] | Some w \<Rightarrow> w) @ concat (map frame_bytes (filter (\<lambda>f. f_stream f = sid) fs)))
      else hs sid)"
proof (induction fs arbitrary: hs)
  case (Cons f fs)
  show ?case
  proof (cases "f_stream f = sid \<and> 2 \<le> sid")
    case True
    then have "f_stream f = sid" "\<not> sid < 2" by (simp_all add: not_less)
    then have f: "add_frame f hs sid = Some ((case hs sid of None \<Rightarrow> [] | Some w \<Rightarrow> w) @ frame_bytes f)"
      by (simp add: add_frame_def)
    have none: "\<not> (\<exists>g \<in> set fs. f_stream g = sid) \<Longrightarrow> filter (\<lambda>g. f_stream g = sid) fs = []"
      by (simp add: filter_empty_conv)
    have "fold add_frame (f # fs) hs sid = fold add_frame fs (add_frame f hs) sid" by simp
    also have "\<dots> = Some ((case hs sid of None \<Rightarrow> [] | Some w \<Rightarrow> w) @ frame_bytes f @
        concat (map frame_bytes (filter (\<lambda>f. f_stream f = sid) fs)))"
      unfolding Cons f using True none by simp
    finally show ?thesis using True by simp
  next
    case False
    then have "add_frame f hs sid = hs sid" by (auto simp: add_frame_def)
    then have IH: "fold add_frame (f # fs) hs sid =
        (if 2 \<le> sid \<and> (\<exists>f \<in> set fs. f_stream f = sid)
         then Some ((case hs sid of None \<Rightarrow> [] | Some w \<Rightarrow> w) @ concat (map frame_bytes (filter (\<lambda>f. f_stream f = sid) fs)))
         else hs sid)" using Cons [of "add_frame f hs"] by (simp only: fold_simps)
    show ?thesis
    proof (cases "2 \<le> sid")
      case True
      then have "f_stream f \<noteq> sid" using False by blast
      then show ?thesis unfolding IH by auto
    next
      case False
      then show ?thesis unfolding IH by simp
    qed
  qed
qed simp

lemma stream_bytes_fold: "fold add_frame fs (\<lambda>sid. None) = stream_bytes fs"
  by (rule ext) (simp add: fold_add_frame stream_bytes_def)

lemma run_header:
  assumes "concat cs = frame_header f @ bs"
  shows "\<exists>cs'. concat cs' = bs \<and> http2_run env hs cs =
    (case do_frame env (frame_header f) cs' hs of
       (Frame_end r, hs) \<Rightarrow> (r, hs) | (Frame_next cs, hs) \<Rightarrow> http2_run env hs cs)"
proof -
  obtain cs' where "read_full 9 cs = Some (take 9 (concat cs), cs')" "concat cs' = drop 9 (concat cs)"
    using read_full_spec [of 9 cs] assms by auto
  then show ?thesis using assms by (subst http2_run.simps) (auto simp: k_frame_header_size_def)
qed

lemma run_frames:
  assumes "frames_ok streams fs" "concat cs = concat (map frame_bytes fs) @ rest"
    "\<And>sid. 2 \<le> sid \<Longrightarrow> sid \<in> streams \<longleftrightarrow> hs sid \<noteq> None"
  shows "\<exists>cs'. concat cs' = rest \<and> http2_run all_ok hs cs = http2_run all_ok (fold add_frame fs hs) cs'"
  using assms
proof (induction fs arbitrary: streams cs hs)
  case (Cons f fs)
  have ok: "length (f_payload f) < 2 ^ 24" "frame_ok streams f"
    "frames_ok (if 2 \<le> f_stream f then insert (f_stream f) streams else streams) fs" using Cons(2) by simp_all
  have "concat cs = frame_header f @ (f_payload f @ (concat (map frame_bytes fs) @ rest))"
    using Cons(3) by (simp add: frame_bytes_def [of f])
  then obtain cs1 where cs1: "concat cs1 = f_payload f @ (concat (map frame_bytes fs) @ rest)"
    "http2_run all_ok hs cs = (case do_frame all_ok (frame_header f) cs1 hs of
       (Frame_end r, hs) \<Rightarrow> (r, hs) | (Frame_next cs, hs) \<Rightarrow> http2_run all_ok hs cs)"
    using run_header by blast
  have opens: "2 \<le> f_stream f \<Longrightarrow> opens_stream f \<longleftrightarrow> hs (f_stream f) = None"
    using ok(2) Cons(4) by (auto simp: frame_ok_def split: if_splits)
  have none: "f_stream f < 2 \<longrightarrow> f_payload f = []" using ok(2) by (simp add: frame_ok_def)
  obtain cs2 where cs2: "do_frame all_ok (frame_header f) cs1 hs = (Frame_next cs2, add_frame f hs)"
    "concat cs2 = concat (map frame_bytes fs) @ rest"
    using do_frame_next [where hs = hs, OF ok(1) none cs1(1) [symmetric] opens, folded add_frame_def] by blast
  have "\<exists>cs'. concat cs' = rest \<and> http2_run all_ok (add_frame f hs) cs2 = http2_run all_ok (fold add_frame fs (add_frame f hs)) cs'"
    by (rule Cons(1) [OF ok(3) cs2(2)]) (use Cons(4) in \<open>auto simp: add_frame_def\<close>)
  then show ?case using cs1(2) cs2(1) by simp
qed auto

text \<open>Setting a frame into a buffer.\<close>

lemma format_frame_eq:
  assumes "9 \<le> length b"
  shows "format_frame b len type flags sid = Some ((drop 1 (enc_be 4 len) @ [type, flags] @ enc_be 4 sid) @ drop 9 b)"
proof -
  obtain hd tl where b: "b = hd @ tl" "length hd = 9" using assms by (metis append_take_drop_id length_take min.absorb2)
  then obtain x0 x1 x2 x3 x4 ys where hd: "hd = [x0, x1, x2, x3, x4] @ ys" "length ys = 4"
    by (auto simp: length_Suc_conv numeral_eq_Suc)
  obtain e1 e2 e3 where e: "drop (Suc 0) (enc_be 4 len) = [e1, e2, e3]" by (simp add: enc_be_def upt_rec)
  show ?thesis
    by (simp add: format_frame_def b(1) hd(1) e wr_range_def wr_def hd(2))
qed

text \<open>A sequence of streams that are opened by one side.\<close>

fun open_streams :: "byte list \<Rightarrow> byte list list \<Rightarrow> http2 \<Rightarrow> (u32 \<times> byte list) list option" where
  "open_streams b [] h = Some []"
| "open_streams b (e # es) h =
     (case open_stream b (Some e) True h of
        (Some (Inr r), h) \<Rightarrow> map_option (Cons r) (open_streams b es h)
      | _ \<Rightarrow> None)"

definition headers_frame :: "u32 \<Rightarrow> byte list \<Rightarrow> frame" where
  "headers_frame sid e = \<lparr> f_type = k_HEADERS, f_flags = k_HEADERS_END_HEADERS, f_stream = sid, f_payload = e \<rparr>"

lemma open_stream_eq:
  assumes "length b = 1024" "length e \<le> 1015"
  shows "open_stream b (Some e) is_headers h =
    (Some (Inr (next_stream_id h, frame_bytes (headers_frame (next_stream_id h) e))), h\<lparr>next_stream_id := next_stream_id h + 2\<rparr>)"
proof -
  let ?hd = "frame_header (headers_frame (next_stream_id h) e)"
  have f: "format_frame b (of_nat (length e)) k_HEADERS k_HEADERS_END_HEADERS (next_stream_id h) = Some (?hd @ drop 9 b)"
    using assms(1) by (simp add: format_frame_eq frame_header_def headers_frame_def)
  have "wr_range (?hd @ drop 9 b) 9 e = Some (?hd @ e @ drop (9 + length e) b)"
    using assms by (simp add: wr_range_def add.commute)
  moreover have "rd_range (?hd @ e @ drop (9 + length e) b) 0 (9 + length e) = Some (?hd @ e)"
    by (simp add: rd_range_def)
  ultimately show ?thesis using assms(2) f
    by (simp add: open_stream_def Let_def k_frame_header_size_def frame_bytes_def headers_frame_def)
qed

lemma open_streams_eq:
  assumes "length b = 1024" "\<forall>e \<in> set es. length e \<le> 1015"
  shows "open_streams b es h = Some (map (\<lambda>(i, e). let sid = next_stream_id h + of_nat (2 * i)
     in (sid, frame_bytes (headers_frame sid e))) (enumerate 0 es))"
  using assms
proof (induction es arbitrary: h)
  case (Cons e es)
  let ?h = "h\<lparr>next_stream_id := next_stream_id h + 2\<rparr>"
  have "enumerate 1 es = map (\<lambda>(i, e). (Suc i, e)) (enumerate 0 es)"
    by (rule nth_equalityI) (simp_all add: nth_enumerate_eq)
  then have "map (\<lambda>(i, e). let sid = next_stream_id h + of_nat (2 * i) in (sid, frame_bytes (headers_frame sid e))) (enumerate 1 es) =
      map (\<lambda>(i, e). let sid = next_stream_id ?h + of_nat (2 * i) in (sid, frame_bytes (headers_frame sid e))) (enumerate 0 es)"
    by (auto simp: add.assoc)
  then show ?case using Cons by (simp add: open_stream_eq) (simp add: Let_def)
qed simp

section \<open>Properties\<close>


definition ex_frames :: "frame list" where
  "ex_frames = [\<lparr> f_type = 4, f_flags = 0, f_stream = 1, f_payload = [] \<rparr>,
     \<lparr> f_type = 1, f_flags = 4, f_stream = 3, f_payload = [7, 8] \<rparr>,
     \<lparr> f_type = 0, f_flags = 1, f_stream = 3, f_payload = [9] \<rparr>]"


text \<open>
  a frame that opens a stream again, or that is for a stream that is not open, ends the connection
  at once: the loop returns, the handlers have the frames before it and nothing of it.
\<close>
theorem http2_stops:
  assumes "frames_ok {} fs" "concat cs = concat (map frame_bytes fs) @ frame_header f @ rest" "2 \<le> f_stream f"
    "opens_stream f \<longleftrightarrow> (\<exists>g \<in> set fs. f_stream g = f_stream f)"
  shows "http2_run all_ok (\<lambda>sid. None) cs = (Run_returns, stream_bytes fs)"
proof -
  obtain cs1 where cs1: "concat cs1 = frame_header f @ rest"
    "http2_run all_ok (\<lambda>sid. None) cs = http2_run all_ok (stream_bytes fs) cs1"
    using run_frames [OF assms(1,2), of "\<lambda>sid. None"] by (auto simp: stream_bytes_fold)
  obtain cs2 where cs2: "http2_run all_ok (stream_bytes fs) cs1 = (case do_frame all_ok (frame_header f) cs2 (stream_bytes fs) of
      (Frame_end r, hs) \<Rightarrow> (r, hs) | (Frame_next cs, hs) \<Rightarrow> http2_run all_ok hs cs)"
    using run_header [OF cs1(1)] by blast
  have "do_frame all_ok (frame_header f) cs2 (stream_bytes fs) = (Frame_end Run_returns, stream_bytes fs)"
    using assms(3,4) by (auto simp: do_frame_def deliver_def Let_def frame_header_fields stream_bytes_def opens_stream_def not_less)
  then show ?thesis using cs1(2) cs2 by simp
qed

theorem http2_stops_witness:
  "http2_run all_ok (\<lambda>sid. None) [concat (map frame_bytes ex_frames), [0, 0, 0, 1, 4, 0, 0, 0, 3]] =
     (Run_returns, stream_bytes ex_frames)"
  by (rule http2_stops [where f = "\<lparr> f_type = 1, f_flags = 4, f_stream = 3, f_payload = [] \<rparr>" and rest = "[]"])
    (simp_all add: ex_frames_def frame_ok_def opens_stream_def k_HEADERS_def k_PUSH_PROMISE_def frame_header_def enc_be_def upt_rec)

text \<open>
  the bytes written for each opened stream are a HEADERS frame with the encoded headers for the returned
  stream; the streams of successive calls are numbered from 3 by a client and from 2 by a server
  in steps of two, so that neither side uses a number twice, nor one of the other side, in two thousand million calls.
\<close>
theorem open_stream_frames:
  assumes "length b = 1024" "\<forall>e \<in> set es. length e \<le> 1015" "length es \<le> 2 ^ 31"
  shows "\<exists>sids. length sids = length es \<and> distinct sids \<and> (\<forall>sid \<in> set sids. odd (unat sid) = client) \<and>
    open_streams b es (new_http2 client) = Some (map (\<lambda>(sid, e). (sid, frame_bytes (headers_frame sid e))) (zip sids es))"
proof -
  define k :: nat where "k = (if client then 3 else 2)"
  define sid :: "nat \<Rightarrow> u32" where "sid i = of_nat (k + 2 * i)" for i
  have start: "next_stream_id (new_http2 client) + of_nat (2 * i) = sid i" for i
    by (simp add: new_http2_def sid_def k_def)
  have "inj_on sid {0..<length es}"
  proof (rule inj_onI)
    fix i j assume ij: "i \<in> {0..<length es}" "j \<in> {0..<length es}" "sid i = sid j"
    then have "unat (sid i) = unat (sid j)" by simp
    then have "(k + 2 * i) mod 2 ^ 32 = (k + 2 * j) mod 2 ^ 32" unfolding sid_def unat_of_nat by simp
    then have "int ((k + 2 * i) mod 2 ^ 32) = int ((k + 2 * j) mod 2 ^ 32)" by (rule arg_cong)
    then have "(int k + 2 * int i) mod 2 ^ 32 = (int k + 2 * int j) mod 2 ^ 32" by (simp only: zmod_int) simp
    then have "2 ^ 32 dvd 2 * (int i - int j)" by (simp add: mod_eq_dvd_iff algebra_simps)
    then obtain c where "2 * (int i - int j) = 2 ^ 32 * c" by (elim dvdE)
    then have "int i - int j = 2 ^ 31 * c" by simp
    then have "2 ^ 31 dvd int i - int j" by (rule dvdI)
    moreover have "\<bar>int i - int j\<bar> < 2 ^ 31" using ij(1,2) assms(3) by auto
    ultimately show "i = j" using dvd_imp_le_int [of "int i - int j" "2 ^ 31"] by auto
  qed
  then have "distinct (map sid [0..<length es])" by (simp add: distinct_map)
  moreover have "odd (unat (sid i)) = client" for i
  proof -
    have "even (unat (sid i)) \<longleftrightarrow> even (k + 2 * i)" unfolding sid_def unat_of_nat by (rule dvd_mod_iff) simp
    then show ?thesis by (simp add: k_def)
  qed
  moreover have "open_streams b es (new_http2 client) =
      Some (map (\<lambda>(s, e). (s, frame_bytes (headers_frame s e))) (zip (map sid [0..<length es]) es))"
    unfolding open_streams_eq [OF assms(1,2)] start
    by (simp add: Let_def enumerate_eq_zip zip_map1 case_prod_beta comp_def)
  ultimately show ?thesis by (intro exI [of _ "map sid [0..<length es]"]) simp
qed

theorem open_stream_frames_witness:
  "\<exists>sids. length sids = 2 \<and> open_streams (replicate 1024 0) [[1, 2], []] (new_http2 True) =
     Some (map (\<lambda>(sid, e). (sid, frame_bytes (headers_frame sid e))) (zip sids [[1, 2], []]))"
proof -
  have "length (replicate 1024 (0 :: byte)) = 1024" "\<forall>e \<in> set [[1, 2], [] :: byte list]. length e \<le> 1015"
    "length [[1, 2], [] :: byte list] \<le> 2 ^ 31" by simp_all
  from open_stream_frames [OF this, of True]
  obtain sids where sids: "length sids = length [[1, 2], [] :: byte list]"
    "open_streams (replicate 1024 0) [[1, 2], []] (new_http2 True) =
       Some (map (\<lambda>(sid, e). (sid, frame_bytes (headers_frame sid e))) (zip sids [[1, 2], []]))" by blast
  have "length sids = 2" using sids(1) by simp
  with sids(2) show ?thesis by blast
qed

text \<open>An encoding that does not fit is refused and uses no number.\<close>

lemma open_stream_too_big:
  "1015 < length e \<Longrightarrow> open_stream b (Some e) is_headers h = (Some (Inl ''encoded headers too big''), h)"
  by (simp add: open_stream_def k_frame_header_size_def)

text \<open>Settings other than none read beyond the variable with the identifier; without any the frame is sent.\<close>

lemma send_settings_overread:
  "9 \<le> length b \<Longrightarrow> send_settings b sid ss = (if ss = [] then Some (frame_header
     \<lparr> f_type = k_SETTINGS, f_flags = 0, f_stream = sid, f_payload = [] \<rparr>) else None)"
proof (cases ss)
  case Nil
  then show "9 \<le> length b \<Longrightarrow> ?thesis"
    by (simp add: send_settings_def format_frame_eq k_frame_header_size_def frame_header_def rd_range_def)
next
  case (Cons x xs)
  then show "9 \<le> length b \<Longrightarrow> ?thesis"
    by (cases x) (simp add: send_settings_def format_frame_eq rd_range_def split: Option.bind_splits)
qed

text \<open>The payload of a frame for the connection is taken for frames: here one that opens stream 3.\<close>

lemma http2_desync:
  "http2_run all_ok (\<lambda>sid. None) [frame_bytes \<lparr> f_type = 6, f_flags = 0, f_stream = 0,
      f_payload = frame_bytes \<lparr> f_type = 1, f_flags = 4, f_stream = 3, f_payload = [] \<rparr> \<rparr>] =
    (Run_throws, (\<lambda>sid. None)(3 := Some (frame_bytes \<lparr> f_type = 1, f_flags = 4, f_stream = 3, f_payload = [] \<rparr>)))"
proof -
  let ?f = "\<lparr> f_type = 1, f_flags = 4, f_stream = 3, f_payload = [] \<rparr>"
  let ?g = "\<lparr> f_type = 6, f_flags = 0, f_stream = 0, f_payload = frame_bytes ?f \<rparr>"
  obtain cs where cs: "concat cs = frame_bytes ?f" "http2_run all_ok (\<lambda>sid. None) [frame_bytes ?g] =
      (case do_frame all_ok (frame_header ?g) cs (\<lambda>sid. None) of
       (Frame_end r, hs) \<Rightarrow> (r, hs) | (Frame_next cs, hs) \<Rightarrow> http2_run all_ok hs cs)"
    using run_header [of "[frame_bytes ?g]" ?g "frame_bytes ?f" all_ok "\<lambda>sid. None"] by (auto simp: frame_bytes_def [of ?g])
  have "do_frame all_ok (frame_header ?g) cs (\<lambda>sid. None) = (Frame_next cs, \<lambda>sid. None)"
    by (simp add: do_frame_def Let_def frame_header_fields)
  then have "http2_run all_ok (\<lambda>sid. None) [frame_bytes ?g] = http2_run all_ok (\<lambda>sid. None) cs" using cs(2) by simp
  also obtain cs' where run: "http2_run all_ok (\<lambda>sid. None) cs = http2_run all_ok (fold add_frame [?f] (\<lambda>sid. None)) cs'" "concat cs' = []"
    using run_frames [of "{}" "[?f]" cs "[]" "\<lambda>sid. None"] cs(1)
    by (auto simp: frame_ok_def opens_stream_def k_HEADERS_def)
  have "http2_run all_ok hs cs' = (Run_throws, hs)" for hs
    using read_full_spec [of 9 cs'] run(2) by (subst http2_run.simps) (simp add: k_frame_header_size_def)
  note run(1) [unfolded this]
  finally show ?thesis by (simp add: add_frame_def)
qed

text \<open>
  a request is upgraded exactly if its version has a minor number of at least one and it has an
  HTTP2-Settings header; then the switch of protocols and an empty SETTINGS frame for stream 1 are written before
  the frames of the connection are forwarded.
\<close>
theorem http2_upgrade:
  assumes "9 \<le> length b"
  shows "http2_handler_exec b env major minor hs cs =
    (if 1 \<le> major \<and> 1 \<le> minor \<and> contains_header hs ''http2-settings''
     then Some ((respond_text (add_header ''upgrade'' http2_name (add_header ''connection'' ''Upgrade'' (new_response ''101 Switching Protocols''))),
       Some [0, 0, 0, 4, 0, 0, 0, 0, 1]), http2_run env (\<lambda>sid. None) cs)
     else None)"
  using send_settings_overread [OF assms, of 1 "[]"]
  by (auto simp: http2_handler_exec_def frame_header_def k_SETTINGS_def enc_be_def upt_rec)

theorem http2_upgrade_witness:
  "http2_handler_exec (replicate 9 0) all_ok 1 0 [] [] = None"
  using http2_upgrade [of "replicate 9 0" all_ok 1 0 "[]" "[]"] by simp

end
