(* ===== verification/Mcdc.thy ===== *)
theory Mcdc
  imports Prelude Big_Endian Streams
begin

text \<open>
  The client of memcached, \<open>src/cpp/mcdc.cpp\<close>: the packets of \<open>set\<close> and \<open>get\<close>, and what they do with the
  reply, which arrives in pieces.  \<^theory_text>\<open>None\<close> is an access outside of the vector of the reply.  The
  numbers in the packets are in network order: \<open>htons\<close> and \<open>htonl\<close> and the store through the pointer put
  \<^theory_text>\<open>enc_be\<close> of the number there.
\<close>

section \<open>Requests\<close>

definition put16 :: "byte list \<Rightarrow> nat \<Rightarrow> u16 \<Rightarrow> byte list option" where
  "put16 pkt i v = wr_range pkt i (enc_be 2 v)"

definition put32 :: "byte list \<Rightarrow> nat \<Rightarrow> u32 \<Rightarrow> byte list option" where
  "put32 pkt i v = wr_range pkt i (enc_be 4 v)"

definition get16 :: "byte list \<Rightarrow> nat \<Rightarrow> u16 option" where
  "get16 p i = map_option dec_be (rd_range p i 2)"

definition get32 :: "byte list \<Rightarrow> nat \<Rightarrow> u32 option" where
  "get32 p i = map_option dec_be (rd_range p i 4)"

definition set_packet :: "byte list \<Rightarrow> byte list \<Rightarrow> int \<Rightarrow> int \<Rightarrow> int \<Rightarrow> byte list option" where
  "set_packet key val expiration flags vbucket =
     (let body_size = 8 + length key + length val;
          pkt = replicate (24 + body_size) 0
      in do {
        pkt \<leftarrow> wr pkt 0 0x80;
        pkt \<leftarrow> wr pkt 1 0x01;
        pkt \<leftarrow> put16 pkt 2 (of_nat (length key));
        pkt \<leftarrow> wr pkt 4 0x08;
        pkt \<leftarrow> wr pkt 5 0x00;
        pkt \<leftarrow> put16 pkt 6 (word_of_int vbucket);
        pkt \<leftarrow> put32 pkt 8 (of_nat body_size);
        pkt \<leftarrow> wr_range pkt 12 (replicate 12 0);
        pkt \<leftarrow> put32 pkt 24 (word_of_int flags);
        pkt \<leftarrow> put32 pkt 28 (word_of_int expiration);
        pkt \<leftarrow> wr_range pkt 32 key;
        wr_range pkt (32 + length key) val })"

definition get_packet :: "byte list \<Rightarrow> int \<Rightarrow> byte list option" where
  "get_packet key vbucket =
     (let body_size = length key;
          pkt = replicate (24 + body_size) 0
      in do {
        pkt \<leftarrow> wr pkt 0 0x80;
        pkt \<leftarrow> wr pkt 1 0x00;
        pkt \<leftarrow> put16 pkt 2 (of_nat (length key));
        pkt \<leftarrow> wr pkt 4 0x00;
        pkt \<leftarrow> wr pkt 5 0x00;
        pkt \<leftarrow> put16 pkt 6 (word_of_int vbucket);
        pkt \<leftarrow> put32 pkt 8 (of_nat body_size);
        pkt \<leftarrow> wr_range pkt 12 (replicate 12 0);
        wr_range pkt 24 key })"

section \<open>Replies\<close>

text \<open>\<open>Io_error\<close> is a \<open>fiber_io_error\<close>, after which the cluster tries again; \<open>Mcd_error\<close> is another exception.\<close>

datatype mcd_error = Io_error string | Mcd_error string

fun status_check :: "u16 \<Rightarrow> mcd_error option" where
  "status_check status =
     (if status = 0 then None
      else if status = 0x0001 then Some (Mcd_error ''Key not found'')
      else if status = 0x0002 then Some (Mcd_error ''Key exists'')
      else if status = 0x0003 then Some (Mcd_error ''Value too large'')
      else if status = 0x0004 then Some (Mcd_error ''Invalid arguments'')
      else if status = 0x0005 then Some (Mcd_error ''Item not stored'')
      else if status = 0x0006 then Some (Mcd_error ''Incr/Decr on non-numeric value.'')
      else if status = 0x0007 then Some (Mcd_error ''The vbucket belongs to another server'')
      else if status = 0x0008 then Some (Mcd_error ''Authentication error'')
      else if status = 0x0009 then Some (Mcd_error ''Authentication continue'')
      else if status = 0x0081 then Some (Mcd_error ''Unknown command'')
      else if status = 0x0082 then Some (Mcd_error ''Out of memory'')
      else if status = 0x0083 then Some (Mcd_error ''Not supported'')
      else if status = 0x0084 then Some (Mcd_error ''Internal error'')
      else if status = 0x0085 then Some (Io_error ''Busy'')
      else if status = 0x0086 then Some (Io_error ''Temporary failure'')
      else Some (Mcd_error ''unknown status''))"

declare status_check.simps [simp del]

text \<open>The loop \<open>while (bytes_read < target)\<close>: \<open>bytes_read\<close> is an \<open>int\<close>, which is compared with the
  \<open>uint32_t\<close> as a number without sign, but is negative as an index when its highest bit is set.\<close>

function read_into ::
  "u32 \<Rightarrow> byte list \<Rightarrow> u32 \<Rightarrow> byte list list \<Rightarrow> (mcd_error + byte list \<times> u32 \<times> byte list list) option"
where
  "read_into target reply bytes_read cs =
     (if bytes_read < target then
        if sint bytes_read < 0 then None
        else (case stream_read (unat (target - bytes_read)) cs of
            None \<Rightarrow> Some (Inl (Io_error ''closed''))
          | Some (bs, cs) \<Rightarrow> do {
              reply \<leftarrow> wr_range reply (unat bytes_read) bs;
              read_into target reply (bytes_read + of_nat (length bs)) cs })
      else Some (Inr (reply, bytes_read, cs)))"
  by pat_completeness auto
termination
proof (relation "measure (\<lambda>(target, reply, bytes_read, cs). input_size cs)")
  fix target reply bytes_read cs p bs cs1 r
  assume a: "bytes_read < target" "stream_read (unat (target - bytes_read)) cs = Some p" "(bs, cs1) = p"
  have "0 < unat (target - bytes_read)" using a(1) by (simp add: unat_sub word_le_nat_alt word_less_nat_alt)
  then show "((target, r, bytes_read + of_nat (length bs), cs1), target, reply, bytes_read, cs) \<in>
      measure (\<lambda>(target, reply, bytes_read, cs). input_size cs)"
    using a stream_read_spec by fastforce
qed simp

declare read_into.simps [simp del]

text \<open>The sum \<open>24 + body_size\<close> is one of \<open>uint32_t\<close>; \<open>resize\<close> of the vector may shrink it.\<close>

definition read_reply :: "byte list list \<Rightarrow> (mcd_error + byte list \<times> byte list list) option" where
  "read_reply cs = do {
     r \<leftarrow> read_into 24 (replicate 24 0) 0 cs;
     (case r of
        Inl err \<Rightarrow> Some (Inl err)
      | Inr (reply, bytes_read, cs) \<Rightarrow> do {
          body_size \<leftarrow> get32 reply 8;
          if body_size > 0 then
            (let target = 24 + body_size
             in do {
               r \<leftarrow> read_into target (resize (unat target) reply) bytes_read cs;
               Some (case r of Inl err \<Rightarrow> Inl err | Inr (reply, bytes_read, cs) \<Rightarrow> Inr (reply, cs)) })
          else Some (Inr (reply, cs)) }) }"

definition invalid :: "(mcd_error + 'a) option" where
  "invalid = Some (Inl (Mcd_error ''invalid memcached reply''))"

definition set_reply :: "byte list \<Rightarrow> (mcd_error + unit) option" where
  "set_reply reply = do {
     magic \<leftarrow> rd reply 0;
     if magic \<noteq> 0x81 then invalid else do {
     status \<leftarrow> get16 reply 6;
     (case status_check status of
       Some err \<Rightarrow> Some (Inl err)
     | None \<Rightarrow> do {
         opcode \<leftarrow> rd reply 1;
         if opcode \<noteq> 0x01 then invalid else do {
         key_length \<leftarrow> get16 reply 2;
         if key_length \<noteq> 0 then invalid else do {
         extra \<leftarrow> rd reply 4;
         if extra \<noteq> 0x00 then invalid else do {
         data_type \<leftarrow> rd reply 5;
         if data_type \<noteq> 0x00 then invalid else do {
         body_length \<leftarrow> get32 reply 8;
         if body_length \<noteq> 0 then invalid else Some (Inr ()) }}}}}) }}"

definition get_reply :: "byte list \<Rightarrow> (mcd_error + byte list) option" where
  "get_reply reply = do {
     magic \<leftarrow> rd reply 0;
     if magic \<noteq> 0x81 then invalid else do {
     status \<leftarrow> get16 reply 6;
     (case status_check status of
       Some err \<Rightarrow> Some (Inl err)
     | None \<Rightarrow> do {
         opcode \<leftarrow> rd reply 1;
         if opcode \<noteq> 0x00 then invalid else do {
         extra \<leftarrow> rd reply 4;
         if extra \<noteq> 0x04 then invalid else do {
         data_type \<leftarrow> rd reply 5;
         if data_type \<noteq> 0x00 then invalid else do {
         bl \<leftarrow> get32 reply 8;
         ret \<leftarrow> rd_range reply 28 (unat (bl - 4));
         Some (Inr ret) }}}}) }}"

text \<open>The functions that are given to the cluster: what is written, and the result with the input that is left.\<close>

definition mcd_set ::
  "byte list \<Rightarrow> byte list \<Rightarrow> int \<Rightarrow> int \<Rightarrow> int \<Rightarrow> byte list list \<Rightarrow> (byte list \<times> (mcd_error + unit \<times> byte list list)) option"
where
  "mcd_set key val expiration flags vbucket cs = do {
     pkt \<leftarrow> set_packet key val expiration flags vbucket;
     r \<leftarrow> read_reply cs;
     (case r of
        Inl err \<Rightarrow> Some (pkt, Inl err)
      | Inr (reply, cs) \<Rightarrow> do {
          r \<leftarrow> set_reply reply;
          Some (pkt, case r of Inl err \<Rightarrow> Inl err | Inr u \<Rightarrow> Inr (u, cs)) }) }"

definition mcd_get ::
  "byte list \<Rightarrow> int \<Rightarrow> byte list list \<Rightarrow> (byte list \<times> (mcd_error + byte list \<times> byte list list)) option"
where
  "mcd_get key vbucket cs = do {
     pkt \<leftarrow> get_packet key vbucket;
     r \<leftarrow> read_reply cs;
     (case r of
        Inl err \<Rightarrow> Some (pkt, Inl err)
      | Inr (reply, cs) \<Rightarrow> do {
          r \<leftarrow> get_reply reply;
          Some (pkt, case r of Inl err \<Rightarrow> Inl err | Inr v \<Rightarrow> Inr (v, cs)) }) }"

section \<open>The binary protocol\<close>

text \<open>A packet: the header of 24 bytes, and the extra data, the key and the value.\<close>

record packet =
  p_magic :: byte
  p_opcode :: byte
  p_data_type :: byte
  p_status :: u16
  p_extra :: "byte list"
  p_key :: "byte list"
  p_value :: "byte list"

definition packet_body :: "packet \<Rightarrow> byte list" where
  "packet_body p = p_extra p @ p_key p @ p_value p"

definition packet_bytes :: "packet \<Rightarrow> byte list" where
  "packet_bytes p =
     [p_magic p, p_opcode p] @ enc_be 2 (of_nat (length (p_key p)) :: u16) @ [of_nat (length (p_extra p)), p_data_type p] @
     enc_be 2 (p_status p) @ enc_be 4 (of_nat (length (packet_body p)) :: u32) @ replicate 12 0 @ packet_body p"

text \<open>A packet whose lengths fit in their fields.\<close>

definition packet_fits :: "packet \<Rightarrow> bool" where
  "packet_fits p \<longleftrightarrow> length (p_key p) < 2 ^ 16 \<and> length (p_extra p) < 2 ^ 8 \<and> length (packet_body p) < 2 ^ 32 - 24"

text \<open>The reading of a packet by its lengths.\<close>

definition read_packet :: "byte list \<Rightarrow> (packet \<times> byte list) option" where
  "read_packet bs =
     (let klen = unat (dec_be (take 2 (drop 2 bs)) :: u16);
          elen = unat (bs ! 4);
          blen = unat (dec_be (take 4 (drop 8 bs)) :: u32);
          body = take blen (drop 24 bs)
      in if length bs < 24 + blen \<or> blen < elen + klen then None
         else Some (\<lparr> p_magic = bs ! 0, p_opcode = bs ! 1, p_data_type = bs ! 5,
             p_status = dec_be (take 2 (drop 6 bs)), p_extra = take elen body, p_key = take klen (drop elen body),
             p_value = drop (elen + klen) body \<rparr>, drop (24 + blen) bs))"

lemma length_packet_bytes: "length (packet_bytes p) = 24 + length (packet_body p)"
  by (simp add: packet_bytes_def)

lemma packet_fields:
  fixes p rest
  defines "bs \<equiv> packet_bytes p @ rest"
  shows "bs ! 0 = p_magic p" "bs ! 1 = p_opcode p" "take 2 (drop 2 bs) = enc_be 2 (of_nat (length (p_key p)) :: u16)"
    "bs ! 4 = of_nat (length (p_extra p))" "bs ! 5 = p_data_type p" "take 2 (drop 6 bs) = enc_be 2 (p_status p)"
    "take 4 (drop 8 bs) = enc_be 4 (of_nat (length (packet_body p)) :: u32)" "drop 24 bs = packet_body p @ rest"
proof -
  obtain k0 k1 where k: "enc_be 2 (of_nat (length (p_key p)) :: u16) = [k0, k1]" by (simp add: enc_be_def upt_rec)
  obtain s0 s1 where s: "enc_be 2 (p_status p) = [s0, s1]" by (simp add: enc_be_def upt_rec)
  obtain b0 b1 b2 b3 where b: "enc_be 4 (of_nat (length (packet_body p)) :: u32) = [b0, b1, b2, b3]" by (simp add: enc_be_def upt_rec)
  note bs = bs_def packet_bytes_def k s b
  show "bs ! 0 = p_magic p" "bs ! 1 = p_opcode p" "take 2 (drop 2 bs) = enc_be 2 (of_nat (length (p_key p)) :: u16)"
    "bs ! 4 = of_nat (length (p_extra p))" "bs ! 5 = p_data_type p" "take 2 (drop 6 bs) = enc_be 2 (p_status p)"
    "take 4 (drop 8 bs) = enc_be 4 (of_nat (length (packet_body p)) :: u32)" "drop 24 bs = packet_body p @ rest"
    unfolding bs by simp_all
qed

lemma read_packet_bytes: "packet_fits p \<Longrightarrow> read_packet (packet_bytes p @ rest) = Some (p, rest)"
proof -
  assume "packet_fits p"
  then have fits: "length (p_key p) < 2 ^ 16" "length (p_extra p) < 2 ^ 8" "length (packet_body p) < 2 ^ 32"
    by (simp_all add: packet_fits_def)
  have dec: "dec_be (enc_be 2 v) = (v :: u16)" "dec_be (enc_be 4 w) = (w :: u32)" for v w by (simp_all add: dec_enc_be)
  have u: "unat (of_nat (length (p_key p)) :: u16) = length (p_key p)" "unat (of_nat (length (p_extra p)) :: byte) = length (p_extra p)"
    "unat (of_nat (length (packet_body p)) :: u32) = length (packet_body p)" using fits by (simp_all add: unat_of_nat)
  have "drop (24 + length (packet_body p)) (packet_bytes p @ rest) = rest" by (simp add: length_packet_bytes)
  then show ?thesis unfolding read_packet_def packet_fields dec u Let_def
    by (simp add: length_packet_bytes packet_body_def)
qed

definition set_request :: "byte list \<Rightarrow> byte list \<Rightarrow> int \<Rightarrow> int \<Rightarrow> int \<Rightarrow> packet" where
  "set_request key val expiration flags vbucket =
     \<lparr> p_magic = 0x80, p_opcode = 1, p_data_type = 0, p_status = word_of_int vbucket,
       p_extra = enc_be 4 (word_of_int flags :: u32) @ enc_be 4 (word_of_int expiration :: u32), p_key = key, p_value = val \<rparr>"

definition get_request :: "byte list \<Rightarrow> int \<Rightarrow> packet" where
  "get_request key vbucket =
     \<lparr> p_magic = 0x80, p_opcode = 0, p_data_type = 0, p_status = word_of_int vbucket, p_extra = [], p_key = key, p_value = [] \<rparr>"

text \<open>Stores into a buffer of zeros.\<close>

lemma enc2_ex: "\<exists>a b. enc_be 2 v = [a, b]"
  by (simp add: enc_be_def upt_rec)

lemma enc4_ex: "\<exists>a b c d. enc_be 4 v = [a, b, c, d]"
  by (simp add: enc_be_def upt_rec)

lemma zeros24: "replicate 24 (0 :: byte) = [0,0,0,0,0,0,0,0,0,0,0,0,0,0,0,0,0,0,0,0,0,0,0,0]"
  by (simp add: eval_nat_numeral)

lemma zeros12: "replicate 12 (0 :: byte) = [0,0,0,0,0,0,0,0,0,0,0,0]"
  by (simp add: eval_nat_numeral)

lemma header_writes:
  "do {
      pkt \<leftarrow> wr (replicate 24 0 @ ys) 0 m;
      pkt \<leftarrow> wr pkt 1 opc;
      pkt \<leftarrow> put16 pkt 2 klen;
      pkt \<leftarrow> wr pkt 4 elen;
      pkt \<leftarrow> wr pkt 5 0;
      pkt \<leftarrow> put16 pkt 6 st;
      pkt \<leftarrow> put32 pkt 8 blen;
      pkt \<leftarrow> wr_range pkt 12 (replicate 12 0);
      f pkt } = f (([m, opc] @ enc_be 2 klen @ [elen, 0] @ enc_be 2 st @ enc_be 4 blen @ replicate 12 0) @ ys)"
proof -
  obtain k0 k1 where k: "enc_be 2 klen = [k0, k1]" using enc2_ex by metis
  obtain s0 s1 where s: "enc_be 2 st = [s0, s1]" using enc2_ex by metis
  obtain b0 b1 b2 b3 where b: "enc_be 4 blen = [b0, b1, b2, b3]" using enc4_ex by metis
  show ?thesis unfolding put16_def put32_def k s b zeros24 zeros12
    by (simp add: wr_def wr_range_def)
qed

lemma set_packet_eq:
  "set_packet key val expiration flags vbucket = Some (packet_bytes (set_request key val expiration flags vbucket))"
proof -
  let ?f = "enc_be 4 (word_of_int flags :: u32)" and ?e = "enc_be 4 (word_of_int expiration :: u32)"
  let ?ys = "replicate 8 0 @ replicate (length key) 0 @ replicate (length val) (0 :: byte)"
  define hdr where "hdr = [0x80, 1] @ enc_be 2 (of_nat (length key) :: u16) @ [8, 0] @ enc_be 2 (word_of_int vbucket :: u16) @
      enc_be 4 (of_nat (8 + length key + length val) :: u32) @ replicate 12 (0 :: byte)"
  have hdr: "length hdr = 24" by (simp add: hdr_def)
  have z: "replicate (24 + (8 + length key + length val)) (0 :: byte) = replicate 24 0 @ ?ys"
    by (simp only: replicate_add append_assoc)
  have w: "put32 (hdr @ ?ys) 24 (word_of_int flags) = Some (hdr @ ?f @ drop 4 ?ys)"
    "put32 (hdr @ ?f @ drop 4 ?ys) 28 (word_of_int expiration) = Some (hdr @ ?f @ ?e @ drop 8 ?ys)"
    "wr_range (hdr @ ?f @ ?e @ drop 8 ?ys) 32 key = Some (hdr @ ?f @ ?e @ key @ replicate (length val) 0)"
    "wr_range (hdr @ ?f @ ?e @ key @ replicate (length val) 0) (32 + length key) val = Some (hdr @ ?f @ ?e @ key @ val)"
    by (simp_all add: put32_def wr_range_def hdr)
  show ?thesis
    unfolding set_packet_def Let_def z header_writes hdr_def [symmetric]
    by (simp only: w bind.bind_lunit)
      (simp add: hdr_def packet_bytes_def set_request_def packet_body_def add.assoc)
qed

lemma get_packet_eq: "get_packet key vbucket = Some (packet_bytes (get_request key vbucket))"
proof -
  define hdr where "hdr = [0x80, 0] @ enc_be 2 (of_nat (length key) :: u16) @ [0, 0] @ enc_be 2 (word_of_int vbucket :: u16) @
      enc_be 4 (of_nat (length key) :: u32) @ replicate 12 (0 :: byte)"
  have hdr: "length hdr = 24" by (simp add: hdr_def)
  have w: "wr_range (hdr @ replicate (length key) 0) 24 key = Some (hdr @ key)"
    by (simp add: wr_range_def hdr)
  show ?thesis
    unfolding get_packet_def Let_def replicate_add header_writes
    using w by (simp add: hdr_def packet_bytes_def get_request_def packet_body_def)
qed

text \<open>A reply that arrives in pieces is read whole, and nothing behind it, as long as an \<open>int\<close> can count it.\<close>

definition reply_fits :: "packet \<Rightarrow> bool" where
  "reply_fits p \<longleftrightarrow> packet_fits p \<and> 24 + length (packet_body p) < 2 ^ 31"

lemma read_into_whole:
  assumes "k \<le> n" "n < 2 ^ 31" "length reply = n" "n - k \<le> length (concat cs)"
  shows "\<exists>cs'. read_into (of_nat n) reply (of_nat k) cs =
      Some (Inr (take k reply @ take (n - k) (concat cs), of_nat n, cs')) \<and> concat cs' = drop (n - k) (concat cs)"
  using assms
proof (induction "input_size cs" arbitrary: k reply cs rule: less_induct)
  case less
  have u: "unat (of_nat k :: u32) = k" "unat (of_nat n :: u32) = n" using less.prems by (simp_all add: unat_of_nat)
  show ?case
  proof (cases "k = n")
    case True
    then show ?thesis using less.prems by (subst read_into.simps) simp
  next
    case False
    then have lt: "(of_nat k :: u32) < of_nat n" using less.prems u by (simp add: word_less_nat_alt)
    have diff: "unat (of_nat n - of_nat k :: u32) = n - k"
      using unat_sub [OF less_imp_le [OF lt]] u by simp
    have k31: "k < 2 ^ 31" using less.prems by simp
    then have "uint (of_nat k :: u32) = int k" by (simp add: uint_nat unat_of_nat)
    then have pos: "\<not> sint (of_nat k :: u32) < 0" using k31 by (simp add: sint_uint signed_take_bit_int_eq_self)
    have "cs \<noteq> []" using less.prems False by auto
    then obtain bs cs1 where r: "stream_read (n - k) cs = Some (bs, cs1)" using stream_read_more by blast
    have "0 < n - k" using less.prems False by simp
    then have s: "concat cs = bs @ concat cs1" "length bs \<le> n - k" "input_size cs1 < input_size cs"
      using stream_read_spec [OF r] by auto
    define rep where "rep = take k reply @ bs @ drop (k + length bs) reply"
    have wr: "wr_range reply k bs = Some rep"
      using less.prems s(2) by (simp add: wr_range_def rep_def)
    have rep: "length rep = n" "take (k + length bs) rep = take k reply @ bs"
      using less.prems s(2) by (simp_all add: rep_def)
    have le: "k + length bs \<le> n" and le': "n - (k + length bs) \<le> length (concat cs1)"
      using less.prems s by simp_all
    obtain cs' where IH: "read_into (of_nat n) rep (of_nat (k + length bs)) cs1 =
        Some (Inr (take (k + length bs) rep @ take (n - (k + length bs)) (concat cs1), of_nat n, cs'))"
        "concat cs' = drop (n - (k + length bs)) (concat cs1)"
      using less.hyps [OF s(3) le less.prems(2) rep(1) le'] by blast
    have "take (n - k) (concat cs) = bs @ take (n - (k + length bs)) (concat cs1)"
      "drop (n - k) (concat cs) = drop (n - (k + length bs)) (concat cs1)" using s by simp_all
    then show ?thesis
      using IH lt pos diff r wr u rep by (subst read_into.simps) simp
  qed
qed

lemma read_reply_packet:
  assumes "reply_fits p" "concat cs = packet_bytes p @ rest"
  shows "\<exists>cs'. read_reply cs = Some (Inr (packet_bytes p, cs')) \<and> concat cs' = rest"
proof -
  let ?n = "length (packet_body p)"
  have n: "24 + ?n < 2 ^ 31" using assms(1) by (simp add: reply_fits_def)
  obtain cs1 where r1: "read_into 24 (replicate 24 0) 0 cs = Some (Inr (take 24 (concat cs), 24, cs1))"
      "concat cs1 = drop 24 (concat cs)"
    using read_into_whole [of 0 24 "replicate 24 0" cs] assms(2) by (auto simp: length_packet_bytes)
  have hdr: "take 24 (concat cs) @ packet_body p = packet_bytes p" "concat cs1 = packet_body p @ rest"
  proof -
    have d: "drop 24 (concat cs) = packet_body p @ rest" unfolding assms(2) by (rule packet_fields(8))
    then show "concat cs1 = packet_body p @ rest" using r1(2) by simp
    have "take 24 (concat cs) @ (packet_body p @ rest) = packet_bytes p @ rest"
      unfolding d [symmetric] append_take_drop_id by (rule assms(2))
    then show "take 24 (concat cs) @ packet_body p = packet_bytes p" by simp
  qed
  have len: "length (take 24 (concat cs)) = 24" by (simp add: assms(2) length_packet_bytes)
  have "take 4 (drop 8 (take 24 (concat cs))) = take 4 (drop 8 (concat cs))" by (simp add: drop_take)
  then have size: "get32 (take 24 (concat cs)) 8 = Some (of_nat ?n)"
    unfolding get32_def rd_range_def assms(2) packet_fields(7) by (simp add: dec_enc_be length_packet_bytes)
  show ?thesis
  proof (cases "?n = 0")
    case True
    then show ?thesis using r1(1) size hdr by (simp add: read_reply_def)
  next
    case False
    have "unat (of_nat ?n :: u32) = ?n" using n by (simp add: unat_of_nat)
    then have pos: "(of_nat ?n :: u32) > 0" using False by (simp add: word_less_nat_alt)
    have target: "24 + of_nat ?n = (of_nat (24 + ?n) :: u32)" "unat (of_nat (24 + ?n) :: u32) = 24 + ?n"
      using n by (simp, simp only: unat_of_nat) simp
    have grown: "take 24 (resize (24 + ?n) (take 24 (concat cs))) = take 24 (concat cs)"
      using take_resize [of 24 "take 24 (concat cs)" "24 + ?n"] len by simp
    define m where "m = 24 + ?n"
    have m: "24 \<le> m" "m < 2 ^ 31" "m - 24 \<le> length (concat cs1)" "m - 24 = ?n" using n hdr(2) by (simp_all add: m_def)
    obtain cs2 where r2: "read_into (of_nat m) (resize m (take 24 (concat cs))) (of_nat 24) cs1 =
        Some (Inr (take 24 (resize m (take 24 (concat cs))) @ take ?n (concat cs1), of_nat m, cs2))"
        "concat cs2 = drop ?n (concat cs1)"
      using read_into_whole [OF m(1,2) length_resize m(3), of "take 24 (concat cs)"] unfolding m(4) by blast
    have r2: "read_into (of_nat (24 + ?n)) (resize (24 + ?n) (take 24 (concat cs))) 24 cs1 =
        Some (Inr (take 24 (concat cs) @ take ?n (concat cs1), of_nat (24 + ?n), cs2))" "concat cs2 = drop ?n (concat cs1)"
      using r2 grown unfolding m_def by simp_all
    have "take 24 (concat cs) @ take ?n (concat cs1) = packet_bytes p" "concat cs2 = rest" using r2(2) hdr by simp_all
    then show ?thesis
      using pos unfolding read_reply_def r1(1) Option.bind.bind_lunit sum.case prod.case size Let_def target r2(1) by simp
  qed
qed

lemma reply_reads:
  assumes "packet_fits p"
  shows "rd (packet_bytes p) 0 = Some (p_magic p)" "rd (packet_bytes p) 1 = Some (p_opcode p)"
    "get16 (packet_bytes p) 2 = Some (of_nat (length (p_key p)))" "rd (packet_bytes p) 4 = Some (of_nat (length (p_extra p)))"
    "rd (packet_bytes p) 5 = Some (p_data_type p)" "get16 (packet_bytes p) 6 = Some (p_status p)"
    "get32 (packet_bytes p) 8 = Some (of_nat (length (packet_body p)))"
  using packet_fields [of p "[]"]
  by (simp_all add: rd_def get16_def get32_def rd_range_def length_packet_bytes dec_enc_be)

section \<open>Properties\<close>

text \<open>
  C0: a server that reads the packet of \<open>set\<close> or of \<open>get\<close> by its lengths finds the operation, the vbucket, the
  flags and the expiration, the key and the value, and nothing after them, if the key has less than 65536 bytes
  and the whole fits into a packet.
\<close>
theorem mcd_requests_read:
  assumes "length key < 2 ^ 16" "length key + length val < 2 ^ 32 - 32"
  shows "Option.bind (set_packet key val expiration flags vbucket) read_packet =
      Some (\<lparr> p_magic = 0x80, p_opcode = 1, p_data_type = 0, p_status = word_of_int vbucket,
        p_extra = enc_be 4 (word_of_int flags :: u32) @ enc_be 4 (word_of_int expiration :: u32), p_key = key, p_value = val \<rparr>, []) \<and>
    Option.bind (get_packet key vbucket) read_packet =
      Some (\<lparr> p_magic = 0x80, p_opcode = 0, p_data_type = 0, p_status = word_of_int vbucket, p_extra = [],
        p_key = key, p_value = [] \<rparr>, [])"
proof -
  have "packet_fits (set_request key val expiration flags vbucket)" "packet_fits (get_request key vbucket)"
    using assms by (simp_all add: packet_fits_def set_request_def get_request_def packet_body_def)
  then have "read_packet (packet_bytes (set_request key val expiration flags vbucket)) = Some (set_request key val expiration flags vbucket, [])"
    "read_packet (packet_bytes (get_request key vbucket)) = Some (get_request key vbucket, [])"
    using read_packet_bytes [of _ "[]"] by simp_all
  then show ?thesis by (simp add: set_packet_eq get_packet_eq) (simp add: set_request_def get_request_def)
qed

theorem mcd_requests_read_witness:
  "\<exists>p. Option.bind (set_packet [1, 2] [3] 5 (-1) 0) read_packet = Some (p, []) \<and> p_key p = [1, 2] \<and> p_value p = [3]"
  using mcd_requests_read [of "[1, 2]" "[3]" 5 "-1" 0] by auto

text \<open>
  C35: what \<open>get\<close> makes of any well-formed reply of less than 2^31 bytes (\<open>read_reply_int_wraps\<close>), in whatever pieces it arrives: it stays inside the reply and leaves
  what comes after it; the value is what follows the four bytes of extra data; each
  invalid field, and each status, gives its error.
\<close>
theorem mcd_get_result:
  assumes "reply_fits p" "concat cs = packet_bytes p @ rest"
  shows "\<exists>r. mcd_get key vbucket cs = Some (packet_bytes (get_request key vbucket), r) \<and>
    (if p_magic p \<noteq> 0x81 then r = Inl (Mcd_error ''invalid memcached reply'')
     else case status_check (p_status p) of
       Some err \<Rightarrow> r = Inl err
     | None \<Rightarrow>
         if p_opcode p \<noteq> 0 \<or> length (p_extra p) \<noteq> 4 \<or> p_data_type p \<noteq> 0
         then r = Inl (Mcd_error ''invalid memcached reply'')
         else (\<exists>cs'. r = Inr (p_key p @ p_value p, cs') \<and> concat cs' = rest))"
proof -
  have fits: "packet_fits p" using assms(1) by (simp add: reply_fits_def)
  obtain cs' where cs': "read_reply cs = Some (Inr (packet_bytes p, cs'))" "concat cs' = rest"
    using read_reply_packet [OF assms] by blast
  note reads = reply_reads [OF fits]
  have elen: "(of_nat (length (p_extra p)) :: byte) = 4 \<longleftrightarrow> length (p_extra p) = 4"
  proof -
    have "unat (of_nat (length (p_extra p)) :: byte) = length (p_extra p)"
      using fits by (simp add: packet_fits_def unat_of_nat)
    then show ?thesis by (simp add: word_unat_eq_iff)
  qed
  have val: "rd_range (packet_bytes p) 28 (unat (of_nat (length (packet_body p)) - 4 :: u32)) = Some (p_key p @ p_value p)"
    if four: "length (p_extra p) = 4"
  proof -
    have "(of_nat (length (packet_body p)) - 4 :: u32) = of_nat (length (p_key p) + length (p_value p))"
      using four by (simp add: packet_body_def)
    moreover have "unat (of_nat (length (p_key p) + length (p_value p)) :: u32) = length (p_key p) + length (p_value p)"
      using fits unfolding unat_of_nat by (simp add: packet_fits_def packet_body_def)
    moreover have "drop 28 (packet_bytes p) = drop 4 (packet_body p)"
      using arg_cong [OF packet_fields(8) [of p "[]"], of "drop 4"] by simp
    ultimately show ?thesis using four by (simp add: rd_range_def length_packet_bytes packet_body_def)
  qed
  show ?thesis
  proof (cases "p_magic p = 0x81 \<and> status_check (p_status p) = None \<and> p_opcode p = 0 \<and> length (p_extra p) = 4 \<and> p_data_type p = 0")
    case True
    then show ?thesis using cs' reads val elen
      by (intro exI [of _ "Inr (p_key p @ p_value p, cs')"]) (simp add: mcd_get_def get_packet_eq get_reply_def)
  next
    case False
    show ?thesis
    proof (cases "status_check (p_status p)")
      case None
      then show ?thesis using False cs' reads elen
        by (intro exI [of _ "Inl (Mcd_error ''invalid memcached reply'')"])
          (auto simp: mcd_get_def get_packet_eq get_reply_def invalid_def)
    next
      case (Some err)
      then show ?thesis using cs' reads
        by (intro exI [of _ "if p_magic p \<noteq> 0x81 then Inl (Mcd_error ''invalid memcached reply'') else Inl err"])
          (simp add: mcd_get_def get_packet_eq get_reply_def invalid_def)
    qed
  qed
qed

theorem mcd_get_result_witness:
  "\<exists>r. mcd_get [7] 0 [[0x81, 0, 0, 0, 4, 0, 0, 0, 0, 0, 0, 6, 0, 0, 0, 0, 0, 0], [0, 0, 0, 0, 0, 0, 1, 2, 3], [4, 5, 6, 9]] =
     Some (packet_bytes (get_request [7] 0), r) \<and> (\<exists>cs'. r = Inr ([5, 6], cs') \<and> concat cs' = [9])"
proof -
  let ?p = "\<lparr> p_magic = 0x81, p_opcode = 0, p_data_type = 0, p_status = 0, p_extra = [1, 2, 3, 4], p_key = [], p_value = [5, 6] \<rparr>"
  have "reply_fits ?p" by (simp add: reply_fits_def packet_fits_def packet_body_def)
  moreover have "concat [[0x81, 0, 0, 0, 4, 0, 0, 0, 0, 0, 0, 6, 0, 0, 0, 0, 0, 0], [0, 0, 0, 0, 0, 0, 1, 2, 3], [4, 5, 6, 9]] =
      packet_bytes ?p @ [9]"
    by (simp add: packet_bytes_def packet_body_def enc_be_def upt_rec zeros12)
  ultimately show ?thesis using mcd_get_result [of ?p _ "[9]" "[7]" 0] by (simp add: status_check.simps)
qed

text \<open>A key of 65536 bytes is announced as an empty one.\<close>

lemma set_key_length_wraps:
  "length key = 2 ^ 16 \<Longrightarrow>
     map_option (\<lambda>pkt. take 2 (drop 2 pkt)) (set_packet key val expiration flags vbucket) = Some [0, 0]"
  using packet_fields(3) [of "set_request key val expiration flags vbucket" "[]"]
  by (simp add: set_packet_eq) (simp add: set_request_def enc_be_def upt_rec)

text \<open>Replies of a faulty server: a body too short for the extra data, and a length that makes the sum wrap
  around, after which the vector is empty.\<close>

lemma get_reply_short_body:
  "get_reply [0x81, 0, 0, 0, 4, 0, 0, 0, 0, 0, 0, 0, 0, 0, 0, 0, 0, 0, 0, 0, 0, 0, 0, 0] = None"
  by (simp add: get_reply_def rd_def get16_def get32_def rd_range_def dec_be_def status_check.simps)

lemma read_reply_header:
  assumes "length reply = 24" "take 4 (drop 8 reply) = enc_be 4 (announced :: u32)" "announced > 0"
  shows "read_reply (reply # cs) = do {
    r \<leftarrow> read_into (24 + announced) (resize (unat (24 + announced)) reply) 24 cs;
    Some (case r of Inl err \<Rightarrow> Inl err | Inr (reply, bytes_read, cs) \<Rightarrow> Inr (reply, cs)) }"
proof -
  have "read_into 24 (replicate 24 0) 0 (reply # cs) = Some (Inr (reply, 24, cs))"
    using assms(1) by (simp add: read_into.simps [of 24 "replicate 24 0"] wr_range_def) (simp add: read_into.simps)
  then show ?thesis
    using assms by (simp add: read_reply_def get32_def rd_range_def dec_enc_be Let_def)
qed

lemma read_reply_huge_body:
  assumes "length reply = 24" "take 4 (drop 8 reply) = enc_be 4 (4294967272 :: u32)"
  shows "read_reply [reply] = Some (Inr ([], [])) \<and> get_reply [] = None \<and> set_reply [] = None"
  using assms
  by (simp add: read_reply_header [OF assms] read_into.simps resize_def get_reply_def set_reply_def rd_def)

text \<open>A body that takes the reply beyond 2^31 bytes: when a piece ends there, the next one is read to a negative index.\<close>

lemma read_reply_int_wraps:
  assumes "length reply = 24" "take 4 (drop 8 reply) = enc_be 4 (2 ^ 31 :: u32)" "length piece = 2 ^ 31 - 24"
  shows "read_reply [reply, piece, [b]] = None"
proof -
  have "read_into (24 + 2 ^ 31) (resize (unat (24 + 2 ^ 31 :: u32)) reply) 24 [piece, [b]] = None"
    using assms(1,3) by (simp add: read_into.simps [of _ _ 24] wr_range_def) (simp add: read_into.simps)
  then show ?thesis using read_reply_header [OF assms(1,2)] by simp
qed

end
