(* ===== verification/Tasks.thy ===== *)
theory Tasks
  imports Prelude Systems Time_Utils "HOL-Library.Multiset"
begin

text \<open>
  The scheduled tasks of \<open>src/cpp/io_dispatch.cpp\<close> and \<open>io_dispatch.h\<close>: the multimap of tasks by time, the timer
  that is armed for the first of them, and the io threads that read the timer and run what is due.
  Holding \<open>task_mutex_\<close> is one step, and so are each read of the timer and of the clock.  A task is named by
  its number, which it gets when it is made, before the lock is taken; other commands use such numbers as well.  The
  numbers are those of fewer than \<open>2^32\<close> commands, so that none comes twice.  The timer is one of \<open>timerfd\<close> on the clock of \<open>cur_time\<close>: setting it to a time arms it, setting
  it to zero disarms it, and it can be read once after its time has come.
\<close>

section \<open>States\<close>

type_synonym task = "timespec \<times> nat"

datatype timer_pc = T_idle | T_read | T_now timespec | T_exec "task list"

record tasks =
  task_map :: "task list"
  next_id :: nat
  created :: "nat list"
  timer :: "timespec option"
  clock :: timespec
  timer_threads :: "timer_pc list"
  executed :: "task list"
  removed :: "nat list"

definition new_tasks :: "nat \<Rightarrow> timespec \<Rightarrow> tasks" where
  "new_tasks n now = \<lparr> task_map = [], next_id = 0, created = [], timer = None, clock = now, timer_threads = replicate n T_idle,
     executed = [], removed = [] \<rparr>"

section \<open>The multimap\<close>

text \<open>\<open>insert\<close> puts a pair behind those with the same key; \<open>find\<close> gives the first with a key, or
  the end (so in libstdc++; the standard allows any with the key).\<close>

fun task_insert :: "timespec \<Rightarrow> nat \<Rightarrow> task list \<Rightarrow> task list" where
  "task_insert tm tid [] = [(tm, tid)]"
| "task_insert tm tid ((t, i) # m) = (if tm < t then (tm, tid) # (t, i) # m else (t, i) # task_insert tm tid m)"

text \<open>The loop of \<open>remove_task\<close> from an iterator on, and the erasure: nothing when there is no such task.\<close>

fun remove_scan :: "timespec \<Rightarrow> nat \<Rightarrow> task list \<Rightarrow> task list option" where
  "remove_scan tm tid [] = None"
| "remove_scan tm tid ((t, i) # m) =
     (if i \<noteq> tid \<and> t = tm then map_option (Cons (t, i)) (remove_scan tm tid m)
      else if i = tid then Some m else None)"

fun remove_find :: "timespec \<Rightarrow> nat \<Rightarrow> task list \<Rightarrow> task list option" where
  "remove_find tm tid [] = None"
| "remove_find tm tid ((t, i) # m) =
     (if t < tm then map_option (Cons (t, i)) (remove_find tm tid m)
      else if t = tm then remove_scan tm tid ((t, i) # m) else None)"

text \<open>The loop that takes the tasks that are due.\<close>

fun ready_loop :: "timespec \<Rightarrow> task list \<Rightarrow> task list \<times> task list" where
  "ready_loop now [] = ([], [])"
| "ready_loop now ((t, i) # m) =
     (if t \<le> now then (case ready_loop now m of (ready, rest) \<Rightarrow> ((t, i) # ready, rest)) else ([], (t, i) # m))"

section \<open>Operations\<close>

definition settime :: "timespec \<Rightarrow> tasks \<Rightarrow> tasks" where
  "settime t s = s\<lparr>timer := (if t = Timespec 0 0 then None else Some t)\<rparr>"

text \<open>A command is made with the next number; \<open>schedule_task_\<close> moves it into the map.\<close>

definition new_caller :: "tasks \<Rightarrow> nat \<times> tasks" where
  "new_caller s = (next_id s, s\<lparr>next_id := next_id s + 1, created := created s @ [next_id s]\<rparr>)"

definition schedule_task :: "timespec \<Rightarrow> nat \<Rightarrow> tasks \<Rightarrow> task \<times> tasks" where
  "schedule_task tm tid s =
     (let s = s\<lparr>created := remove1 tid (created s), task_map := task_insert tm tid (task_map s)\<rparr>
      in ((tm, tid), if fst (hd (task_map s)) = tm then settime tm s else s))"

definition remove_task :: "task \<Rightarrow> tasks \<Rightarrow> bool \<times> tasks" where
  "remove_task task s =
     (case remove_find (fst task) (snd task) (task_map s) of
        Some m \<Rightarrow> (True, s\<lparr>task_map := m, removed := removed s @ [snd task]\<rparr>)
      | None \<Rightarrow> (False, s))"

text \<open>\<open>io_avail\<close> of the timer, from \<open>read\<close>, which fails when another thread was first, to the
  execution of the tasks one by one.\<close>

definition timer_at :: "nat \<Rightarrow> timer_pc \<Rightarrow> tasks \<Rightarrow> tasks" where
  "timer_at k p s = s\<lparr>timer_threads := (timer_threads s)[k := p]\<rparr>"

definition timer_readable :: "tasks \<Rightarrow> bool" where
  "timer_readable s \<longleftrightarrow> (case timer s of Some t \<Rightarrow> t \<le> clock s | None \<Rightarrow> False)"

definition timer_read :: "nat \<Rightarrow> tasks \<Rightarrow> tasks" where
  "timer_read k s = (if timer_readable s then timer_at k T_read (s\<lparr>timer := None\<rparr>) else s)"

definition timer_take :: "nat \<Rightarrow> timespec \<Rightarrow> tasks \<Rightarrow> tasks" where
  "timer_take k now s =
     (case ready_loop now (task_map s) of (ready, rest) \<Rightarrow>
        let s = s\<lparr>task_map := rest\<rparr>;
            s = (case rest of [] \<Rightarrow> s | (t, i) # _ \<Rightarrow> settime t s)
        in timer_at k (T_exec ready) s)"

fun timer_exec :: "nat \<Rightarrow> task list \<Rightarrow> tasks \<Rightarrow> tasks" where
  "timer_exec k [] s = timer_at k T_idle s"
| "timer_exec k (x # xs) s = timer_at k (T_exec xs) (s\<lparr>executed := executed s @ [x]\<rparr>)"

text \<open>Times are after zero: \<open>timerfd_settime\<close> refuses others.\<close>

inductive task_step :: "tasks \<Rightarrow> tasks \<Rightarrow> bool" where
  task_tick: "clock s \<le> now \<Longrightarrow> task_step s (s\<lparr>clock := now\<rparr>)"
| task_new: "task_step s (snd (new_caller s))"
| task_schedule: "Timespec 0 0 < tm \<Longrightarrow> tid \<in> set (created s) \<Longrightarrow> task_step s (snd (schedule_task tm tid s))"
| task_remove: "task_step s (snd (remove_task task s))"
| task_read: "k < length (timer_threads s) \<Longrightarrow> timer_threads s ! k = T_idle \<Longrightarrow> task_step s (timer_read k s)"
| task_now: "k < length (timer_threads s) \<Longrightarrow> timer_threads s ! k = T_read \<Longrightarrow> task_step s (timer_at k (T_now (clock s)) s)"
| task_take: "k < length (timer_threads s) \<Longrightarrow> timer_threads s ! k = T_now now \<Longrightarrow> task_step s (timer_take k now s)"
| task_exec: "k < length (timer_threads s) \<Longrightarrow> timer_threads s ! k = T_exec xs \<Longrightarrow> task_step s (timer_exec k xs s)"

section \<open>The multimap keeps its order\<close>

text \<open>Tasks are in the order of their times; a new one comes behind those of its time.\<close>

definition task_before :: "task \<Rightarrow> task \<Rightarrow> bool" where
  "task_before a b \<longleftrightarrow> fst a \<le> fst b"

lemma set_task_insert: "set (task_insert tm tid m) = insert (tm, tid) (set m)"
  by (induction tm tid m rule: task_insert.induct) auto

lemma mset_task_insert: "mset (task_insert tm tid m) = add_mset (tm, tid) (mset m)"
  by (induction tm tid m rule: task_insert.induct) auto

lemma task_insert_at:
  "sorted_wrt task_before m \<Longrightarrow>
     task_insert tm tid m = filter (\<lambda>x. fst x \<le> tm) m @ (tm, tid) # filter (\<lambda>x. tm < fst x) m"
proof (induction tm tid m rule: task_insert.induct)
  case (2 tm tid t i m)
  show ?case
  proof (cases "tm < t")
    case True
    then have "\<forall>x \<in> set m. tm < fst x" using 2(2) by (auto simp: task_before_def)
    then show ?thesis using True by (auto simp: filter_empty_conv filter_id_conv not_le)
  qed (use 2 in \<open>simp add: not_less\<close>)
qed simp

lemma sorted_task_insert: "sorted_wrt task_before m \<Longrightarrow> sorted_wrt task_before (task_insert tm tid m)"
  by (simp add: task_insert_at sorted_wrt_append sorted_wrt_filter) (auto simp: task_before_def)

lemma hd_task_insert:
  "sorted_wrt task_before m \<Longrightarrow>
     fst (hd (task_insert tm tid m)) = (case m of [] \<Rightarrow> tm | (t, i) # _ \<Rightarrow> min tm t)"
  by (cases m) (auto simp: min_def not_less less_le)

lemma ready_loop_spec:
  "ready_loop now m = (ready, rest) \<Longrightarrow> m = ready @ rest \<and> (\<forall>x \<in> set ready. fst x \<le> now) \<and>
     (rest \<noteq> [] \<longrightarrow> \<not> fst (hd rest) \<le> now)"
  by (induction now m arbitrary: ready rule: ready_loop.induct) (auto split: if_splits prod.splits)

lemma remove_scan_spec:
  "remove_scan tm tid m = Some m' \<Longrightarrow> \<exists>t xs ys. m = xs @ (t, tid) # ys \<and> m' = xs @ ys"
proof (induction tm tid m arbitrary: m' rule: remove_scan.induct)
  case (2 tm tid t i m)
  show ?case
  proof (cases "i \<noteq> tid \<and> t = tm")
    case True
    then obtain m1 where m1: "remove_scan tm tid m = Some m1" "m' = (t, i) # m1" using 2(2) by auto
    then obtain u xs ys where "m = xs @ (u, tid) # ys" "m1 = xs @ ys" using 2(1) True by blast
    then show ?thesis using m1(2) by (intro exI [of _ u] exI [of _ "(t, i) # xs"] exI [of _ ys]) simp
  next
    case False
    then have "i = tid" "m' = m" using 2(2) by (auto split: if_splits)
    then show ?thesis by (intro exI [of _ t] exI [of _ "[]"] exI [of _ m]) simp
  qed
qed simp

lemma remove_find_spec:
  "remove_find tm tid m = Some m' \<Longrightarrow> \<exists>t xs ys. m = xs @ (t, tid) # ys \<and> m' = xs @ ys"
proof (induction tm tid m arbitrary: m' rule: remove_find.induct)
  case (2 tm tid t i m)
  show ?case
  proof (cases "t < tm")
    case True
    then obtain m1 where m1: "remove_find tm tid m = Some m1" "m' = (t, i) # m1" using 2(2) by auto
    then obtain u xs ys where "m = xs @ (u, tid) # ys" "m1 = xs @ ys" using 2(1) True by blast
    then show ?thesis using m1(2) by (intro exI [of _ u] exI [of _ "(t, i) # xs"] exI [of _ ys]) simp
  next
    case False
    then have "remove_scan tm tid ((t, i) # m) = Some m'" using 2(2) by (auto split: if_splits simp del: remove_scan.simps)
    then show ?thesis by (rule remove_scan_spec)
  qed
qed simp

lemma remove_scan_finds:
  "sorted_wrt task_before m \<Longrightarrow> (tm, tid) \<in> set m \<Longrightarrow> \<forall>x \<in> set m. tm \<le> fst x \<Longrightarrow> distinct (map snd m) \<Longrightarrow>
     remove_scan tm tid m \<noteq> None"
proof (induction tm tid m rule: remove_scan.induct)
  case (2 tm tid t i m)
  show ?case
  proof (cases "i = tid")
    case False
    then have "(tm, tid) \<in> set m" using 2(3) by auto
    moreover from this have "t = tm" using 2(2,4) by (auto simp: task_before_def)
    ultimately show ?thesis using 2 False by auto
  qed simp
qed simp

lemma remove_find_finds:
  "sorted_wrt task_before m \<Longrightarrow> (tm, tid) \<in> set m \<Longrightarrow> distinct (map snd m) \<Longrightarrow> remove_find tm tid m \<noteq> None"
proof (induction tm tid m rule: remove_find.induct)
  case (2 tm tid t i m)
  show ?case
  proof (cases "t < tm")
    case True
    then show ?thesis using 2 by auto
  next
    case False
    have "\<forall>x \<in> set m. t \<le> fst x" using 2(2) by (auto simp: task_before_def)
    then have "t = tm" using 2(3) False by force
    moreover have "remove_scan tm tid ((t, i) # m) \<noteq> None"
      using 2(2-4) calculation \<open>\<forall>x \<in> set m. t \<le> fst x\<close> by (intro remove_scan_finds) auto
    ultimately show ?thesis by simp
  qed
qed simp

section \<open>The invariant\<close>

fun in_flight :: "timer_pc \<Rightarrow> task list" where
  "in_flight (T_exec xs) = xs"
| "in_flight p = []"

fun will_take :: "timer_pc \<Rightarrow> bool" where
  "will_take T_read = True"
| "will_take (T_now now) = True"
| "will_take p = False"

definition flights :: "tasks \<Rightarrow> task list" where
  "flights s = concat (map in_flight (timer_threads s))"

definition map_wf :: "tasks \<Rightarrow> bool" where
  "map_wf s \<longleftrightarrow> sorted_wrt task_before (task_map s) \<and> (\<forall>x \<in> set (task_map s). Timespec 0 0 < fst x)"

text \<open>Unless a thread is about to take tasks, the timer is armed for the first task or before it.\<close>

definition armed :: "tasks \<Rightarrow> bool" where
  "armed s \<longleftrightarrow> task_map s = [] \<or> (\<exists>p \<in> set (timer_threads s). will_take p) \<or>
     (\<exists>t. timer s = Some t \<and> t \<le> fst (hd (task_map s)))"

definition task_ids :: "tasks \<Rightarrow> nat multiset" where
  "task_ids s = mset (created s) + mset (map snd (task_map s)) + mset (map snd (flights s)) + mset (map snd (executed s)) + mset (removed s)"

definition due_only :: "tasks \<Rightarrow> bool" where
  "due_only s \<longleftrightarrow> (\<forall>x \<in> set (flights s) \<union> set (executed s). fst x \<le> clock s) \<and>
     (\<forall>now. T_now now \<in> set (timer_threads s) \<longrightarrow> now \<le> clock s)"

definition tasks_inv :: "tasks \<Rightarrow> bool" where
  "tasks_inv s \<longleftrightarrow> map_wf s \<and> armed s \<and> task_ids s = mset [0..<next_id s] \<and> due_only s"

lemma tasks_inv_init: "tasks_inv (new_tasks n now)"
  by (auto simp: tasks_inv_def map_wf_def armed_def task_ids_def due_only_def new_tasks_def flights_def)

lemma flights_update:
  "k < length ts \<Longrightarrow> mset (concat (map in_flight (ts[k := p]))) + mset (in_flight (ts ! k)) =
     mset (concat (map in_flight ts)) + mset (in_flight p)"
proof -
  assume k: "k < length ts"
  have "ts = take k ts @ ts ! k # drop (Suc k) ts" using k by (rule id_take_nth_drop)
  then have "mset (concat (map in_flight ts)) =
      mset (concat (map in_flight (take k ts))) + mset (in_flight (ts ! k)) + mset (concat (map in_flight (drop (Suc k) ts)))"
    by (metis (no_types, lifting) concat.simps(2) concat_append list.simps(9) map_append mset_append union_assoc)
  moreover have "ts[k := p] = take k ts @ p # drop (Suc k) ts" using k by (rule upd_conv_take_nth_drop)
  ultimately show ?thesis by simp
qed

lemma flights_at:
  assumes "k < length (timer_threads s)"
  shows "mset (flights (timer_at k p s)) + mset (in_flight (timer_threads s ! k)) = mset (flights s) + mset (in_flight p)"
  using flights_update [OF assms, of p] by (simp add: flights_def timer_at_def)

lemma timer_at_simps [simp]:
  "task_map (timer_at k p s) = task_map s" "next_id (timer_at k p s) = next_id s" "timer (timer_at k p s) = timer s"
  "created (timer_at k p s) = created s" "clock (timer_at k p s) = clock s" "executed (timer_at k p s) = executed s" "removed (timer_at k p s) = removed s"
  by (simp_all add: timer_at_def)

lemma settime_simps [simp]:
  "task_map (settime t s) = task_map s" "next_id (settime t s) = next_id s" "clock (settime t s) = clock s"
  "created (settime t s) = created s" "timer_threads (settime t s) = timer_threads s" "executed (settime t s) = executed s" "removed (settime t s) = removed s"
  "Timespec 0 0 < t \<Longrightarrow> timer (settime t s) = Some t"
  by (auto simp: settime_def)

lemma threads_at: "p' \<in> set (timer_threads (timer_at k p s)) \<Longrightarrow> p' = p \<or> p' \<in> set (timer_threads s)"
  using set_update_subset_insert [of "timer_threads s" k p] by (auto simp: timer_at_def)

lemma other_thread:
  assumes "k < length ts" "p' \<in> set ts" "p' \<noteq> ts ! k"
  shows "p' \<in> set (ts[k := p])"
proof -
  obtain j where "j < length ts" "ts ! j = p'" using assms(2) by (auto simp: in_set_conv_nth)
  moreover from this have "j \<noteq> k" using assms(3) by auto
  ultimately show ?thesis by (metis length_list_update nth_list_update_neq nth_mem)
qed

text \<open>A step of a thread that has nothing in flight before and after, or moves one of its tasks.\<close>

lemma task_ids_at:
  assumes "k < length (timer_threads s)" "task_map s' = task_map s" "created s' = created s" "executed s' = executed s" "removed s' = removed s"
    "timer_threads s' = timer_threads s" "in_flight (timer_threads s ! k) = []" "in_flight p = []"
  shows "task_ids (timer_at k p s') = task_ids s" "set (flights (timer_at k p s')) = set (flights s)"
proof -
  have m: "mset (flights (timer_at k p s')) = mset (flights s)"
    using flights_at [of k s' p] assms by (simp add: flights_def)
  then show "task_ids (timer_at k p s') = task_ids s" using assms by (simp add: task_ids_def)
  show "set (flights (timer_at k p s')) = set (flights s)" using m by (metis set_mset_mset)
qed

lemma tasks_inv_new: "tasks_inv s \<Longrightarrow> tasks_inv (snd (new_caller s))"
  by (simp add: tasks_inv_def map_wf_def armed_def task_ids_def due_only_def flights_def new_caller_def)

lemma tasks_inv_schedule:
  assumes "tasks_inv s" "Timespec 0 0 < tm" "tid \<in> set (created s)"
  shows "tasks_inv (snd (schedule_task tm tid s))"
proof -
  let ?m = "task_insert tm tid (task_map s)"
  define s1 where "s1 = s\<lparr>created := remove1 tid (created s), task_map := ?m\<rparr>"
  have s': "snd (schedule_task tm tid s) = (if fst (hd ?m) = tm then settime tm s1 else s1)"
    by (simp add: schedule_task_def Let_def s1_def)
  have wf: "sorted_wrt task_before (task_map s)" "\<forall>x \<in> set (task_map s). Timespec 0 0 < fst x"
    using assms(1) by (simp_all add: tasks_inv_def map_wf_def)
  have "sorted_wrt task_before ?m" using wf(1) by (rule sorted_task_insert)
  then have "map_wf s1" using wf(2) assms(2) by (auto simp: map_wf_def s1_def set_task_insert)
  moreover have "task_ids s1 = mset [0..<next_id s1]"
    using assms(1,3) by (simp add: task_ids_def s1_def tasks_inv_def mset_task_insert flights_def)
  moreover have "due_only s1" using assms(1) by (simp add: due_only_def s1_def tasks_inv_def flights_def)
  moreover have "armed (if fst (hd ?m) = tm then settime tm s1 else s1)"
  proof (cases "fst (hd ?m) = tm")
    case True
    then show ?thesis using assms(2) by (auto simp: armed_def s1_def)
  next
    case False
    then have "task_map s \<noteq> []" "fst (hd ?m) = fst (hd (task_map s))"
      using hd_task_insert [OF wf(1), of tm tid] by (auto simp: min_def split: list.splits if_splits)
    then show ?thesis using assms(1) False by (auto simp: armed_def s1_def tasks_inv_def)
  qed
  ultimately show ?thesis unfolding s' tasks_inv_def
    by (auto simp: map_wf_def task_ids_def due_only_def flights_def)
qed

lemma hd_remove:
  assumes "sorted_wrt task_before (xs @ x # ys)" "xs @ ys \<noteq> []"
  shows "fst (hd (xs @ x # ys)) \<le> fst (hd (xs @ ys))"
  using assms by (cases xs) (auto simp: task_before_def less_imp_le neq_Nil_conv)

lemma tasks_inv_remove:
  assumes "tasks_inv s"
  shows "tasks_inv (snd (remove_task x s))"
proof (cases "remove_find (fst x) (snd x) (task_map s)")
  case None
  then show ?thesis using assms by (simp add: remove_task_def)
next
  case (Some m)
  then obtain t xs ys where m: "task_map s = xs @ (t, snd x) # ys" "m = xs @ ys" using remove_find_spec by blast
  let ?s = "s\<lparr>task_map := m, removed := removed s @ [snd x]\<rparr>"
  have "map_wf ?s" using assms by (auto simp: tasks_inv_def map_wf_def m sorted_wrt_append)
  moreover have "armed ?s"
  proof -
    have "sorted_wrt task_before (xs @ (t, snd x) # ys)" using assms m(1) by (simp add: tasks_inv_def map_wf_def)
    then have "m \<noteq> [] \<Longrightarrow> fst (hd (task_map s)) \<le> fst (hd m)" using hd_remove unfolding m by blast
    then show ?thesis using assms m(1) by (auto simp: armed_def tasks_inv_def)
  qed
  moreover have "task_ids ?s = mset [0..<next_id ?s]"
    using assms by (simp add: task_ids_def tasks_inv_def m flights_def)
  moreover have "due_only ?s" using assms by (simp add: due_only_def tasks_inv_def flights_def)
  ultimately show ?thesis using Some by (simp add: remove_task_def tasks_inv_def)
qed

lemma tasks_inv_read:
  assumes "tasks_inv s" "k < length (timer_threads s)" "timer_threads s ! k = T_idle"
  shows "tasks_inv (timer_read k s)"
proof (cases "timer_readable s")
  case True
  let ?s = "timer_at k T_read (s\<lparr>timer := None\<rparr>)"
  have ids: "task_ids ?s = task_ids s" "set (flights ?s) = set (flights s)"
    using task_ids_at [of k s "s\<lparr>timer := None\<rparr>" T_read] assms(2,3) by simp_all
  have "T_read \<in> set (timer_threads ?s)" using assms(2) by (simp add: timer_at_def set_update_memI)
  then have "armed ?s" by (force simp: armed_def)
  moreover have "due_only ?s" using assms(1) ids(2) by (auto simp: due_only_def tasks_inv_def dest!: threads_at)
  ultimately show ?thesis using assms(1) True ids(1) by (simp add: timer_read_def tasks_inv_def map_wf_def)
qed (use assms(1) in \<open>simp add: timer_read_def\<close>)

lemma tasks_inv_now:
  assumes "tasks_inv s" "k < length (timer_threads s)" "timer_threads s ! k = T_read"
  shows "tasks_inv (timer_at k (T_now (clock s)) s)"
proof -
  let ?s = "timer_at k (T_now (clock s)) s"
  have ids: "task_ids ?s = task_ids s" "set (flights ?s) = set (flights s)"
    using task_ids_at [of k s s "T_now (clock s)"] assms(2,3) by simp_all
  have "T_now (clock s) \<in> set (timer_threads ?s)" using assms(2) by (simp add: timer_at_def set_update_memI)
  then have "armed ?s" by (force simp: armed_def)
  moreover have "due_only ?s" using assms(1) ids(2) by (auto simp: due_only_def tasks_inv_def dest!: threads_at)
  ultimately show ?thesis using assms(1) ids(1) by (simp add: tasks_inv_def map_wf_def)
qed

lemma tasks_inv_take:
  assumes "tasks_inv s" "k < length (timer_threads s)" "timer_threads s ! k = T_now now"
  shows "tasks_inv (timer_take k now s)"
proof -
  obtain ready rest where r: "ready_loop now (task_map s) = (ready, rest)" by fastforce
  have m: "task_map s = ready @ rest" and due: "\<forall>x \<in> set ready. fst x \<le> now" using ready_loop_spec [OF r] by auto
  have now: "now \<le> clock s" using assms nth_mem [OF assms(2)] by (simp add: tasks_inv_def due_only_def)
  define s1 where "s1 = (case rest of [] \<Rightarrow> s\<lparr>task_map := rest\<rparr> | (t, i) # _ \<Rightarrow> settime t (s\<lparr>task_map := rest\<rparr>))"
  have s': "timer_take k now s = timer_at k (T_exec ready) s1" by (simp add: timer_take_def r s1_def Let_def)
  have s1: "task_map s1 = rest" "next_id s1 = next_id s" "created s1 = created s" "clock s1 = clock s" "timer_threads s1 = timer_threads s"
    "executed s1 = executed s" "removed s1 = removed s" by (auto simp: s1_def split: list.split)
  have wf: "map_wf s1" using assms(1) by (auto simp: tasks_inv_def map_wf_def s1 m sorted_wrt_append)
  have "mset (flights (timer_at k (T_exec ready) s1)) = mset (flights s) + mset ready"
    using flights_at [of k s1 "T_exec ready"] assms(2,3) s1(5) by (simp add: flights_def)
  then have fl: "mset (flights (timer_at k (T_exec ready) s1)) = mset (flights s @ ready)" by simp
  have "armed (timer_at k (T_exec ready) s1)"
  proof (cases rest)
    case (Cons x xs)
    then have "Timespec 0 0 < fst x" using wf by (simp add: map_wf_def s1)
    then have "timer s1 = Some (fst x)" using Cons by (simp add: s1_def case_prod_beta)
    then show ?thesis by (simp add: armed_def s1 Cons)
  qed (simp add: armed_def s1)
  moreover have "task_ids (timer_at k (T_exec ready) s1) = task_ids s"
    using fl by (simp add: task_ids_def s1 m)
  moreover have "set (flights (timer_at k (T_exec ready) s1)) = set (flights s) \<union> set ready"
    using fl by (metis set_append set_mset_mset)
  then have "due_only (timer_at k (T_exec ready) s1)"
    using assms(1) due now by (auto simp: due_only_def tasks_inv_def s1 dest!: threads_at intro: order_trans)
  ultimately show ?thesis using assms(1) wf unfolding s' by (simp add: tasks_inv_def map_wf_def s1)
qed

lemma armed_exec:
  assumes "armed s" "k < length (timer_threads s)" "timer_threads s ! k = T_exec xs" "timer_threads s' = (timer_threads s)[k := p]"
    "task_map s' = task_map s" "timer s' = timer s"
  shows "armed s'"
proof -
  have "p' \<in> set (timer_threads s')" if "p' \<in> set (timer_threads s)" "will_take p'" for p'
    unfolding assms(4) by (rule other_thread [OF assms(2) that(1)]) (use that(2) assms(3) in auto)
  then show ?thesis using assms(1,5,6) unfolding armed_def by fastforce
qed

lemma tasks_inv_exec:
  assumes "tasks_inv s" "k < length (timer_threads s)" "timer_threads s ! k = T_exec xs"
  shows "tasks_inv (timer_exec k xs s)"
proof (cases xs)
  case Nil
  let ?s = "timer_at k T_idle s"
  have ids: "task_ids ?s = task_ids s" "set (flights ?s) = set (flights s)"
    using task_ids_at [of k s s T_idle] assms(2,3) Nil by simp_all
  have "armed ?s" by (rule armed_exec [OF _ assms(2,3)]) (use assms(1) in \<open>simp_all add: tasks_inv_def timer_at_def\<close>)
  moreover have "due_only ?s" using assms(1) ids(2) by (auto simp: due_only_def tasks_inv_def dest!: threads_at)
  ultimately show ?thesis using assms(1) ids(1) Nil by (simp add: tasks_inv_def map_wf_def)
next
  case (Cons x ys)
  let ?s = "timer_at k (T_exec ys) (s\<lparr>executed := executed s @ [x]\<rparr>)"
  have fl: "add_mset x (mset (flights ?s)) = mset (flights s)"
    using flights_at [of k "s\<lparr>executed := executed s @ [x]\<rparr>" "T_exec ys"] assms(2,3) Cons by (simp add: flights_def)
  have "image_mset snd (mset (flights s)) = add_mset (snd x) (image_mset snd (mset (flights ?s)))" by (simp flip: fl)
  then have ids: "task_ids ?s = task_ids s" by (simp add: task_ids_def)
  have set: "insert x (set (flights ?s)) = set (flights s)" using arg_cong [OF fl, of set_mset] by simp
  have "armed ?s" by (rule armed_exec [OF _ assms(2,3)]) (use assms(1) in \<open>simp_all add: tasks_inv_def timer_at_def\<close>)
  moreover have "due_only ?s" using assms(1) set by (auto simp: due_only_def tasks_inv_def dest!: threads_at)
  ultimately show ?thesis using assms(1) ids Cons by (simp add: tasks_inv_def map_wf_def)
qed

lemma tasks_inv_step:
  assumes "tasks_inv s" "task_step s s'"
  shows "tasks_inv s'"
  using assms(2)
proof (cases rule: task_step.cases)
  case (task_tick now)
  then show ?thesis using assms(1)
    by (auto simp: tasks_inv_def map_wf_def armed_def task_ids_def due_only_def flights_def intro: order_trans)
qed (auto simp: assms(1) tasks_inv_new tasks_inv_schedule tasks_inv_remove tasks_inv_read tasks_inv_now tasks_inv_take tasks_inv_exec)

interpretation tasks: transition_invariant "\<lambda>s. \<exists>n now. s = new_tasks n now" task_step tasks_inv
  by unfold_locales (auto simp: tasks_inv_init intro: tasks_inv_step)

lemma tasks_reached: "task_step\<^sup>*\<^sup>* (new_tasks n now) s \<Longrightarrow> tasks_inv s"
  by (rule tasks.reachable_inv) auto

lemma removed_exec: "removed (timer_exec k xs s) = removed s"
  by (cases xs) simp_all

lemma removed_step: "task_step s s' \<Longrightarrow> set (removed s) \<subseteq> set (removed s')"
  by (cases rule: task_step.cases, assumption)
    (auto simp: new_caller_def schedule_task_def remove_task_def timer_read_def timer_take_def Let_def removed_exec
      split: option.splits list.splits prod.splits)

text \<open>A task for the time zero is kept, but the timer is then set to zero, which disarms it.\<close>

lemma task_at_zero_disarms: "timer (snd (schedule_task (Timespec 0 0) tid (new_tasks n now))) = None"
  by (simp add: schedule_task_def new_tasks_def settime_def)

lemma task_ids_once:
  assumes "tasks_inv s"
  shows "distinct (created s @ map snd (task_map s) @ map snd (flights s) @ map snd (executed s) @ removed s) \<and>
    set (created s @ map snd (task_map s) @ map snd (flights s) @ map snd (executed s) @ removed s) = {..<next_id s}"
proof -
  have eq: "mset (created s @ map snd (task_map s) @ map snd (flights s) @ map snd (executed s) @ removed s) = mset [0..<next_id s]"
    using assms by (simp add: tasks_inv_def task_ids_def add.assoc)
  then have "distinct (created s @ map snd (task_map s) @ map snd (flights s) @ map snd (executed s) @ removed s)"
    using mset_eq_imp_distinct_iff distinct_upt by blast
  moreover have "set (created s @ map snd (task_map s) @ map snd (flights s) @ map snd (executed s) @ removed s) = {..<next_id s}"
    using arg_cong [OF eq, of set_mset] by (simp only: set_mset_mset set_upt) (simp add: atLeast0LessThan)
  ultimately show ?thesis ..
qed

section \<open>A run\<close>

text \<open>Three tasks are scheduled, two for the same time, which comes; then the thread takes these two and runs the first.\<close>

definition due_tasks :: tasks where
  "due_tasks = \<lparr> task_map = [(Timespec 1 0, 0), (Timespec 1 0, 2), (Timespec 2 0, 1)], next_id = 3, created = [],
     timer = Some (Timespec 1 0), clock = Timespec 1 0, timer_threads = [T_idle], executed = [], removed = [] \<rparr>"

definition run_tasks :: tasks where
  "run_tasks = \<lparr> task_map = [(Timespec 2 0, 1)], next_id = 3, created = [], timer = Some (Timespec 2 0), clock = Timespec 1 0,
     timer_threads = [T_exec [(Timespec 1 0, 2)]], executed = [(Timespec 1 0, 0)], removed = [] \<rparr>"

lemma due_tasks_run: "task_step\<^sup>*\<^sup>* (new_tasks 1 (Timespec 0 0)) due_tasks"
proof -
  let ?s0 = "snd (new_caller (snd (new_caller (snd (new_caller (new_tasks 1 (Timespec 0 0)))))))"
  let ?s1 = "snd (schedule_task (Timespec 1 0) 0 ?s0)"
  let ?s2 = "snd (schedule_task (Timespec 2 0) 1 ?s1)"
  let ?s3 = "snd (schedule_task (Timespec 1 0) 2 ?s2)"
  have "task_step\<^sup>*\<^sup>* (new_tasks 1 (Timespec 0 0)) ?s0"
    using task_new by (metis (no_types, lifting) rtranclp.simps)
  moreover have "task_step ?s0 ?s1" "task_step ?s1 ?s2" "task_step ?s2 ?s3"
    by (rule task_schedule; simp add: timespec_order schedule_task_def new_caller_def new_tasks_def settime_def Let_def)+
  moreover have "clock ?s3 = Timespec 0 0" by (simp add: schedule_task_def new_caller_def new_tasks_def settime_def Let_def timespec_order)
  then have "task_step ?s3 (?s3\<lparr>clock := Timespec 1 0\<rparr>)" by (intro task_tick) (simp add: timespec_order)
  moreover have "?s3\<lparr>clock := Timespec 1 0\<rparr> = due_tasks"
    by (simp add: schedule_task_def new_caller_def new_tasks_def settime_def Let_def timespec_order due_tasks_def)
  ultimately show ?thesis by (metis (no_types, lifting) rtranclp.simps)
qed

lemma run_tasks_run: "task_step\<^sup>*\<^sup>* (new_tasks 1 (Timespec 0 0)) run_tasks"
proof -
  let ?s1 = "timer_read 0 due_tasks"
  let ?s2 = "timer_at 0 (T_now (clock ?s1)) ?s1"
  let ?s3 = "timer_take 0 (clock ?s1) ?s2"
  let ?s4 = "timer_exec 0 [(Timespec 1 0, 0), (Timespec 1 0, 2)] ?s3"
  note defs = due_tasks_def timer_read_def timer_readable_def timer_at_def timer_take_def settime_def timespec_order
  have "task_step due_tasks ?s1" by (rule task_read) (simp_all add: due_tasks_def)
  moreover have "task_step ?s1 ?s2" by (rule task_now) (simp_all add: defs)
  moreover have "task_step ?s2 ?s3" by (rule task_take) (simp_all add: defs)
  moreover have "task_step ?s3 ?s4" by (rule task_exec) (simp_all add: defs)
  moreover have "?s4 = run_tasks" by (simp add: defs run_tasks_def)
  ultimately show ?thesis using due_tasks_run by (metis (no_types, lifting) rtranclp.rtrancl_into_rtrancl)
qed

section \<open>Properties\<close>

text \<open>
  C29: the map of tasks is always a well-formed multimap: sorted by time, with each number at most once and only
  numbers that were given; and scheduling puts a task behind those for the same time or an earlier one and in
  front of the later ones.
\<close>
theorem task_map_well_formed:
  assumes "task_step\<^sup>*\<^sup>* (new_tasks n now) s"
  shows "sorted (map fst (task_map s)) \<and> distinct (map snd (task_map s)) \<and> snd ` set (task_map s) \<subseteq> {..<next_id s} \<and>
    task_map (snd (schedule_task tm tid s)) =
      filter (\<lambda>x. fst x \<le> tm) (task_map s) @ (tm, tid) # filter (\<lambda>x. tm < fst x) (task_map s)"
proof -
  have inv: "tasks_inv s" using tasks_reached [OF assms] .
  then have sorted: "sorted_wrt task_before (task_map s)" by (simp add: tasks_inv_def map_wf_def)
  then have "sorted (map fst (task_map s))" by (simp add: sorted_wrt_map task_before_def [abs_def])
  moreover have "task_map (snd (schedule_task tm tid s)) = task_insert tm tid (task_map s)"
    by (simp add: schedule_task_def Let_def)
  moreover have "distinct (map snd (task_map s))" "snd ` set (task_map s) \<subseteq> {..<next_id s}"
    using task_ids_once [OF inv] by auto
  ultimately show ?thesis using task_insert_at [OF sorted] by simp
qed

lemma task_map_well_formed_witness: "task_map (snd (schedule_task (Timespec 1 0) 3 due_tasks)) =
   [(Timespec 1 0, 0), (Timespec 1 0, 2), (Timespec 1 0, 3), (Timespec 2 0, 1)]"
  using task_map_well_formed [OF due_tasks_run, of "Timespec 1 0" 3] by (simp add: due_tasks_def timespec_order)

text \<open>
  C27: over any run of the threads, each task that was made is in exactly one place: it is not yet scheduled, or waits in the map, or a
  thread has taken it and is about to run it, or it has been run, once, or it was removed; and it is
  never taken or run before its time.
\<close>
theorem tasks_run_once:
  assumes "task_step\<^sup>*\<^sup>* (new_tasks n now) s"
  shows "distinct (created s @ map snd (task_map s) @ map snd (flights s) @ map snd (executed s) @ removed s) \<and>
    set (created s @ map snd (task_map s) @ map snd (flights s) @ map snd (executed s) @ removed s) = {..<next_id s} \<and>
    (\<forall>x \<in> set (flights s) \<union> set (executed s). fst x \<le> clock s)"
  using task_ids_once [OF tasks_reached [OF assms]] tasks_reached [OF assms] by (simp add: tasks_inv_def due_only_def)

lemma tasks_run_once_witness:
  "set (map snd (task_map run_tasks) @ map snd (flights run_tasks) @ map snd (executed run_tasks)) = {..<3} \<and>
   fst (Timespec 1 0, 2 :: nat) \<le> clock run_tasks"
  using tasks_run_once [OF run_tasks_run] by (simp add: run_tasks_def flights_def)

text \<open>
  removing a task that was scheduled returns true if and only if it still waited in the map; then it is
  the only one that is taken out, and it will never run.
\<close>
theorem remove_task_exact:
  assumes "task_step\<^sup>*\<^sup>* (new_tasks n now) s" "x \<in> set (task_map s) \<union> set (flights s) \<union> set (executed s)"
  shows "(fst (remove_task x s) \<longleftrightarrow> x \<in> set (task_map s)) \<and>
    task_map (snd (remove_task x s)) = removeAll x (task_map s) \<and>
    (fst (remove_task x s) \<longrightarrow> (\<forall>s'. task_step\<^sup>*\<^sup>* (snd (remove_task x s)) s' \<longrightarrow> x \<notin> set (flights s') \<union> set (executed s')))"
proof -
  have inv: "tasks_inv s" using tasks_reached [OF assms(1)] .
  note once = task_ids_once [OF inv]
  have dist: "distinct (map snd (task_map s))" using once by simp
  have sorted: "sorted_wrt task_before (task_map s)" using inv by (simp add: tasks_inv_def map_wf_def)
  have only: "x \<in> set (task_map s)" if "snd x \<in> snd ` set (task_map s)"
  proof -
    have "snd x \<notin> snd ` (set (flights s) \<union> set (executed s))" using once that by auto
    then show ?thesis using assms(2) by auto
  qed
  show ?thesis
  proof (cases "remove_find (fst x) (snd x) (task_map s)")
    case None
    then have "x \<notin> set (task_map s)" using remove_find_finds [OF sorted, of "fst x" "snd x"] dist by auto
    then show ?thesis using None by (simp add: remove_task_def)
  next
    case (Some m)
    then obtain t xs ys where m: "task_map s = xs @ (t, snd x) # ys" "m = xs @ ys" using remove_find_spec by blast
    have "x \<in> set (task_map s)" using only m(1) by simp
    moreover have "(t, snd x) \<in> set (task_map s)" by (simp add: m(1))
    ultimately have x: "(t, snd x) = x" using dist by (metis distinct_map inj_onD snd_conv)
    have "x \<notin> set xs \<union> set ys" using dist x by (auto simp: m(1))
    then have m': "m = removeAll x (task_map s)" by (simp add: m x)
    let ?s = "snd (remove_task x s)"
    have r: "fst (remove_task x s)" "task_map ?s = m" "removed ?s = removed s @ [snd x]"
      using Some by (simp_all add: remove_task_def)
    have run: "task_step\<^sup>*\<^sup>* (new_tasks n now) ?s" using assms(1) task_remove [of s x] by (rule rtranclp.rtrancl_into_rtrancl)
    have "x \<notin> set (flights s') \<union> set (executed s')" if s': "task_step\<^sup>*\<^sup>* ?s s'" for s'
    proof -
      have "snd x \<in> set (removed s')"
        using s'
      proof (induction rule: rtranclp_induct)
        case base
        then show ?case using r(3) by simp
      next
        case (step y z)
        then show ?case using removed_step [OF step(2)] step(3) by blast
      qed
      moreover have "task_step\<^sup>*\<^sup>* (new_tasks n now) s'" using run s' by (rule rtranclp_trans)
      ultimately show ?thesis using task_ids_once [OF tasks_reached] by fastforce
    qed
    then show ?thesis using r(1,2) m' \<open>x \<in> set (task_map s)\<close> by blast
  qed
qed

lemma remove_task_exact_witness:
  "task_map (snd (remove_task (Timespec 1 0, 2) due_tasks)) = [(Timespec 1 0, 0), (Timespec 2 0, 1)]"
  using remove_task_exact [OF due_tasks_run, of "(Timespec 1 0, 2)"] by (simp add: due_tasks_def)

text \<open>
  C28: no task is lost: whenever a task in the map is due, the timer can be read, so that \<open>epoll_wait\<close> gives its
  event to a thread, or a thread has read it and is about to take what is due.
\<close>
theorem due_task_noticed:
  assumes "task_step\<^sup>*\<^sup>* (new_tasks n now) s" "x \<in> set (task_map s)" "fst x \<le> clock s"
  shows "timer_readable s \<or> (\<exists>p \<in> set (timer_threads s). will_take p)"
proof -
  have inv: "armed s" "sorted_wrt task_before (task_map s)" using tasks_reached [OF assms(1)] by (simp_all add: tasks_inv_def map_wf_def)
  have "fst (hd (task_map s)) \<le> fst x" using inv(2) assms(2) by (cases "task_map s") (auto simp: task_before_def)
  then show ?thesis using inv(1) assms(2,3) by (auto simp: armed_def timer_readable_def)
qed

lemma due_task_noticed_witness: "timer_readable due_tasks"
  using due_task_noticed [OF due_tasks_run, of "(Timespec 1 0, 2)"] by (simp add: due_tasks_def)

end
