(* ===== verification/Fibers.thy ===== *)
theory Fibers
  imports Prelude Systems
begin

text \<open>
  The life of fibers, \<open>src/cpp/fiber.h\<close> and \<open>fiber.cpp\<close>: their construction, directly or through a command to an io
  thread, their run, their end and their destruction, with the counters of fibers and the waiting for
  them; and \<open>run_in_parallel\<close> on top of them.  What runs under a mutex is one step.  The stacks and contexts are not
  modelled, only whether a fiber is on its stack.
\<close>

section \<open>Fibers\<close>

text \<open>The parents of fibers, one for each io thread, are left out.  A fiber is commanded before an io thread has constructed it; it has stopped when it has told
  so to those who join it, but is still on its stack; it has left when it has switched to its parent, which still has to
  execute \<open>oc_exit_fiber\<close>.  \<open>after_free\<close> tells that a fiber was used after it had been deleted: from then on nothing has a
  defined behaviour.\<close>

datatype fiber_phase = F_commanded | F_runnable | F_on_stack | F_stopped | F_left | F_finished

record fiber =
  auto_free :: bool
  running :: bool
  phase :: fiber_phase
  deleted :: bool

record fibers =
  all_fibers :: "fiber list"
  num_running_fibers :: int
  num_fibers :: int
  fn_runs :: "nat list"
  after_free :: bool

definition no_fibers :: fibers where
  "no_fibers = \<lparr> all_fibers = [], num_running_fibers = 0, num_fibers = 0, fn_runs = [], after_free = False \<rparr>"

definition set_fiber :: "nat \<Rightarrow> (fiber \<Rightarrow> fiber) \<Rightarrow> fibers \<Rightarrow> fibers" where
  "set_fiber k f s = s\<lparr>all_fibers := (all_fibers s)[k := f (all_fibers s ! k)]\<rparr>"

text \<open>\<open>run_in_fiber\<close> up to the command, and the command.\<close>

definition run_in_fiber :: "fibers \<Rightarrow> fibers" where
  "run_in_fiber s = s\<lparr>num_running_fibers := num_running_fibers s + 1,
     all_fibers := all_fibers s @ [\<lparr> auto_free = True, running = False, phase = F_commanded, deleted = False \<rparr>]\<rparr>"

definition commanded_fiber :: "nat \<Rightarrow> fibers \<Rightarrow> fibers" where
  "commanded_fiber k s = set_fiber k (\<lambda>f. f\<lparr>running := True, phase := F_runnable\<rparr>) (s\<lparr>num_fibers := num_fibers s + 1\<rparr>)"

text \<open>The constructor, for a fiber that its owner deletes.\<close>

definition new_fiber :: "fibers \<Rightarrow> fibers" where
  "new_fiber s = s\<lparr>num_fibers := num_fibers s + 1, num_running_fibers := num_running_fibers s + 1,
     all_fibers := all_fibers s @ [\<lparr> auto_free = False, running = True, phase = F_runnable, deleted = False \<rparr>]\<rparr>"

definition start_fiber :: "nat \<Rightarrow> fibers \<Rightarrow> fibers" where
  "start_fiber k s = set_fiber k (\<lambda>f. f\<lparr>phase := F_on_stack\<rparr>) (s\<lparr>fn_runs := fn_runs s @ [k]\<rparr>)"

definition stop_fiber :: "nat \<Rightarrow> fibers \<Rightarrow> fibers" where
  "stop_fiber k = set_fiber k (\<lambda>f. f\<lparr>running := False, phase := F_stopped\<rparr>)"

text \<open>Whoever uses a fiber that its owner has deleted: its stack, its context, or \<open>auto_free_\<close>.\<close>

definition use_fiber :: "nat \<Rightarrow> fibers \<Rightarrow> fibers" where
  "use_fiber k s = (if deleted (all_fibers s ! k) then s\<lparr>after_free := True\<rparr> else s)"

definition leave_fiber :: "nat \<Rightarrow> fibers \<Rightarrow> fibers" where
  "leave_fiber k s = set_fiber k (\<lambda>f. f\<lparr>phase := F_left\<rparr>) (use_fiber k s)"

definition delete_fiber :: "nat \<Rightarrow> fibers \<Rightarrow> fibers" where
  "delete_fiber k s = set_fiber k (\<lambda>f. f\<lparr>deleted := True\<rparr>) (s\<lparr>num_fibers := num_fibers s - 1\<rparr>)"

definition oc_exit_fiber :: "nat \<Rightarrow> fibers \<Rightarrow> fibers" where
  "oc_exit_fiber k s =
     (let s = use_fiber k s; s = (if auto_free (all_fibers s ! k) then delete_fiber k s else s)
      in set_fiber k (\<lambda>f. f\<lparr>phase := F_finished\<rparr>) (s\<lparr>num_running_fibers := num_running_fibers s - 1\<rparr>))"

text \<open>What \<open>join\<close> and \<open>wait_for_zero_fibers\<close> wait for.\<close>

definition join_returns :: "nat \<Rightarrow> fibers \<Rightarrow> bool" where
  "join_returns k s \<longleftrightarrow> \<not> running (all_fibers s ! k)"

definition zero_fibers :: "fibers \<Rightarrow> bool" where
  "zero_fibers s \<longleftrightarrow> num_running_fibers s = 0"

definition in_phase :: "nat \<Rightarrow> fiber_phase \<Rightarrow> fibers \<Rightarrow> bool" where
  "in_phase k p s \<longleftrightarrow> k < length (all_fibers s) \<and> phase (all_fibers s ! k) = p"

text \<open>The owner of a fiber deletes it once, after it has joined it.\<close>

inductive fiber_step :: "fibers \<Rightarrow> fibers \<Rightarrow> bool" where
  fiber_run: "fiber_step s (run_in_fiber s)"
| fiber_new: "fiber_step s (new_fiber s)"
| fiber_commanded: "in_phase k F_commanded s \<Longrightarrow> fiber_step s (commanded_fiber k s)"
| fiber_start: "in_phase k F_runnable s \<Longrightarrow> fiber_step s (start_fiber k s)"
| fiber_stop: "in_phase k F_on_stack s \<Longrightarrow> fiber_step s (stop_fiber k s)"
| fiber_leave: "in_phase k F_stopped s \<Longrightarrow> fiber_step s (leave_fiber k s)"
| fiber_exit: "in_phase k F_left s \<Longrightarrow> fiber_step s (oc_exit_fiber k s)"
| fiber_joined: "k < length (all_fibers s) \<Longrightarrow> \<not> auto_free (all_fibers s ! k) \<Longrightarrow> \<not> deleted (all_fibers s ! k) \<Longrightarrow>
    join_returns k s \<Longrightarrow> fiber_step s (delete_fiber k s)"

section \<open>The invariant of the counters\<close>

definition unfinished :: "fiber \<Rightarrow> bool" where
  "unfinished f \<longleftrightarrow> phase f \<noteq> F_finished"

definition living :: "fiber \<Rightarrow> bool" where
  "living f \<longleftrightarrow> phase f \<noteq> F_commanded \<and> \<not> deleted f"

definition has_run :: "fiber \<Rightarrow> bool" where
  "has_run f \<longleftrightarrow> phase f \<noteq> F_commanded \<and> phase f \<noteq> F_runnable"

definition fiber_ok :: "fiber \<Rightarrow> bool" where
  "fiber_ok f \<longleftrightarrow> (running f \<longleftrightarrow> phase f = F_runnable \<or> phase f = F_on_stack) \<and>
     (phase f = F_commanded \<longrightarrow> auto_free f \<and> \<not> deleted f) \<and> (running f \<longrightarrow> \<not> deleted f) \<and>
     (auto_free f \<longrightarrow> (deleted f \<longleftrightarrow> phase f = F_finished))"

definition fibers_inv :: "fibers \<Rightarrow> bool" where
  "fibers_inv s \<longleftrightarrow> (\<forall>f \<in> set (all_fibers s). fiber_ok f) \<and>
     num_running_fibers s = count_if unfinished (all_fibers s) \<and>
     num_fibers s = count_if living (all_fibers s) \<and>
     distinct (fn_runs s) \<and> set (fn_runs s) = {k. k < length (all_fibers s) \<and> has_run (all_fibers s ! k)} \<and>
     (after_free s \<longrightarrow> (\<exists>f \<in> set (all_fibers s). \<not> auto_free f \<and> deleted f))"

lemma fibers_inv_set:
  assumes "fibers_inv s" "k < length (all_fibers s)" "all_fibers s' = (all_fibers s)[k := f']" "fiber_ok f'"
    "num_running_fibers s' = num_running_fibers s - (if unfinished (all_fibers s ! k) then 1 else 0) + (if unfinished f' then 1 else 0)"
    "num_fibers s' = num_fibers s - (if living (all_fibers s ! k) then 1 else 0) + (if living f' then 1 else 0)"
    "fn_runs s' = (if has_run f' = has_run (all_fibers s ! k) then fn_runs s else fn_runs s @ [k])"
    "has_run (all_fibers s ! k) \<longrightarrow> has_run f'"
    "after_free s' = (after_free s \<or> uses \<and> deleted (all_fibers s ! k))" "uses \<longrightarrow> \<not> auto_free (all_fibers s ! k) \<or> \<not> deleted (all_fibers s ! k)"
    "auto_free f' = auto_free (all_fibers s ! k)" "deleted (all_fibers s ! k) \<longrightarrow> deleted f'"
  shows "fibers_inv s'"
proof -
  have "\<forall>f \<in> set (all_fibers s'). fiber_ok f"
    using assms(1,3,4) set_update_subset_insert [of "all_fibers s" k f'] by (auto simp: fibers_inv_def)
  moreover have "distinct (fn_runs s')" "set (fn_runs s') = {j. j < length (all_fibers s') \<and> has_run (all_fibers s' ! j)}"
    using assms(1,2,7,8) by (auto simp: fibers_inv_def assms(3) nth_list_update)
  moreover have "\<exists>f \<in> set (all_fibers s'). \<not> auto_free f \<and> deleted f" if "after_free s'"
  proof (cases "after_free s")
    case True
    then obtain j where j: "j < length (all_fibers s)" "\<not> auto_free (all_fibers s ! j)" "deleted (all_fibers s ! j)"
      using assms(1) by (auto simp: fibers_inv_def in_set_conv_nth)
    then have "\<not> auto_free (all_fibers s' ! j) \<and> deleted (all_fibers s' ! j)"
      using assms(2,11,12) by (cases "j = k") (simp_all add: assms(3))
    then show ?thesis using j(1) by (auto simp: assms(3) intro!: bexI [of _ "all_fibers s' ! j"])
  next
    case False
    then have "\<not> auto_free f' \<and> deleted f'" using that assms(9-12) by auto
    then show ?thesis using assms(2,3) by (auto simp: set_update_memI)
  qed
  ultimately show ?thesis
    using assms(1) unfolding fibers_inv_def assms(3,5,6) by (simp add: count_if_update assms(2))
qed

lemma fibers_inv_add:
  assumes "fibers_inv s" "all_fibers s' = all_fibers s @ [f]" "fiber_ok f" "unfinished f" "\<not> has_run f" "fn_runs s' = fn_runs s"
    "num_running_fibers s' = num_running_fibers s + 1" "num_fibers s' = num_fibers s + (if living f then 1 else 0)"
    "after_free s' = after_free s"
  shows "fibers_inv s'"
proof -
  have "{j. j < length (all_fibers s @ [f]) \<and> has_run ((all_fibers s @ [f]) ! j)} =
      {j. j < length (all_fibers s) \<and> has_run (all_fibers s ! j)}"
    using assms(5) by (auto simp: nth_append less_Suc_eq)
  then show ?thesis using assms unfolding fibers_inv_def by simp
qed

lemma fibers_inv_ok: "fibers_inv s \<Longrightarrow> k < length (all_fibers s) \<Longrightarrow> fiber_ok (all_fibers s ! k)"
  by (simp add: fibers_inv_def)

lemmas fiber_facts = fiber_ok_def unfinished_def living_def has_run_def

lemma fibers_inv_step:
  assumes "fibers_inv s" "fiber_step s s'"
  shows "fibers_inv s'"
  using assms(2)
proof cases
  case fiber_run
  show ?thesis unfolding fiber_run
    by (rule fibers_inv_add [OF assms(1), where f = "\<lparr> auto_free = True, running = False, phase = F_commanded, deleted = False \<rparr>"])
      (simp_all add: run_in_fiber_def fiber_facts)
next
  case fiber_new
  show ?thesis unfolding fiber_new
    by (rule fibers_inv_add [OF assms(1), where f = "\<lparr> auto_free = False, running = True, phase = F_runnable, deleted = False \<rparr>"])
      (simp_all add: new_fiber_def fiber_facts)
next
  case (fiber_commanded k)
  then have k: "k < length (all_fibers s)" "phase (all_fibers s ! k) = F_commanded" by (simp_all add: in_phase_def)
  show ?thesis unfolding fiber_commanded(1)
    by (rule fibers_inv_set [OF assms(1) k(1), where f' = "(all_fibers s ! k)\<lparr>running := True, phase := F_runnable\<rparr>"])
      (use fibers_inv_ok [OF assms(1) k(1)] k(2) in \<open>simp_all add: commanded_fiber_def set_fiber_def fiber_facts\<close>)
next
  case (fiber_start k)
  then have k: "k < length (all_fibers s)" "phase (all_fibers s ! k) = F_runnable" by (simp_all add: in_phase_def)
  show ?thesis unfolding fiber_start(1)
    by (rule fibers_inv_set [OF assms(1) k(1), where f' = "(all_fibers s ! k)\<lparr>phase := F_on_stack\<rparr>"])
      (use fibers_inv_ok [OF assms(1) k(1)] k(2) in \<open>simp_all add: start_fiber_def set_fiber_def fiber_facts\<close>)
next
  case (fiber_stop k)
  then have k: "k < length (all_fibers s)" "phase (all_fibers s ! k) = F_on_stack" by (simp_all add: in_phase_def)
  show ?thesis unfolding fiber_stop(1)
    by (rule fibers_inv_set [OF assms(1) k(1), where f' = "(all_fibers s ! k)\<lparr>running := False, phase := F_stopped\<rparr>"])
      (use fibers_inv_ok [OF assms(1) k(1)] k(2) in \<open>simp_all add: stop_fiber_def set_fiber_def fiber_facts\<close>)
next
  case (fiber_leave k)
  then have k: "k < length (all_fibers s)" "phase (all_fibers s ! k) = F_stopped" by (simp_all add: in_phase_def)
  show ?thesis unfolding fiber_leave(1)
    by (rule fibers_inv_set [OF assms(1) k(1), where uses = True and f' = "(all_fibers s ! k)\<lparr>phase := F_left\<rparr>"])
      (use fibers_inv_ok [OF assms(1) k(1)] k(2) in \<open>simp_all add: leave_fiber_def use_fiber_def set_fiber_def fiber_facts\<close>)
next
  case (fiber_exit k)
  then have k: "k < length (all_fibers s)" "phase (all_fibers s ! k) = F_left" by (simp_all add: in_phase_def)
  show ?thesis unfolding fiber_exit(1)
    by (rule fibers_inv_set [OF assms(1) k(1), where uses = True and f' = "(if auto_free (all_fibers s ! k) then (all_fibers s ! k)\<lparr>deleted := True\<rparr>
        else all_fibers s ! k)\<lparr>phase := F_finished\<rparr>"])
      (use fibers_inv_ok [OF assms(1) k(1)] k in \<open>auto simp: oc_exit_fiber_def use_fiber_def delete_fiber_def set_fiber_def fiber_facts Let_def\<close>)
next
  case (fiber_joined k)
  show ?thesis unfolding fiber_joined(1)
    by (rule fibers_inv_set [OF assms(1) fiber_joined(2), where f' = "(all_fibers s ! k)\<lparr>deleted := True\<rparr>"])
      (use fibers_inv_ok [OF assms(1) fiber_joined(2)] fiber_joined in
        \<open>auto simp: delete_fiber_def set_fiber_def fiber_facts join_returns_def\<close>)
qed

lemma fibers_inv_init: "fibers_inv no_fibers"
  by (simp add: fibers_inv_def no_fibers_def)

interpretation fibers: transition_invariant "\<lambda>s. s = no_fibers" fiber_step fibers_inv
  by unfold_locales (auto simp: fibers_inv_init intro: fibers_inv_step)

lemma fibers_reached: "fiber_step\<^sup>*\<^sup>* no_fibers s \<Longrightarrow> fibers_inv s"
  by (rule fibers.reachable_inv) auto

text \<open>
  A fiber that its owner joins and deletes can still be on its stack, which is deleted with it: \<open>join\<close> returns as soon as
  \<open>running_\<close> is false, before the fiber has switched to its parent, which then still reads the fiber.
  An owner that waited until the fiber has finished would be safe.
\<close>

lemma deleted_on_stack:
  "\<exists>s. fiber_step\<^sup>*\<^sup>* no_fibers s \<and> deleted (all_fibers s ! 0) \<and> phase (all_fibers s ! 0) = F_stopped \<and>
     fiber_step s (leave_fiber 0 s) \<and> after_free (leave_fiber 0 s)"
proof -
  let ?s1 = "new_fiber no_fibers"
  let ?s2 = "start_fiber 0 ?s1"
  let ?s3 = "stop_fiber 0 ?s2"
  let ?s4 = "delete_fiber 0 ?s3"
  note defs = new_fiber_def no_fibers_def start_fiber_def stop_fiber_def delete_fiber_def set_fiber_def in_phase_def join_returns_def
    leave_fiber_def use_fiber_def
  have "fiber_step no_fibers ?s1" by (rule fiber_new)
  moreover have "fiber_step ?s1 ?s2" by (rule fiber_start) (simp add: defs)
  moreover have "fiber_step ?s2 ?s3" by (rule fiber_stop) (simp add: defs)
  moreover have "fiber_step ?s3 ?s4" by (rule fiber_joined) (simp_all add: defs)
  ultimately have "fiber_step\<^sup>*\<^sup>* no_fibers ?s4" by (metis (no_types, lifting) rtranclp.simps)
  moreover have "fiber_step ?s4 (leave_fiber 0 ?s4)" by (rule fiber_leave) (simp add: defs)
  ultimately show ?thesis by (intro exI [of _ ?s4]) (simp add: defs)
qed

section \<open>Running functions in parallel\<close>

text \<open>The fiber of each function: not yet started, before its function, before the section of a handler that notes its
  error, before the last section, and done.  The caller starts the fibers one by one, tests the
  counter, waits, and returns, with an error or without.\<close>

datatype par_phase = P_new | P_function | P_caught string | P_last | P_done

datatype par_caller = C_starting nat | C_testing | C_waiting | C_returned "string option"

record par =
  par_fns :: "par_phase list"
  num_completed :: nat
  hit_error :: "string option"
  par_calls :: "nat list"
  par_caller :: par_caller

definition par_start :: "nat \<Rightarrow> par" where
  "par_start n = \<lparr> par_fns = replicate n P_new, num_completed = 0, hit_error = None, par_calls = [], par_caller = C_starting 0 \<rparr>"

text \<open>\<open>error_str\<close> and \<open>hit_error\<close> are one member.  What a function throws is its entry in
  \<open>res\<close>, ''unknown'' if it is no \<open>std::exception\<close>; what is thrown in the end starts with a fixed text.\<close>

definition start_fn :: "nat \<Rightarrow> par \<Rightarrow> par" where
  "start_fn j s = s\<lparr>par_fns := (par_fns s)[j := P_function], par_caller := C_starting (j + 1)\<rparr>"

definition call_fn :: "string option list \<Rightarrow> nat \<Rightarrow> par \<Rightarrow> par" where
  "call_fn res k s = s\<lparr>par_calls := par_calls s @ [k],
     par_fns := (par_fns s)[k := (case res ! k of None \<Rightarrow> P_last | Some e \<Rightarrow> P_caught e)]\<rparr>"

definition catch_error :: "nat \<Rightarrow> string \<Rightarrow> par \<Rightarrow> par" where
  "catch_error k e s = s\<lparr>hit_error := (case hit_error s of None \<Rightarrow> Some e | Some e' \<Rightarrow> Some e'), par_fns := (par_fns s)[k := P_last]\<rparr>"

definition complete_fn :: "nat \<Rightarrow> par \<Rightarrow> par" where
  "complete_fn k s =
     (let s = s\<lparr>num_completed := num_completed s + 1, par_fns := (par_fns s)[k := P_done]\<rparr>
      in if num_completed s = length (par_fns s) \<and> par_caller s = C_waiting then s\<lparr>par_caller := C_testing\<rparr> else s)"

definition par_error :: "string \<Rightarrow> string" where
  "par_error e = ''run_in_parallel caught exception: '' @ e"

definition par_test :: "par \<Rightarrow> par" where
  "par_test s = s\<lparr>par_caller := (if num_completed s < length (par_fns s) then C_waiting
     else C_returned (map_option par_error (hit_error s)))\<rparr>"

inductive par_step :: "string option list \<Rightarrow> par \<Rightarrow> par \<Rightarrow> bool" for res where
  par_start_fn: "par_caller s = C_starting j \<Longrightarrow> j < length (par_fns s) \<Longrightarrow> par_step res s (start_fn j s)"
| par_started: "par_caller s = C_starting (length (par_fns s)) \<Longrightarrow> par_step res s (s\<lparr>par_caller := C_testing\<rparr>)"
| par_call: "k < length (par_fns s) \<Longrightarrow> par_fns s ! k = P_function \<Longrightarrow> par_step res s (call_fn res k s)"
| par_catch: "k < length (par_fns s) \<Longrightarrow> par_fns s ! k = P_caught e \<Longrightarrow> par_step res s (catch_error k e s)"
| par_complete: "k < length (par_fns s) \<Longrightarrow> par_fns s ! k = P_last \<Longrightarrow> par_step res s (complete_fn k s)"
| par_tests: "par_caller s = C_testing \<Longrightarrow> par_step res s (par_test s)"

fun fn_ok :: "string option \<Rightarrow> par_phase \<Rightarrow> bool" where
  "fn_ok r (P_caught e) \<longleftrightarrow> r = Some e"
| "fn_ok r p \<longleftrightarrow> True"

fun fn_called :: "par_phase \<Rightarrow> bool" where
  "fn_called P_new = False"
| "fn_called P_function = False"
| "fn_called p = True"

fun fn_handled :: "par_phase \<Rightarrow> bool" where
  "fn_handled P_last = True"
| "fn_handled P_done = True"
| "fn_handled p = False"

definition par_fns_inv :: "string option list \<Rightarrow> par \<Rightarrow> bool" where
  "par_fns_inv res s \<longleftrightarrow> length (par_fns s) = length res \<and> (\<forall>k < length res. fn_ok (res ! k) (par_fns s ! k)) \<and>
     distinct (par_calls s) \<and> set (par_calls s) = {k. k < length res \<and> fn_called (par_fns s ! k)}"

definition par_error_inv :: "string option list \<Rightarrow> par \<Rightarrow> bool" where
  "par_error_inv res s \<longleftrightarrow> (case hit_error s of
     None \<Rightarrow> \<forall>k < length res. fn_handled (par_fns s ! k) \<longrightarrow> res ! k = None
   | Some e \<Rightarrow> Some e \<in> set res)"

definition par_count_inv :: "par \<Rightarrow> bool" where
  "par_count_inv s \<longleftrightarrow> num_completed s = length (filter (\<lambda>p. p = P_done) (par_fns s))"

definition par_caller_inv :: "par \<Rightarrow> bool" where
  "par_caller_inv s \<longleftrightarrow> (case par_caller s of
     C_starting j \<Rightarrow> j \<le> length (par_fns s) \<and> (\<forall>k < length (par_fns s). par_fns s ! k = P_new \<longleftrightarrow> j \<le> k)
   | C_testing \<Rightarrow> P_new \<notin> set (par_fns s)
   | C_waiting \<Rightarrow> P_new \<notin> set (par_fns s) \<and> num_completed s < length (par_fns s)
   | C_returned r \<Rightarrow> num_completed s = length (par_fns s) \<and>
       r = map_option par_error (hit_error s))"

definition par_inv :: "string option list \<Rightarrow> par \<Rightarrow> bool" where
  "par_inv res s \<longleftrightarrow> par_fns_inv res s \<and> par_error_inv res s \<and> par_count_inv s \<and> par_caller_inv s"

lemma par_inv_init: "par_inv res (par_start (length res))"
  by (simp add: par_inv_def par_start_def par_fns_inv_def par_error_inv_def par_count_inv_def par_caller_inv_def)

lemma filter_update:
  "k < length xs \<Longrightarrow> \<not> P (xs ! k) \<Longrightarrow> length (filter P (xs[k := x])) = length (filter P xs) + (if P x then 1 else 0)"
  by (induction xs arbitrary: k) (auto split: nat.split)

text \<open>All functions are done when the counter says so.\<close>

lemma all_done: "length (filter P xs) = length xs \<longleftrightarrow> (\<forall>x \<in> set xs. P x)"
proof
  assume l: "length (filter P xs) = length xs"
  show "\<forall>x \<in> set xs. P x"
  proof
    fix x assume "x \<in> set xs"
    then show "P x" using l length_filter_less [of x xs P] by (metis less_irrefl)
  qed
qed (simp add: filter_True)

lemma new_not_in_update: "P_new \<notin> set xs \<Longrightarrow> x \<noteq> P_new \<Longrightarrow> P_new \<notin> set (xs[k := x])"
  using set_update_subset_insert [of xs k x] by auto

lemma par_caller_step:
  assumes "par_caller_inv s" "k < length (par_fns s)" "par_fns s ! k \<noteq> P_new" "x \<noteq> P_new" "par_fns s' = (par_fns s)[k := x]"
    "par_caller s' = par_caller s" "num_completed s' = num_completed s" "par_caller s \<noteq> C_returned r"
    "\<And>r. par_caller s \<noteq> C_returned r"
  shows "par_caller_inv s'"
  using assms new_not_in_update [of "par_fns s" x k]
  by (auto simp: par_caller_inv_def nth_list_update split: par_caller.splits)

lemma not_returned:
  assumes "par_inv res s" "k < length (par_fns s)" "par_fns s ! k \<noteq> P_done"
  shows "par_caller s \<noteq> C_returned r"
proof
  assume "par_caller s = C_returned r"
  then have "\<forall>p \<in> set (par_fns s). p = P_done"
    using assms(1) all_done [of "\<lambda>p. p = P_done" "par_fns s"] by (simp add: par_inv_def par_caller_inv_def par_count_inv_def)
  then show False using assms(2,3) by simp
qed

lemma par_inv_step:
  assumes "par_inv res s" "par_step res s s'"
  shows "par_inv res s'"
proof -
  have len: "length (par_fns s) = length res" using assms(1) by (simp add: par_inv_def par_fns_inv_def)
  show ?thesis
    using assms(2)
  proof cases
    case (par_start_fn j)
    then have new: "par_fns s ! j = P_new" using assms(1) by (simp add: par_inv_def par_caller_inv_def)
    have "set (par_calls s) = {k. k < length res \<and> fn_called ((par_fns s)[j := P_function] ! k)}"
      using assms(1) new par_start_fn(3) by (auto simp: par_inv_def par_fns_inv_def nth_list_update)
    moreover have "\<forall>k < length res. fn_ok (res ! k) ((par_fns s)[j := P_function] ! k)"
      using assms(1) par_start_fn(3) by (auto simp: par_inv_def par_fns_inv_def nth_list_update)
    ultimately have "par_fns_inv res s'" using assms(1) par_start_fn by (simp add: par_inv_def par_fns_inv_def start_fn_def)
    moreover have "par_error_inv res s'" using assms(1) par_start_fn new
      by (auto simp: par_inv_def par_error_inv_def start_fn_def nth_list_update split: option.splits)
    moreover have "par_count_inv s'" using assms(1) par_start_fn new
      by (simp add: par_inv_def par_count_inv_def start_fn_def filter_update)
    moreover have "par_caller_inv s'" using assms(1) par_start_fn
      by (auto simp: par_inv_def par_caller_inv_def start_fn_def nth_list_update)
    ultimately show ?thesis by (simp add: par_inv_def)
  next
    case par_started
    then show ?thesis using assms(1)
      by (auto simp: par_inv_def par_fns_inv_def par_error_inv_def par_count_inv_def par_caller_inv_def in_set_conv_nth split: option.split)
  next
    case (par_call k)
    let ?x = "case res ! k of None \<Rightarrow> P_last | Some e \<Rightarrow> P_caught e"
    have k: "k < length res" using par_call len by simp
    have x: "?x \<noteq> P_new" "?x \<noteq> P_done" "fn_called ?x" "fn_ok (res ! k) ?x" by (auto split: option.split)
    have "set (par_calls s @ [k]) = {j. j < length res \<and> fn_called ((par_fns s)[k := ?x] ! j)}" "distinct (par_calls s @ [k])"
      using assms(1) par_call k x by (auto simp: par_inv_def par_fns_inv_def nth_list_update)
    moreover have "\<forall>j < length res. fn_ok (res ! j) ((par_fns s)[k := ?x] ! j)"
      using assms(1) par_call(2) x by (auto simp: par_inv_def par_fns_inv_def nth_list_update)
    ultimately have "par_fns_inv res s'" using assms(1) par_call by (simp add: par_inv_def par_fns_inv_def call_fn_def)
    moreover have "par_error_inv res s'" using assms(1) par_call len
      by (auto simp: par_inv_def par_error_inv_def call_fn_def nth_list_update split: option.splits)
    moreover have "par_count_inv s'" using assms(1) par_call x
      by (simp add: par_inv_def par_count_inv_def call_fn_def filter_update)
    moreover have "par_caller_inv s'"
      by (rule par_caller_step [of s k ?x]) (use assms(1) par_call x not_returned [OF assms(1)] in \<open>auto simp: par_inv_def call_fn_def\<close>)
    ultimately show ?thesis by (simp add: par_inv_def)
  next
    case (par_catch k e)
    have k: "k < length res" "res ! k = Some e" using assms(1) par_catch len by (auto simp: par_inv_def par_fns_inv_def)
    have "set (par_calls s) = {j. j < length res \<and> fn_called ((par_fns s)[k := P_last] ! j)}"
      using assms(1) par_catch k by (auto simp: par_inv_def par_fns_inv_def nth_list_update)
    moreover have "\<forall>j < length res. fn_ok (res ! j) ((par_fns s)[k := P_last] ! j)"
      using assms(1) par_catch(2) by (auto simp: par_inv_def par_fns_inv_def nth_list_update)
    ultimately have "par_fns_inv res s'" using assms(1) par_catch by (simp add: par_inv_def par_fns_inv_def catch_error_def)
    moreover have "Some e \<in> set res" using k by (metis nth_mem)
    then have "par_error_inv res s'" using assms(1) par_catch
      by (auto simp: par_inv_def par_error_inv_def catch_error_def split: option.splits)
    moreover have "par_count_inv s'" using assms(1) par_catch
      by (simp add: par_inv_def par_count_inv_def catch_error_def filter_update)
    moreover have "par_caller_inv s'"
      by (rule par_caller_step [of s k P_last]) (use assms(1) par_catch not_returned [OF assms(1)] in \<open>auto simp: par_inv_def catch_error_def\<close>)
    ultimately show ?thesis by (simp add: par_inv_def)
  next
    case (par_complete k)
    have "set (par_calls s) = {j. j < length res \<and> fn_called ((par_fns s)[k := P_done] ! j)}"
      using assms(1) par_complete len by (auto simp: par_inv_def par_fns_inv_def nth_list_update)
    moreover have "\<forall>j < length res. fn_ok (res ! j) ((par_fns s)[k := P_done] ! j)"
      using assms(1) par_complete(2) by (auto simp: par_inv_def par_fns_inv_def nth_list_update)
    ultimately have "par_fns_inv res s'" using assms(1) par_complete
      by (auto simp: par_inv_def par_fns_inv_def complete_fn_def Let_def)
    moreover have "par_error_inv res s'" using assms(1) par_complete len
      by (auto simp: par_inv_def par_error_inv_def complete_fn_def Let_def nth_list_update split: option.splits)
    moreover have "par_count_inv s'" using assms(1) par_complete
      by (auto simp: par_inv_def par_count_inv_def complete_fn_def filter_update Let_def)
    moreover have "par_caller_inv s'" using assms(1) par_complete not_returned [OF assms(1) par_complete(2)] new_not_in_update [of "par_fns s" P_done k]
        all_done [of "\<lambda>p. p = P_done" "par_fns s"] length_filter_le [of "\<lambda>p. p = P_done" "(par_fns s)[k := P_done]"]
      by (auto simp: par_inv_def par_caller_inv_def complete_fn_def Let_def nth_list_update par_count_inv_def filter_update
          split: par_caller.splits)
    ultimately show ?thesis by (simp add: par_inv_def)
  next
    case par_tests
    then show ?thesis using assms(1) length_filter_le [of "\<lambda>p. p = P_done" "par_fns s"]
      by (auto simp: par_inv_def par_fns_inv_def par_error_inv_def par_count_inv_def par_caller_inv_def par_test_def split: option.split)
  qed
qed

interpretation par: transition_invariant "\<lambda>s. s = par_start (length res)" "par_step res" "par_inv res"
  for res
  by unfold_locales (auto simp: par_inv_init intro: par_inv_step)

lemma par_reached: "(par_step res)\<^sup>*\<^sup>* (par_start (length res)) s \<Longrightarrow> par_inv res s"
  by (rule par.reachable_inv) auto

text \<open>Every step makes this smaller.\<close>

fun fn_weight :: "par_phase \<Rightarrow> nat" where
  "fn_weight P_new = 12"
| "fn_weight P_function = 9"
| "fn_weight (P_caught e) = 6"
| "fn_weight P_last = 3"
| "fn_weight P_done = 0"

fun caller_weight :: "par_caller \<Rightarrow> nat" where
  "caller_weight (C_starting j) = 3"
| "caller_weight C_testing = 2"
| "caller_weight C_waiting = 1"
| "caller_weight (C_returned r) = 0"

definition par_weight :: "par \<Rightarrow> nat" where
  "par_weight s = sum_list (map fn_weight (par_fns s)) + caller_weight (par_caller s)"

lemma weight_update:
  "k < length xs \<Longrightarrow> sum_list (map fn_weight (xs[k := x])) + fn_weight (xs ! k) = sum_list (map fn_weight xs) + fn_weight x"
  by (induction xs arbitrary: k) (auto split: nat.split)

lemma par_step_weight:
  assumes "par_inv res s" "par_step res s s'"
  shows "par_weight s' < par_weight s"
  using assms(2)
proof cases
  case (par_start_fn j)
  then have "par_fns s ! j = P_new" using assms(1) by (simp add: par_inv_def par_caller_inv_def)
  then show ?thesis using par_start_fn weight_update [of j "par_fns s" P_function] by (simp add: par_weight_def start_fn_def)
next
  case par_started
  then show ?thesis by (simp add: par_weight_def)
next
  case (par_call k)
  then show ?thesis
    using weight_update [of k "par_fns s" P_last] weight_update [of k "par_fns s" "P_caught (the (res ! k))"]
    by (cases "res ! k") (simp_all add: par_weight_def call_fn_def)
next
  case (par_catch k e)
  then show ?thesis using weight_update [of k "par_fns s" P_last] by (simp add: par_weight_def catch_error_def)
next
  case (par_complete k)
  then show ?thesis using weight_update [of k "par_fns s" P_done] by (auto simp: par_weight_def complete_fn_def Let_def)
next
  case par_tests
  then show ?thesis by (auto simp: par_weight_def par_test_def)
qed

lemma par_progress:
  assumes "par_inv res s" "\<And>r. par_caller s \<noteq> C_returned r"
  shows "\<exists>s'. par_step res s s'"
proof (cases "par_caller s")
  case (C_starting j)
  then show ?thesis using assms(1) par_start_fn [of s j res] par_started [of s res]
    by (auto simp: par_inv_def par_caller_inv_def le_less)
next
  case C_testing
  then show ?thesis using par_tests by blast
next
  case C_waiting
  then have "length (filter (\<lambda>p. p = P_done) (par_fns s)) \<noteq> length (par_fns s)" "P_new \<notin> set (par_fns s)"
    using assms(1) by (simp_all add: par_inv_def par_caller_inv_def par_count_inv_def)
  then obtain k where k: "k < length (par_fns s)" "par_fns s ! k \<noteq> P_done" "par_fns s ! k \<noteq> P_new"
    unfolding all_done by (metis in_set_conv_nth)
  then show ?thesis using par_call [of k s res] par_catch [of k s _ res] par_complete [of k s res]
    by (cases "par_fns s ! k") auto
qed (use assms(2) in auto)

section \<open>Properties\<close>

text \<open>
  C23: however fibers are started, run, stopped, joined and deleted, as long as no fiber was used after its owner had
  deleted it (which \<open>join\<close> does not exclude: \<open>deleted_on_stack\<close>), \<open>wait_for_zero_fibers\<close> returns only when
  every fiber that was ever started has finished, and each of their functions has then been run exactly once; the
  counter of fibers is the number of those that exist.  Fibers that free themselves are never used after that.
\<close>
theorem zero_fibers_exact:
  assumes "fiber_step\<^sup>*\<^sup>* no_fibers s"
  shows "(after_free s \<and> (\<exists>f \<in> set (all_fibers s). \<not> auto_free f \<and> deleted f)) \<or>
    (\<not> after_free s \<and> (zero_fibers s \<longleftrightarrow> (\<forall>f \<in> set (all_fibers s). phase f = F_finished)) \<and>
    distinct (fn_runs s) \<and> (zero_fibers s \<longrightarrow> set (fn_runs s) = {..<length (all_fibers s)}) \<and>
    num_fibers s = int (length (filter (\<lambda>f. phase f \<noteq> F_commanded \<and> \<not> deleted f) (all_fibers s))))"
proof -
  have inv: "fibers_inv s" using fibers_reached [OF assms] .
  then have zero: "zero_fibers s \<longleftrightarrow> (\<forall>f \<in> set (all_fibers s). phase f = F_finished)"
    by (simp add: fibers_inv_def zero_fibers_def count_if_zero unfinished_def)
  then have "set (fn_runs s) = {..<length (all_fibers s)}" if "zero_fibers s"
    using that inv by (auto simp: fibers_inv_def has_run_def)
  moreover have "after_free s \<longrightarrow> (\<exists>f \<in> set (all_fibers s). \<not> auto_free f \<and> deleted f)" using inv by (simp add: fibers_inv_def)
  ultimately show ?thesis using inv zero by (cases "after_free s") (simp_all add: fibers_inv_def count_if_def living_def [abs_def])
qed

text \<open>
  C21: when \<open>run_in_parallel\<close> returns, every function has been called exactly once and each of their fibers
  is done with the variables of the caller; it throws if and only if one of them did, with the text of one of
  the errors.
\<close>
theorem run_in_parallel_exact:
  assumes "(par_step res)\<^sup>*\<^sup>* (par_start (length res)) s" "par_caller s = C_returned r"
  shows "set (par_fns s) \<subseteq> {P_done} \<and> distinct (par_calls s) \<and> set (par_calls s) = {..<length res} \<and>
    (r = None \<longleftrightarrow> set res \<subseteq> {None}) \<and>
    (\<forall>w. r = Some w \<longrightarrow> (\<exists>e. Some e \<in> set res \<and> w = par_error e))"
proof -
  have inv: "par_inv res s" using par_reached [OF assms(1)] .
  have len: "length (par_fns s) = length res" using inv by (simp add: par_inv_def par_fns_inv_def)
  have done_all: "\<forall>p \<in> set (par_fns s). p = P_done"
    using inv assms(2) all_done [of "\<lambda>p. p = P_done" "par_fns s"] by (simp add: par_inv_def par_caller_inv_def par_count_inv_def)
  then have nth: "par_fns s ! k = P_done" if "k < length res" for k using that len by simp
  have calls: "distinct (par_calls s)" "set (par_calls s) = {..<length res}"
    using inv nth by (auto simp: par_inv_def par_fns_inv_def)
  have r: "r = map_option par_error (hit_error s)"
    using inv assms(2) by (simp add: par_inv_def par_caller_inv_def)
  have "hit_error s = None \<longleftrightarrow> set res \<subseteq> {None}" "\<forall>e. hit_error s = Some e \<longrightarrow> Some e \<in> set res"
  proof (atomize (full), cases "hit_error s")
    case None
    then have "\<forall>k < length res. res ! k = None" using inv nth by (auto simp: par_inv_def par_error_inv_def)
    then show "(hit_error s = None \<longleftrightarrow> set res \<subseteq> {None}) \<and> (\<forall>e. hit_error s = Some e \<longrightarrow> Some e \<in> set res)"
      using None by (auto simp: in_set_conv_nth)
  next
    case (Some e)
    then show "(hit_error s = None \<longleftrightarrow> set res \<subseteq> {None}) \<and> (\<forall>e. hit_error s = Some e \<longrightarrow> Some e \<in> set res)"
      using inv by (auto simp: par_inv_def par_error_inv_def)
  qed
  then show ?thesis using done_all calls r by auto
qed

text \<open>
  C22: \<open>run_in_parallel\<close> always returns, when its functions do: there is no infinite run of the caller and the fibers, and a run that
  cannot go on has returned.
\<close>
theorem run_in_parallel_returns:
  shows "\<not> (\<exists>f. f 0 = par_start (length res) \<and> (\<forall>i. par_step res (f i) (f (Suc i)))) \<and>
    {s. (par_step res)\<^sup>*\<^sup>* (par_start (length res)) s \<and> (\<forall>s'. \<not> par_step res s s')} \<subseteq> {s. \<exists>r. par_caller s = C_returned r}"
proof (intro conjI notI subsetI)
  assume "\<exists>f. f 0 = par_start (length res) \<and> (\<forall>i. par_step res (f i) (f (Suc i)))"
  then obtain f where f: "f 0 = par_start (length res)" "\<And>i. par_step res (f i) (f (Suc i))" by blast
  have inv: "par_inv res (f i)" for i
    by (induction i) (use f par_inv_init par_inv_step in \<open>auto\<close>)
  have "par_weight (f i) + i \<le> par_weight (f 0)" for i
  proof (induction i)
    case (Suc i)
    then show ?case using par_step_weight [OF inv f(2), of i] by linarith
  qed simp
  from this [of "Suc (par_weight (f 0))"] show False by simp
next
  fix s assume "s \<in> {s. (par_step res)\<^sup>*\<^sup>* (par_start (length res)) s \<and> (\<forall>s'. \<not> par_step res s s')}"
  then show "s \<in> {s. \<exists>r. par_caller s = C_returned r}" using par_progress [OF par_reached, of res s] by blast
qed

lemma zero_fibers_exact_witness:
  "\<exists>s. fiber_step\<^sup>*\<^sup>* no_fibers s \<and> length (all_fibers s) = 1 \<and> set (fn_runs s) = {..<1} \<and> zero_fibers s"
proof -
  let ?s1 = "run_in_fiber no_fibers"
  let ?s2 = "commanded_fiber 0 ?s1"
  let ?s3 = "start_fiber 0 ?s2"
  let ?s4 = "stop_fiber 0 ?s3"
  let ?s5 = "leave_fiber 0 ?s4"
  let ?s6 = "oc_exit_fiber 0 ?s5"
  note defs = run_in_fiber_def no_fibers_def commanded_fiber_def start_fiber_def stop_fiber_def leave_fiber_def oc_exit_fiber_def
    use_fiber_def delete_fiber_def set_fiber_def in_phase_def zero_fibers_def
  have r1: "fiber_step no_fibers ?s1" by (rule fiber_run)
  have r2: "fiber_step ?s1 ?s2" by (rule fiber_commanded) (simp add: defs)
  have r3: "fiber_step ?s2 ?s3" by (rule fiber_start) (simp add: defs)
  have r4: "fiber_step ?s3 ?s4" by (rule fiber_stop) (simp add: defs)
  have r5: "fiber_step ?s4 ?s5" by (rule fiber_leave) (simp add: defs)
  have r6: "fiber_step ?s5 ?s6" by (rule fiber_exit) (simp add: defs)
  note run1 = r_into_rtranclp [where r = fiber_step, OF r1]
  note run2 = rtranclp.rtrancl_into_rtrancl [where r = fiber_step, OF run1 r2]
  note run3 = rtranclp.rtrancl_into_rtrancl [where r = fiber_step, OF run2 r3]
  note run4 = rtranclp.rtrancl_into_rtrancl [where r = fiber_step, OF run3 r4]
  note run5 = rtranclp.rtrancl_into_rtrancl [where r = fiber_step, OF run4 r5]
  note run6 = rtranclp.rtrancl_into_rtrancl [where r = fiber_step, OF run5 r6]
  have run: "fiber_step\<^sup>*\<^sup>* no_fibers ?s6" by (rule run6)
  have z: "zero_fibers ?s6" "length (all_fibers ?s6) = 1" "\<not> after_free ?s6" by (simp_all add: defs)
  then have "set (fn_runs ?s6) = {..<1}" using zero_fibers_exact [OF run] by simp
  then show ?thesis using run z by blast
qed

lemma run_in_parallel_exact_witness:
  "\<exists>s. (par_step [Some ''e''])\<^sup>*\<^sup>* (par_start 1) s \<and> par_caller s = C_returned (Some (par_error ''e'')) \<and> set (par_calls s) = {..<1}"
proof -
  let ?step = "par_step [Some ''e'']"
  let ?s0 = "par_start 1"
  let ?s1 = "start_fn 0 ?s0"
  let ?s2 = "?s1\<lparr>par_caller := C_testing\<rparr>"
  let ?s3 = "par_test ?s2"
  let ?s4 = "call_fn [Some ''e''] 0 ?s3"
  let ?s5 = "catch_error 0 ''e'' ?s4"
  let ?s6 = "complete_fn 0 ?s5"
  let ?s7 = "par_test ?s6"
  note defs = par_start_def start_fn_def par_test_def call_fn_def catch_error_def complete_fn_def
  have r1: "?step ?s0 ?s1" by (rule par_start_fn) (simp_all add: defs)
  have r2: "?step ?s1 ?s2" by (rule par_started) (simp_all add: defs)
  have r3: "?step ?s2 ?s3" by (rule par_tests) (simp_all add: defs)
  have r4: "?step ?s3 ?s4" by (rule par_call) (simp_all add: defs)
  have r5: "?step ?s4 ?s5" by (rule par_catch) (simp_all add: defs)
  have r6: "?step ?s5 ?s6" by (rule par_complete) (simp_all add: defs)
  have r7: "?step ?s6 ?s7" by (rule par_tests) (simp_all add: defs)
  note run1 = r_into_rtranclp [where r = ?step, OF r1]
  note run2 = rtranclp.rtrancl_into_rtrancl [where r = ?step, OF run1 r2]
  note run3 = rtranclp.rtrancl_into_rtrancl [where r = ?step, OF run2 r3]
  note run4 = rtranclp.rtrancl_into_rtrancl [where r = ?step, OF run3 r4]
  note run5 = rtranclp.rtrancl_into_rtrancl [where r = ?step, OF run4 r5]
  note run6 = rtranclp.rtrancl_into_rtrancl [where r = ?step, OF run5 r6]
  note run7 = rtranclp.rtrancl_into_rtrancl [where r = ?step, OF run6 r7]
  have run: "?step\<^sup>*\<^sup>* ?s0 ?s7" by (rule run7)
  have ret: "par_caller ?s7 = C_returned (Some (par_error ''e''))" by (simp add: defs)
  show ?thesis using run_in_parallel_exact [of "[Some ''e'']" ?s7, OF _ ret] run ret by auto
qed

end
