(* ===== verification/Http_Client.thy ===== *)
theory Http_Client
  imports Http_Server
begin

text \<open>
  The HTTP client, \<open>src/cpp/http_client.cpp\<close> and \<open>http_client.h\<close>: the callbacks that collect a response, the
  loop that reads and parses it, and the pipe for the rest.  The parser (\<open>http_parser.h\<close>, a submodule) is a parameter:
  it makes calls, gets their results, and in the end tells how much it has parsed, its \<open>http_errno\<close> and its new state.
\<close>

section \<open>The response and the callbacks\<close>

record client_response =
  header_buff :: string
  rsp_status :: string
  http_version :: "nat \<times> nat"
  rsp_has_length :: bool
  rsp_length :: nat
  body_chunks :: "string list"
  keep_alive :: bool
  status_number :: nat

text \<open>The struct \<open>pc\<close>: the members it has in common with that of the server, with the headers of the response, are
  kept in the same record.\<close>

record client_pc =
  pc_hdr :: pc_state
  cur_chunk_pos :: nat
  pc_headers_complete :: bool
  read_body :: bool

definition new_client_pc :: "bool \<Rightarrow> client_pc" where
  "new_client_pc rb = \<lparr> pc_hdr = init_pc new_pc, cur_chunk_pos = 0, pc_headers_complete = False, read_body = rb \<rparr>"

definition new_response_buffer :: client_response where
  "new_response_buffer = \<lparr> header_buff = replicate 8192 NUL, rsp_status = '''', http_version = (0, 0),
     rsp_has_length = False, rsp_length = 0, body_chunks = [], keep_alive = False, status_number = 0 \<rparr>"

text \<open>Each callback has the result 0 or 1.  The field and value callbacks and the insertion of a pair are those of the
  server.\<close>

type_synonym client_context = "client_response \<times> client_pc"

definition client_headers_complete :: "bool \<Rightarrow> nat \<Rightarrow> nat \<times> nat \<Rightarrow> client_context \<Rightarrow> (nat \<times> client_context) option" where
  "client_headers_complete has_length n version = (\<lambda>(r, c). do {
     (b, h) \<leftarrow> (if header_state (pc_hdr c) = K_value then insert_pair (header_buff r, pc_hdr c)
               else Some (header_buff r, pc_hdr c));
     (let r = r\<lparr>header_buff := b, http_version := version, rsp_has_length := has_length, rsp_length := n\<rparr>;
          c = c\<lparr>pc_hdr := h, pc_headers_complete := True\<rparr>
      in if read_body c
         then Some (0, if has_length then r\<lparr>body_chunks := body_chunks r @ [replicate n NUL]\<rparr> else r, c)
         else Some (1, r, c)) })"

text \<open>\<open>on_body\<close>, with the text that it is given; the difference is one of \<open>size_t\<close>.\<close>

definition client_on_body :: "string \<Rightarrow> client_context \<Rightarrow> (nat \<times> client_context) option" where
  "client_on_body d = (\<lambda>(r, c).
     if body_chunks r = [] then Some (1, r, c)
     else (let cur_chunk = last (body_chunks r);
               avail = (if cur_chunk_pos c \<le> length cur_chunk then length cur_chunk - cur_chunk_pos c
                        else 2 ^ 64 + length cur_chunk - cur_chunk_pos c)
           in if length d > avail then Some (1, r, c)
              else do {
                v \<leftarrow> wr_range cur_chunk (cur_chunk_pos c) d;
                Some (0, r\<lparr>body_chunks := butlast (body_chunks r) @ [v]\<rparr>, c\<lparr>cur_chunk_pos := cur_chunk_pos c + length d\<rparr>) }))"

definition client_chunk_header :: "nat \<Rightarrow> client_context \<Rightarrow> nat \<times> client_context" where
  "client_chunk_header n = (\<lambda>(r, c).
     if cur_chunk_pos c \<noteq> 0 then (1, r, c)
     else (0, r\<lparr>body_chunks := body_chunks r @ [replicate n NUL]\<rparr>, c))"

definition client_chunk_complete :: "client_context \<Rightarrow> nat \<times> client_context" where
  "client_chunk_complete = (\<lambda>(r, c).
     if body_chunks r = [] then (1, r, c)
     else if length (last (body_chunks r)) \<noteq> cur_chunk_pos c then (1, r, c)
     else (0, r, c\<lparr>cur_chunk_pos := 0\<rparr>))"

text \<open>The calls of the parser, with pointers relative to the data it was given, in the buffer of the headers or in
  \<open>bdy_tmp\<close>.  A field or value in \<open>bdy_tmp\<close> is one of the trailers of a chunked message: the code would keep
  pointers into this vector, which have no model.\<close>

datatype client_event =
    Cl_status nat nat
  | Cl_field nat nat
  | Cl_value nat nat
  | Cl_headers_complete bool nat "nat \<times> nat"
  | Cl_body nat nat
  | Cl_chunk_header nat
  | Cl_chunk_complete
  | Cl_message_complete

fun client_callback ::
  "bool \<Rightarrow> string \<Rightarrow> nat \<Rightarrow> client_event \<Rightarrow> client_context \<Rightarrow> (nat \<times> client_context) option"
where
  "client_callback in_tmp tmp base (Cl_status at len) (r, c) = do {
     s \<leftarrow> rd_range (if in_tmp then tmp else header_buff r) (base + at) len;
     Some (0, r\<lparr>rsp_status := s\<rparr>, c) }"
| "client_callback in_tmp tmp base (Cl_field at len) (r, c) =
     (if in_tmp then None else do {
        (b, h) \<leftarrow> on_header_field (base + at) len (header_buff r, pc_hdr c);
        Some (0, r\<lparr>header_buff := b\<rparr>, c\<lparr>pc_hdr := h\<rparr>) })"
| "client_callback in_tmp tmp base (Cl_value at len) (r, c) =
     (if in_tmp then None else do {
        (b, h) \<leftarrow> on_header_value (base + at) len (header_buff r, pc_hdr c);
        Some (0, r\<lparr>header_buff := b\<rparr>, c\<lparr>pc_hdr := h\<rparr>) })"
| "client_callback in_tmp tmp base (Cl_headers_complete has_length n version) rc =
     client_headers_complete has_length n version rc"
| "client_callback in_tmp tmp base (Cl_body at len) (r, c) = do {
     d \<leftarrow> rd_range (if in_tmp then tmp else header_buff r) (base + at) len;
     client_on_body d (r, c) }"
| "client_callback in_tmp tmp base (Cl_chunk_header n) rc = Some (client_chunk_header n rc)"
| "client_callback in_tmp tmp base Cl_chunk_complete rc = Some (client_chunk_complete rc)"
| "client_callback in_tmp tmp base Cl_message_complete (r, c) =
     Some (0, r, c\<lparr>pc_hdr := (pc_hdr c)\<lparr>message_complete := True\<rparr>\<rparr>)"

section \<open>The parser\<close>

text \<open>A run of \<open>http_parser_execute\<close>: it ends with the number of bytes parsed, the error and the new state, or makes
  a call and goes on depending on its result.\<close>

datatype 'p parse_run = Parsed nat nat 'p | Call client_event "nat \<Rightarrow> 'p parse_run"

record 'p client_parser =
  cp_init :: 'p
  cp_execute :: "'p \<Rightarrow> string \<Rightarrow> 'p parse_run"
  cp_status_code :: "'p \<Rightarrow> nat"
  cp_keep_alive :: "'p \<Rightarrow> bool"

primrec run_parser ::
  "(client_event \<Rightarrow> client_context \<Rightarrow> (nat \<times> client_context) option) \<Rightarrow> 'p parse_run \<Rightarrow> client_context \<Rightarrow>
     (nat \<times> nat \<times> 'p \<times> client_context) option"
where
  "run_parser call (Parsed n e p) rc = Some (n, e, p, rc)"
| "run_parser call (Call ev k) rc = Option.bind (call ev rc) (\<lambda>(res, rc). run_parser call (k res) rc)"

section \<open>The loop\<close>

datatype client_error = Headers_too_big | Invalid_http nat | Server_response nat

datatype client_mode = Cl_parsing | Cl_returned | Cl_threw client_error

text \<open>\<open>in_tmp\<close> tells which buffer \<open>bsp\<close> and \<open>bep\<close> were set for, that of the headers or \<open>bdy_tmp\<close>.\<close>

record 'p client_conn =
  response :: client_response
  bdy_tmp :: string
  cbsp :: nat
  cbep :: nat
  in_tmp :: bool
  cparser :: 'p
  cpc :: client_pc
  throw_on_server_error :: bool
  cmode :: client_mode

text \<open>The start of the outer loop.\<close>

definition begin_message :: "'p client_parser \<Rightarrow> 'p client_conn \<Rightarrow> 'p client_conn option" where
  "begin_message api s =
     (let s = s\<lparr>cpc := new_client_pc (read_body (cpc s)), cparser := cp_init api, cmode := Cl_parsing\<rparr>
      in if cbep s > cbsp s then do {
           rest \<leftarrow> rd_range (header_buff (response s)) (cbsp s) (cbep s - cbsp s);
           b \<leftarrow> wr_range (header_buff (response s)) 0 rest;
           Some (s\<lparr>response := (response s)\<lparr>header_buff := b\<rparr>, cbep := cbep s - cbsp s, cbsp := 0, in_tmp := False\<rparr>) }
         else Some (s\<lparr>in_tmp := False\<rparr>))"

definition client_start :: "'p client_parser \<Rightarrow> bool \<Rightarrow> bool \<Rightarrow> 'p client_conn" where
  "client_start api rb throw =
     \<lparr> response = new_response_buffer, bdy_tmp = replicate 4096 NUL, cbsp = 0, cbep = 0, in_tmp = False,
       cparser = cp_init api, cpc = new_client_pc rb, throw_on_server_error = throw, cmode = Cl_parsing \<rparr>"

text \<open>\<open>read\<close>, which gave \<open>data\<close>.\<close>

definition client_read :: "string \<Rightarrow> 'p client_conn \<Rightarrow> 'p client_conn option" where
  "client_read data s =
     (if \<not> pc_headers_complete (cpc s) then do {
        b \<leftarrow> wr_range (header_buff (response s)) (cbep s) data;
        Some (s\<lparr>response := (response s)\<lparr>header_buff := b\<rparr>, cbep := cbep s + length data\<rparr>) }
      else do {
        b \<leftarrow> wr_range (bdy_tmp s) 0 data;
        Some (s\<lparr>bdy_tmp := b, cbep := length data, cbsp := 0, in_tmp := True\<rparr>) })"

text \<open>The space that \<open>read\<close> is given.\<close>

definition read_space :: "'p client_conn \<Rightarrow> nat" where
  "read_space s = (if \<not> pc_headers_complete (cpc s) then length (header_buff (response s)) - cbep s else length (bdy_tmp s))"

text \<open>What follows the inner loop.\<close>

definition server_errors :: "nat set" where
  "server_errors = {408, 500, 502, 503, 504}"

definition message_end :: "'p client_parser \<Rightarrow> nat \<Rightarrow> 'p client_conn \<Rightarrow> 'p client_conn option" where
  "message_end api err s =
     (if \<not> message_complete (pc_hdr (cpc s)) \<and> err \<noteq> 0 then Some (s\<lparr>cmode := Cl_threw (Invalid_http err)\<rparr>)
      else let code = cp_status_code api (cparser s)
           in if code = 100 then begin_message api s
              else if throw_on_server_error s \<and> code \<in> server_errors then Some (s\<lparr>cmode := Cl_threw (Server_response code)\<rparr>)
              else let r = (response s)\<lparr>status_number := code\<rparr>;
                       r = (if 200 \<le> code \<and> code < 300 then r\<lparr>keep_alive := cp_keep_alive api (cparser s)\<rparr> else r)
                   in Some (s\<lparr>response := r, cmode := Cl_returned\<rparr>))"

text \<open>The call of the parser, on the buffer that \<open>headers_complete_\<close> selects, and the end of the loop.\<close>

definition client_data :: "'p client_conn \<Rightarrow> string" where
  "client_data s = (if \<not> pc_headers_complete (cpc s) then header_buff (response s) else bdy_tmp s)"

definition client_parse :: "'p client_parser \<Rightarrow> 'p client_conn \<Rightarrow> (nat \<times> nat \<times> 'p client_conn) option" where
  "client_parse api s = do {
     data \<leftarrow> rd_range (client_data s) (cbsp s) (cbep s - cbsp s);
     (n, err, p, r, c) \<leftarrow> run_parser (client_callback (pc_headers_complete (cpc s)) (bdy_tmp s) (cbsp s))
        (cp_execute api (cparser s) data) (response s, cpc s);
     Some (n, err, s\<lparr>response := r, cpc := c, cparser := p, cbsp := cbsp s + n\<rparr>) }"

definition client_after :: "'p client_parser \<Rightarrow> nat \<Rightarrow> 'p client_conn \<Rightarrow> 'p client_conn option" where
  "client_after api err s =
     (if message_complete (pc_hdr (cpc s)) \<or> err \<noteq> 0 then message_end api err s else Some s)"

text \<open>\<open>body_pipe_t::read\<close>: from the buffer, or \<open>Inr\<close> when the pipe has to be read.\<close>

definition client_body_read :: "nat \<Rightarrow> 'p client_conn \<Rightarrow> (string \<times> 'p client_conn + nat) option" where
  "client_body_read len s =
     (if cbsp s \<noteq> cbep s then
        (let len = (if len > cbep s - cbsp s then cbep s - cbsp s else len)
         in do {
           d \<leftarrow> rd_range (header_buff (response s)) (cbsp s) len;
           Some (Inl (d, s\<lparr>cbsp := cbsp s + len\<rparr>)) })
      else Some (Inr len))"

inductive client_step :: "'p client_parser \<Rightarrow> 'p client_conn \<Rightarrow> string \<Rightarrow> string \<Rightarrow> 'p client_conn \<Rightarrow> bool"
  for api
where
  client_too_big: "cmode s = Cl_parsing \<Longrightarrow> \<not> pc_headers_complete (cpc s) \<Longrightarrow> cbsp s = length (header_buff (response s)) \<Longrightarrow>
    client_step api s [] [] (s\<lparr>cmode := Cl_threw Headers_too_big\<rparr>)"
| client_reads: "cmode s = Cl_parsing \<Longrightarrow> pc_headers_complete (cpc s) \<or> cbsp s \<noteq> length (header_buff (response s)) \<Longrightarrow>
    cbsp s = cbep s \<Longrightarrow> 1 \<le> length data \<Longrightarrow> length data \<le> read_space s \<Longrightarrow> client_read data s = Some s' \<Longrightarrow>
    client_step api s data [] s'"
| client_parses: "cmode s = Cl_parsing \<Longrightarrow> cbsp s \<noteq> cbep s \<Longrightarrow> client_parse api s = Some (n, err, s1) \<Longrightarrow>
    client_after api err s1 = Some s' \<Longrightarrow> client_step api s [] (take n (drop (cbsp s) (client_data s))) s'"
| client_buffered: "cmode s = Cl_returned \<Longrightarrow> client_body_read len s = Some (Inl (d, s')) \<Longrightarrow> client_step api s [] d s'"
| client_piped: "cmode s = Cl_returned \<Longrightarrow> client_body_read len s = Some (Inr n) \<Longrightarrow> length data \<le> n \<Longrightarrow>
    client_step api s data data s"

text \<open>The calls that a run of the parser makes.\<close>

primrec calls_made ::
  "(client_event \<Rightarrow> client_context \<Rightarrow> (nat \<times> client_context) option) \<Rightarrow> 'p parse_run \<Rightarrow> client_context \<Rightarrow> client_event list"
where
  "calls_made call (Parsed n e p) rc = []"
| "calls_made call (Call ev k) rc =
     ev # (case call ev rc of None \<Rightarrow> [] | Some (res, rc) \<Rightarrow> calls_made call (k res) rc)"

fun ends_headers :: "client_event \<Rightarrow> bool" where
  "ends_headers (Cl_headers_complete l n v) = True"
| "ends_headers ev = False"

fun of_body :: "client_event \<Rightarrow> bool" where
  "of_body (Cl_body at len) = True"
| "of_body (Cl_chunk_header n) = True"
| "of_body Cl_chunk_complete = True"
| "of_body ev = False"

text \<open>What the code is written for: the peer sends one response without trailers.  It sends more when, the headers
  being complete or not (\<open>h\<close>), calls for headers come after them, or calls for a next message after the end of this
  one, or when the message ends in \<open>bdy_tmp\<close> before the data that is there.\<close>

fun one_message :: "bool \<Rightarrow> client_event list \<Rightarrow> bool" where
  "one_message h [] = True"
| "one_message h (ev # evs) =
     (if ev = Cl_message_complete then evs = [] else (of_body ev \<or> \<not> h) \<and> one_message (h \<or> ends_headers ev) evs)"

definition sent_more :: "'p client_parser \<Rightarrow> 'p client_conn \<Rightarrow> bool" where
  "sent_more api s \<longleftrightarrow> cmode s = Cl_parsing \<and> cbsp s \<noteq> cbep s \<and>
     (\<not> one_message (pc_headers_complete (cpc s))
        (calls_made (client_callback (pc_headers_complete (cpc s)) (bdy_tmp s) (cbsp s))
          (cp_execute api (cparser s) (take (cbep s - cbsp s) (drop (cbsp s) (client_data s)))) (response s, cpc s)) \<or>
      (case client_parse api s of
         None \<Rightarrow> False
       | Some (n, err, s1) \<Rightarrow> message_complete (pc_hdr (cpc s1)) \<and> in_tmp s1 \<and> cbsp s1 \<noteq> cbep s1))"

text \<open>The bytes received, the bytes given to the parser or to the reader of the body, whether the peer has sent more
  than one response, and the state.\<close>

type_synonym 'p client_history = "string \<times> string \<times> bool \<times> 'p client_conn"

definition client_init :: "'p client_parser \<Rightarrow> 'p client_history \<Rightarrow> bool" where
  "client_init api t \<longleftrightarrow> (\<exists>rb throw. t = ([], [], False, client_start api rb throw))"

inductive client_trans :: "'p client_parser \<Rightarrow> 'p client_history \<Rightarrow> 'p client_history \<Rightarrow> bool" for api where
  "client_step api s inp outp s' \<Longrightarrow>
     client_trans api (received, consumed, extra, s) (received @ inp, consumed @ outp, extra \<or> sent_more api s, s')"

section \<open>The contract of the parser\<close>

fun event_at :: "client_event \<Rightarrow> (nat \<times> nat) option" where
  "event_at (Cl_status at len) = Some (at, len)"
| "event_at (Cl_field at len) = Some (at, len)"
| "event_at (Cl_value at len) = Some (at, len)"
| "event_at (Cl_body at len) = Some (at, len)"
| "event_at ev = None"

definition event_end :: "nat \<Rightarrow> client_event \<Rightarrow> nat" where
  "event_end lo ev = (case event_at ev of None \<Rightarrow> lo | Some (at, len) \<Rightarrow> at + len)"

text \<open>
  What the documentation of the parser says, for a run in which the headers of the current message are complete
  or not (\<open>h\<close>) and a message has been completed or not (\<open>mc\<close>): calls point into the data from left to
  right, calls for the body come after the headers, no more is parsed than there is, and less only with an
  error or after a message that asks for another protocol.  After the end of a message it goes on
  with the next one; trailers are reported as headers.
\<close>

primrec run_ok :: "('p \<Rightarrow> bool) \<Rightarrow> bool \<Rightarrow> bool \<Rightarrow> nat \<Rightarrow> nat \<Rightarrow> 'p parse_run \<Rightarrow> bool" where
  "run_ok hc h mc lo len (Parsed n e p) \<longleftrightarrow>
     lo \<le> n \<and> n \<le> len \<and> (n = len \<or> e \<noteq> 0 \<or> mc) \<and> (e = 0 \<longrightarrow> hc p = h)"
| "run_ok hc h mc lo len (Call ev k) \<longleftrightarrow>
     (of_body ev \<longrightarrow> h) \<and> (case event_at ev of None \<Rightarrow> True | Some (at, _) \<Rightarrow> lo \<le> at) \<and>
     (\<forall>res. run_ok hc (if ev = Cl_message_complete then False else h \<or> ends_headers ev) (mc \<or> ev = Cl_message_complete)
        (event_end lo ev) len (k res))"

definition client_parser_ok :: "'p client_parser \<Rightarrow> ('p \<Rightarrow> bool) \<Rightarrow> bool" where
  "client_parser_ok api hc \<longleftrightarrow> \<not> hc (cp_init api) \<and>
     (\<forall>p data. run_ok hc (hc p) False 0 (length data) (cp_execute api p data))"

lemma run_ok_le: "run_ok hc h mc lo len t \<Longrightarrow> lo \<le> len"
proof (induction t arbitrary: lo h mc)
  case (Call ev k)
  have "event_end lo ev \<le> len" using Call.IH [of "k 0"] Call.prems by auto
  then show ?case using Call.prems by (auto simp: event_end_def split: option.splits)
qed simp

section \<open>The callbacks stay in their buffers\<close>

text \<open>The pointers of the headers lie before \<open>pos\<close>, the position in the current chunk lies in it.\<close>

definition client_ctx :: "bool \<Rightarrow> nat \<Rightarrow> bool \<Rightarrow> bool \<Rightarrow> client_context \<Rightarrow> bool" where
  "client_ctx tmp pos h mc = (\<lambda>(r, c).
     length (header_buff r) = 8192 \<and> pc_headers_complete c = h \<and> message_complete (pc_hdr c) = mc \<and>
     (\<not> tmp \<longrightarrow> pc_inv pos (pc_hdr c)) \<and>
     (if h then body_chunks r = [] \<or> cur_chunk_pos c \<le> length (last (body_chunks r)) else cur_chunk_pos c = 0))"

lemma client_ctx_mono: "client_ctx tmp (base + lo) h mc (r, c) \<Longrightarrow> lo \<le> n \<Longrightarrow> client_ctx tmp (base + n) h mc (r, c)"
  unfolding client_ctx_def by (auto intro: pc_inv_mono)

lemma insert_pair_complete:
  "insert_pair (b, c) = Some (b', c') \<Longrightarrow> message_complete c' = message_complete c"
  by (auto simp: insert_pair_def bind_Some_iff)

lemma header_field_complete:
  "on_header_field at len (b, c) = Some (b', c') \<Longrightarrow> message_complete c' = message_complete c"
  by (auto simp: on_header_field_def bind_Some_iff insert_pair_complete split: if_splits)

lemma header_value_complete:
  "on_header_value at len (b, c) = Some (b', c') \<Longrightarrow> message_complete c' = message_complete c"
  by (auto simp: on_header_value_def Let_def split: if_splits)

lemma pc_inv_complete [simp]: "pc_inv pos (c\<lparr>message_complete := m\<rparr>) \<longleftrightarrow> pc_inv pos c"
  by (simp add: pc_inv_def split: option.split)

lemma client_on_body_ok:
  assumes "client_ctx tmp pos True mc (r, c)"
  shows "\<exists>res r' c'. client_on_body d (r, c) = Some (res, r', c') \<and> client_ctx tmp pos True mc (r', c') \<and>
    header_buff r' = header_buff r"
  using assms by (auto simp: client_on_body_def client_ctx_def wr_range_def Let_def)

lemma client_headers_complete_ok:
  assumes "client_ctx False pos False mc (r, c)" "pos \<le> 8192"
  shows "\<exists>res r' c'. client_headers_complete l n v (r, c) = Some (res, r', c') \<and> client_ctx False pos True mc (r', c') \<and>
    drop pos (header_buff r') = drop pos (header_buff r)"
proof (cases "header_state (pc_hdr c) = K_value")
  case True
  obtain b q where "insert_pair (header_buff r, pc_hdr c) = Some (b, (pc_hdr c)\<lparr>pc_request := q\<rparr>)"
      "length b = length (header_buff r)" "drop pos b = drop pos (header_buff r)"
    using insert_pair_ok [of pos "pc_hdr c" "header_buff r"] assms by (auto simp: client_ctx_def)
  then show ?thesis using assms True by (auto simp: client_headers_complete_def client_ctx_def Let_def)
next
  case False
  then show ?thesis using assms by (auto simp: client_headers_complete_def client_ctx_def Let_def)
qed

definition source :: "bool \<Rightarrow> string \<Rightarrow> client_response \<Rightarrow> string" where
  "source tmp t r = (if tmp then t else header_buff r)"

lemma client_callback_ok:
  assumes "client_ctx tmp (base + lo) h mc (r, c)" "tmp \<longrightarrow> h" "base + len \<le> length (source tmp t r)"
    "of_body ev \<longrightarrow> h" "\<not> of_body ev \<and> ev \<noteq> Cl_message_complete \<longrightarrow> \<not> h"
    "case event_at ev of None \<Rightarrow> True | Some (at, _) \<Rightarrow> lo \<le> at" "event_end lo ev \<le> len"
  shows "\<exists>res r' c'. client_callback tmp t base ev (r, c) = Some (res, r', c') \<and>
    client_ctx tmp (base + event_end lo ev) (h \<or> ends_headers ev) (mc \<or> ev = Cl_message_complete) (r', c') \<and>
    drop (base + event_end lo ev) (header_buff r') = drop (base + event_end lo ev) (header_buff r)"
proof (cases ev)
  case (Cl_status at n)
  then show ?thesis using assms
    by (auto simp: client_ctx_def rd_range_def event_end_def source_def intro: pc_inv_mono)
next
  case (Cl_field at n)
  then have tmp: "\<not> tmp" "\<not> h" using assms(2,5) by auto
  have "pc_inv (base + lo) (pc_hdr c)" using assms(1) tmp by (simp add: client_ctx_def)
  from callback_ok [OF this, of "base + at + n" "header_buff r" base "Ev_header_field at n"]
  obtain b' c' where "on_header_field (base + at) n (header_buff r, pc_hdr c) = Some (b', c')"
    "pc_inv (base + at + n) c'" "length b' = length (header_buff r)"
    "drop (base + at + n) b' = drop (base + at + n) (header_buff r)"
    using Cl_field assms tmp by (auto simp: event_end_def source_def)
  then show ?thesis using Cl_field assms(1) tmp header_field_complete
    by (auto simp: client_ctx_def event_end_def add.assoc)
next
  case (Cl_value at n)
  then have tmp: "\<not> tmp" "\<not> h" using assms(2,5) by auto
  have "pc_inv (base + lo) (pc_hdr c)" using assms(1) tmp by (simp add: client_ctx_def)
  from callback_ok [OF this, of "base + at + n" "header_buff r" base "Ev_header_value at n"]
  obtain b' c' where "on_header_value (base + at) n (header_buff r, pc_hdr c) = Some (b', c')"
    "pc_inv (base + at + n) c'" "length b' = length (header_buff r)"
    "drop (base + at + n) b' = drop (base + at + n) (header_buff r)"
    using Cl_value assms tmp by (auto simp: event_end_def source_def)
  then show ?thesis using Cl_value assms(1) tmp header_value_complete
    by (auto simp: client_ctx_def event_end_def add.assoc)
next
  case (Cl_headers_complete l n v)
  then have tmp: "\<not> tmp" "\<not> h" using assms(2,5) by auto
  then have "base + lo \<le> 8192" using Cl_headers_complete assms(1,3,7) by (simp add: event_end_def source_def client_ctx_def)
  then show ?thesis using Cl_headers_complete assms(1) tmp client_headers_complete_ok [of "base + lo" mc r c l n v]
    by (auto simp: event_end_def)
next
  case (Cl_body at n)
  have ctx: "client_ctx tmp (base + (at + n)) True mc (r, c)" using assms Cl_body
    by (auto simp: client_ctx_def event_end_def intro: pc_inv_mono)
  have "base + at + n \<le> length (if tmp then t else header_buff r)" using assms Cl_body by (auto simp: event_end_def source_def)
  then show ?thesis using Cl_body assms(4) client_on_body_ok [OF ctx, of "take n (drop (base + at) (if tmp then t else header_buff r))"]
    by (auto simp: rd_range_def event_end_def)
next
  case (Cl_chunk_header n)
  then show ?thesis using assms(1,4) by (auto simp: client_chunk_header_def client_ctx_def event_end_def)
next
  case Cl_chunk_complete
  then show ?thesis using assms(1,4) by (auto simp: client_chunk_complete_def client_ctx_def event_end_def)
next
  case Cl_message_complete
  then show ?thesis using assms(1) by (auto simp: client_ctx_def event_end_def)
qed

lemma run_parser_ok:
  assumes "run_ok hc h False lo len run" "one_message h (calls_made (client_callback tmp t base) run (r, c))"
    "client_ctx tmp (base + lo) h False (r, c)" "tmp \<longrightarrow> h" "base + len \<le> length (source tmp t r)"
  shows "\<exists>n e p r' c' h' mc'. run_parser (client_callback tmp t base) run (r, c) = Some (n, e, p, r', c') \<and>
    client_ctx tmp (base + n) h' mc' (r', c') \<and> (h \<longrightarrow> h') \<and> lo \<le> n \<and> n \<le> len \<and>
    (n = len \<or> e \<noteq> 0 \<or> mc') \<and> (\<not> mc' \<and> e = 0 \<longrightarrow> hc p = h') \<and>
    drop (base + n) (header_buff r') = drop (base + n) (header_buff r)"
  using assms
proof (induction run arbitrary: h lo r c)
  case (Parsed n e p)
  have n: "lo \<le> n" "n \<le> len" "n = len \<or> e \<noteq> 0 \<or> False" "\<not> False \<and> e = 0 \<longrightarrow> hc p = h"
    using Parsed(1) by simp_all
  have "client_ctx tmp (base + n) h False (r, c)" using Parsed(3) n(1) by (rule client_ctx_mono)
  then show ?case using n unfolding run_parser.simps by blast
next
  case (Call ev k)
  note ok = Call.prems(1)
  have le: "event_end lo ev \<le> len" using ok run_ok_le unfolding run_ok.simps by blast
  have order: "\<not> of_body ev \<and> ev \<noteq> Cl_message_complete \<longrightarrow> \<not> h" using Call.prems(2) by (auto split: if_splits)
  obtain res r1 c1 where cb: "client_callback tmp t base ev (r, c) = Some (res, r1, c1)"
    "client_ctx tmp (base + event_end lo ev) (h \<or> ends_headers ev) (ev = Cl_message_complete) (r1, c1)"
    "drop (base + event_end lo ev) (header_buff r1) = drop (base + event_end lo ev) (header_buff r)"
    using client_callback_ok [OF Call.prems(3,4,5) _ order _ le] ok by auto
  have len: "length (source tmp t r1) = length (source tmp t r)"
    using cb(2) Call.prems(3) by (simp add: source_def client_ctx_def)
  have lo: "lo \<le> n" if "event_end lo ev \<le> n" for n
    using that ok by (auto simp: event_end_def split: option.splits)
  have tail: "drop (base + n) (header_buff r1) = drop (base + n) (header_buff r)" if "event_end lo ev \<le> n" for n
    using arg_cong [OF cb(3), of "drop (n - event_end lo ev)"] that by (simp add: add.commute)
  show ?case
  proof (cases "ev = Cl_message_complete")
    case True
    then have "calls_made (client_callback tmp t base) (k res) (r1, c1) = []" using Call.prems(2) cb(1) by simp
    then obtain n e p where k: "k res = Parsed n e p" by (cases "k res") auto
    then have n: "event_end lo ev \<le> n" "n \<le> len" using ok by (metis run_ok.simps)+
    have "client_ctx tmp (base + n) (h \<or> ends_headers ev) True (r1, c1)" using cb(2) n(1) True by (auto intro: client_ctx_mono)
    then show ?thesis using cb(1) k n lo [OF n(1)] tail [OF n(1)] by auto
  next
    case False
    have sub: "run_ok hc (h \<or> ends_headers ev) False (event_end lo ev) len (k res)" using ok False by simp
    have one: "one_message (h \<or> ends_headers ev) (calls_made (client_callback tmp t base) (k res) (r1, c1))"
      using Call.prems(2) False cb(1) by simp
    have "client_ctx tmp (base + event_end lo ev) (h \<or> ends_headers ev) False (r1, c1)" using cb(2) False by simp
    moreover have "tmp \<longrightarrow> h \<or> ends_headers ev" "base + len \<le> length (source tmp t r1)" using Call.prems(4,5) len by auto
    ultimately obtain n e p r' c' h' mc' where r': "run_parser (client_callback tmp t base) (k res) (r1, c1) = Some (n, e, p, r', c')"
      "client_ctx tmp (base + n) h' mc' (r', c')" "h \<or> ends_headers ev \<longrightarrow> h'" "n \<le> len" "event_end lo ev \<le> n"
      "n = len \<or> e \<noteq> 0 \<or> mc'" "\<not> mc' \<and> e = 0 \<longrightarrow> hc p = h'"
      "drop (base + n) (header_buff r') = drop (base + n) (header_buff r1)"
      using Call.IH [OF rangeI sub one] by blast
    have run: "run_parser (client_callback tmp t base) (Call ev k) (r, c) = Some (n, e, p, r', c')"
      using cb(1) r'(1) by simp
    have h: "h \<longrightarrow> h'" using r'(3) by blast
    show ?thesis using run r'(2) h lo [OF r'(5)] r'(4) r'(6) r'(7) r'(8) tail [OF r'(5)] by metis
  qed
qed

section \<open>No byte is lost\<close>

definition client_unparsed :: "'p client_conn \<Rightarrow> string" where
  "client_unparsed s = take (cbep s - cbsp s) (drop (cbsp s) (source (in_tmp s) (bdy_tmp s) (response s)))"

definition client_bounds :: "'p client_conn \<Rightarrow> bool" where
  "client_bounds s \<longleftrightarrow> length (header_buff (response s)) = 8192 \<and> length (bdy_tmp s) = 4096 \<and> cbsp s \<le> cbep s \<and>
     cbep s \<le> length (source (in_tmp s) (bdy_tmp s) (response s))"

definition parsing_inv :: "('p \<Rightarrow> bool) \<Rightarrow> 'p client_conn \<Rightarrow> bool" where
  "parsing_inv hc s \<longleftrightarrow> client_ctx (in_tmp s) (cbsp s) (pc_headers_complete (cpc s)) False (response s, cpc s) \<and>
     hc (cparser s) = pc_headers_complete (cpc s) \<and> (in_tmp s \<longrightarrow> pc_headers_complete (cpc s)) \<and>
     (pc_headers_complete (cpc s) \<and> cbsp s \<noteq> cbep s \<longrightarrow> in_tmp s)"

definition client_inv :: "('p \<Rightarrow> bool) \<Rightarrow> 'p client_history \<Rightarrow> bool" where
  "client_inv hc = (\<lambda>(received, consumed, extra, s). extra \<or>
     (case cmode s of
       Cl_threw e \<Rightarrow> True
     | Cl_parsing \<Rightarrow> received = consumed @ client_unparsed s \<and> client_bounds s \<and> parsing_inv hc s
     | Cl_returned \<Rightarrow> received = consumed @ client_unparsed s \<and> client_bounds s \<and> (in_tmp s \<longrightarrow> cbsp s = cbep s)))"

text \<open>What a call of the parser does to the buffers.\<close>

lemma client_parse_ok:
  assumes "client_parser_ok api hc" "client_bounds s" "parsing_inv hc s" "cbsp s \<noteq> cbep s"
    "cmode s = Cl_parsing" "\<not> sent_more api s"
  shows "\<exists>n err s1. client_parse api s = Some (n, err, s1) \<and> client_bounds s1 \<and>
    (message_complete (pc_hdr (cpc s1)) \<or> err \<noteq> 0 \<or> parsing_inv hc s1) \<and> in_tmp s1 = in_tmp s \<and>
    (message_complete (pc_hdr (cpc s1)) \<and> in_tmp s1 \<longrightarrow> cbsp s1 = cbep s1) \<and> cmode s1 = cmode s \<and>
    client_unparsed s = take n (drop (cbsp s) (client_data s)) @ client_unparsed s1"
proof -
  let ?src = "source (in_tmp s) (bdy_tmp s) (response s)"
  define len where "len = cbep s - cbsp s"
  have tmp: "in_tmp s = pc_headers_complete (cpc s)" using assms(3,4) by (auto simp: parsing_inv_def)
  have src: "client_data s = ?src" by (simp add: client_data_def source_def tmp)
  have b: "cbsp s + len \<le> length ?src" "cbsp s + len = cbep s" using assms(2) by (simp_all add: client_bounds_def len_def)
  have data: "rd_range (client_data s) (cbsp s) (cbep s - cbsp s) = Some (client_unparsed s)" "length (client_unparsed s) = len"
    using b by (simp_all add: rd_range_def client_unparsed_def src len_def [symmetric])
  have ctx: "client_ctx (in_tmp s) (cbsp s + 0) (in_tmp s) False (response s, cpc s)"
    using assms(3) tmp by (simp add: parsing_inv_def)
  have ok: "run_ok hc (in_tmp s) False 0 len (cp_execute api (cparser s) (client_unparsed s))"
    using assms(1,3) data(2) tmp unfolding client_parser_ok_def parsing_inv_def by metis
  have "one_message (in_tmp s) (calls_made (client_callback (in_tmp s) (bdy_tmp s) (cbsp s))
      (cp_execute api (cparser s) (client_unparsed s)) (response s, cpc s))"
    using assms(4,5,6) by (simp add: sent_more_def tmp src client_unparsed_def)
  from run_parser_ok [OF ok this ctx _ b(1)]
  obtain n e p r c h mc where run: "run_parser (client_callback (in_tmp s) (bdy_tmp s) (cbsp s))
        (cp_execute api (cparser s) (client_unparsed s)) (response s, cpc s) = Some (n, e, p, r, c)"
    "client_ctx (in_tmp s) (cbsp s + n) h mc (r, c)" "in_tmp s \<longrightarrow> h" "n \<le> len"
    "n = len \<or> e \<noteq> 0 \<or> mc" "\<not> mc \<and> e = 0 \<longrightarrow> hc p = h"
    "drop (cbsp s + n) (header_buff r) = drop (cbsp s + n) (header_buff (response s))"
    by blast
  define s1 where "s1 = s\<lparr>response := r, cpc := c, cparser := p, cbsp := cbsp s + n\<rparr>"
  have cp: "client_parse api s = Some (n, e, s1)"
    using run(1) unfolding client_parse_def data Option.bind.bind_lunit tmp [symmetric] by (simp add: s1_def)
  have mc: "message_complete (pc_hdr c) = mc" "pc_headers_complete c = h" "length (header_buff r) = 8192"
    using run(2) by (simp_all add: client_ctx_def)
  have bounds: "client_bounds s1" using assms(2) mc(3) run(4) b by (auto simp: client_bounds_def s1_def source_def)
  have "parsing_inv hc s1" if "\<not> mc" "e = 0"
    using that run(2,3,5,6) mc b by (auto simp: parsing_inv_def s1_def)
  moreover have "cbsp s1 = cbep s1" if mc "in_tmp s"
    using assms(4,5,6) cp mc(1) that unfolding sent_more_def by (simp add: s1_def)
  moreover have "client_unparsed s = take n (drop (cbsp s) ?src) @ client_unparsed s1"
    using unparsed_step [of "cbsp s" "cbsp s + n" "cbep s" ?src "source (in_tmp s) (bdy_tmp s) r"] b run(4,7)
    by (simp add: client_unparsed_def s1_def source_def split: if_splits)
  ultimately show ?thesis using cp bounds mc(1) src by (auto simp: s1_def)
qed

lemma begin_message_ok:
  assumes "client_parser_ok api hc" "client_bounds s" "in_tmp s \<longrightarrow> cbsp s = cbep s"
  shows "\<exists>s'. begin_message api s = Some s' \<and> cmode s' = Cl_parsing \<and> client_bounds s' \<and> parsing_inv hc s' \<and>
    client_unparsed s' = client_unparsed s"
proof (cases "cbep s > cbsp s")
  case True
  then have "\<not> in_tmp s" using assms(3) by auto
  then show ?thesis using True assms(1,2)
    by (auto simp: begin_message_def client_bounds_def parsing_inv_def client_unparsed_def source_def rd_range_def
        wr_range_def client_ctx_def new_client_pc_def pc_inv_def client_parser_ok_def init_pc_def Let_def)
next
  case False
  then show ?thesis using assms(1,2)
    by (auto simp: begin_message_def client_bounds_def parsing_inv_def client_unparsed_def source_def
        client_ctx_def new_client_pc_def pc_inv_def client_parser_ok_def init_pc_def Let_def split: if_splits)
qed

lemma client_after_ok:
  assumes "client_parser_ok api hc" "client_bounds s" "cmode s = Cl_parsing"
    "message_complete (pc_hdr (cpc s)) \<or> err \<noteq> 0 \<or> parsing_inv hc s"
    "message_complete (pc_hdr (cpc s)) \<and> in_tmp s \<longrightarrow> cbsp s = cbep s"
  shows "\<exists>s'. client_after api err s = Some s' \<and> client_inv hc (consumed @ client_unparsed s, consumed, False, s')"
proof (cases "message_complete (pc_hdr (cpc s)) \<or> err \<noteq> 0")
  case False
  then show ?thesis using assms by (simp add: client_after_def client_inv_def)
next
  case True
  consider "\<not> message_complete (pc_hdr (cpc s))" "err \<noteq> 0" |
    "message_complete (pc_hdr (cpc s))" "cp_status_code api (cparser s) = 100" |
    "message_complete (pc_hdr (cpc s))" "cp_status_code api (cparser s) \<noteq> 100" using True by blast
  then show ?thesis
  proof cases
    case 1
    then show ?thesis by (simp add: client_after_def message_end_def client_inv_def)
  next
    case 2
    then show ?thesis using begin_message_ok [OF assms(1,2)] assms(5)
      by (auto simp: client_after_def message_end_def client_inv_def)
  next
    case 3
    then show ?thesis using assms(2,5)
      by (auto simp: client_after_def message_end_def client_inv_def Let_def client_bounds_def client_unparsed_def source_def)
  qed
qed

lemma client_step_inv:
  assumes "client_parser_ok api hc" "client_inv hc (received, consumed, False, s)" "\<not> sent_more api s"
    "client_step api s inp outp s'"
  shows "client_inv hc (received @ inp, consumed @ outp, False, s')"
  using assms(4)
proof cases
  case client_too_big
  then show ?thesis by (simp add: client_inv_def)
next
  case client_reads
  have inv: "received = consumed @ client_unparsed s" "client_bounds s" "parsing_inv hc s"
    using assms(2) client_reads by (simp_all add: client_inv_def)
  show ?thesis
  proof (cases "pc_headers_complete (cpc s)")
    case True
    then show ?thesis using inv client_reads
      by (auto simp: client_inv_def client_read_def client_bounds_def parsing_inv_def client_unparsed_def source_def
          wr_range_def read_space_def client_ctx_def)
  next
    case False
    then show ?thesis using inv client_reads
      by (auto simp: client_inv_def client_read_def client_bounds_def parsing_inv_def client_unparsed_def source_def
          wr_range_def read_space_def client_ctx_def split: if_splits)
  qed
next
  case (client_parses n err s1)
  have inv: "received = consumed @ client_unparsed s" "client_bounds s" "parsing_inv hc s"
    using assms(2) client_parses by (simp_all add: client_inv_def)
  have s1: "client_bounds s1" "message_complete (pc_hdr (cpc s1)) \<or> err \<noteq> 0 \<or> parsing_inv hc s1"
    "message_complete (pc_hdr (cpc s1)) \<and> in_tmp s1 \<longrightarrow> cbsp s1 = cbep s1" "cmode s1 = Cl_parsing"
    "client_unparsed s = outp @ client_unparsed s1"
    using client_parse_ok [OF assms(1) inv(2,3) client_parses(4) client_parses(3) assms(3)] client_parses by auto
  then show ?thesis using client_after_ok [OF assms(1) s1(1,4,2,3), of "consumed @ outp"] client_parses inv by auto
next
  case (client_buffered len)
  then have inv: "received = consumed @ client_unparsed s" "client_bounds s" "\<not> in_tmp s"
    using assms(2) by (auto simp: client_inv_def client_body_read_def split: if_splits)
  define n where "n = (if len > cbep s - cbsp s then cbep s - cbsp s else len)"
  have n: "n \<le> cbep s - cbsp s" "outp = take n (drop (cbsp s) (header_buff (response s)))" "s' = s\<lparr>cbsp := cbsp s + n\<rparr>"
    using client_buffered by (auto simp: n_def client_body_read_def rd_range_def bind_Some_iff Let_def split: if_splits)
  then show ?thesis
    using inv client_buffered unparsed_step [of "cbsp s" "cbsp s + n" "cbep s" "header_buff (response s)" "header_buff (response s)"]
    by (auto simp: client_inv_def client_unparsed_def client_bounds_def source_def)
next
  case (client_piped len n)
  then have "cbsp s = cbep s" by (auto simp: client_body_read_def bind_Some_iff Let_def split: if_splits)
  then show ?thesis using assms(2) client_piped by (simp add: client_inv_def client_unparsed_def)
qed

lemma client_inv_extra: "client_inv hc (received, consumed, True, s)"
  by (simp add: client_inv_def)

lemma client_trans_inv:
  assumes "client_parser_ok api hc" "client_inv hc t" "client_trans api t t'"
  shows "client_inv hc t'"
  using assms(3)
proof cases
  case (1 s inp outp s' received consumed extra)
  show ?thesis
  proof (cases "extra \<or> sent_more api s")
    case True
    then show ?thesis using 1 by (simp add: client_inv_def)
  next
    case False
    then show ?thesis using client_step_inv [OF assms(1) _ _ 1(3)] 1 assms(2) by simp
  qed
qed

lemma client_start_inv: "client_parser_ok api hc \<Longrightarrow> client_init api t \<Longrightarrow> client_inv hc t"
  by (auto simp: client_init_def client_inv_def client_start_def client_bounds_def parsing_inv_def client_unparsed_def source_def
      client_ctx_def new_response_buffer_def new_client_pc_def pc_inv_def init_pc_def client_parser_ok_def)

interpretation client: transition_invariant "client_init api" "client_trans api"
  "\<lambda>t. client_parser_ok api hc \<longrightarrow> client_inv hc t"
  for api :: "'p client_parser" and hc
proof
  show "client_init api t \<Longrightarrow> client_parser_ok api hc \<longrightarrow> client_inv hc t" for t
    by (simp add: client_start_inv)
  show "client_parser_ok api hc \<longrightarrow> client_inv hc t \<Longrightarrow> client_trans api t t' \<Longrightarrow> client_parser_ok api hc \<longrightarrow> client_inv hc t'" for t t'
    using client_trans_inv by blast
qed

section \<open>The body\<close>

text \<open>The calls for the pieces of a body, until one is refused.\<close>

fun on_pieces :: "string list \<Rightarrow> client_context \<Rightarrow> (nat \<times> client_context) option" where
  "on_pieces [] rc = Some (0, rc)"
| "on_pieces (d # ds) rc = do {
     (res, rc) \<leftarrow> client_on_body d rc;
     if res = 0 then on_pieces ds rc else Some (res, rc) }"

text \<open>A chunk with its pieces, and the chunks of a message.\<close>

definition on_chunk :: "string list \<Rightarrow> client_context \<Rightarrow> (nat \<times> client_context) option" where
  "on_chunk ds rc = (let (res, rc) = client_chunk_header (length (concat ds)) rc in
     if res \<noteq> 0 then Some (res, rc)
     else do {
       (res, rc) \<leftarrow> on_pieces ds rc;
       if res \<noteq> 0 then Some (res, rc) else Some (client_chunk_complete rc) })"

fun on_chunks :: "string list list \<Rightarrow> client_context \<Rightarrow> (nat \<times> client_context) option" where
  "on_chunks [] rc = Some (0, rc)"
| "on_chunks (c # cs) rc = do {
     (res, rc) \<leftarrow> on_chunk c rc;
     if res = 0 then on_chunks cs rc else Some (res, rc) }"

lemma client_on_body_fits:
  assumes "body_chunks r = bs @ [pre @ replicate m NUL]" "cur_chunk_pos c = length pre" "length d \<le> m"
  shows "client_on_body d (r, c) = Some (0, r\<lparr>body_chunks := bs @ [(pre @ d) @ replicate (m - length d) NUL]\<rparr>,
    c\<lparr>cur_chunk_pos := length (pre @ d)\<rparr>)"
  using assms by (simp add: client_on_body_def wr_range_def Let_def)

lemma on_pieces_fit:
  assumes "body_chunks r = bs @ [pre @ replicate m NUL]" "cur_chunk_pos c = length pre" "length (concat ds) \<le> m"
  shows "on_pieces ds (r, c) = Some (0, r\<lparr>body_chunks := bs @ [(pre @ concat ds) @ replicate (m - length (concat ds)) NUL]\<rparr>,
    c\<lparr>cur_chunk_pos := length (pre @ concat ds)\<rparr>)"
  using assms
proof (induction ds arbitrary: pre m r c)
  case (Cons d ds)
  have "length d \<le> m" "length (concat ds) \<le> m - length d" using Cons.prems(3) by simp_all
  then show ?case using Cons.prems(1,2)
    by (simp add: client_on_body_fits [where pre = pre and m = m] Cons.IH [where pre = "pre @ d" and m = "m - length d"])
qed simp

lemma on_chunk_whole:
  assumes "cur_chunk_pos c = 0"
  shows "on_chunk ds (r, c) = Some (0, r\<lparr>body_chunks := body_chunks r @ [concat ds]\<rparr>, c)"
  using assms on_pieces_fit [of "r\<lparr>body_chunks := body_chunks r @ [replicate (length (concat ds)) NUL]\<rparr>" "body_chunks r" "[]"
      "length (concat ds)" c ds]
  by (simp add: on_chunk_def client_chunk_header_def client_chunk_complete_def del: length_concat)

lemma on_chunks_whole:
  "cur_chunk_pos c = 0 \<Longrightarrow> on_chunks cs (r, c) = Some (0, r\<lparr>body_chunks := body_chunks r @ map concat cs\<rparr>, c)"
  by (induction cs arbitrary: r) (simp_all add: on_chunk_whole)

lemma on_pieces_refused:
  assumes "body_chunks r = bs @ [pre @ replicate m NUL]" "cur_chunk_pos c = length pre" "m < length (concat ds)"
  shows "\<exists>rc. on_pieces ds (r, c) = Some (1, rc)"
  using assms
proof (induction ds arbitrary: pre m r c)
  case (Cons d ds)
  show ?case
  proof (cases "length d \<le> m")
    case True
    then have "m - length d < length (concat ds)" using Cons.prems(3) by simp
    then show ?thesis using Cons.prems(1,2) True
      Cons.IH [of "r\<lparr>body_chunks := bs @ [(pre @ d) @ replicate (m - length d) NUL]\<rparr>" "pre @ d" "m - length d"
        "c\<lparr>cur_chunk_pos := length (pre @ d)\<rparr>"]
      by (simp add: client_on_body_fits [where pre = pre and m = m])
  next
    case False
    then show ?thesis using Cons.prems(1,2) by (simp add: client_on_body_def)
  qed
qed simp

section \<open>The headers\<close>

fun client_of :: "http_event \<Rightarrow> client_event" where
  "client_of (Ev_header_field at len) = Cl_field at len"
| "client_of (Ev_header_value at len) = Cl_value at len"
| "client_of ev = Cl_message_complete"

definition calls_run :: "client_event list \<Rightarrow> 'p parse_run \<Rightarrow> 'p parse_run" where
  "calls_run evs run = foldr (\<lambda>ev run. Call ev (\<lambda>_. run)) evs run"

definition of_headers :: "http_event \<Rightarrow> bool" where
  "of_headers ev \<longleftrightarrow> (\<exists>at len. ev = Ev_header_field at len \<or> ev = Ev_header_value at len)"

lemma chunk_events_headers:
  "ev \<in> set (chunk_events Ev_header_field a ns) \<or> ev \<in> set (chunk_events Ev_header_value a ns) \<Longrightarrow> of_headers ev"
  by (induction ns arbitrary: a) (auto simp: of_headers_def)

lemma line_events_headers: "ev \<in> set (concat (map line_events ls)) \<Longrightarrow> of_headers ev"
  by (auto dest: chunk_events_headers [OF disjI1] chunk_events_headers [OF disjI2])

text \<open>The calls for headers do to the common part of the context what they do in the server.\<close>

lemma client_header_calls:
  assumes "callbacks pu base evs (header_buff r, pc_hdr c) = Some (b', h')" "\<forall>ev \<in> set evs. of_headers ev"
  shows "run_parser (client_callback False t base) (calls_run (map client_of evs) run) (r, c) =
    run_parser (client_callback False t base) run (r\<lparr>header_buff := b'\<rparr>, c\<lparr>pc_hdr := h'\<rparr>)"
  using assms
proof (induction evs arbitrary: r c)
  case (Cons ev evs)
  obtain b1 h1 where 1: "callback pu base ev (header_buff r, pc_hdr c) = Some (b1, h1)"
    "callbacks pu base evs (b1, h1) = Some (b', h')" using Cons.prems(1) by (auto simp: bind_Some_iff)
  have "client_callback False t base (client_of ev) (r, c) = Some (0, r\<lparr>header_buff := b1\<rparr>, c\<lparr>pc_hdr := h1\<rparr>)"
    using 1(1) Cons.prems(2) by (auto simp: of_headers_def)
  then show ?case
    using Cons.IH [of "r\<lparr>header_buff := b1\<rparr>" "c\<lparr>pc_hdr := h1\<rparr>"] 1(2) Cons.prems(2) by (simp add: calls_run_def)
next
  case Nil
  then have "r\<lparr>header_buff := b'\<rparr> = r" "c\<lparr>pc_hdr := h'\<rparr> = c" by auto
  then show ?case by (simp add: calls_run_def)
qed

lemma client_headers_inserted:
  assumes "collected pend hs (pc_hdr c)" "pend_ok pend" "pend_end pend \<le> length mem"
    "drop (pend_start pend) (header_buff r) = drop (pend_start pend) mem" "length (header_buff r) = length mem"
  shows "\<exists>res r' c'. client_headers_complete l n v (r, c) = Some (res, r', c') \<and>
    headers (pc_request (pc_hdr c')) = insert_pend mem pend hs \<and> res = (if read_body c then 0 else 1) \<and>
    body_chunks r' = body_chunks r @ (if read_body c \<and> l then [replicate n NUL] else []) \<and> cur_chunk_pos c' = cur_chunk_pos c"
proof (cases pend)
  case None
  then show ?thesis using assms(1) by (simp add: client_headers_complete_def insert_pend_def)
next
  case (Some x)
  obtain a ns b ms where x: "x = (a, ns, b, ms)" by (metis prod.exhaust)
  obtain t where "insert_pair (header_buff r, pc_hdr c) = Some (t, (pc_hdr c)\<lparr>pc_request :=
      (pc_request (pc_hdr c))\<lparr>headers := insert_line mem x hs\<rparr>\<rparr>)"
    using insert_pair_line [of a ns b ms hs "pc_hdr c" "length mem" mem "header_buff r"] assms Some x by auto
  then show ?thesis using assms(1) Some x by (simp add: client_headers_complete_def insert_pend_def)
qed

section \<open>Properties\<close>

text \<open>
  C30: over any run of the client, whatever arrives, either the peer has sent more than one response without
  trailers (the parser has made a call for a trailer or a next message, or the message ended in \<open>bdy_tmp\<close> before the
  data there; what is lost or overwritten then is shown below), or no byte of the response is lost,
  repeated or reordered: what was received is what the parser and the reader of the body were given,
  followed by the rest of the buffer; the buffers are never left, and no call of the parser fails.
\<close>
theorem client_conserves:
  assumes "client_parser_ok api hc" "client_init api t" "(client_trans api)\<^sup>*\<^sup>* t (received, consumed, extra, s)"
    "cmode s = Cl_parsing \<or> cmode s = Cl_returned"
  shows "extra \<or> received = consumed @ client_unparsed s \<and> client_bounds s \<and>
    (cmode s = Cl_parsing \<and> cbsp s \<noteq> cbep s \<longrightarrow> sent_more api s \<or>
       (\<exists>n err s1. client_parse api s = Some (n, err, s1) \<and> client_after api err s1 \<noteq> None))"
proof -
  have inv: "client_inv hc (received, consumed, extra, s)" using client.reachable_inv [OF assms(3,2)] assms(1) by blast
  have "\<exists>n err s1. client_parse api s = Some (n, err, s1) \<and> client_after api err s1 \<noteq> None"
    if p: "cmode s = Cl_parsing" "cbsp s \<noteq> cbep s" "\<not> sent_more api s" "\<not> extra"
  proof -
    have inv': "client_bounds s" "parsing_inv hc s" using inv p(1,4) by (simp_all add: client_inv_def)
    obtain n err s1 where s1: "client_parse api s = Some (n, err, s1)" "client_bounds s1"
      "message_complete (pc_hdr (cpc s1)) \<or> err \<noteq> 0 \<or> parsing_inv hc s1"
      "message_complete (pc_hdr (cpc s1)) \<and> in_tmp s1 \<longrightarrow> cbsp s1 = cbep s1" "cmode s1 = cmode s"
      using client_parse_ok [OF assms(1) inv' p(2,1,3)] by blast
    then show ?thesis using client_after_ok [OF assms(1) s1(2) _ s1(3,4)] p(1) by fastforce
  qed
  then show ?thesis using inv assms(4) by (auto simp: client_inv_def)
qed

text \<open>What happens otherwise.  The reader of the body looks for what \<open>bdy_tmp\<close> still holds in the buffer of the headers; and
  a second response in the same data gets a vector for its body while the position is still that behind the first body,
  so that the space that is left wraps around and the body is written behind the vector.\<close>

lemma rest_of_tmp_lost:
  assumes "in_tmp s" "cbsp s < cbep s" "cbep s \<le> 4096" "length (header_buff (response s)) = 8192"
  shows "client_body_read (cbep s - cbsp s) s =
    Some (Inl (take (cbep s - cbsp s) (drop (cbsp s) (header_buff (response s))), s\<lparr>cbsp := cbep s\<rparr>))"
  using assms by (simp add: client_body_read_def rd_range_def)

lemma next_body_overflows:
  assumes "read_body c" "header_state (pc_hdr c) \<noteq> K_value" "cur_chunk_pos c = 2" "length mem = 4096"
  shows "run_parser (client_callback True mem 0) (calls_run [Cl_headers_complete True 1 (1, 1), Cl_body 40 1] (Parsed 41 0 p)) (r, c) = None"
  using assms
  by (simp add: calls_run_def client_headers_complete_def client_on_body_def wr_range_def rd_range_def Let_def)

text \<open>
  however the parser cuts the headers of a response into pieces, each name, in lower case, finds the value of
  the first header with this name; and when the body is to be read and has a length, a vector of this length is made for it.
\<close>
theorem client_headers:
  assumes "lines_in 0 ls (length (header_buff r))"
  shows "\<exists>r' c. run_parser (client_callback False t 0)
      (calls_run (map client_of (concat (map line_events ls)) @ [Cl_headers_complete has_length n v]) (Parsed k e p))
      (r, new_client_pc rb) = Some (k, e, p, r', c) \<and>
    (\<forall>name. headers_find (headers (pc_request (pc_hdr c))) name = map_of (map (line_pair (header_buff r)) ls) name) \<and>
    body_chunks r' = body_chunks r @ (if rb \<and> has_length then [replicate n NUL] else []) \<and> cur_chunk_pos c = 0"
proof -
  let ?evs = "concat (map line_events ls)"
  have "collected None [] (pc_hdr (new_client_pc rb))" by (simp add: new_client_pc_def init_pc_def init_request_def)
  from lines_collected [OF this _ _ assms, of "header_buff r" "header_buff r" "\<lambda>_ _. None"]
  obtain b h pend hs where c: "callbacks (\<lambda>_ _. None) 0 ?evs (header_buff r, pc_hdr (new_client_pc rb)) = Some (b, h)"
      "collected pend hs h" "pend_ok pend" "pend_end pend \<le> length (header_buff r)" "length b = length (header_buff r)"
      "drop (pend_start pend) b = drop (pend_start pend) (header_buff r)"
      "insert_pend (header_buff r) pend hs = foldl (\<lambda>hs l. insert_line (header_buff r) l hs) [] ls"
    by (auto simp: insert_pend_def)
  let ?r = "r\<lparr>header_buff := b\<rparr>" and ?c = "(new_client_pc rb)\<lparr>pc_hdr := h\<rparr>"
  have "run_parser (client_callback False t 0)
      (calls_run (map client_of ?evs) (Call (Cl_headers_complete has_length n v) (\<lambda>_. Parsed k e p))) (r, new_client_pc rb) =
    run_parser (client_callback False t 0) (Call (Cl_headers_complete has_length n v) (\<lambda>_. Parsed k e p)) (?r, ?c)"
    using line_events_headers by (intro client_header_calls [OF c(1)]) blast
  moreover obtain res r' c' where "client_headers_complete has_length n v (?r, ?c) = Some (res, r', c')"
    "headers (pc_request (pc_hdr c')) = insert_pend (header_buff r) pend hs"
    "body_chunks r' = body_chunks r @ (if rb \<and> has_length then [replicate n NUL] else [])" "cur_chunk_pos c' = 0"
    using client_headers_inserted [of pend hs ?c "header_buff r" ?r has_length n v] c(2-6)
    by (auto simp: new_client_pc_def)
  ultimately show ?thesis
    using insert_lines_find [of "[]" "header_buff r" ls] c(7) by (auto simp: calls_run_def sorted_headers_def)
qed

text \<open>
  C31: the body of a response: the pieces of a body with a length end up in its vector, in order, and
  the call that would exceed it is refused; the chunks of a chunked one each become a vector
  with the text of their pieces; and a body with neither is refused.
\<close>
theorem client_body:
  assumes "cur_chunk_pos c = 0"
  shows "(if length (concat ds) \<le> n
       then on_pieces ds (r\<lparr>body_chunks := bs @ [replicate n NUL]\<rparr>, c) =
         Some (0, r\<lparr>body_chunks := bs @ [concat ds @ replicate (n - length (concat ds)) NUL]\<rparr>, c\<lparr>cur_chunk_pos := length (concat ds)\<rparr>)
       else \<exists>rc. on_pieces ds (r\<lparr>body_chunks := bs @ [replicate n NUL]\<rparr>, c) = Some (1, rc)) \<and>
    on_chunks cs (r, c) = Some (0, r\<lparr>body_chunks := body_chunks r @ map concat cs\<rparr>, c) \<and>
    on_pieces (d # ds) (r\<lparr>body_chunks := []\<rparr>, c) = Some (1, r\<lparr>body_chunks := []\<rparr>, c)"
  using assms on_pieces_fit [of "r\<lparr>body_chunks := bs @ [replicate n NUL]\<rparr>" bs "[]" n c ds]
    on_pieces_refused [of "r\<lparr>body_chunks := bs @ [replicate n NUL]\<rparr>" bs "[]" n c ds] on_chunks_whole [of c cs r]
  by (simp add: client_on_body_def del: length_concat)

text \<open>A parser for responses with an empty header and a body of two bytes.\<close>

definition two_byte_parser :: "bool client_parser" where
  "two_byte_parser = \<lparr> cp_init = False,
     cp_execute = (\<lambda>p data. if p then Call (Cl_body 0 (length data)) (\<lambda>_. Call Cl_message_complete (\<lambda>_. Parsed (length data) 0 False))
       else Call (Cl_headers_complete True 2 (1, 1)) (\<lambda>_. Parsed (length data) 0 True)),
     cp_status_code = (\<lambda>_. 200), cp_keep_alive = (\<lambda>_. True) \<rparr>"

lemma two_byte_parser_ok: "client_parser_ok two_byte_parser (\<lambda>p. p)"
  by (simp add: client_parser_ok_def two_byte_parser_def event_end_def)

lemma client_conserves_witness:
  "\<exists>s. (client_trans two_byte_parser)\<^sup>*\<^sup>* ([], [], False, client_start two_byte_parser True True) (''hok'', ''hok'', False, s) \<and>
     cmode s = Cl_returned \<and> body_chunks (response s) = [''ok''] \<and> ''hok'' = ''hok'' @ client_unparsed s"
proof -
  let ?step = "client_step two_byte_parser"
  let ?s0 = "client_start two_byte_parser True True"
  define s1 where "s1 = ?s0\<lparr>response := new_response_buffer\<lparr>header_buff := ''h'' @ replicate 8191 NUL\<rparr>, cbep := 1\<rparr>"
  define c2 where "c2 = (new_client_pc True)\<lparr>pc_headers_complete := True\<rparr>"
  define r2 where "r2 = (response s1)\<lparr>http_version := (1, 1), rsp_has_length := True, rsp_length := 2, body_chunks := [[NUL, NUL]]\<rparr>"
  define s2 where "s2 = s1\<lparr>cbsp := 1, cpc := c2, response := r2, cparser := True\<rparr>"
  define s3 where "s3 = s2\<lparr>bdy_tmp := ''ok'' @ replicate 4094 NUL, cbsp := 0, cbep := 2, in_tmp := True\<rparr>"
  define c4 where "c4 = c2\<lparr>cur_chunk_pos := 2, pc_hdr := (pc_hdr c2)\<lparr>message_complete := True\<rparr>\<rparr>"
  define s4 where "s4 = s3\<lparr>cbsp := 2, cpc := c4, cparser := False, response := r2\<lparr>body_chunks := [''ok''], status_number := 200, keep_alive := True\<rparr>,
    cmode := Cl_returned\<rparr>"
  define s4' where "s4' = s3\<lparr>cbsp := 2, cpc := c4, cparser := False, response := r2\<lparr>body_chunks := [''ok'']\<rparr>\<rparr>"
  note start = client_start_def new_response_buffer_def two_byte_parser_def
  note ctx = c2_def c4_def new_client_pc_def init_pc_def new_pc_def
  have "client_read ''h'' ?s0 = Some s1"
    by (simp add: client_read_def wr_range_def start s1_def new_client_pc_def)
  then have 1: "?step ?s0 ''h'' [] s1"
    by (intro client_reads) (simp_all add: start read_space_def new_client_pc_def)
  have p1: "client_parse two_byte_parser s1 = Some (1, 0, s2)"
    by (simp add: client_parse_def client_data_def rd_range_def s1_def s2_def r2_def start ctx client_headers_complete_def numeral_2_eq_2)
  have "client_after two_byte_parser 0 s2 = Some s2" by (simp add: client_after_def s2_def ctx)
  with p1 have "?step s1 [] (take 1 (drop (cbsp s1) (client_data s1))) s2"
    by (rule client_parses [rotated 2]) (simp_all add: s1_def start)
  then have 2: "?step s1 [] ''h'' s2" by (simp add: s1_def start client_data_def new_client_pc_def)
  have "client_read ''ok'' s2 = Some s3"
    by (simp add: client_read_def wr_range_def s2_def s1_def s3_def start c2_def)
  then have 3: "?step s2 ''ok'' [] s3"
    by (intro client_reads) (simp_all add: s2_def s1_def start read_space_def c2_def)
  have p3: "client_parse two_byte_parser s3 = Some (2, 0, s4')"
    by (simp add: client_parse_def client_data_def rd_range_def wr_range_def s1_def s2_def s3_def s4'_def r2_def start ctx
        client_on_body_def Let_def)
  have "client_after two_byte_parser 0 s4' = Some s4"
    by (simp add: client_after_def message_end_def s4'_def s4_def ctx s3_def s2_def s1_def start server_errors_def Let_def)
  with p3 have "?step s3 [] (take 2 (drop (cbsp s3) (client_data s3))) s4"
    by (rule client_parses [rotated 2]) (simp_all add: s3_def s2_def s1_def start)
  then have 4: "?step s3 [] ''ok'' s4" by (simp add: s3_def s2_def client_data_def c2_def)
  have "\<not> sent_more two_byte_parser ?s0" by (simp add: sent_more_def start)
  moreover have "\<not> sent_more two_byte_parser s1"
    unfolding sent_more_def p1 by (simp add: s2_def s1_def start ctx client_data_def client_headers_complete_def Let_def)
  moreover have "\<not> sent_more two_byte_parser s2" by (simp add: sent_more_def s2_def s1_def start)
  moreover have "\<not> sent_more two_byte_parser s3"
    unfolding sent_more_def p3 by (simp add: s3_def s2_def s1_def s4'_def r2_def start ctx client_data_def rd_range_def
        wr_range_def client_on_body_def Let_def)
  ultimately have "client_trans two_byte_parser ([], [], False, ?s0) (''h'', [], False, s1)"
    "client_trans two_byte_parser (''h'', [], False, s1) (''h'', ''h'', False, s2)"
    "client_trans two_byte_parser (''h'', ''h'', False, s2) (''hok'', ''h'', False, s3)"
    "client_trans two_byte_parser (''hok'', ''h'', False, s3) (''hok'', ''hok'', False, s4)"
    using client_trans.intros [OF 1, of "[]" "[]" False] client_trans.intros [OF 2, of "''h''" "[]" False]
      client_trans.intros [OF 3, of "''h''" "''h''" False] client_trans.intros [OF 4, of "''hok''" "''h''" False] by simp_all
  then have run: "(client_trans two_byte_parser)\<^sup>*\<^sup>* ([], [], False, ?s0) (''hok'', ''hok'', False, s4)"
    by (rule rtranclp.rtrancl_into_rtrancl [OF rtranclp.rtrancl_into_rtrancl
          [OF rtranclp.rtrancl_into_rtrancl [OF r_into_rtranclp]]])
  have s4: "cmode s4 = Cl_returned" "body_chunks (response s4) = [''ok'']" by (simp_all add: s4_def)
  have "client_init two_byte_parser ([], [], False, ?s0)" by (auto simp: client_init_def)
  then show ?thesis using client_conserves [OF two_byte_parser_ok _ run] s4 run by blast
qed

lemma client_headers_witness:
  "\<exists>r' c. run_parser (client_callback False [] 0)
      (calls_run [Cl_field 0 1, Cl_field 1 1, Cl_value 4 1, Cl_headers_complete True 1 (1, 1)] (Parsed 5 0 ()))
      (new_response_buffer\<lparr>header_buff := ''Ab: 1''\<rparr>, new_client_pc True) = Some (5, 0, (), r', c) \<and>
    headers_find (headers (pc_request (pc_hdr c))) ''ab'' = Some ''1'' \<and> body_chunks r' = [[NUL]]"
  using client_headers [of "[(0, [1, 1], 4, [1])]" "new_response_buffer\<lparr>header_buff := ''Ab: 1''\<rparr>" "[]" True 1 "(1, 1)" 5 0 "()" True]
  by (simp add: to_lower_def char_of_def bit_Suc_0_iff new_response_buffer_def)
    (elim exE conjE, intro exI conjI, assumption, simp_all)

lemma client_body_witness:
  "on_pieces [''ab'', ''c''] (new_response_buffer\<lparr>body_chunks := [replicate 3 NUL]\<rparr>, new_client_pc True) =
     Some (0, new_response_buffer\<lparr>body_chunks := [''abc'']\<rparr>, (new_client_pc True)\<lparr>cur_chunk_pos := 3\<rparr>)"
  using client_body [of "new_client_pc True" "[''ab'', ''c'']" 3 "[]" new_response_buffer "[]" "[]"]
  by (simp add: new_client_pc_def del: on_pieces.simps)

end
