(* ===== verification/Tls.thy ===== *)
theory Tls
  imports Http_Request Text
begin

text \<open>
  What the library adds to OpenSSL, \<open>src/cpp/tls_context.cpp\<close> and \<open>tls_pipe.cpp\<close>: the comparison of the names of a
  certificate with that of the host, the set-up of a connection, the cookies of DTLS, and reading and
  writing through a connection whose own reads and writes sleep in fibers.  Certificates, HMAC-SHA1 and
  the SSL object are parameters.
\<close>

section \<open>Names of hosts\<close>

text \<open>A text of a certificate as \<open>ASN1_STRING_to_UTF8\<close> gives it, or a failure.  A text is followed by a zero byte.\<close>

type_synonym asn1_text = "string option"

datatype general_name = Null_entry | Dns_entry asn1_text | Other_entry

record certificate =
  alt_names :: "general_name list option"
  common_name :: "asn1_text option"

text \<open>\<open>compare_to_host\<close>: the pointer \<open>pos\<close> is computed and compared, but the statement under the
  comparison is empty.\<close>

definition compare_to_host :: "string \<Rightarrow> string \<Rightarrow> bool" where
  "compare_to_host cert_name host_name =
     (let utf8 = c_text cert_name; len1 = length utf8
      in if len1 > 1 \<and> utf8 ! 0 = CHR ''*'' then True
         else if utf8 = host_name then True
         else False)"

fun alt_name_loop :: "general_name list \<Rightarrow> string \<Rightarrow> bool" where
  "alt_name_loop [] host_name = False"
| "alt_name_loop (Null_entry # es) host_name = alt_name_loop es host_name"
| "alt_name_loop (Other_entry # es) host_name = alt_name_loop es host_name"
| "alt_name_loop (Dns_entry None # es) host_name = alt_name_loop es host_name"
| "alt_name_loop (Dns_entry (Some utf8) # es) host_name =
     (let len1 = length utf8; len2 = length (c_text (utf8 @ [NUL]))
      in if len1 \<noteq> 0 \<and> len2 \<noteq> 0 \<and> len1 = len2 \<and> compare_to_host (utf8 @ [NUL]) host_name then True
         else alt_name_loop es host_name)"

definition verify_host_name :: "certificate option \<Rightarrow> string \<Rightarrow> bool" where
  "verify_host_name cert host_name =
     (case cert of
        None \<Rightarrow> False
      | Some cert \<Rightarrow>
          if (case alt_names cert of None \<Rightarrow> False | Some names \<Rightarrow> alt_name_loop names host_name) then True
          else (case common_name cert of
                  Some (Some utf8) \<Rightarrow> length utf8 > 0 \<and> compare_to_host (utf8 @ [NUL]) host_name
                | _ \<Rightarrow> False))"

text \<open>The names for which a certificate is accepted.\<close>

definition dns_names :: "certificate \<Rightarrow> string set" where
  "dns_names cert = {n. n \<noteq> [] \<and> NUL \<notin> set n \<and> (\<exists>names. alt_names cert = Some names \<and> Dns_entry (Some n) \<in> set names)}"

definition cut_common_name :: "certificate \<Rightarrow> string set" where
  "cut_common_name cert = {c_text (n @ [NUL]) | n. n \<noteq> [] \<and> common_name cert = Some (Some n)}"

definition wildcard :: "string \<Rightarrow> bool" where
  "wildcard n \<longleftrightarrow> (\<exists>c m. n = CHR ''*'' # c # m)"

lemma compare_to_host_iff: "compare_to_host n host \<longleftrightarrow> wildcard (c_text n) \<or> c_text n = host"
proof -
  have "length (c_text n) > 1 \<and> c_text n ! 0 = CHR ''*'' \<longleftrightarrow> wildcard (c_text n)"
    unfolding wildcard_def by (cases "c_text n"; cases "tl (c_text n)") auto
  then show ?thesis by (simp add: compare_to_host_def Let_def)
qed

lemma c_text_whole: "length (c_text (n @ [NUL])) = length n \<longleftrightarrow> NUL \<notin> set n"
proof (cases "NUL \<in> set n")
  case True
  then obtain u v where "n = u @ NUL # v" "NUL \<notin> set u" by (metis split_list_first)
  then show ?thesis by (simp add: c_text_def takeWhile_append)
next
  case False
  then show ?thesis by (simp add: c_text_all)
qed

lemma alt_name_loop_dns:
  "alt_name_loop (Dns_entry (Some n) # es) host \<longleftrightarrow>
     n \<noteq> [] \<and> NUL \<notin> set n \<and> (wildcard n \<or> n = host) \<or> alt_name_loop es host"
proof (cases "NUL \<in> set n")
  case True
  then show ?thesis using c_text_whole [of n] by (simp add: Let_def)
next
  case False
  have "alt_name_loop (Dns_entry (Some n) # es) host \<longleftrightarrow> n \<noteq> [] \<and> compare_to_host (n @ [NUL]) host \<or> alt_name_loop es host"
    using c_text_all [OF False] by (simp add: Let_def)
  then show ?thesis using False by (simp only: compare_to_host_iff c_text_all [OF False]) simp
qed

lemma alt_name_loop_iff:
  "alt_name_loop es host \<longleftrightarrow> (\<exists>n. Dns_entry (Some n) \<in> set es \<and> n \<noteq> [] \<and> NUL \<notin> set n \<and> (wildcard n \<or> n = host))"
proof (induction es)
  case (Cons e es)
  show ?case
  proof (cases "\<exists>n. e = Dns_entry (Some n)")
    case True
    then obtain n where "e = Dns_entry (Some n)" by blast
    then show ?thesis using Cons by (simp only: alt_name_loop_dns list.set) blast
  next
    case False
    then have "alt_name_loop (e # es) host = alt_name_loop es host" by (cases "(e # es, host)" rule: alt_name_loop.cases) auto
    then show ?thesis using Cons False by auto
  qed
qed simp

section \<open>Setting up a connection\<close>

text \<open>The exceptions of the BIO are kept as flags, which are never set back.\<close>

record fp_pipe =
  hit_fiber_io_error :: bool
  hit_fiber_io_timeout_error :: bool

datatype pipe_outcome = Pipe_data string | Pipe_io_error | Pipe_timeout | Pipe_other_error

definition hit_error_flag :: "pipe_outcome \<Rightarrow> fp_pipe \<Rightarrow> fp_pipe" where
  "hit_error_flag out p = (case out of
     Pipe_io_error \<Rightarrow> p\<lparr>hit_fiber_io_error := True\<rparr>
   | Pipe_timeout \<Rightarrow> p\<lparr>hit_fiber_io_timeout_error := True\<rparr>
   | _ \<Rightarrow> p)"

definition fp_read :: "pipe_outcome \<Rightarrow> fp_pipe option \<Rightarrow> int \<times> string \<times> fp_pipe option" where
  "fp_read out p = (case p of
     None \<Rightarrow> (-1, [], None)
   | Some p \<Rightarrow> (case out of Pipe_data d \<Rightarrow> (int (length d), d, Some p) | _ \<Rightarrow> (-1, [], Some (hit_error_flag out p))))"

text \<open>\<open>write\<close> returns nothing; the result is the number of bytes it was given.\<close>

definition fp_write :: "pipe_outcome \<Rightarrow> nat \<Rightarrow> fp_pipe option \<Rightarrow> int \<times> fp_pipe option" where
  "fp_write out inl p = (case p of
     None \<Rightarrow> (-1, None)
   | Some p \<Rightarrow> (case out of Pipe_data d \<Rightarrow> (int inl, Some p) | _ \<Rightarrow> (-1, Some (hit_error_flag out p))))"

text \<open>\<open>fp_gets\<close>, over the bytes that can still be read: it stops at a newline, which it overwrites.\<close>

fun fp_gets_loop :: "nat \<Rightarrow> string \<Rightarrow> string \<times> string" where
  "fp_gets_loop 0 cs = ([], cs)"
| "fp_gets_loop (Suc n) [] = ([], [])"
| "fp_gets_loop (Suc n) (c # cs) =
     (if c = CHR 0x0A then ([], cs) else case fp_gets_loop n cs of (t, rest) \<Rightarrow> (c # t, rest))"

definition fp_gets :: "nat \<Rightarrow> string \<Rightarrow> nat \<times> string \<times> string" where
  "fp_gets sz cs = (case fp_gets_loop (sz - 1) cs of (t, rest) \<Rightarrow> (length (c_text (t @ [NUL])), t, rest))"

datatype tls_error = Tls_io | Tls_timeout | Tls_ssl nat | Tls_ssl_io nat

definition throw_ssl_error :: "fp_pipe \<Rightarrow> nat \<Rightarrow> tls_error" where
  "throw_ssl_error p err =
     (if hit_fiber_io_error p then Tls_io else if hit_fiber_io_timeout_error p then Tls_timeout else Tls_ssl err)"

definition throw_ssl_io_error :: "fp_pipe \<Rightarrow> nat \<Rightarrow> tls_error" where
  "throw_ssl_io_error p err =
     (if hit_fiber_io_error p then Tls_io else if hit_fiber_io_timeout_error p then Tls_timeout else Tls_ssl_io err)"

text \<open>The SSL object: the handshake, the certificate of the peer and the result of its verification, the two
  transfers and the flags in its BIO.\<close>

record 's ssl_api =
  ssl_do_handshake :: "'s \<Rightarrow> int \<times> 's"
  err_get_error :: "'s \<Rightarrow> nat"
  ssl_get_peer_certificate :: "'s \<Rightarrow> certificate option"
  ssl_get_verify_result :: "'s \<Rightarrow> nat"
  ssl_read :: "'s \<Rightarrow> nat \<Rightarrow> int \<times> string \<times> 's"
  ssl_write :: "'s \<Rightarrow> string \<Rightarrow> int \<times> 's"
  ssl_get_error :: "'s \<Rightarrow> int \<Rightarrow> nat"
  ssl_bio :: "'s \<Rightarrow> fp_pipe"

definition X509_V_OK :: nat where "X509_V_OK = 0"
definition X509_V_ERR_APPLICATION_VERIFICATION :: nat where "X509_V_ERR_APPLICATION_VERIFICATION = 50"

definition new_tls_pipe :: "'s ssl_api \<Rightarrow> bool \<Rightarrow> string option \<Rightarrow> 's \<Rightarrow> tls_error + 's" where
  "new_tls_pipe api verify_peer host_name s =
     (case ssl_do_handshake api s of (ret, s) \<Rightarrow>
        if ret \<noteq> 1 then Inl (throw_ssl_error (ssl_bio api s) (err_get_error api s))
        else if verify_peer then
          (if (case host_name of
                 None \<Rightarrow> False
               | Some h \<Rightarrow> \<not> verify_host_name (ssl_get_peer_certificate api s) h)
           then Inl (throw_ssl_error (ssl_bio api s) X509_V_ERR_APPLICATION_VERIFICATION)
           else if ssl_get_verify_result api s \<noteq> X509_V_OK
           then Inl (throw_ssl_error (ssl_bio api s) (ssl_get_verify_result api s))
           else Inr s)
        else Inr s)"

section \<open>Reading and writing\<close>

definition tls_read :: "'s ssl_api \<Rightarrow> nat \<Rightarrow> 's \<Rightarrow> (tls_error + string) \<times> 's" where
  "tls_read api len s =
     (case ssl_read api s len of (ret, d, s) \<Rightarrow>
        if ret \<le> 0 then (Inl (throw_ssl_io_error (ssl_bio api s) (ssl_get_error api s ret)), s) else (Inr d, s))"

partial_function (option) tls_write_loop :: "'s ssl_api \<Rightarrow> string \<Rightarrow> nat \<Rightarrow> 's \<Rightarrow> (tls_error option \<times> 's) option" where
  [code]: "tls_write_loop api buf tot_bytes s =
     (if tot_bytes < length buf then
        (case ssl_write api s (drop tot_bytes buf) of (written, s) \<Rightarrow>
           if written < 0 then Some (Some (throw_ssl_io_error (ssl_bio api s) (ssl_get_error api s written)), s)
           else tls_write_loop api buf (tot_bytes + nat written) s)
      else Some (None, s))"

definition tls_write :: "'s ssl_api \<Rightarrow> string \<Rightarrow> 's \<Rightarrow> (tls_error option \<times> 's) option" where
  "tls_write api buf s = tls_write_loop api buf 0 s"

text \<open>The calls of \<open>SSL_write\<close>: the number of bytes accepted before the call \<open>n\<close> and the state in which it is
  made, and what it returns.\<close>

fun write_at :: "'s ssl_api \<Rightarrow> string \<Rightarrow> nat \<Rightarrow> 's \<Rightarrow> nat \<Rightarrow> nat \<times> 's" where
  "write_at api buf tot s 0 = (tot, s)"
| "write_at api buf tot s (Suc n) =
     (case write_at api buf tot s n of (tot, s) \<Rightarrow> case ssl_write api s (drop tot buf) of (w, s') \<Rightarrow> (tot + nat w, s'))"

definition write_call :: "'s ssl_api \<Rightarrow> string \<Rightarrow> 's \<Rightarrow> nat \<Rightarrow> int \<times> 's" where
  "write_call api buf s n = (case write_at api buf 0 s n of (tot, s) \<Rightarrow> ssl_write api s (drop tot buf))"

definition write_goes_on :: "'s ssl_api \<Rightarrow> string \<Rightarrow> nat \<times> 's \<Rightarrow> bool" where
  "write_goes_on api buf = (\<lambda>(tot, s). tot < length buf \<and> 0 \<le> fst (ssl_write api s (drop tot buf)))"

lemma write_at_shift:
  "ssl_write api s (drop tot buf) = (w, s1) \<Longrightarrow> write_at api buf tot s (Suc n) = write_at api buf (tot + nat w) s1 n"
  by (induction n) auto

lemma tls_write_loop_at:
  assumes "\<forall>k < n. write_goes_on api buf (write_at api buf tot s k)"
  shows "tls_write_loop api buf tot s = (case write_at api buf tot s n of (tot, s) \<Rightarrow> tls_write_loop api buf tot s)"
  using assms
proof (induction n)
  case (Suc n)
  obtain t s1 where at: "write_at api buf tot s n = (t, s1)" by fastforce
  obtain w s2 where w: "ssl_write api s1 (drop t buf) = (w, s2)" by fastforce
  have "write_goes_on api buf (t, s1)" using Suc.prems at by (metis lessI)
  then have "tls_write_loop api buf t s1 = tls_write_loop api buf (t + nat w) s2"
    using w by (subst tls_write_loop.simps) (simp add: write_goes_on_def)
  moreover have "tls_write_loop api buf tot s = tls_write_loop api buf t s1" using Suc at by simp
  ultimately show ?case by (simp add: at w)
qed simp

lemma tls_write_loop_ends:
  "tls_write_loop api buf tot s = Some r \<Longrightarrow> \<exists>n. \<not> write_goes_on api buf (write_at api buf tot s n)"
proof (rule tls_write_loop.raw_induct
    [where P = "\<lambda>api buf tot s r. \<exists>n. \<not> write_goes_on api buf (write_at api buf tot s n)"], goal_cases)
  case (1 loop api buf tot s r)
  show ?case
  proof (cases "write_goes_on api buf (tot, s)")
    case False
    then show ?thesis by (intro exI [of _ 0]) simp
  next
    case True
    obtain w s1 where w: "ssl_write api s (drop tot buf) = (w, s1)" by fastforce
    then have "loop api buf (tot + nat w) s1 = Some r" using 1(3) True by (simp add: write_goes_on_def)
    then obtain n where "\<not> write_goes_on api buf (write_at api buf (tot + nat w) s1 n)" using 1(2) by blast
    then show ?thesis using write_at_shift [OF w] by (metis)
  qed
qed

lemma write_at_le:
  assumes "\<And>s d. fst (ssl_write api s d) \<le> int (length d)" "tot \<le> length buf"
  shows "fst (write_at api buf tot s n) \<le> length buf"
proof (induction n)
  case (Suc n)
  obtain t s1 where at: "write_at api buf tot s n = (t, s1)" by fastforce
  obtain w s2 where w: "ssl_write api s1 (drop t buf) = (w, s2)" by fastforce
  have "w \<le> int (length (drop t buf))" using assms(1) [of s1 "drop t buf"] w by simp
  then show ?case using Suc at w by simp
qed (simp add: assms)

lemma accepted_prefix:
  assumes "\<And>s d. fst (ssl_write api s d) \<le> int (length d)"
  shows "concat (map (\<lambda>k. take (nat (fst (write_call api buf s k))) (drop (fst (write_at api buf 0 s k)) buf)) [0..<n]) =
    take (fst (write_at api buf 0 s n)) buf"
proof (induction n)
  case (Suc n)
  then show ?case
    by (auto simp: write_call_def take_add split: prod.split)
qed simp

text \<open>A sequence that grows and is bounded is constant from some place on.\<close>

lemma settles:
  fixes f :: "nat \<Rightarrow> nat"
  assumes "\<And>n. f n \<le> f (Suc n)" "\<And>n. f n \<le> b"
  shows "\<exists>n0. \<forall>n \<ge> n0. f (Suc n) = f n"
proof -
  have "\<forall>y. True \<longrightarrow> f y < Suc b" using assms(2) by (simp add: less_Suc_eq_le)
  from ex_has_greatest_nat [of "\<lambda>_. True", OF _ this] obtain x where x: "\<And>y. f y \<le> f x" by auto
  have "f n = f x" if n: "x \<le> n" for n
    using lift_Suc_mono_le [of f, OF assms(1) n] x [of n] by simp
  then show ?thesis by (metis le_SucI)
qed

text \<open>When \<open>SSL_write\<close> returns zero, as it may when the connection was shut down, the loop of \<open>write\<close> never ends.\<close>

lemma tls_write_loop_spins:
  "tls_write_loop api buf tot s = Some r \<Longrightarrow> \<not> (tot < length buf \<and> (\<forall>s d. ssl_write api s d = (0, s)))"
proof (rule tls_write_loop.raw_induct
    [where P = "\<lambda>api buf tot s r. \<not> (tot < length buf \<and> (\<forall>s d. ssl_write api s d = (0, s)))"], goal_cases)
  case (1 loop api buf tot s r)
  show ?case
  proof
    assume a: "tot < length buf \<and> (\<forall>s d. ssl_write api s d = (0, s))"
    then have "loop api buf tot s = Some r" using 1(3) by simp
    then show False using 1(2) a by blast
  qed
qed

lemma tls_write_zero_spins:
  assumes "\<And>s d. ssl_write api s d = (0, s)" "buf \<noteq> []"
  shows "tls_write api buf s = None"
  using tls_write_loop_spins [of api buf 0 s] assms by (cases "tls_write_loop api buf 0 s") (auto simp: tls_write_def)

section \<open>Cookies of DTLS\<close>

text \<open>The address of a peer: port and address as bytes in memory.\<close>

datatype dtls_peer = Peer_inet "byte list" "byte list" | Peer_inet6 "byte list" "byte list" | Peer_unknown

definition compute_cookie :: "(byte list \<Rightarrow> byte list \<Rightarrow> byte list) \<Rightarrow> byte list \<Rightarrow> dtls_peer \<Rightarrow> byte list" where
  "compute_cookie hmac_sha1 cookie_secret peer = (case peer of
     Peer_inet port addr \<Rightarrow> hmac_sha1 cookie_secret (port @ addr)
   | Peer_inet6 port addr \<Rightarrow> hmac_sha1 cookie_secret (port @ addr)
   | Peer_unknown \<Rightarrow> [])"

definition generate_dtls_cookie :: "(byte list \<Rightarrow> byte list \<Rightarrow> byte list) \<Rightarrow> byte list \<Rightarrow> dtls_peer \<Rightarrow> byte list option" where
  "generate_dtls_cookie hmac_sha1 cookie_secret peer =
     (let md = compute_cookie hmac_sha1 cookie_secret peer in if length md \<noteq> 20 then None else Some md)"

definition verify_dtls_cookie :: "(byte list \<Rightarrow> byte list \<Rightarrow> byte list) \<Rightarrow> byte list \<Rightarrow> dtls_peer \<Rightarrow> byte list \<Rightarrow> bool" where
  "verify_dtls_cookie hmac_sha1 cookie_secret peer cookie =
     (let md = compute_cookie hmac_sha1 cookie_secret peer
      in length cookie = length md \<and> take (length cookie) md = cookie)"

fun dtls_peer_ok :: "dtls_peer \<Rightarrow> bool" where
  "dtls_peer_ok (Peer_inet port addr) \<longleftrightarrow> length port = 2 \<and> length addr = 4"
| "dtls_peer_ok (Peer_inet6 port addr) \<longleftrightarrow> length port = 2 \<and> length addr = 16"
| "dtls_peer_ok Peer_unknown \<longleftrightarrow> False"

text \<open>The text that is authenticated determines the peer.\<close>

fun cookie_text :: "dtls_peer \<Rightarrow> byte list" where
  "cookie_text (Peer_inet port addr) = port @ addr"
| "cookie_text (Peer_inet6 port addr) = port @ addr"
| "cookie_text Peer_unknown = []"

lemma cookie_text_inj:
  assumes "dtls_peer_ok p" "dtls_peer_ok q" "cookie_text p = cookie_text q"
  shows "p = q"
proof -
  have "length (cookie_text p) = length (cookie_text q)" using assms(3) by simp
  then show ?thesis using assms by (cases p; cases q) auto
qed

lemma compute_cookie_text: "dtls_peer_ok p \<Longrightarrow> compute_cookie hmac secret p = hmac secret (cookie_text p)"
  by (cases p) (simp_all add: compute_cookie_def)

text \<open>An empty cookie is accepted from a peer whose family is unknown.\<close>

lemma unknown_peer_accepted: "verify_dtls_cookie hmac secret Peer_unknown []"
  by (simp add: verify_dtls_cookie_def compute_cookie_def)

text \<open>A name that starts with a star, as in the certificate for all hosts of any domain, is accepted for every
  host; a common name is only compared up to its first zero byte.\<close>

lemma wildcard_any_host:
  "verify_host_name (Some \<lparr> alt_names = Some [Dns_entry (Some ''*.example.org'')], common_name = None \<rparr>) host"
  by (simp add: verify_host_name_def alt_name_loop_iff wildcard_def)

lemma common_name_cut:
  "NUL \<notin> set host \<Longrightarrow> host \<noteq> [] \<Longrightarrow>
     verify_host_name (Some \<lparr> alt_names = None, common_name = Some (Some (host @ NUL # rest)) \<rparr>) host"
  by (simp add: verify_host_name_def compare_to_host_iff c_text_def takeWhile_append)

section \<open>Properties\<close>

text \<open>
  C25: a certificate is accepted for a host exactly when one of its DNS names without zero bytes, or its common name up to
  the first zero byte, is that of the host or starts with a star and is longer.
\<close>
theorem host_name_exact:
  "verify_host_name (Some cert) host \<longleftrightarrow> (\<exists>n \<in> dns_names cert \<union> cut_common_name cert. wildcard n \<or> n = host)"
proof -
  have "(case alt_names cert of None \<Rightarrow> False | Some names \<Rightarrow> alt_name_loop names host) \<longleftrightarrow>
      (\<exists>n \<in> dns_names cert. wildcard n \<or> n = host)"
    by (auto simp: dns_names_def alt_name_loop_iff split: option.split)
  moreover have "(case common_name cert of Some (Some utf8) \<Rightarrow> length utf8 > 0 \<and> compare_to_host (utf8 @ [NUL]) host | _ \<Rightarrow> False) \<longleftrightarrow>
      (\<exists>n \<in> cut_common_name cert. wildcard n \<or> n = host)"
    by (auto simp: cut_common_name_def compare_to_host_iff split: option.split)
  ultimately show ?thesis by (simp add: verify_host_name_def bex_Un)
qed

text \<open>
  C24: a connection to a named host that is to be verified is only made after a complete handshake with a peer
  whose certificate was verified and has a name that is accepted for this host.
\<close>
theorem tls_peer_verified:
  assumes "new_tls_pipe api True (Some host) s = Inr s'"
  shows "ssl_do_handshake api s = (1, s') \<and> ssl_get_verify_result api s' = X509_V_OK \<and>
    (\<exists>cert. ssl_get_peer_certificate api s' = Some cert \<and>
       (\<exists>n \<in> dns_names cert \<union> cut_common_name cert. wildcard n \<or> n = host))"
proof -
  obtain ret s1 where h: "ssl_do_handshake api s = (ret, s1)" by fastforce
  have ok: "ret = 1" "s1 = s'" "ssl_get_verify_result api s' = X509_V_OK" "verify_host_name (ssl_get_peer_certificate api s') host"
    using assms h by (auto simp: new_tls_pipe_def split: if_splits)
  obtain cert where cert: "ssl_get_peer_certificate api s' = Some cert" using ok(4) by (auto simp: verify_host_name_def split: option.splits)
  have "(case alt_names cert of None \<Rightarrow> False | Some names \<Rightarrow> alt_name_loop names host) \<or>
      (case common_name cert of Some (Some utf8) \<Rightarrow> length utf8 > 0 \<and> compare_to_host (utf8 @ [NUL]) host | _ \<Rightarrow> False)"
    using ok(4) cert by (simp add: verify_host_name_def split: if_splits)
  then show ?thesis using h ok cert
    by (auto simp: dns_names_def cut_common_name_def alt_name_loop_iff compare_to_host_iff split: option.splits)
qed

text \<open>
  C26: writing less than 2^31 bytes to a connection, whatever \<open>SSL_write\<close> returns (when it is the number of bytes
  written, this is at most the number it was given).  Each call is given all bytes that the calls before
  have not accepted, so that the bytes are accepted in order, each once; \<open>write\<close> returns when all are
  accepted, and throws the error of the first call that fails.  It does neither exactly when from some call on
  \<open>SSL_write\<close> always returns zero, which is documented as a failure but not treated as one.
\<close>
theorem tls_write_result:
  assumes "length buf < 2 ^ 31" "\<And>s d. fst (ssl_write api s d) \<le> int (length d)"
  shows "case tls_write api buf s of
      None \<Rightarrow> \<exists>n0. \<forall>n \<ge> n0. fst (write_at api buf 0 s n) < length buf \<and> fst (write_call api buf s n) = 0
    | Some (err, s') \<Rightarrow> \<exists>n.
        (\<forall>k < n. fst (write_at api buf 0 s k) < length buf \<and> 0 \<le> fst (write_call api buf s k)) \<and>
        concat (map (\<lambda>k. take (nat (fst (write_call api buf s k))) (drop (fst (write_at api buf 0 s k)) buf)) [0..<n]) =
          take (fst (write_at api buf 0 s n)) buf \<and>
        (case err of
           None \<Rightarrow> write_at api buf 0 s n = (length buf, s')
         | Some e \<Rightarrow> fst (write_at api buf 0 s n) < length buf \<and> fst (write_call api buf s n) < 0 \<and>
             s' = snd (write_call api buf s n) \<and>
             e = throw_ssl_io_error (ssl_bio api s') (ssl_get_error api s' (fst (write_call api buf s n))))"
proof -
  let ?at = "write_at api buf 0 s"
  have goes: "write_goes_on api buf (?at k) \<longleftrightarrow> fst (?at k) < length buf \<and> 0 \<le> fst (write_call api buf s k)" for k
    by (simp add: write_goes_on_def write_call_def split: prod.split)
  have le: "fst (?at n) \<le> length buf" for n using write_at_le [OF assms(2), of 0 buf s n] by simp
  show ?thesis
  proof (cases "\<exists>n. \<not> write_goes_on api buf (?at n)")
    case True
    define n where "n = (LEAST n. \<not> write_goes_on api buf (?at n))"
    have n: "\<not> write_goes_on api buf (?at n)" "\<forall>k < n. write_goes_on api buf (?at k)"
      using LeastI_ex [OF True] not_less_Least unfolding n_def by blast+
    obtain tot s1 where at: "?at n = (tot, s1)" by fastforce
    obtain w s2 where w: "ssl_write api s1 (drop tot buf) = (w, s2)" by fastforce
    have call: "write_call api buf s n = (w, s2)" by (simp add: write_call_def at w)
    have loop: "tls_write api buf s = tls_write_loop api buf tot s1"
      using tls_write_loop_at [OF n(2)] by (simp add: tls_write_def at)
    have before: "\<forall>k < n. fst (?at k) < length buf \<and> 0 \<le> fst (write_call api buf s k)" using n(2) goes by blast
    note accepted = accepted_prefix [where buf = buf and s = s and n = n, OF assms(2)]
    show ?thesis
    proof (cases "tot < length buf")
      case lt: True
      then have "w < 0" using n(1) at w by (simp add: write_goes_on_def)
      then have "tls_write api buf s = Some (Some (throw_ssl_io_error (ssl_bio api s2) (ssl_get_error api s2 w)), s2)"
        using loop lt w by (simp add: tls_write_loop.simps)
      then show ?thesis
        using before accepted at call lt \<open>w < 0\<close> by (auto intro!: exI [of _ n])
    next
      case False
      then have "tls_write api buf s = Some (None, s1)" "tot = length buf"
        using loop le [of n] at by (simp_all add: tls_write_loop.simps)
      then show ?thesis using before accepted at by (auto intro!: exI [of _ n])
    qed
  next
    case False
    then have "tls_write api buf s = None"
      using tls_write_loop_ends [of api buf 0 s] by (cases "tls_write_loop api buf 0 s") (auto simp: tls_write_def)
    moreover have on: "fst (?at n) < length buf" "0 \<le> fst (write_call api buf s n)" for n using False goes by blast+
    have next_at: "fst (?at (Suc n)) = fst (?at n) + nat (fst (write_call api buf s n))" for n
      by (simp add: write_call_def split: prod.split)
    obtain n0 where "\<forall>n \<ge> n0. fst (?at (Suc n)) = fst (?at n)"
      using settles [of "\<lambda>n. fst (?at n)" "length buf", OF _ le] next_at by auto
    then have "\<forall>n \<ge> n0. fst (write_call api buf s n) = 0" using on next_at by (metis add_cancel_right_right nat_0_iff order_antisym)
    ultimately show ?thesis using on by auto
  qed
qed

text \<open>
  the cookie that was made for a peer is accepted from this peer, and from another one only if HMAC-SHA1 gives the
  same digest for two different texts.
\<close>
theorem dtls_cookie_bound:
  assumes "\<And>k t. length (hmac k t) = 20" "dtls_peer_ok p" "dtls_peer_ok q"
  shows "\<exists>cookie. generate_dtls_cookie hmac secret p = Some cookie \<and> verify_dtls_cookie hmac secret p cookie \<and>
    (verify_dtls_cookie hmac secret q cookie \<longleftrightarrow> hmac secret (cookie_text q) = hmac secret (cookie_text p)) \<and>
    (p = q \<longleftrightarrow> cookie_text p = cookie_text q)"
  using assms cookie_text_inj [OF assms(2,3)]
  by (auto simp: generate_dtls_cookie_def verify_dtls_cookie_def compute_cookie_text)

section \<open>Witnesses\<close>

text \<open>An SSL object that is the list of the bytes it was given, at most two at a time.\<close>

definition echo_ssl :: "string ssl_api" where
  "echo_ssl = \<lparr> ssl_do_handshake = (\<lambda>s. (1, s)), err_get_error = (\<lambda>_. 0),
     ssl_get_peer_certificate = (\<lambda>_. Some \<lparr> alt_names = Some [Dns_entry (Some ''a.org'')], common_name = None \<rparr>),
     ssl_get_verify_result = (\<lambda>_. 0), ssl_read = (\<lambda>s n. (0, [], s)),
     ssl_write = (\<lambda>s d. (int (length (take 2 d)), s @ take 2 d)), ssl_get_error = (\<lambda>_ _. 0),
     ssl_bio = (\<lambda>_. \<lparr> hit_fiber_io_error = False, hit_fiber_io_timeout_error = False \<rparr>) \<rparr>"

lemma tls_peer_verified_witness:
  "\<exists>n \<in> dns_names \<lparr> alt_names = Some [Dns_entry (Some ''a.org'')], common_name = None \<rparr> \<union>
     cut_common_name \<lparr> alt_names = Some [Dns_entry (Some ''a.org'')], common_name = None \<rparr>. wildcard n \<or> n = ''a.org''"
proof -
  have "new_tls_pipe echo_ssl True (Some ''a.org'') [] = Inr []"
    by (simp add: new_tls_pipe_def echo_ssl_def X509_V_OK_def verify_host_name_def alt_name_loop_iff)
  then show ?thesis using tls_peer_verified [of echo_ssl "''a.org''" "[]" "[]"] by (simp add: echo_ssl_def)
qed

lemma tls_write_result_witness:
  "tls_write echo_ssl ''hello'' [] = Some (None, ''hello'') \<and>
    (\<exists>n. write_at echo_ssl ''hello'' 0 [] n = (5, ''hello'') \<and>
      concat (map (\<lambda>k. take (nat (fst (write_call echo_ssl ''hello'' [] k)))
        (drop (fst (write_at echo_ssl ''hello'' 0 [] k)) ''hello'')) [0..<n]) = ''hello'')"
proof -
  have ret: "tls_write echo_ssl ''hello'' [] = Some (None, ''hello'')"
    by (simp add: tls_write_def tls_write_loop.simps echo_ssl_def)
  have "fst (ssl_write echo_ssl s d) \<le> int (length d)" for s d by (simp add: echo_ssl_def)
  then have "\<exists>n. concat (map (\<lambda>k. take (nat (fst (write_call echo_ssl ''hello'' [] k)))
        (drop (fst (write_at echo_ssl ''hello'' 0 [] k)) ''hello'')) [0..<n]) =
          take (fst (write_at echo_ssl ''hello'' 0 [] n)) ''hello'' \<and>
      write_at echo_ssl ''hello'' 0 [] n = (length ''hello'', ''hello'')"
    using tls_write_result [of "''hello''" echo_ssl "[]"] unfolding ret option.case prod.case
    by (simp del: write_at.simps) blast
  then obtain n where n: "concat (map (\<lambda>k. take (nat (fst (write_call echo_ssl ''hello'' [] k)))
        (drop (fst (write_at echo_ssl ''hello'' 0 [] k)) ''hello'')) [0..<n]) =
          take (fst (write_at echo_ssl ''hello'' 0 [] n)) ''hello''"
      "write_at echo_ssl ''hello'' 0 [] n = (length ''hello'', ''hello'')" by blast
  have "take (fst (write_at echo_ssl ''hello'' 0 [] n)) ''hello'' = ''hello''" unfolding n(2) by simp
  then have "concat (map (\<lambda>k. take (nat (fst (write_call echo_ssl ''hello'' [] k)))
        (drop (fst (write_at echo_ssl ''hello'' 0 [] k)) ''hello'')) [0..<n]) = ''hello''" using n(1) by (rule trans [rotated])
  moreover have "write_at echo_ssl ''hello'' 0 [] n = (5, ''hello'')" unfolding n(2) by simp
  ultimately show ?thesis using ret by blast
qed

definition padded :: "byte list \<Rightarrow> byte list \<Rightarrow> byte list" where
  "padded k t = take 20 (t @ replicate 20 0)"

lemma dtls_cookie_bound_witness:
  "\<exists>cookie. generate_dtls_cookie padded [] (Peer_inet [1, 2] [10, 0, 0, 1]) = Some cookie \<and>
    verify_dtls_cookie padded [] (Peer_inet [1, 2] [10, 0, 0, 1]) cookie \<and>
    \<not> verify_dtls_cookie padded [] (Peer_inet [1, 2] [10, 0, 0, 2]) cookie"
proof -
  have "padded [] (cookie_text (Peer_inet [1, 2] [10, 0, 0, 2])) \<noteq> padded [] (cookie_text (Peer_inet [1, 2] [10, 0, 0, 1]))"
    by (simp add: padded_def)
  moreover have "length (padded k t) = 20" for k t by (simp add: padded_def)
  ultimately show ?thesis
    using dtls_cookie_bound [of padded "Peer_inet [1, 2] [10, 0, 0, 1]" "Peer_inet [1, 2] [10, 0, 0, 2]" "[]"] by auto
qed

end
