(* ===== verification/Sqs.thy ===== *)
theory Sqs
  imports Prelude Systems
begin

text \<open>
  The listener of a queue of messages, \<open>src/cpp/aws_sqs.cpp\<close> and \<open>aws_sqs.h\<close>: receiving, the fibers that handle
  messages, the set of messages that are kept invisible, their deletion, and the text of a message.  The service, JSON and
  the handlers are parameters: each step takes any outcome of them.  A message that is received has a new receipt
  handle, the number of messages received before it.  What runs under \<open>_mtx\<close> is one step.
\<close>

section \<open>The listener\<close>

definition max_in_flight_fibers :: nat where "max_in_flight_fibers = 1000"
definition visibility_immediate_retry_time :: nat where "visibility_immediate_retry_time = 5"

text \<open>\<open>with_del\<close>: the handler is given a function that ends the message.\<close>

record sqs_config =
  single_concurrent_message :: bool
  max_read_messages :: nat
  with_del :: bool

text \<open>The fiber of a message: not yet kept alive, before the handler, before it is made visible
  again, before the end of the fiber, and gone; or ended by an exception out of a \<open>catch\<close> block, which
  \<open>fiber::start_fiber\<close> logs, without having counted itself out.\<close>

datatype job = J_started | J_alive | J_failed | J_ending | J_gone | J_escaped

text \<open>\<open>listening\<close> counts the calls of \<open>ReceiveMessageAsync\<close> that have not completed, or are about to be made by a
  fiber, \<open>stalling\<close> the callbacks that wait before they start the next one.  \<open>raised\<close> holds the messages whose handler threw.\<close>

record sqs =
  num_fibers :: nat
  exit_now :: bool
  consecutive_errors :: nat
  alive_set :: "nat set"
  jobs :: "job list"
  listening :: nat
  stalling :: nat
  deleting :: "nat list"
  made_visible :: "(nat \<times> nat) list"
  resent :: "nat list"
  raised :: "nat set"

definition new_listener :: sqs where
  "new_listener = \<lparr> num_fibers = 0, exit_now = False, consecutive_errors = 0, alive_set = {}, jobs = [], listening = 1,
     stalling = 0, deleting = [], made_visible = [], resent = [], raised = {} \<rparr>"

definition start_listen :: "sqs \<Rightarrow> sqs" where
  "start_listen s = s\<lparr>listening := listening s + 1\<rparr>"

text \<open>The callback of \<open>ReceiveMessageAsync\<close>: a failure, or the number of messages.  \<open>continue_after_timeout\<close> is asked
  when there are none.\<close>

definition received :: "sqs_config \<Rightarrow> nat option \<Rightarrow> bool \<Rightarrow> sqs \<Rightarrow> sqs" where
  "received c out continue_after_timeout s =
     (let s = s\<lparr>listening := listening s - 1\<rparr>;
          s = (case out of
                 None \<Rightarrow> s\<lparr>consecutive_errors := consecutive_errors s + 1\<rparr>
               | Some n \<Rightarrow>
                   (let s = s\<lparr>consecutive_errors := 0\<rparr>
                    in if n > 0 then s\<lparr>num_fibers := num_fibers s + n, jobs := jobs s @ replicate n J_started\<rparr>
                       else if \<not> continue_after_timeout then s\<lparr>exit_now := True\<rparr> else s))
      in if consecutive_errors s < 1000 \<and>
            (out = None \<or> \<not> single_concurrent_message c \<or> out = Some 0) \<and> \<not> exit_now s
         then s\<lparr>stalling := stalling s + 1\<rparr> else s)"

definition restart_listen :: "sqs \<Rightarrow> sqs" where
  "restart_listen s = start_listen (s\<lparr>stalling := stalling s - 1\<rparr>)"

definition set_job :: "nat \<Rightarrow> job \<Rightarrow> sqs \<Rightarrow> sqs" where
  "set_job k j s = s\<lparr>jobs := (jobs s)[k := j]\<rparr>"

definition add_to_keep_alive :: "nat \<Rightarrow> sqs \<Rightarrow> sqs" where
  "add_to_keep_alive m s = s\<lparr>alive_set := insert m (alive_set s)\<rparr>"

definition remove_from_keep_alive :: "nat \<Rightarrow> bool \<Rightarrow> nat \<Rightarrow> sqs \<Rightarrow> sqs" where
  "remove_from_keep_alive m reset_visibility visibility_timeout s =
     (let s = s\<lparr>alive_set := alive_set s - {m}\<rparr>
      in if reset_visibility then s\<lparr>made_visible := made_visible s @ [(m, visibility_timeout)]\<rparr> else s)"

definition delete_message :: "nat \<Rightarrow> sqs \<Rightarrow> sqs" where
  "delete_message m s = s\<lparr>deleting := deleting s @ [m]\<rparr>"

definition message_deleted :: "nat \<Rightarrow> sqs \<Rightarrow> sqs" where
  "message_deleted m s = remove_from_keep_alive m False 0 (s\<lparr>deleting := remove1 m (deleting s)\<rparr>)"

definition listen_again :: "sqs_config \<Rightarrow> sqs \<Rightarrow> sqs" where
  "listen_again c s = (if single_concurrent_message c \<and> \<not> exit_now s then start_listen s else s)"

text \<open>What a handler does.  When it meets the limit of the service the message is sent once more, inside the \<open>catch\<close>
  block, and then deleted; \<open>aws_throttle\<close> gives up after a hundred attempts, \<open>aws_check\<close> throws for any other
  error: whether the block is completed is the argument of \<open>H_throttled\<close>.\<close>

datatype handled = H_returned bool | H_throttled bool | H_threw

text \<open>\<open>js_wrap\<close> makes such a handler of one that is given the parsed text.\<close>

datatype js_outcome = Js_returned bool | Js_inval_message | Js_exception | Js_throttled bool | Js_threw

definition js_wrap :: "bool \<Rightarrow> js_outcome \<Rightarrow> handled" where
  "js_wrap parsed out =
     (if parsed then
        (case out of
           Js_returned b \<Rightarrow> H_returned b
         | Js_inval_message \<Rightarrow> H_returned True
         | Js_exception \<Rightarrow> H_returned False
         | Js_throttled b \<Rightarrow> H_throttled b
         | Js_threw \<Rightarrow> H_threw)
      else H_returned True)"

text \<open>The same with the function that ends a message: whether it is called with \<open>true\<close> and 0.\<close>

definition js_wrap_del :: "bool \<Rightarrow> js_outcome \<Rightarrow> handled \<times> bool" where
  "js_wrap_del parsed out = (js_wrap parsed out, \<not> parsed \<or> out = Js_inval_message)"

definition process_msg :: "sqs_config \<Rightarrow> nat \<Rightarrow> handled \<Rightarrow> sqs \<Rightarrow> sqs" where
  "process_msg c m h s =
     (case h of
        H_returned success \<Rightarrow>
          (let s = (if \<not> with_del c then listen_again c (if success then delete_message m s else s) else s)
           in set_job m (if \<not> success then J_failed else J_ending) s)
      | H_throttled True \<Rightarrow> set_job m J_ending (delete_message m (s\<lparr>resent := resent s @ [m]\<rparr>))
      | H_throttled False \<Rightarrow> set_job m J_escaped s
      | H_threw \<Rightarrow> set_job m J_ending (s\<lparr>raised := insert m (raised s)\<rparr>))"

definition job_failed :: "nat \<Rightarrow> sqs \<Rightarrow> sqs" where
  "job_failed m s = set_job m J_ending (remove_from_keep_alive m True visibility_immediate_retry_time s)"

definition job_end :: "nat \<Rightarrow> sqs \<Rightarrow> sqs" where
  "job_end m s = set_job m J_gone (s\<lparr>num_fibers := num_fibers s - 1\<rparr>)"

text \<open>The function that a handler is given.\<close>

definition del_callback :: "sqs_config \<Rightarrow> nat \<Rightarrow> bool \<Rightarrow> nat \<Rightarrow> sqs \<Rightarrow> sqs" where
  "del_callback c m delete_it visibility_timeout s =
     listen_again c (if delete_it then delete_message m s else remove_from_keep_alive m True visibility_timeout s)"

definition job_at :: "nat \<Rightarrow> job \<Rightarrow> sqs \<Rightarrow> bool" where
  "job_at m j s \<longleftrightarrow> m < length (jobs s) \<and> jobs s ! m = j"

definition read_limit :: "sqs_config \<Rightarrow> nat" where
  "read_limit c = (if single_concurrent_message c then 1 else max_read_messages c)"

inductive sqs_step :: "sqs_config \<Rightarrow> sqs \<Rightarrow> sqs \<Rightarrow> bool" for c where
  sqs_failed: "0 < listening s \<Longrightarrow> sqs_step c s (received c None b s)"
| sqs_received: "0 < listening s \<Longrightarrow> n \<le> read_limit c \<Longrightarrow> sqs_step c s (received c (Some n) b s)"
| sqs_restart: "0 < stalling s \<Longrightarrow> num_fibers s < max_in_flight_fibers \<Longrightarrow> sqs_step c s (restart_listen s)"
| sqs_alive: "job_at m J_started s \<Longrightarrow> sqs_step c s (set_job m J_alive (add_to_keep_alive m s))"
| sqs_process: "job_at m J_alive s \<Longrightarrow> sqs_step c s (process_msg c m h s)"
| sqs_retry: "job_at m J_failed s \<Longrightarrow> sqs_step c s (job_failed m s)"
| sqs_end: "job_at m J_ending s \<Longrightarrow> sqs_step c s (job_end m s)"
| sqs_deleted: "m \<in> set (deleting s) \<Longrightarrow> sqs_step c s (message_deleted m s)"
| sqs_del: "with_del c \<Longrightarrow> m < length (jobs s) \<Longrightarrow> jobs s ! m \<noteq> J_started \<Longrightarrow> sqs_step c s (del_callback c m delete_it t s)"

section \<open>Invariants\<close>

definition waiting_jobs :: "sqs \<Rightarrow> int" where
  "waiting_jobs s = count_if (\<lambda>j. j = J_started \<or> j = J_alive) (jobs s)"

text \<open>The counter of fibers, and its bound while a call for messages is outstanding.\<close>

definition fibers_bounded :: "sqs_config \<Rightarrow> sqs \<Rightarrow> bool" where
  "fibers_bounded c s \<longleftrightarrow> int (num_fibers s) = count_if (\<lambda>j. j \<noteq> J_gone) (jobs s) \<and>
     (\<not> single_concurrent_message c \<longrightarrow> listening s + stalling s \<le> 1 \<and>
        num_fibers s < max_in_flight_fibers + read_limit c \<and>
        (0 < listening s \<longrightarrow> num_fibers s < max_in_flight_fibers)) \<and>
     (single_concurrent_message c \<and> \<not> with_del c \<longrightarrow> int (listening s + stalling s) + waiting_jobs s \<le> 1)"

text \<open>A message that is kept alive is about to be deleted or handled, or its handler threw, or its fiber ended by an
  exception, or it is the handler that ends it.\<close>

definition alive_accounted :: "sqs_config \<Rightarrow> sqs \<Rightarrow> bool" where
  "alive_accounted c s \<longleftrightarrow> (\<not> with_del c \<longrightarrow>
     (\<forall>m \<in> alive_set s. m \<in> set (deleting s) \<or> job_at m J_alive s \<or> job_at m J_failed s \<or> job_at m J_escaped s \<or>
        m \<in> raised s))"

lemma fibers_bounded_init: "fibers_bounded c new_listener"
  by (simp add: fibers_bounded_def new_listener_def waiting_jobs_def max_in_flight_fibers_def)

lemma count_if_nonneg: "0 \<le> count_if P xs"
  by (simp add: count_if_def)

lemma fibers_bounded_received:
  assumes "fibers_bounded c s" "0 < listening s" "case out of None \<Rightarrow> True | Some n \<Rightarrow> n \<le> read_limit c"
  shows "fibers_bounded c (received c out b s)"
proof (cases out)
  case None
  then show ?thesis using assms(1,2) by (auto simp: fibers_bounded_def received_def waiting_jobs_def Let_def)
next
  case (Some n)
  then have n: "n \<le> read_limit c" using assms(3) by simp
  show ?thesis
  proof (cases "single_concurrent_message c")
    case True
    then have "n \<le> 1" using n by (simp add: read_limit_def)
    then show ?thesis using Some True assms(1,2)
      by (auto simp: fibers_bounded_def received_def waiting_jobs_def Let_def)
  next
    case False
    then show ?thesis using Some n assms(1,2)
      by (auto simp: fibers_bounded_def received_def waiting_jobs_def Let_def)
  qed
qed

lemma fibers_bounded_step:
  assumes "fibers_bounded c s" "sqs_step c s s'"
  shows "fibers_bounded c s'"
  using assms(2)
proof cases
  case (sqs_failed b)
  then show ?thesis using fibers_bounded_received [OF assms(1), of None] by simp
next
  case (sqs_received n b)
  then show ?thesis using fibers_bounded_received [OF assms(1), of "Some n"] by simp
next
  case sqs_restart
  then show ?thesis using assms(1) by (auto simp: fibers_bounded_def restart_listen_def start_listen_def waiting_jobs_def)
next
  case (sqs_alive m)
  then show ?thesis using assms(1)
    by (simp add: fibers_bounded_def set_job_def add_to_keep_alive_def waiting_jobs_def job_at_def count_if_update)
next
  case (sqs_process m h)
  have "1 \<le> waiting_jobs s" using sqs_process(2) count_if_pos [of m "jobs s" "\<lambda>j. j = J_started \<or> j = J_alive"]
    by (simp add: job_at_def waiting_jobs_def)
  then show ?thesis using assms(1) sqs_process
    by (auto simp: fibers_bounded_def process_msg_def set_job_def listen_again_def start_listen_def delete_message_def
        waiting_jobs_def job_at_def count_if_update Let_def split: handled.split bool.split)
next
  case (sqs_retry m)
  then show ?thesis using assms(1)
    by (simp add: fibers_bounded_def set_job_def job_failed_def remove_from_keep_alive_def waiting_jobs_def job_at_def count_if_update)
next
  case (sqs_end m)
  then have "0 < count_if (\<lambda>j. j \<noteq> J_gone) (jobs s)" using count_if_pos [of m "jobs s" "\<lambda>j. j \<noteq> J_gone"]
    by (simp add: job_at_def)
  then have "0 < num_fibers s" using assms(1) by (simp add: fibers_bounded_def)
  then show ?thesis using assms(1) sqs_end
    by (auto simp: fibers_bounded_def set_job_def job_end_def waiting_jobs_def job_at_def count_if_update)
next
  case (sqs_deleted m)
  then show ?thesis using assms(1)
    by (simp add: fibers_bounded_def message_deleted_def remove_from_keep_alive_def waiting_jobs_def)
next
  case (sqs_del m d t)
  then show ?thesis using assms(1)
    by (auto simp: fibers_bounded_def del_callback_def listen_again_def start_listen_def delete_message_def remove_from_keep_alive_def
        waiting_jobs_def)
qed

lemma alive_accounted_init: "alive_accounted c new_listener"
  by (simp add: alive_accounted_def new_listener_def)

lemma alive_accounted_step:
  assumes "alive_accounted c s" "sqs_step c s s'"
  shows "alive_accounted c s'"
  using assms(2)
proof cases
  case (sqs_failed b)
  then show ?thesis using assms(1) by (auto simp: alive_accounted_def received_def job_at_def Let_def)
next
  case (sqs_received n b)
  then show ?thesis using assms(1) by (auto simp: alive_accounted_def received_def job_at_def nth_append Let_def)
next
  case sqs_restart
  then show ?thesis using assms(1) by (auto simp: alive_accounted_def restart_listen_def start_listen_def job_at_def)
next
  case (sqs_alive m)
  then show ?thesis using assms(1)
    by (auto simp: alive_accounted_def add_to_keep_alive_def set_job_def job_at_def nth_list_update)
next
  case (sqs_process m h)
  then show ?thesis using assms(1)
    by (auto simp: alive_accounted_def process_msg_def job_at_def set_job_def nth_list_update listen_again_def start_listen_def
        delete_message_def Let_def split: handled.split bool.split)
next
  case (sqs_retry m)
  then show ?thesis using assms(1)
    by (auto simp: alive_accounted_def job_failed_def job_at_def set_job_def nth_list_update remove_from_keep_alive_def)
next
  case (sqs_end m)
  then show ?thesis using assms(1)
    by (auto simp: alive_accounted_def job_end_def job_at_def set_job_def nth_list_update)
next
  case (sqs_deleted m)
  then show ?thesis using assms(1)
    by (auto simp: alive_accounted_def message_deleted_def remove_from_keep_alive_def job_at_def)
next
  case (sqs_del m d t)
  then show ?thesis by (simp add: alive_accounted_def)
qed

interpretation sqs: transition_invariant "\<lambda>s. s = new_listener" "sqs_step c" "\<lambda>s. fibers_bounded c s \<and> alive_accounted c s"
  for c
  by unfold_locales (auto simp: fibers_bounded_init alive_accounted_init intro: fibers_bounded_step alive_accounted_step)

lemma sqs_reached: "(sqs_step c)\<^sup>*\<^sup>* new_listener s \<Longrightarrow> fibers_bounded c s \<and> alive_accounted c s"
  by (rule sqs.reachable_inv) auto

section \<open>The visibility of messages\<close>

text \<open>The entries of \<open>set_visibility_timeout\<close>, in requests of at most ten.\<close>

fun visibility_loop :: "nat \<Rightarrow> 'a list list \<Rightarrow> 'a list \<Rightarrow> 'a list list" where
  "visibility_loop index entries_v [] = entries_v"
| "visibility_loop index entries_v (m # ms) =
     (let v = (if index mod 10 = 0 then entries_v @ [[]] else entries_v)
      in visibility_loop (index + 1) (butlast v @ [last v @ [m]]) ms)"

lemma visibility_loop_spec:
  assumes "\<forall>b \<in> set v. b \<noteq> [] \<and> length b \<le> 10" "index mod 10 \<noteq> 0 \<longrightarrow> v \<noteq> [] \<and> length (last v) = index mod 10"
  shows "concat (visibility_loop index v ms) = concat v @ ms \<and> (\<forall>b \<in> set (visibility_loop index v ms). b \<noteq> [] \<and> length b \<le> 10)"
  using assms
proof (induction index v ms rule: visibility_loop.induct)
  case (2 index v m ms)
  let ?v = "if index mod 10 = 0 then v @ [[]] else v"
  let ?w = "butlast ?v @ [last ?v @ [m]]"
  have v: "?v \<noteq> []" "length (last ?v) = index mod 10" using 2(3) by auto
  then have "length (last ?v @ [m]) \<le> 10" by (simp add: Suc_le_eq)
  moreover have "\<forall>b \<in> set (butlast ?v). b \<noteq> [] \<and> length b \<le> 10" using 2(2) by (auto dest: in_set_butlastD)
  ultimately have w: "\<forall>b \<in> set ?w. b \<noteq> [] \<and> length b \<le> 10" by auto
  have "Suc index mod 10 \<noteq> 0 \<longrightarrow> ?w \<noteq> [] \<and> length (last ?w) = Suc index mod 10" using v by (auto simp: mod_Suc)
  moreover have "concat ?w = concat v @ [m]"
  proof -
    have "concat ?w = concat (butlast ?v @ [last ?v]) @ [m]" by simp
    also have "butlast ?v @ [last ?v] = ?v" using v(1) by (rule append_butlast_last_id)
    finally show ?thesis by simp
  qed
  ultimately show ?case using 2(1) [OF refl w] by (simp add: Let_def)
qed simp

section \<open>The text of a message\<close>

text \<open>\<open>find\<close> of a string from a position on.\<close>

fun find_first :: "string \<Rightarrow> string \<Rightarrow> nat option" where
  "find_first pat [] = (if pat = [] then Some 0 else None)"
| "find_first pat (c # cs) = (if take (length pat) (c # cs) = pat then Some 0 else map_option Suc (find_first pat cs))"

definition str_find :: "string \<Rightarrow> string \<Rightarrow> nat \<Rightarrow> nat option" where
  "str_find s pat pos = map_option ((+) pos) (find_first pat (drop pos s))"

lemma find_first_take: "find_first pat s = Some i \<Longrightarrow> i + length pat \<le> length s \<and> take (length pat) (drop i s) = pat"
proof (induction s arbitrary: i)
  case (Cons c cs)
  show ?case
  proof (cases "take (length pat) (c # cs) = pat")
    case True
    then have "length pat \<le> length (c # cs)" by (metis length_take min.cobounded1)
    then show ?thesis using Cons.prems True by auto
  next
    case False
    then show ?thesis using Cons by auto
  qed
qed (auto split: if_splits)

text \<open>The loop of \<open>replace_all\<close>, for patterns that are not empty.\<close>

function replace_loop :: "string \<Rightarrow> string \<Rightarrow> string \<Rightarrow> nat \<Rightarrow> string" where
  "replace_loop s pat rep pos =
     (case str_find s pat pos of
        None \<Rightarrow> s
      | Some fpos \<Rightarrow>
          if pat = [] then s
          else replace_loop (take fpos s @ rep @ drop (fpos + length pat) s) pat rep (fpos + length rep))"
  by pat_completeness auto
termination
proof (relation "measure (\<lambda>(s, pat, rep, pos). length s - pos)")
  fix s pat rep :: string and pos fpos
  assume f: "str_find s pat pos = Some fpos" "pat \<noteq> []"
  then obtain i where i: "find_first pat (drop pos s) = Some i" "fpos = pos + i" by (auto simp: str_find_def)
  then have "i + length pat \<le> length s - pos" using find_first_take [OF i(1)] by simp
  then show "((take fpos s @ rep @ drop (fpos + length pat) s, pat, rep, fpos + length rep), s, pat, rep, pos)
      \<in> measure (\<lambda>(s, pat, rep, pos). length s - pos)"
    using f(2) i(2) by (cases pat) auto
qed simp

declare replace_loop.simps [simp del]

definition replace_all :: "string \<Rightarrow> string \<Rightarrow> string \<Rightarrow> string" where
  "replace_all s pat rep = replace_loop s pat rep 0"

definition get_body :: "string \<Rightarrow> string" where
  "get_body m =
     (let body = m;
          body = replace_all body ''&amp;'' ''&'';
          body = replace_all body ''&quot;'' [CHR 0x22];
          body = replace_all body ''&apos;'' [CHR 0x27];
          body = replace_all body ''&lt;'' ''<'';
          body = replace_all body ''&gt;'' ''>''
      in takeWhile (\<lambda>c. c \<noteq> CHR 0x00) body)"

text \<open>The same from left to right.\<close>

fun replaced :: "string \<Rightarrow> string \<Rightarrow> string \<Rightarrow> nat \<Rightarrow> string" where
  "replaced pat rep [] k = []"
| "replaced pat rep (c # cs) (Suc k) = replaced pat rep cs k"
| "replaced pat rep (c # cs) 0 =
     (if take (length pat) (c # cs) = pat then rep @ replaced pat rep cs (length pat - 1) else c # replaced pat rep cs 0)"

lemma replaced_skip: "replaced pat rep s k = replaced pat rep (drop k s) 0"
proof (induction pat rep s k rule: replaced.induct)
  case (1 pat rep k)
  then show ?case by simp
qed auto

lemma replaced_find:
  "replaced pat rep s 0 = (case find_first pat s of None \<Rightarrow> s
     | Some i \<Rightarrow> if pat = [] then s else take i s @ rep @ replaced pat rep (drop (i + length pat) s) 0)" if "pat \<noteq> []"
proof (induction s)
  case (Cons c cs)
  show ?case
  proof (cases "take (length pat) (c # cs) = pat")
    case True
    have "replaced pat rep cs (length pat - 1) = replaced pat rep (drop (length pat - 1) cs) 0" by (rule replaced_skip)
    moreover have "drop (length pat) (c # cs) = drop (length pat - 1) cs" using that by (cases pat) simp_all
    ultimately show ?thesis using that True by simp
  next
    case False
    then show ?thesis using that Cons by (auto split: option.split)
  qed
qed (use that in simp)

lemma replace_loop_replaced:
  "pat \<noteq> [] \<Longrightarrow> pos \<le> length s \<Longrightarrow> replace_loop s pat rep pos = take pos s @ replaced pat rep (drop pos s) 0"
proof (induction s pat rep pos rule: replace_loop.induct)
  case (1 s pat rep pos)
  show ?case
  proof (cases "find_first pat (drop pos s)")
    case None
    then have "str_find s pat pos = None" by (simp add: str_find_def)
    then show ?thesis using None 1(2) replaced_find [OF 1(2), of rep "drop pos s"] by (subst replace_loop.simps) simp
  next
    case (Some i)
    then have f: "str_find s pat pos = Some (pos + i)" by (simp add: str_find_def)
    have i: "i + length pat \<le> length s - pos" using find_first_take [OF Some] by simp
    let ?s = "take (pos + i) s @ rep @ drop (pos + i + length pat) s"
    have "pos + i + length rep \<le> length ?s" using i 1(3) by simp
    then have "replace_loop ?s pat rep (pos + i + length rep) =
        take (pos + i + length rep) ?s @ replaced pat rep (drop (pos + i + length rep) ?s) 0"
      using 1(1) [OF f 1(2,2)] by simp
    moreover have "take (pos + i + length rep) ?s = take (pos + i) s @ rep" "drop (pos + i + length rep) ?s = drop (pos + i + length pat) s"
      using i 1(3) by simp_all
    ultimately have "replace_loop s pat rep pos = take (pos + i) s @ rep @ replaced pat rep (drop (pos + i + length pat) s) 0"
      using f 1(2) by (subst replace_loop.simps) simp
    moreover have "take (pos + i) s = take pos s @ take i (drop pos s)" by (rule take_add)
    moreover have "drop (i + length pat) (drop pos s) = drop (pos + i + length pat) s" by (simp add: add.commute add.left_commute)
    ultimately show ?thesis using Some 1(2) replaced_find [OF 1(2), of rep "drop pos s"] by simp
  qed
qed

lemma replace_all_replaced: "pat \<noteq> [] \<Longrightarrow> replace_all s pat rep = replaced pat rep s 0"
  by (simp add: replace_all_def replace_loop_replaced)

text \<open>How the service escapes a text, with the characters of \<open>E\<close>.\<close>

definition entity :: "char \<Rightarrow> string" where
  "entity c = (if c = CHR ''&'' then ''&amp;'' else if c = CHR 0x22 then ''&quot;'' else if c = CHR 0x27 then ''&apos;''
     else if c = CHR ''<'' then ''&lt;'' else ''&gt;'')"

definition escape :: "char set \<Rightarrow> string \<Rightarrow> string" where
  "escape E s = concat (map (\<lambda>c. if c \<in> E then entity c else [c]) s)"

definition xml_chars :: "char set" where
  "xml_chars = {CHR ''&'', CHR 0x22, CHR 0x27, CHR ''<'', CHR ''>''}"

lemma replaced_plain:
  "CHR ''&'' \<notin> set u \<Longrightarrow> replaced (CHR ''&'' # pat) rep (u @ v) 0 = u @ replaced (CHR ''&'' # pat) rep v 0"
  by (induction u) auto

lemma entity_cases:
  assumes "d \<in> xml_chars"
  obtains u where "entity d = CHR ''&'' # u" "CHR ''&'' \<notin> set u"
  using assms by (auto simp: xml_chars_def entity_def)

lemma entity_differs:
  "c \<in> xml_chars \<Longrightarrow> d \<in> xml_chars \<Longrightarrow> c \<noteq> d \<Longrightarrow> take (length (entity c)) (entity d @ v) \<noteq> entity c"
  by (auto simp: xml_chars_def entity_def)

text \<open>Replacing the entity of one character, in a text without ampersands.\<close>

lemma replaced_entity:
  assumes "c \<in> xml_chars" "E \<subseteq> xml_chars" "CHR ''&'' \<notin> set s"
  shows "replaced (entity c) [c] (escape E s) 0 = escape (E - {c}) s"
  using assms(3)
proof (induction s)
  case (Cons d s)
  obtain u where u: "entity c = CHR ''&'' # u" "CHR ''&'' \<notin> set u" using entity_cases [OF assms(1)] .
  have IH: "replaced (entity c) [c] (escape E s) 0 = escape (E - {c}) s" using Cons by simp
  consider "d \<notin> E" | "d \<in> E" "d = c" | "d \<in> E" "d \<noteq> c" by blast
  then show ?case
  proof cases
    case 1
    then have "escape E (d # s) = [d] @ escape E s" "escape (E - {c}) (d # s) = [d] @ escape (E - {c}) s"
      by (simp_all add: escape_def)
    moreover have "replaced (entity c) [c] ([d] @ escape E s) 0 = [d] @ replaced (entity c) [c] (escape E s) 0"
      unfolding u(1) by (rule replaced_plain) (use Cons.prems in auto)
    ultimately show ?thesis using IH by simp
  next
    case 2
    then have "escape E (d # s) = entity c @ escape E s" "escape (E - {c}) (d # s) = [c] @ escape (E - {c}) s"
      by (simp_all add: escape_def)
    moreover have "replaced (entity c) [c] (entity c @ escape E s) 0 = [c] @ replaced (entity c) [c] (escape E s) 0"
      unfolding u(1) using replaced_skip [of "CHR ''&'' # u" "[c]" "u @ escape E s" "length u"] by simp
    ultimately show ?thesis using IH by simp
  next
    case 3
    obtain w where w: "entity d = CHR ''&'' # w" "CHR ''&'' \<notin> set w" using entity_cases [of d] 3(1) assms(2) by blast
    have ne: "take (length (entity c)) (entity d @ escape E s) \<noteq> entity c"
      using entity_differs [OF assms(1), of d] 3 assms(2) by blast
    have "escape E (d # s) = entity d @ escape E s" "escape (E - {c}) (d # s) = entity d @ escape (E - {c}) s"
      using 3 by (simp_all add: escape_def)
    moreover have "replaced (entity c) [c] (entity d @ escape E s) 0 = CHR ''&'' # replaced (entity c) [c] (w @ escape E s) 0"
      using ne unfolding w(1) by simp
    moreover have "replaced (entity c) [c] (w @ escape E s) 0 = w @ replaced (entity c) [c] (escape E s) 0"
      unfolding u(1) by (rule replaced_plain [OF w(2)])
    ultimately show ?thesis using IH w(1) by simp
  qed
qed (simp add: escape_def)

lemma replace_entity:
  assumes "c \<in> xml_chars" "E \<subseteq> xml_chars" "CHR ''&'' \<notin> set s"
  shows "replace_all (escape E s) (entity c) [c] = escape (E - {c}) s"
proof -
  have "entity c \<noteq> []" by (simp add: entity_def)
  then show ?thesis using replaced_entity [OF assms] by (simp add: replace_all_replaced)
qed

text \<open>A text with an ampersand may be decoded twice.\<close>

lemma get_body_decodes_twice: "get_body (escape xml_chars ''&lt;'') = ''<''"
  by (simp add: get_body_def escape_def xml_chars_def entity_def replace_all_replaced)

section \<open>A listener that stops\<close>

text \<open>One message at a time, and a handler that throws: the message stays in the set of those that are kept
  invisible, and nothing is received any more.\<close>

definition single :: sqs_config where
  "single = \<lparr> single_concurrent_message = True, max_read_messages = 10, with_del = False \<rparr>"

definition stopped_listener :: sqs where
  "stopped_listener = new_listener\<lparr>listening := 0, alive_set := {0}, jobs := [J_gone], raised := {0}\<rparr>"

lemma stopped_reached: "(sqs_step single)\<^sup>*\<^sup>* new_listener stopped_listener"
proof -
  let ?s1 = "received single (Some 1) True new_listener"
  let ?s2 = "set_job 0 J_alive (add_to_keep_alive 0 ?s1)"
  let ?s3 = "process_msg single 0 H_threw ?s2"
  let ?s4 = "job_end 0 ?s3"
  note defs = received_def single_def new_listener_def set_job_def add_to_keep_alive_def process_msg_def job_end_def job_at_def
    read_limit_def
  have 1: "sqs_step single new_listener ?s1" by (rule sqs_received) (simp_all add: defs)
  have 2: "sqs_step single ?s1 ?s2" by (rule sqs_alive) (simp add: defs)
  have 3: "sqs_step single ?s2 ?s3" by (rule sqs_process) (simp add: defs)
  have 4: "sqs_step single ?s3 ?s4" by (rule sqs_end) (simp add: defs)
  have "?s4 = stopped_listener" by (simp add: defs stopped_listener_def)
  then show ?thesis using 1 2 3 4
    by (metis (no_types, lifting) rtranclp.rtrancl_into_rtrancl r_into_rtranclp)
qed

lemma listener_stops:
  "\<exists>s. (sqs_step single)\<^sup>*\<^sup>* new_listener s \<and> \<not> exit_now s \<and> 0 \<in> alive_set s \<and> \<not> (\<exists>s'. sqs_step single s s')"
proof -
  have "\<not> sqs_step single stopped_listener s'" for s'
    by (rule notI, cases rule: sqs_step.cases, assumption)
      (auto simp: stopped_listener_def new_listener_def job_at_def single_def)
  then show ?thesis using stopped_reached by (intro exI [of _ stopped_listener]) (simp add: stopped_listener_def new_listener_def)
qed



lemma escaped_stays:
  assumes "(sqs_step c)\<^sup>*\<^sup>* s s'" "job_at m J_escaped s"
  shows "job_at m J_escaped s'"
  using assms
proof (induction rule: rtranclp_induct)
  case (step s1 s2)
  have j: "job_at m J_escaped s1" using step by blast
  from step.hyps(2) show ?case
  proof cases
    case (sqs_process k h)
    then show ?thesis using j
      by (auto simp: job_at_def process_msg_def set_job_def nth_list_update listen_again_def start_listen_def delete_message_def
          Let_def split: handled.split bool.split)
  qed (use j in \<open>auto simp: job_at_def received_def restart_listen_def start_listen_def set_job_def add_to_keep_alive_def
      nth_append nth_list_update job_failed_def job_end_def remove_from_keep_alive_def message_deleted_def
      del_callback_def listen_again_def delete_message_def Let_def\<close>)
qed

lemma escaped_fibers_stall:
  assumes "(sqs_step c)\<^sup>*\<^sup>* new_listener s" "(sqs_step c)\<^sup>*\<^sup>* s s'" "job_at m J_escaped s"
  shows "0 < num_fibers s'"
proof -
  have "(sqs_step c)\<^sup>*\<^sup>* new_listener s'" using assms(1,2) by (rule rtranclp_trans)
  then have "int (num_fibers s') = count_if (\<lambda>j. j \<noteq> J_gone) (jobs s')"
    using sqs_reached by (auto simp: fibers_bounded_def)
  moreover have "0 < count_if (\<lambda>j. j \<noteq> J_gone) (jobs s')"
    using escaped_stays [OF assms(2,3)] by (intro count_if_pos [of m]) (simp_all add: job_at_def)
  ultimately show ?thesis by simp
qed

section \<open>Properties\<close>


text \<open>
  with a handler that returns whether it succeeded, a message that is kept invisible is being handled, or about to be
  made visible, or being deleted, unless its handler threw or its fiber ended by an exception.
\<close>
theorem alive_messages:
  assumes "(sqs_step c)\<^sup>*\<^sup>* new_listener s" "\<not> with_del c" "m \<in> alive_set s" "m \<notin> raised s"
  shows "m \<in> set (deleting s) \<or> m < length (jobs s) \<and> (jobs s ! m = J_alive \<or> jobs s ! m = J_failed \<or> jobs s ! m = J_escaped)"
  using sqs_reached [OF assms(1)] assms(2-4) by (auto simp: alive_accounted_def job_at_def)

text \<open>
  C33: the body of a message is the text that was escaped by the service, if this has no ampersand and no zero byte.
\<close>
theorem get_body_escaped:
  assumes "CHR ''&'' \<notin> set s" "CHR 0x00 \<notin> set s"
  shows "get_body (escape xml_chars s) = s"
proof -
  have e: "entity (CHR ''&'') = ''&amp;''" "entity (CHR 0x22) = ''&quot;''" "entity (CHR 0x27) = ''&apos;''"
    "entity (CHR ''<'') = ''&lt;''" "entity (CHR ''>'') = ''&gt;''" by (simp_all add: entity_def)
  have r: "replace_all (escape E s) (entity c) [c] = escape (E - {c}) s" if "c \<in> xml_chars" "E \<subseteq> xml_chars" for c E
    using that assms(1) by (rule replace_entity)
  have "get_body (escape xml_chars s) = takeWhile (\<lambda>c. c \<noteq> CHR 0x00)
      (escape (xml_chars - {CHR ''&''} - {CHR 0x22} - {CHR 0x27} - {CHR ''<''} - {CHR ''>''}) s)"
    unfolding get_body_def Let_def e [symmetric] by (subst r; (auto simp: xml_chars_def)?)+
  also have "xml_chars - {CHR ''&''} - {CHR 0x22} - {CHR 0x27} - {CHR ''<''} - {CHR ''>''} = {}" by (auto simp: xml_chars_def)
  also have "escape {} s = s" by (simp add: escape_def)
  finally show ?thesis using assms(2) by (simp add: takeWhile_eq_all_conv) (metis assms(2))
qed


definition handling_listener :: sqs where
  "handling_listener = new_listener\<lparr>num_fibers := 1, listening := 0, alive_set := {0}, jobs := [J_alive]\<rparr>"

lemma alive_messages_witness: "jobs handling_listener ! 0 = J_alive \<or> jobs handling_listener ! 0 = J_failed"
proof -
  let ?s1 = "received single (Some 1) True new_listener"
  note defs = received_def single_def new_listener_def set_job_def add_to_keep_alive_def job_at_def read_limit_def
  have "sqs_step single new_listener ?s1" by (rule sqs_received) (simp_all add: defs)
  moreover have "sqs_step single ?s1 (set_job 0 J_alive (add_to_keep_alive 0 ?s1))" by (rule sqs_alive) (simp add: defs)
  moreover have "set_job 0 J_alive (add_to_keep_alive 0 ?s1) = handling_listener" by (simp add: defs handling_listener_def)
  ultimately have run: "(sqs_step single)\<^sup>*\<^sup>* new_listener handling_listener"
    by (metis (no_types, lifting) rtranclp.rtrancl_into_rtrancl r_into_rtranclp)
  show ?thesis
    using alive_messages [OF run, of 0] by (simp add: single_def handling_listener_def new_listener_def)
qed

lemma get_body_escaped_witness: "get_body ''if a &lt; b'' = ''if a < b''"
  using get_body_escaped [of "''if a < b''"] by (simp add: escape_def xml_chars_def entity_def)

end
