(* ===== verification/Pipe_Sweep.thy ===== *)
theory Pipe_Sweep
  imports Systems
begin

text \<open>
  When network pipes are swept, \<open>src/cpp/fiber.cpp\<close>: the constructor and the destructor of \<open>fiber_pipe\<close> count the pipes, the
  first one schedules the sweep, which schedules itself again.  Only the scheduling is modelled here: what
  a sweep does to the pipes is in \<open>Fiber_Pipe\<close>, scheduled tasks are in \<open>Tasks\<close>, the pause in \<open>Pause\<close>.  A task is its number: the
  first one is 0, which is also the number of the default \<open>scheduled_task()\<close> that stands for no task.
  What runs under \<open>zero_net_pipes_mutex_\<close> is one step.
\<close>

section \<open>The state and its operations\<close>

text \<open>\<open>scheduled\<close> holds the sweeps that wait in the map of tasks, \<open>resting\<close> counts those whose returned function
  has not run.  \<open>failed_idle\<close> tells whether a pause has failed while there were no pipes, and \<open>sweep_zero\<close> whether a
  sweep was given the number 0.\<close>

record sweeps =
  num_net_pipes :: nat
  next_pipe_sweep :: nat
  next_task_id :: nat
  scheduled :: "nat list"
  resting :: nat
  failed_idle :: bool
  sweep_zero :: bool

definition new_sweeps :: sweeps where
  "new_sweeps = \<lparr> num_net_pipes = 0, next_pipe_sweep = 0, next_task_id = 0, scheduled = [], resting = 0,
     failed_idle = False, sweep_zero = False \<rparr>"

definition schedule_sweep :: "sweeps \<Rightarrow> sweeps" where
  "schedule_sweep s = s\<lparr>next_pipe_sweep := next_task_id s, scheduled := scheduled s @ [next_task_id s],
     next_task_id := next_task_id s + 1, sweep_zero := (sweep_zero s \<or> next_task_id s = 0)\<rparr>"

definition add_net_pipe :: "sweeps \<Rightarrow> sweeps" where
  "add_net_pipe s =
     (let s = s\<lparr>num_net_pipes := num_net_pipes s + 1\<rparr>
      in if num_net_pipes s = 1 \<and> next_pipe_sweep s = 0 then schedule_sweep s else s)"

definition remove_net_pipe :: "sweeps \<Rightarrow> sweeps" where
  "remove_net_pipe s = s\<lparr>num_net_pipes := num_net_pipes s - 1\<rparr>"

text \<open>\<open>wait_for_zero_net_pipes\<close> returns in these states.\<close>

definition zero_net_pipes :: "sweeps \<Rightarrow> bool" where
  "zero_net_pipes s \<longleftrightarrow> num_net_pipes s = 0"

text \<open>The task runs and the pause is made, or fails.\<close>

definition sweep_paused :: "nat \<Rightarrow> sweeps \<Rightarrow> sweeps" where
  "sweep_paused k s = s\<lparr>scheduled := remove1 k (scheduled s), resting := resting s + 1\<rparr>"

definition sweep_not_paused :: "nat \<Rightarrow> sweeps \<Rightarrow> sweeps" where
  "sweep_not_paused k s =
     (let s = s\<lparr>scheduled := remove1 k (scheduled s)\<rparr>
      in if num_net_pipes s > 0 then schedule_sweep s else s\<lparr>failed_idle := True\<rparr>)"

text \<open>The end of the function that is run at rest.\<close>

definition sweep_rested :: "sweeps \<Rightarrow> sweeps" where
  "sweep_rested s =
     (let s = s\<lparr>resting := resting s - 1\<rparr>
      in if num_net_pipes s > 0 then schedule_sweep s else s\<lparr>next_pipe_sweep := 0\<rparr>)"

inductive sweep_step :: "sweeps \<Rightarrow> sweeps \<Rightarrow> bool" where
  sweep_add: "sweep_step s (add_net_pipe s)"
| sweep_remove: "0 < num_net_pipes s \<Longrightarrow> sweep_step s (remove_net_pipe s)"
| sweep_other_task: "sweep_step s (s\<lparr>next_task_id := next_task_id s + 1\<rparr>)"
| sweep_pause: "k \<in> set (scheduled s) \<Longrightarrow> sweep_step s (sweep_paused k s)"
| sweep_no_pause: "k \<in> set (scheduled s) \<Longrightarrow> sweep_step s (sweep_not_paused k s)"
| sweep_rest: "0 < resting s \<Longrightarrow> sweep_step s (sweep_rested s)"

section \<open>One sweep, or two\<close>

definition sweeping :: "sweeps \<Rightarrow> nat" where
  "sweeping s = length (scheduled s) + resting s"

definition sweeps_inv :: "sweeps \<Rightarrow> bool" where
  "sweeps_inv s \<longleftrightarrow> sweeping s \<le> 2 \<and> (next_pipe_sweep s = 0 \<longrightarrow> sweeping s \<le> 1) \<and>
     (\<not> failed_idle s \<and> (0 < num_net_pipes s \<or> next_pipe_sweep s \<noteq> 0) \<longrightarrow> 1 \<le> sweeping s) \<and>
     (\<not> sweep_zero s \<longrightarrow> sweeping s \<le> 1 \<and> (next_pipe_sweep s = 0 \<longrightarrow> sweeping s = 0 \<and> num_net_pipes s = 0)) \<and>
     (next_task_id s = 0 \<longrightarrow> sweeping s = 0 \<and> next_pipe_sweep s = 0)"

lemma sweeps_inv_init: "sweeps_inv new_sweeps"
  by (simp add: sweeps_inv_def new_sweeps_def sweeping_def)

lemma length_remove_task: "k \<in> set ks \<Longrightarrow> length ks = Suc (length (remove1 k ks))"
  by (induction ks) auto

lemma sweeps_inv_step:
  assumes "sweeps_inv s" "sweep_step s s'"
  shows "sweeps_inv s'"
  using assms(2)
proof cases
  case sweep_add
  then show ?thesis using assms(1)
    by (auto simp: sweeps_inv_def add_net_pipe_def schedule_sweep_def sweeping_def Let_def)
next
  case sweep_remove
  then show ?thesis using assms(1) by (auto simp: sweeps_inv_def remove_net_pipe_def sweeping_def)
next
  case sweep_other_task
  then show ?thesis using assms(1) by (auto simp: sweeps_inv_def sweeping_def)
next
  case (sweep_pause k)
  then show ?thesis using assms(1) length_remove_task [OF sweep_pause(2)]
    by (auto simp: sweeps_inv_def sweep_paused_def sweeping_def)
next
  case (sweep_no_pause k)
  then show ?thesis using assms(1) length_remove_task [OF sweep_no_pause(2)]
    by (auto simp: sweeps_inv_def sweep_not_paused_def schedule_sweep_def sweeping_def Let_def)
next
  case sweep_rest
  then obtain n where "resting s = Suc n" by (cases "resting s") auto
  then show ?thesis using assms(1) sweep_rest
    by (auto simp: sweeps_inv_def sweep_rested_def schedule_sweep_def sweeping_def Let_def)
qed

interpretation sweeps: transition_invariant "\<lambda>s. s = new_sweeps" sweep_step sweeps_inv
  by unfold_locales (auto simp: sweeps_inv_init intro: sweeps_inv_step)

text \<open>
  If the first task of the program is a sweep, then \<open>next_pipe_sweep_\<close> says that there is none: the pipe that comes after the
  last one was closed schedules another.
\<close>

lemma two_sweeps: "\<exists>s. sweep_step\<^sup>*\<^sup>* new_sweeps s \<and> num_net_pipes s = 1 \<and> sweeping s = 2"
proof -
  let ?s1 = "add_net_pipe new_sweeps"
  let ?s2 = "remove_net_pipe ?s1"
  let ?s3 = "add_net_pipe ?s2"
  note defs = add_net_pipe_def remove_net_pipe_def schedule_sweep_def new_sweeps_def sweeping_def
  have "sweep_step new_sweeps ?s1" by (rule sweep_add)
  moreover have "sweep_step ?s1 ?s2" by (rule sweep_remove) (simp add: defs)
  moreover have "sweep_step ?s2 ?s3" by (rule sweep_add)
  ultimately have "sweep_step\<^sup>*\<^sup>* new_sweeps ?s3"
    by (metis (no_types, lifting) rtranclp.rtrancl_into_rtrancl r_into_rtranclp)
  moreover have "num_net_pipes ?s3 = 1 \<and> sweeping ?s3 = 2" by (simp add: defs)
  ultimately show ?thesis by blast
qed

section \<open>The sweep can be lost\<close>

definition sweep_lost :: "sweeps \<Rightarrow> bool" where
  "sweep_lost s \<longleftrightarrow> next_pipe_sweep s \<noteq> 0 \<and> sweeping s = 0"

interpretation lost: transition_invariant sweep_lost sweep_step sweep_lost
proof
  fix s s' assume lost: "sweep_lost s" and step: "sweep_step s s'"
  from step show "sweep_lost s'" using lost
    by cases (auto simp: sweep_lost_def add_net_pipe_def remove_net_pipe_def sweeping_def Let_def)
qed

lemma sweep_lost_reached: "\<exists>s. sweep_step\<^sup>*\<^sup>* new_sweeps s \<and> num_net_pipes s = 0 \<and> sweep_lost s"
proof -
  let ?s0 = "new_sweeps\<lparr>next_task_id := next_task_id new_sweeps + 1\<rparr>"
  let ?s1 = "add_net_pipe ?s0"
  let ?s2 = "remove_net_pipe ?s1"
  let ?s3 = "sweep_not_paused 1 ?s2"
  note defs = add_net_pipe_def remove_net_pipe_def sweep_not_paused_def schedule_sweep_def new_sweeps_def sweep_lost_def sweeping_def
  have r0: "sweep_step new_sweeps ?s0" by (rule sweep_other_task)
  have r1: "sweep_step ?s0 ?s1" by (rule sweep_add)
  have r2: "sweep_step ?s1 ?s2" by (rule sweep_remove) (simp add: defs)
  have r3: "sweep_step ?s2 ?s3" by (rule sweep_no_pause) (simp add: defs)
  note run1 = rtranclp.rtrancl_into_rtrancl [where r = sweep_step, OF r_into_rtranclp [where r = sweep_step, OF r0] r1]
  note run2 = rtranclp.rtrancl_into_rtrancl [where r = sweep_step, OF run1 r2]
  note run3 = rtranclp.rtrancl_into_rtrancl [where r = sweep_step, OF run2 r3]
  have "num_net_pipes ?s3 = 0" "sweep_lost ?s3" by (simp_all add: defs)
  then show ?thesis using run3 by blast
qed

text \<open>From then on no pipe is ever swept, however many there are.\<close>

lemma no_more_sweeps:
  "\<exists>s. sweep_step\<^sup>*\<^sup>* new_sweeps s \<and> (\<forall>s'. sweep_step\<^sup>*\<^sup>* s s' \<longrightarrow> scheduled s' = [] \<and> resting s' = 0)"
proof -
  obtain s where s: "sweep_step\<^sup>*\<^sup>* new_sweeps s" "sweep_lost s" using sweep_lost_reached by blast
  have "sweep_lost s'" if "sweep_step\<^sup>*\<^sup>* s s'" for s' using lost.reachable_inv [OF that s(2)] .
  then show ?thesis using s(1) by (auto simp: sweep_lost_def sweeping_def)
qed

section \<open>Properties\<close>

text \<open>
  C20: as long as no pause has failed while there were no network pipes, a sweep is scheduled or running whenever there are
  network pipes.  There are never more than two, and never more than one unless a sweep was given the task number 0, which
  also stands for no task (\<open>two_sweeps\<close> shows that this happens).
\<close>
theorem pipes_swept:
  assumes "sweep_step\<^sup>*\<^sup>* new_sweeps s"
  shows "length (scheduled s) + resting s \<le> (if sweep_zero s then 2 else 1) \<and>
    (failed_idle s \<or> num_net_pipes s = 0 \<or> 1 \<le> length (scheduled s) + resting s)"
proof -
  have "sweeps_inv s" by (rule sweeps.reachable_inv [OF assms]) blast
  then show ?thesis by (auto simp: sweeps_inv_def sweeping_def)
qed

lemma pipes_swept_witness: "num_net_pipes (add_net_pipe new_sweeps) = 1 \<and> length (scheduled (add_net_pipe new_sweeps)) = 1"
proof -
  have "sweep_step\<^sup>*\<^sup>* new_sweeps (add_net_pipe new_sweeps)" using sweep_add by blast
  from pipes_swept [OF this] show ?thesis by (simp add: add_net_pipe_def new_sweeps_def schedule_sweep_def)
qed

end
