(* ===== verification/Spec2Isabelle.thy ===== *)
theory Spec2Isabelle
  imports Prelude Text Big_Endian B64 Percent Big_Id Crc Stun Stun_Reply Data_Channel Sctp Time_Utils Dtls
    Systems Fiber_Mutex Fiber_Pipe Webrtc Http_Request Http_Server Dispatcher
    Pause Epc Dns_Cache Streams Http2 Mcdc Tasks Fibers Http_Client Tls Sqs Pipe_Sweep
begin

text \<open>
  A model of the core of the anon library (\<open>src/src/cpp\<close>), a C++ framework for network servers: io threads
  run fibers, fibers share mutexes, condition variables and pipes, and on top of them run an HTTP server
  with a dispatcher of requests, a WebRTC endpoint (STUN, DTLS, SCTP, data channels) and pools of
  connections to other servers.  The file and function names below are those of
  \<open>src/src/cpp\<close>.

  \<^bold>\<open>Conventions.\<close>  Unsigned machine integers are words of their width (\<^theory_text>\<open>byte\<close> to \<^theory_text>\<open>u64\<close> of \<^theory_text>\<open>Prelude\<close>), so that
  wrap-around is the one of the code; signed ones are words where their overflow can happen, and
  integers where the code stays far inside of their range; two running indices, \<open>last_\<close> of \<open>dns_cache.cpp\<close> and
  \<open>round_robin_index_\<close> of \<open>epc.h\<close>, which would only overflow after 2^31 uses, have no bound in the model.  A read or write through a pointer is \<^theory_text>\<open>rd\<close>,
  \<^theory_text>\<open>wr\<close>, \<^theory_text>\<open>rd_range\<close>, \<^theory_text>\<open>wr_range\<close>: it is \<^theory_text>\<open>None\<close> outside of the buffer, so "returns \<^theory_text>\<open>Some\<close>" states that
  the code never leaves its buffers.  Exceptions are values of an error type.  Loops are structural
  recursions, functions with a measure, or \<^theory_text>\<open>partial_function (option)\<close>, and then the theorem that they return is proved.
  Characters are bytes (\<^theory_text>\<open>Text\<close>).  State is passed explicitly, as the record of the fields of the object; where
  several fibers or threads act, one atomic operation, or what a fiber does while it holds the lock,
  is one step of an inductive relation, and runs are its iterations.

  \<^bold>\<open>Shared theories.\<close>
  \<^theory_text>\<open>Prelude\<close>: machine types, checked buffers, and the collections \<^theory_text>\<open>mem_in\<close>, \<^theory_text>\<open>mem_simps\<close> and \<^theory_text>\<open>length_facts\<close> that
  carry the proofs about buffers.  \<^theory_text>\<open>Text\<close>: characters, case, C strings.  \<^theory_text>\<open>Systems\<close>: the locales
  \<^theory_text>\<open>transition_invariant\<close> (an inductive invariant holds in every reachable state) and
  \<^theory_text>\<open>forward_simulation\<close> (a simulation of steps is one of runs).  \<^theory_text>\<open>Streams\<close>: reading from a connection whose
  bytes arrive in pieces.

  \<^bold>\<open>Bytes and codecs.\<close>
  \<^item> \<^theory_text>\<open>Big_Endian\<close> (\<open>big_endian_access.h\<close>): every accessor, and the locale \<^theory_text>\<open>be_codec\<close> that is interpreted for the
    three widths: reading gives the written number, nothing else is changed.
  \<^item> \<^theory_text>\<open>B64\<close> (\<open>b64.cpp\<close>): both alphabets through the locale \<^theory_text>\<open>b64_alphabet\<close>; the encoders equal a reference
    encoder, decoding after encoding, memory safety.
  \<^item> \<^theory_text>\<open>Percent\<close> (\<open>percent_codec.cpp\<close>): decoding equals a specification, decoding after encoding.
  \<^item> \<^theory_text>\<open>Big_Id\<close> (\<open>big_id.h\<close>, \<open>big_id_serial.h\<close>): identifiers, their order (instances of \<^theory_text>\<open>linorder\<close>) and
    their text, through the locale \<^theory_text>\<open>hex_id\<close>.
  \<^item> \<^theory_text>\<open>Crc\<close> (\<open>crc32_xor\<close> of \<open>stun.cpp\<close>, \<open>crc32_sctp\<close> of \<open>sctp_dispatch.cpp\<close>): both table driven loops compute the
    bitwise CRC (locale \<^theory_text>\<open>crc_table\<close>), which tells apart messages that differ in a burst.
  \<^item> \<^theory_text>\<open>Time_Utils\<close> (\<open>time_utils.h\<close>): comparison and arithmetic of \<open>timespec\<close>, and the functions on months and
    years over a calendar of days since 1970.

  \<^bold>\<open>WebRTC.\<close>
  \<^item> \<^theory_text>\<open>Stun\<close> (\<open>stun.cpp\<close>, \<open>parse_stun_msg\<close>): the parser with each of its rejections; it equals a specification over
    the list of attributes.  \<^theory_text>\<open>Stun_Reply\<close> (\<open>stun_message_builder\<close>, \<open>create_stun_reply\<close>): the reply, read back
    by the parser.
  \<^item> \<^theory_text>\<open>Data_Channel\<close> (\<open>data_channel_dispatch.cpp\<close>): one DATA chunk, DCEP and the streams; the callback that
    records the chunk is specified by the locale \<^theory_text>\<open>chunk_sink\<close>, which \<^theory_text>\<open>Sctp\<close> interprets on its own.
  \<^item> \<^theory_text>\<open>Sctp\<close> (\<open>sctp_dispatch.cpp\<close>): packets, chunks, INIT, SACK and the queue of replies; receiving a packet
    equals a specification; acknowledgements are exact; an invariant over runs.
  \<^item> \<^theory_text>\<open>Dtls\<close> (\<open>dtls_bio.cpp\<close>, \<open>dtls_dispatch.cpp\<close>): the queue of datagrams (locale \<^theory_text>\<open>datagram_queue\<close>), the BIOs, the
    associations by address and the sweep of idle ones.
  \<^item> \<^theory_text>\<open>Webrtc\<close> (\<open>webrtc_dispatch.cpp\<close>, \<open>udp_dispatch.cpp\<close>): offers and answers, and the dispatch of a datagram to
    STUN or DTLS by its first byte.  It composes the four theories before it.

  \<^bold>\<open>Fibers and threads.\<close>
  \<^item> \<^theory_text>\<open>Fiber_Mutex\<close> (\<open>fiber_mutex\<close>, \<open>fiber_cond\<close> and \<open>spin_lock\<close> of \<open>fiber.h\<close> and \<open>fiber.cpp\<close>): any number of fibers on any
    number of threads, one atomic operation per step.  Mutual exclusion, no lost wake-up, and a
    refinement of an abstract lock with an owner and a set of waiting fibers (\<^theory_text>\<open>forward_simulation\<close>).
  \<^item> \<^theory_text>\<open>Fiber_Pipe\<close> (\<open>fiber_pipe\<close>): the loops of \<open>read\<close> and \<open>write\<close> around the system calls, the list of pipes, and
    the sweep that times out sleeping ones, in its two phases.  \<^theory_text>\<open>Pipe_Sweep\<close>: when the sweep is scheduled, with the
    task numbers of the code, of which 0 also means no task.
  \<^item> \<^theory_text>\<open>Pause\<close> (\<open>io_dispatch::while_paused\<close>, \<open>while_paused2\<close>): the protocol between the pausing thread and the
    others, with the control commands and the countdown of the functions that run at rest.
  \<^item> \<^theory_text>\<open>Epc\<close> (\<open>epc.cpp\<close>, \<open>epc.h\<close>): the endpoints of a host, their sockets, the fibers that wait for a lookup or a
    free connection, and the loop of attempts.  The locks are held for one step.
  \<^item> \<^theory_text>\<open>Dns_Cache\<close> (\<open>dns_cache.cpp\<close>): the entries of the hosts on a heap, the lookups in progress that point to
    them, and the calls that wait.  Every call is answered once, no pointer dangles, addresses are given in turn.
  \<^item> \<^theory_text>\<open>Fibers\<close> (\<open>fiber.h\<close>, \<open>fiber.cpp\<close>): construction, run, end and deletion of fibers with their counters, and
    \<open>run_in_parallel\<close>, which always returns, after all its functions.  The use of a fiber that its owner has
    deleted too early is recorded in the state.
  \<^item> \<^theory_text>\<open>Tasks\<close> (\<open>io_dispatch.cpp\<close>, \<open>io_dispatch.h\<close>): the multimap of scheduled tasks, the timer armed for the first
    of them and the threads that read it; an invariant says where each task is, that none runs early and none is lost.
  \<^item> \<^theory_text>\<open>Tls\<close> (\<open>tls_context.cpp\<close>, \<open>tls_pipe.cpp\<close>): which certificates are accepted for a host, the cookies of DTLS, and reading
    and writing over the BIO that sleeps in fibers, with the writes that never end.
  \<^item> \<^theory_text>\<open>Sqs\<close> (\<open>aws_sqs.cpp\<close>, \<open>aws_sqs.h\<close>): the listener of a queue of messages, its bounds, the messages that it keeps
    invisible, the fibers that end without being counted, and the decoding of a text.
  \<^item> \<^theory_text>\<open>Mcdc\<close> (\<open>mcdc.cpp\<close>): the packets of the memcached client, its reading of replies that arrive in pieces, and
    what it makes of each of them, with the \<open>int\<close> that counts the bytes read; packets are specified by a record and its bytes.

  \<^bold>\<open>HTTP.\<close>
  \<^item> \<^theory_text>\<open>Http_Request\<close> (\<open>http_server.h\<close>, \<open>string_len.h\<close>): headers, cookies, query fields.
  \<^item> \<^theory_text>\<open>Http_Server\<close> (\<open>http_server.cpp\<close>): the callbacks of the parser, the loop of a connection (an invariant over its
    runs says that no byte is lost, repeated or reordered) and the text of a response, against a reader of fields,
    numbers and cookies that is defined without it.
  \<^item> \<^theory_text>\<open>Http_Client\<close> (\<open>http_client.cpp\<close>, \<open>http_client.h\<close>): the other end, over the same header callbacks, with its body
    vectors and its two buffers; the parser makes its calls as a tree that depends on their results.  What the code
    does when the peer sends more than one response, or trailers, is told apart in the state.
  \<^item> \<^theory_text>\<open>Dispatcher\<close> (\<open>request_dispatcher.cpp\<close>, \<open>request_dispatcher_priv.h\<close>, \<open>request_dispatcher.h\<close>,
    \<open>http_error.h\<close>): registration of functions by a template of the path, lookup, extraction of parameters, CORS and errors;
    the plus sign of a required item, which the code ignores, is shown apart.
  \<^item> \<^theory_text>\<open>Http2\<close> (\<open>http2.cpp\<close>, \<open>http2_handler.cpp\<close>): the loop that forwards each frame to the handler of its stream, in
    terms of the pieces in which the bytes arrive, the frames that are sent, and the upgrade.

  \<^bold>\<open>Parameters.\<close>  What is not under \<open>src\<close> is an argument of the definitions that use it: OpenSSL (HMAC-SHA1, the
  handshake and the decryption of DTLS), protobuf, the JSON parser, the HTTP parser, PCRE, random numbers,
  the clock, system calls (\<open>read\<close>, \<open>write\<close>, \<open>getaddrinfo\<close>, \<open>connect\<close>) and the functions that applications register.  Where a
  theorem relies on a law of one of them (an HTTP parser consumes at most what it is given, a regular expression
  has as many groups as its text says), the law is a named hypothesis and a witness shows
  an instance of it.

  \<^bold>\<open>Not modelled.\<close>  Stacks and machine contexts of fibers, \<open>epoll\<close> and the system calls themselves; the set-up of TLS objects;
  the opening of sockets; processes; logging; the adapters to the AWS SDK except the listener of queues, whose logic is in the
  classes of the SDK; the examples and tests.  Floating point operations on times.  Concurrency below
  the locks of a component is only modelled for the mutex itself, its condition variable and the
  pause protocol; elsewhere a critical section is one step.
\<close>

end
